(* ===== verification/Prelude.thy ===== *)
theory Prelude
  imports
    Complex_Main
    "HOL-Library.List_Lexorder"
    "HOL-Library.Char_ord"
    "HOL-Library.Product_Lexorder"
    "HOL-Library.Sublist"
begin

text \<open>
  Shared vocabulary of the development: Python values that arrive as \<open>object\<close>, the result
  type of code that raises, the string operations of \<open>str\<close> that the sources call, and
  insertion-ordered dictionaries whose entries are stored under a field of their own
  (\<open>self._records[record.task_id] = record\<close>). It also holds the locales that state the
  interfaces several components rely on.

  A character is a code point below 256. Spaces, line breaks, word characters and UTF-8, which
  takes one byte for a code point below 128 and two for the others, are modelled for all of them;
  case mapping is that of the ASCII letters, on which \<open>lower\<close> and \<open>casefold\<close> coincide.
\<close>

section \<open>Collections of rules\<close>

named_theorems result_simps \<open>rewriting of results of fallible code\<close>
named_theorems store_simps \<open>rewriting of dictionary operations\<close>

section \<open>Values and results\<close>

type_synonym time = rat

datatype pyval =
    PNone
  | PBool bool
  | PInt int
  | PFloat rat
  | PStr string
  | PList "pyval list"
  | PDict "(string \<times> pyval) list"

text \<open>Fallible code returns \<open>Inl\<close> of the raised error or \<open>Inr\<close> of the value.\<close>

fun bindE :: "'e + 'a \<Rightarrow> ('a \<Rightarrow> 'e + 'b) \<Rightarrow> 'e + 'b" where
  "bindE (Inl e) f = Inl e"
| "bindE (Inr x) f = f x"

text \<open>\<open>tuple(f(x) for x in xs)\<close>: the first element that raises ends the loop.\<close>

fun mapE :: "('a \<Rightarrow> 'e + 'b) \<Rightarrow> 'a list \<Rightarrow> 'e + 'b list" where
  "mapE f [] = Inr []"
| "mapE f (x # xs) = bindE (f x) (\<lambda>y. bindE (mapE f xs) (\<lambda>ys. Inr (y # ys)))"

text \<open>A \<open>try\<close> block that turns any error of its body into another one.\<close>

fun mapError :: "('e \<Rightarrow> 'f) \<Rightarrow> 'e + 'a \<Rightarrow> 'f + 'a" where
  "mapError f (Inl e) = Inl (f e)"
| "mapError f (Inr x) = Inr x"

fun isOk :: "'e + 'a \<Rightarrow> bool" where
  "isOk (Inl _) = False"
| "isOk (Inr _) = True"

lemma bindE_Inr_iff [result_simps]:
  "bindE m f = Inr y \<longleftrightarrow> (\<exists>x. m = Inr x \<and> f x = Inr y)"
  by (cases m) auto

lemma bindE_Inl_iff [result_simps]:
  "bindE m f = Inl e \<longleftrightarrow> m = Inl e \<or> (\<exists>x. m = Inr x \<and> f x = Inl e)"
  by (cases m) auto

lemma bindE_assoc: "bindE (bindE m f) g = bindE m (\<lambda>x. bindE (f x) g)"
  by (cases m) auto

lemma mapError_Inr_iff [result_simps]: "mapError f m = Inr y \<longleftrightarrow> m = Inr y"
  by (cases m) auto

lemma mapE_Inr_iff: "mapE f xs = Inr ys \<longleftrightarrow> list_all2 (\<lambda>x y. f x = Inr y) xs ys"
  by (induction xs arbitrary: ys) (auto simp: result_simps list_all2_Cons1)

lemma mapE_Inr_length: "mapE f xs = Inr ys \<Longrightarrow> length ys = length xs"
  by (auto simp: mapE_Inr_iff dest: list_all2_lengthD)

lemma mapE_Inr_set: "mapE f xs = Inr ys \<Longrightarrow> y \<in> set ys \<Longrightarrow> \<exists>x\<in>set xs. f x = Inr y"
  by (induction xs arbitrary: ys) (auto simp: result_simps)

lemma mapE_Inr_in: "mapE f xs = Inr ys \<Longrightarrow> x \<in> set xs \<Longrightarrow> \<exists>y\<in>set ys. f x = Inr y"
  by (induction xs arbitrary: ys) (auto simp: result_simps)

lemma mapE_all_Inr: "(\<And>x. x \<in> set xs \<Longrightarrow> f x = Inr (g x)) \<Longrightarrow> mapE f xs = Inr (map g xs)"
  by (induction xs) auto

section \<open>Operations on a component's state\<close>

text \<open>
  An operation of a component takes its state and returns what it returns or raises together
  with the state it leaves, also when it raises. The objects of the sources serialise their
  operations with a lock, so one operation is one step.
\<close>

type_synonym ('s, 'e, 'a) step = "'s \<Rightarrow> ('e + 'a) \<times> 's"

definition retS :: "'a \<Rightarrow> ('s, 'e, 'a) step" where
  "retS x s = (Inr x, s)"

definition failS :: "'e \<Rightarrow> ('s, 'e, 'a) step" where
  "failS e s = (Inl e, s)"

definition liftS :: "'e + 'a \<Rightarrow> ('s, 'e, 'a) step" where
  "liftS r s = (r, s)"

definition bindS :: "('s, 'e, 'a) step \<Rightarrow> ('a \<Rightarrow> ('s, 'e, 'b) step) \<Rightarrow> ('s, 'e, 'b) step" where
  "bindS m f s = (case m s of (Inl e, t) \<Rightarrow> (Inl e, t) | (Inr x, t) \<Rightarrow> f x t)"

definition readS :: "('s \<Rightarrow> ('s, 'e, 'a) step) \<Rightarrow> ('s, 'e, 'a) step" where
  "readS f s = f s s"

definition updS :: "('s \<Rightarrow> 's) \<Rightarrow> ('s, 'e, unit) step" where
  "updS f s = (Inr (), f s)"

text \<open>\<open>ends m Q s\<close>: the outcome of \<open>m\<close> from \<open>s\<close> and the state it leaves satisfy \<open>Q\<close>.\<close>

definition ends :: "('s, 'e, 'a) step \<Rightarrow> ('e + 'a \<Rightarrow> 's \<Rightarrow> bool) \<Rightarrow> 's \<Rightarrow> bool" where
  "ends m Q s = (case m s of (r, t) \<Rightarrow> Q r t)"

named_theorems ends_simps \<open>outcomes of composed operations\<close>

lemma ends_retS [ends_simps]: "ends (retS x) Q s = Q (Inr x) s"
  by (simp add: ends_def retS_def)

lemma ends_failS [ends_simps]: "ends (failS e) Q s = Q (Inl e) s"
  by (simp add: ends_def failS_def)

lemma ends_liftS [ends_simps]: "ends (liftS r) Q s = Q r s"
  by (simp add: ends_def liftS_def)

lemma ends_readS [ends_simps]: "ends (readS f) Q s = ends (f s) Q s"
  by (simp add: ends_def readS_def)

lemma ends_updS [ends_simps]: "ends (updS f) Q s = Q (Inr ()) (f s)"
  by (simp add: ends_def updS_def)

lemma ends_bindS [ends_simps]:
  "ends (bindS m f) Q s = ends m (\<lambda>r t. case r of Inl e \<Rightarrow> Q (Inl e) t | Inr x \<Rightarrow> ends (f x) Q t) s"
  by (auto simp: ends_def bindS_def split: sum.splits prod.splits)

lemma ends_if [ends_simps]: "ends (if b then m else n) Q s = (if b then ends m Q s else ends n Q s)"
  by simp

lemma ends_mono: "ends m Q s \<Longrightarrow> (\<And>r t. Q r t \<Longrightarrow> R r t) \<Longrightarrow> ends m R s"
  by (auto simp: ends_def split: prod.splits)

lemma ends_conj: "ends m Q s \<Longrightarrow> ends m R s \<Longrightarrow> ends m (\<lambda>r t. Q r t \<and> R r t) s"
  by (auto simp: ends_def split: prod.splits)

lemma endsD: "ends m Q s \<Longrightarrow> m s = (r, t) \<Longrightarrow> Q r t"
  by (simp add: ends_def)

lemma endsI: "(\<And>r t. m s = (r, t) \<Longrightarrow> Q r t) \<Longrightarrow> ends m Q s"
  by (simp add: ends_def split: prod.splits)

lemma ends_snd: "ends m (\<lambda>_ t. I t) s = I (snd (m s))"
  by (simp add: ends_def split: prod.splits)

lemma ends_iff: "ends m Q s = Q (fst (m s)) (snd (m s))"
  by (simp add: ends_def split: prod.splits)

text \<open>A validation that ends the operation when it fails, followed by the rest.\<close>

definition checkS :: "'e + 'a \<Rightarrow> ('a \<Rightarrow> ('s, 'e, 'b) step) \<Rightarrow> ('s, 'e, 'b) step" where
  "checkS r f = bindS (liftS r) f"

lemma ends_checkS [ends_simps]:
  "ends (checkS r f) Q s = (case r of Inl e \<Rightarrow> Q (Inl e) s | Inr x \<Rightarrow> ends (f x) Q s)"
  by (simp add: checkS_def ends_simps)

lemma checkS_eq: "checkS r f s = (case r of Inl e \<Rightarrow> (Inl e, s) | Inr x \<Rightarrow> f x s)"
  by (simp add: checkS_def bindS_def liftS_def split: sum.splits)

lemma ends_checkS_I:
  "(\<And>e. r = Inl e \<Longrightarrow> Q (Inl e) s) \<Longrightarrow> (\<And>x. r = Inr x \<Longrightarrow> ends (f x) Q s) \<Longrightarrow> ends (checkS r f) Q s"
  by (simp add: ends_simps split: sum.split)

section \<open>Strings\<close>

definition is_digit_char :: "char \<Rightarrow> bool" where
  "is_digit_char c \<longleftrightarrow> CHR ''0'' \<le> c \<and> c \<le> CHR ''9''"

definition is_lower_char :: "char \<Rightarrow> bool" where
  "is_lower_char c \<longleftrightarrow> CHR ''a'' \<le> c \<and> c \<le> CHR ''z''"

definition is_upper_char :: "char \<Rightarrow> bool" where
  "is_upper_char c \<longleftrightarrow> CHR ''A'' \<le> c \<and> c \<le> CHR ''Z''"

definition is_alnum_char :: "char \<Rightarrow> bool" where
  "is_alnum_char c \<longleftrightarrow> is_digit_char c \<or> is_lower_char c \<or> is_upper_char c"

text \<open>\<open>str.isspace\<close> and the class \<open>\s\<close>.\<close>

definition is_space_char :: "char \<Rightarrow> bool" where
  "is_space_char c \<longleftrightarrow>
     (CHR 0x09 \<le> c \<and> c \<le> CHR 0x0D) \<or> (CHR 0x1C \<le> c \<and> c \<le> CHR 0x20) \<or>
     c = CHR 0x85 \<or> c = CHR 0xA0"

definition lower_char :: "char \<Rightarrow> char" where
  "lower_char c = (if is_upper_char c then char_of (of_char c + (32::nat)) else c)"

text \<open>The same tests on the bits of a character, for evaluation.\<close>

lemma char_class_code [code]:
  "is_digit_char (Char b0 b1 b2 b3 b4 b5 b6 b7) \<longleftrightarrow>
     \<not> b7 \<and> \<not> b6 \<and> b5 \<and> b4 \<and> (\<not> b3 \<or> \<not> b2 \<and> \<not> b1)"
  "is_lower_char (Char b0 b1 b2 b3 b4 b5 b6 b7) \<longleftrightarrow>
     \<not> b7 \<and> b6 \<and> b5 \<and> (b0 \<or> b1 \<or> b2 \<or> b3 \<or> b4) \<and> \<not> (b4 \<and> b3 \<and> (b2 \<or> b1 \<and> b0))"
  "is_upper_char (Char b0 b1 b2 b3 b4 b5 b6 b7) \<longleftrightarrow>
     \<not> b7 \<and> b6 \<and> \<not> b5 \<and> (b0 \<or> b1 \<or> b2 \<or> b3 \<or> b4) \<and> \<not> (b4 \<and> b3 \<and> (b2 \<or> b1 \<and> b0))"
  "is_space_char (Char b0 b1 b2 b3 b4 b5 b6 b7) \<longleftrightarrow>
     \<not> b6 \<and>
     (if b7 then if b5 then \<not> b4 \<and> \<not> b3 \<and> \<not> b2 \<and> \<not> b1 \<and> \<not> b0 else \<not> b4 \<and> \<not> b3 \<and> b2 \<and> \<not> b1 \<and> b0
      else if b5 then \<not> b4 \<and> \<not> b3 \<and> \<not> b2 \<and> \<not> b1 \<and> \<not> b0
      else b3 \<and> (if b4 then b2 else (b0 \<or> b1 \<or> b2) \<and> \<not> (b1 \<and> b2)))"
  by (cases b0; cases b1; cases b2; cases b3; cases b4; cases b5; cases b6; cases b7;
      simp add: is_digit_char_def is_lower_char_def is_upper_char_def is_space_char_def less_eq_char_def)+

lemma lower_char_code [code]:
  "lower_char (Char b0 b1 b2 b3 b4 b5 b6 b7) =
     (if is_upper_char (Char b0 b1 b2 b3 b4 b5 b6 b7) then Char b0 b1 b2 b3 b4 True b6 b7
      else Char b0 b1 b2 b3 b4 b5 b6 b7)"
  by (cases b0; cases b1; cases b2; cases b3; cases b4; cases b5; cases b6; cases b7;
      simp add: lower_char_def is_upper_char_def less_eq_char_def char_of_def bit_0)

definition py_lower :: "string \<Rightarrow> string" where
  "py_lower s = map lower_char s"

abbreviation casefold :: "string \<Rightarrow> string" where
  "casefold \<equiv> py_lower"

definition has_nul :: "string \<Rightarrow> bool" where
  "has_nul s \<longleftrightarrow> CHR 0x00 \<in> set s"

definition py_lstrip :: "string \<Rightarrow> string" where
  "py_lstrip s = dropWhile is_space_char s"

definition py_strip :: "string \<Rightarrow> string" where
  "py_strip s = rev (dropWhile is_space_char (rev (py_lstrip s)))"

text \<open>\<open>s.split(c)\<close> for a one-character separator.\<close>

fun py_split :: "char \<Rightarrow> string \<Rightarrow> string list" where
  "py_split c [] = [[]]"
| "py_split c (x # xs) =
     (if x = c then [] # py_split c xs
      else (case py_split c xs of [] \<Rightarrow> [[x]] | p # ps \<Rightarrow> (x # p) # ps))"

text \<open>\<open>sep.join(parts)\<close>.\<close>

fun py_join :: "string \<Rightarrow> string list \<Rightarrow> string" where
  "py_join sep [] = []"
| "py_join sep [p] = p"
| "py_join sep (p # q # ps) = p @ sep @ py_join sep (q # ps)"

text \<open>\<open>s.split()\<close>: maximal runs of non-space characters.\<close>

fun py_words_aux :: "string \<Rightarrow> string \<Rightarrow> string list" where
  "py_words_aux cur [] = (if cur = [] then [] else [rev cur])"
| "py_words_aux cur (c # cs) =
     (if is_space_char c
      then (if cur = [] then py_words_aux [] cs else rev cur # py_words_aux [] cs)
      else py_words_aux (c # cur) cs)"

definition py_words :: "string \<Rightarrow> string list" where
  "py_words s = py_words_aux [] s"

text \<open>\<open>s.splitlines()\<close>: the boundaries are CR, LF, CR LF, VT, FF, FS, GS, RS and NEL.\<close>

definition is_line_break :: "char \<Rightarrow> bool" where
  "is_line_break c \<longleftrightarrow>
     c \<in> {CHR 0x0A, CHR 0x0B, CHR 0x0C, CHR 0x0D, CHR 0x1C, CHR 0x1D, CHR 0x1E, CHR 0x85}"

fun py_splitlines_aux :: "string \<Rightarrow> string \<Rightarrow> string list" where
  "py_splitlines_aux cur [] = (if cur = [] then [] else [rev cur])"
| "py_splitlines_aux cur (c # cs) =
     (if c = CHR 0x0D
      then (case cs of d # ds \<Rightarrow> (if d = CHR 0x0A then rev cur # py_splitlines_aux [] ds
                                  else rev cur # py_splitlines_aux [] (d # ds))
            | [] \<Rightarrow> [rev cur])
      else if is_line_break c then rev cur # py_splitlines_aux [] cs
      else py_splitlines_aux (c # cur) cs)"

definition py_splitlines :: "string \<Rightarrow> string list" where
  "py_splitlines s = py_splitlines_aux [] s"

text \<open>\<open>s.encode("utf-8")\<close>, and \<open>decode("utf-8", errors="ignore")\<close> for the sequences of one and two
  bytes: a byte that neither is nor completes a sequence is dropped.\<close>

definition utf8_char :: "char \<Rightarrow> nat list" where
  "utf8_char c =
     (let n = of_char c in if n < 128 then [n] else [192 + n div 64, 128 + n mod 64])"

definition utf8_encode :: "string \<Rightarrow> nat list" where
  "utf8_encode s = concat (map utf8_char s)"

fun utf8_decode :: "nat list \<Rightarrow> string" where
  "utf8_decode [] = []"
| "utf8_decode [b] = (if b < 128 then [char_of b] else [])"
| "utf8_decode (b # c # bs) =
     (if b < 128 then char_of b # utf8_decode (c # bs)
      else if (b = 194 \<or> b = 195) \<and> 128 \<le> c \<and> c < 192
      then char_of ((b - 192) * 64 + (c - 128)) # utf8_decode bs
      else utf8_decode (c # bs))"

definition utf8_size :: "string \<Rightarrow> nat" where
  "utf8_size s = length (utf8_encode s)"

lemma utf8_encode_simps [simp]:
  "utf8_encode [] = []" "utf8_encode (c # s) = utf8_char c @ utf8_encode s"
  "utf8_encode (s @ t) = utf8_encode s @ utf8_encode t"
  by (simp_all add: utf8_encode_def)

lemma utf8_size_simps [simp]:
  "utf8_size [] = 0" "utf8_size (s @ t) = utf8_size s + utf8_size t"
  by (simp_all add: utf8_size_def)

lemma utf8_char_cases:
  obtains (one) n where "utf8_char c = [n]" "n < 128" "char_of n = c"
  | (two) b d where "utf8_char c = [b, d]" "b = 194 \<or> b = 195" "128 \<le> d" "d < 192"
      "char_of ((b - 192) * 64 + (d - 128)) = c"
proof (cases "(of_char c :: nat) < 128")
  case True
  then show thesis by (intro one [of "of_char c"]) (simp_all add: utf8_char_def)
next
  case False
  let ?n = "of_char c :: nat"
  have "?n < 256" by (rule nat_of_char_less_256)
  then have "?n div 64 < 4" by (simp add: less_mult_imp_div_less)
  moreover have "\<not> ?n div 64 < 2"
  proof
    assume "?n div 64 < 2"
    then have "?n < 128" using div_mult_mod_eq [of ?n 64] mod_less_divisor [of 64 ?n] by linarith
    with False show False by simp
  qed
  ultimately have d: "?n div 64 = 2 \<or> ?n div 64 = 3" by linarith
  have "(192 + ?n div 64 - 192) * 64 + (128 + ?n mod 64 - 128) = ?n" by simp
  with d False show thesis
    by (intro two [of "192 + ?n div 64" "128 + ?n mod 64"]) (auto simp: utf8_char_def Let_def less_imp_le)
qed

lemma utf8_char_nonempty: "0 < length (utf8_char c)" "length (utf8_char c) \<le> 2"
  by (cases c rule: utf8_char_cases; simp)+

lemma utf8_size_bounds: "length s \<le> utf8_size s" "utf8_size s \<le> 2 * length s"
proof (induction s)
  case (Cons c s)
  case 1
  show ?case using Cons.IH(1) utf8_char_nonempty(1) [of c] unfolding utf8_size_def utf8_encode_simps length_append
    by (simp del: length_greater_0_conv)
  case 2
  show ?case using Cons.IH(2) utf8_char_nonempty(2) [of c] by (simp add: utf8_size_def)
qed simp_all

lemma utf8_decode_char: "utf8_decode (utf8_char c @ bs) = c # utf8_decode bs"
  by (cases c rule: utf8_char_cases; cases bs) auto

lemma utf8_decode_encode: "utf8_decode (utf8_encode s @ bs) = s @ utf8_decode bs"
  by (induction s) (simp_all add: utf8_decode_char)

text \<open>What is left of an encoding that is cut after \<open>n\<close> bytes: the longest prefix that fits, and
  perhaps the first byte of the next character.\<close>

lemma utf8_cut:
  "\<exists>t u. s = t @ u \<and> utf8_decode (take n (utf8_encode s)) = t \<and> utf8_size t \<le> n \<and>
     (u = [] \<or> n < utf8_size (t @ [hd u]))"
proof (induction s arbitrary: n)
  case (Cons c s)
  show ?case
  proof (cases "length (utf8_char c) \<le> n")
    case True
    obtain t u where t: "s = t @ u" "utf8_decode (take (n - length (utf8_char c)) (utf8_encode s)) = t"
      "utf8_size t \<le> n - length (utf8_char c)"
      "u = [] \<or> n - length (utf8_char c) < utf8_size (t @ [hd u])"
      using Cons.IH [of "n - length (utf8_char c)"] by blast
    have "utf8_decode (take n (utf8_encode (c # s))) = c # t"
      using True t(2) by (simp add: utf8_decode_char)
    with t True show ?thesis
      by (intro exI [of _ "c # t"] exI [of _ u]) (auto simp: utf8_size_def)
  next
    case False
    then have "n = 0 \<or> (\<exists>b d. utf8_char c = [b, d] \<and> 128 \<le> b \<and> n = 1)"
      by (cases c rule: utf8_char_cases) auto
    with False have "utf8_decode (take n (utf8_encode (c # s))) = []" by auto
    with False show ?thesis
      by (intro exI [of _ "[]"] exI [of _ "c # s"]) (simp add: utf8_size_def)
  qed
qed simp

lemma py_split_nonempty [simp]: "py_split c s \<noteq> []"
  by (induction s) (auto split: list.splits)

lemma py_join_Cons: "ps \<noteq> [] \<Longrightarrow> py_join sep (p # ps) = p @ sep @ py_join sep ps"
  by (cases ps) auto

lemma py_join_split [simp]: "py_join [c] (py_split c s) = s"
proof (induction s)
  case (Cons x xs)
  obtain p ps where sp: "py_split c xs = p # ps"
    using py_split_nonempty by (cases "py_split c xs") blast+
  with Cons.IH show ?case by (cases ps) auto
qed simp

lemma py_split_no_sep: "p \<in> set (py_split c s) \<Longrightarrow> c \<notin> set p"
proof (induction s arbitrary: p)
  case (Cons x xs)
  obtain q qs where sp: "py_split c xs = q # qs"
    using py_split_nonempty by (cases "py_split c xs") blast+
  with Cons show ?case by (auto split: if_splits)
qed simp

lemma set_py_split: "p \<in> set (py_split c s) \<Longrightarrow> set p \<subseteq> set s"
proof (induction s arbitrary: p)
  case (Cons x xs)
  obtain q qs where sp: "py_split c xs = q # qs"
    using py_split_nonempty by (cases "py_split c xs") blast+
  with Cons show ?case by (fastforce split: if_splits)
qed simp

lemma length_py_lower [simp]: "length (py_lower s) = length s"
  by (simp add: py_lower_def)

lemma py_lower_append [simp]: "py_lower (s @ t) = py_lower s @ py_lower t"
  by (simp add: py_lower_def)

section \<open>Sequences\<close>

text \<open>\<open>min(xs, key=f)\<close> of a non-empty sequence: the first of the least elements.\<close>

fun py_min_by :: "('a \<Rightarrow> 'k::linorder) \<Rightarrow> 'a \<Rightarrow> 'a list \<Rightarrow> 'a" where
  "py_min_by f x [] = x"
| "py_min_by f x (y # ys) = (if f y < f x then py_min_by f y ys else py_min_by f x ys)"

text \<open>\<open>dict.fromkeys(xs)\<close>: the first occurrence of every element, in order.\<close>

fun py_fromkeys :: "'a list \<Rightarrow> 'a list" where
  "py_fromkeys [] = []"
| "py_fromkeys (x # xs) = x # filter (\<lambda>y. y \<noteq> x) (py_fromkeys xs)"

text \<open>\<open>tuple(sorted({...}))\<close>: the elements of a set in ascending order.\<close>

definition sorted_set :: "'a::linorder list \<Rightarrow> 'a list" where
  "sorted_set xs = sort (remdups xs)"

definition intersects :: "'a list \<Rightarrow> 'a list \<Rightarrow> bool" where
  "intersects xs ys \<longleftrightarrow> list_ex (\<lambda>x. x \<in> set ys) xs"

lemma intersects_iff: "intersects xs ys \<longleftrightarrow> set xs \<inter> set ys \<noteq> {}"
  by (auto simp: intersects_def list_ex_iff)

lemma intersects_commute: "intersects xs ys = intersects ys xs"
  by (auto simp: intersects_iff)

lemma set_sorted_set [simp]: "set (sorted_set xs) = set xs"
  by (simp add: sorted_set_def)

lemma distinct_sorted_set [simp]: "distinct (sorted_set xs)"
  by (simp add: sorted_set_def)

lemma sorted_sorted_set [simp]: "sorted (sorted_set xs)"
  by (simp add: sorted_set_def)

lemma sorted_set_cong: "set xs = set ys \<Longrightarrow> sorted_set xs = sorted_set (ys :: 'a::linorder list)"
  by (rule sorted_distinct_set_unique) auto

lemma py_min_by_in: "py_min_by f x xs \<in> set (x # xs)"
  by (induction f x xs rule: py_min_by.induct) (auto split: if_splits)

lemma py_min_by_least: "y \<in> set (x # xs) \<Longrightarrow> f (py_min_by f x xs) \<le> f y"
  by (induction f x xs arbitrary: y rule: py_min_by.induct) force+

lemma set_py_fromkeys [simp]: "set (py_fromkeys xs) = set xs"
  by (induction xs) auto

lemma distinct_py_fromkeys [simp]: "distinct (py_fromkeys xs)"
  by (induction xs) auto

section \<open>Path scopes\<close>

text \<open>\<open>path == allowed or path.startswith(allowed + "/")\<close>.\<close>

definition path_under :: "string \<Rightarrow> string \<Rightarrow> bool" where
  "path_under p a \<longleftrightarrow> p = a \<or> prefix (a @ ''/'') p"

definition scope_overlap :: "string \<Rightarrow> string \<Rightarrow> bool" where
  "scope_overlap l r \<longleftrightarrow> l = r \<or> prefix (r @ ''/'') l \<or> prefix (l @ ''/'') r"

text \<open>What a test of path overlap promises to the code that grants exclusive scopes.\<close>

locale path_scope =
  fixes covers :: "'p \<Rightarrow> 'p \<Rightarrow> bool" and overlap :: "'p \<Rightarrow> 'p \<Rightarrow> bool"
  assumes overlap_refl: "overlap p p"
    and overlap_sym: "overlap p q \<Longrightarrow> overlap q p"
    and covers_overlap: "covers p a \<Longrightarrow> overlap p q \<Longrightarrow> overlap a q"
begin

lemma covered_disjoint:
  assumes "\<forall>p\<in>P. \<exists>a\<in>A. covers p a" and "\<forall>a\<in>A. \<forall>q\<in>Q. \<not> overlap a q"
  shows "\<forall>p\<in>P. \<forall>q\<in>Q. \<not> overlap p q"
  using assms covers_overlap by blast

lemma covers_imp_overlap: "covers p a \<Longrightarrow> overlap p a"
  using covers_overlap overlap_refl overlap_sym by blast

end

lemma prefix_slash_comparable:
  assumes "prefix (a @ ''/'') p" "prefix (q @ ''/'') p"
  shows "scope_overlap a q"
proof -
  have "prefix (a @ ''/'') (q @ ''/'') \<or> prefix (q @ ''/'') (a @ ''/'')"
    using assms by (rule prefix_same_cases)
  then show ?thesis
    by (auto simp: scope_overlap_def prefix_def append_eq_append_conv2 Cons_eq_append_conv
        append_eq_Cons_conv)
qed

lemma scope_overlap_covered: "path_under p a \<Longrightarrow> scope_overlap p q \<Longrightarrow> scope_overlap a q"
proof -
  assume u: "path_under p a" and o: "scope_overlap p q"
  show ?thesis
  proof (cases "p = a")
    case False
    with u have pa: "prefix (a @ ''/'') p" by (simp add: path_under_def)
    from o consider "p = q" | "prefix (q @ ''/'') p" | "prefix (p @ ''/'') q"
      by (auto simp: scope_overlap_def)
    then show ?thesis
    proof cases
      case 1 with pa show ?thesis by (simp add: scope_overlap_def)
    next
      case 2 with pa show ?thesis by (rule prefix_slash_comparable)
    next
      case 3 with pa show ?thesis
        by (auto simp: scope_overlap_def intro: prefix_order.trans prefix_prefix)
    qed
  qed (use o in simp)
qed

interpretation exact_scope: path_scope path_under scope_overlap
proof unfold_locales
  show "scope_overlap p p" for p by (simp add: scope_overlap_def)
  show "scope_overlap p q \<Longrightarrow> scope_overlap q p" for p q by (auto simp: scope_overlap_def)
  show "path_under p a \<Longrightarrow> scope_overlap p q \<Longrightarrow> scope_overlap a q" for p a q
    by (rule scope_overlap_covered)
qed

text \<open>The overlap test that folds case first, as the lease manager and the planners do.\<close>

definition folded_overlap :: "string \<Rightarrow> string \<Rightarrow> bool" where
  "folded_overlap first second = scope_overlap (casefold first) (casefold second)"

lemma lower_char_slash [simp]: "lower_char CHR ''/'' = CHR ''/''"
  by code_simp

lemma path_under_lower: "path_under p a \<Longrightarrow> path_under (py_lower p) (py_lower a)"
  by (auto simp: path_under_def prefix_def py_lower_def)

interpretation folded_scope: path_scope path_under folded_overlap
proof unfold_locales
  show "folded_overlap p p" for p by (simp add: folded_overlap_def exact_scope.overlap_refl)
  show "folded_overlap p q \<Longrightarrow> folded_overlap q p" for p q
    by (simp add: folded_overlap_def exact_scope.overlap_sym)
  show "path_under p a \<Longrightarrow> folded_overlap p q \<Longrightarrow> folded_overlap a q" for p a q
    unfolding folded_overlap_def by (blast intro: scope_overlap_covered path_under_lower)
qed

section \<open>Dictionaries keyed by a field of their entries\<close>

text \<open>
  A Python dictionary keeps insertion order and overwrites in place. Every dictionary of the
  modelled components stores a value under a field of that value, so it is the list of its
  values together with the function that reads the key.
\<close>

definition kget :: "('v \<Rightarrow> 'k) \<Rightarrow> 'k \<Rightarrow> 'v list \<Rightarrow> 'v option" where
  "kget key k d = find (\<lambda>v. key v = k) d"

definition kset :: "('v \<Rightarrow> 'k) \<Rightarrow> 'v \<Rightarrow> 'v list \<Rightarrow> 'v list" where
  "kset key v d =
     (if list_ex (\<lambda>u. key u = key v) d
      then map (\<lambda>u. if key u = key v then v else u) d else d @ [v])"

definition kpop :: "('v \<Rightarrow> 'k) \<Rightarrow> 'k \<Rightarrow> 'v list \<Rightarrow> 'v list" where
  "kpop key k d = filter (\<lambda>v. key v \<noteq> k) d"

definition kdistinct :: "('v \<Rightarrow> 'k) \<Rightarrow> 'v list \<Rightarrow> bool" where
  "kdistinct key d \<longleftrightarrow> distinct (map key d)"

locale keyed_store =
  fixes key :: "'v \<Rightarrow> 'k"
    and get :: "'k \<Rightarrow> 's \<Rightarrow> 'v option"
    and put :: "'v \<Rightarrow> 's \<Rightarrow> 's"
    and pop :: "'k \<Rightarrow> 's \<Rightarrow> 's"
    and entries :: "'s \<Rightarrow> 'v set"
    and wf :: "'s \<Rightarrow> bool"
  assumes get_put: "get k (put v s) = (if k = key v then Some v else get k s)"
    and get_pop: "get k (pop j s) = (if k = j then None else get k s)"
    and get_entries: "wf s \<Longrightarrow> get k s = Some v \<longleftrightarrow> v \<in> entries s \<and> key v = k"
    and wf_put: "wf s \<Longrightarrow> wf (put v s)"
    and wf_pop: "wf s \<Longrightarrow> wf (pop j s)"
begin

lemma entries_put:
  assumes "wf s" shows "entries (put v s) = insert v {u \<in> entries s. key u \<noteq> key v}"
proof -
  have "u \<in> entries (put v s) \<longleftrightarrow> u = v \<or> (u \<in> entries s \<and> key u \<noteq> key v)" for u
    using get_entries [OF wf_put [OF assms], of "key u" v u] get_entries [OF assms, of "key u" u]
      get_put [of "key u" v s] by (cases "key u = key v") auto
  then show ?thesis by blast
qed

lemma entries_pop:
  assumes "wf s" shows "entries (pop j s) = {u \<in> entries s. key u \<noteq> j}"
proof -
  have "u \<in> entries (pop j s) \<longleftrightarrow> u \<in> entries s \<and> key u \<noteq> j" for u
    using get_entries [OF wf_pop [OF assms], of "key u" j u] get_entries [OF assms, of "key u" u]
      get_pop [of "key u" j s] by (cases "key u = j") auto
  then show ?thesis by blast
qed

lemma all_put: "wf s \<Longrightarrow> \<forall>u\<in>entries s. P u \<Longrightarrow> P v \<Longrightarrow> \<forall>u\<in>entries (put v s). P u"
  by (simp add: entries_put)

lemma all_pop: "wf s \<Longrightarrow> \<forall>u\<in>entries s. P u \<Longrightarrow> \<forall>u\<in>entries (pop j s). P u"
  by (simp add: entries_pop)

lemma same_key_eq: "wf s \<Longrightarrow> u \<in> entries s \<Longrightarrow> v \<in> entries s \<Longrightarrow> key u = key v \<Longrightarrow> u = v"
  using get_entries by (metis option.inject)

end

lemma kget_Nil [store_simps]: "kget key k [] = None"
  by (simp add: kget_def)

lemma kget_Cons [store_simps]:
  "kget key k (v # d) = (if key v = k then Some v else kget key k d)"
  by (simp add: kget_def)

lemma kget_append [store_simps]:
  "kget key k (d @ e) = (case kget key k d of Some v \<Rightarrow> Some v | None \<Rightarrow> kget key k e)"
  by (induction d) (auto simp: kget_def)

lemma kget_None_iff: "kget key k d = None \<longleftrightarrow> k \<notin> key ` set d"
  by (induction d) (auto simp: store_simps)

lemma kget_SomeD: "kget key k d = Some v \<Longrightarrow> v \<in> set d \<and> key v = k"
  by (induction d) (auto simp: store_simps split: if_splits)

lemma kget_Some_iff: "kdistinct key d \<Longrightarrow> kget key k d = Some v \<longleftrightarrow> v \<in> set d \<and> key v = k"
proof (induction d)
  case (Cons u d)
  then show ?case by (auto simp: store_simps kdistinct_def split: if_splits)
qed (simp add: store_simps)

lemma kget_map_replace:
  "kget key k (map (\<lambda>u. if key u = key v then v else u) d) =
     (if k = key v \<and> key v \<in> key ` set d then Some v else kget key k d)"
  by (induction d) (auto simp: store_simps)

lemma list_ex_key: "list_ex (\<lambda>u. key u = k) d \<longleftrightarrow> k \<in> key ` set d"
  by (induction d) auto

lemma kget_kset [store_simps]:
  "kget key k (kset key v d) = (if k = key v then Some v else kget key k d)"
proof (cases "key v \<in> key ` set d")
  case True
  then show ?thesis by (simp add: kset_def list_ex_key kget_map_replace)
next
  case False
  then have "kget key (key v) d = None" by (simp add: kget_None_iff)
  with False show ?thesis by (simp add: kset_def list_ex_key store_simps split: option.split)
qed

lemma kget_kpop [store_simps]:
  "kget key k (kpop key j d) = (if k = j then None else kget key k d)"
  by (induction d) (auto simp: kpop_def store_simps)

lemma map_key_kset: "map key (kset key v d) =
    (if key v \<in> key ` set d then map key d else map key d @ [key v])"
  by (auto simp: kset_def list_ex_key)

lemma kdistinct_kset: "kdistinct key d \<Longrightarrow> kdistinct key (kset key v d)"
  unfolding kdistinct_def by (subst map_key_kset) auto

lemma kdistinct_filter: "kdistinct key d \<Longrightarrow> kdistinct key (filter p d)"
  by (simp add: kdistinct_def distinct_map_filter)

lemma kdistinct_kpop: "kdistinct key d \<Longrightarrow> kdistinct key (kpop key j d)"
  by (simp add: kpop_def kdistinct_filter)

lemma set_kset_subset: "set (kset key v d) \<subseteq> insert v (set d)"
  by (auto simp: kset_def)

lemma in_kset: "v \<in> set (kset key v d)"
  by (auto simp: kset_def list_ex_iff)

lemma find_unique:
  assumes "p \<in> set xs" "P p" and "\<And>x. x \<in> set xs \<Longrightarrow> P x \<Longrightarrow> x = p"
  shows "find P xs = Some p"
proof (cases "find P xs")
  case None
  with assms(1,2) show ?thesis by (simp add: find_None_iff)
next
  case (Some y)
  then have "y \<in> set xs" "P y" by (auto simp: find_Some_iff)
  with assms(3) Some show ?thesis by blast
qed

lemma find_kset: "\<forall>r\<in>set d. \<not> P r \<Longrightarrow> P p \<Longrightarrow> find P (kset key p d) = Some p"
  by (rule find_unique [OF in_kset]) (use set_kset_subset [of key p d] in auto)

lemma length_kset: "length (kset key v d) = (if key v \<in> key ` set d then length d else Suc (length d))"
  using arg_cong [OF map_key_kset, of length key v d] by (simp split: if_splits)

lemma length_kpop_le: "length (kpop key j d) \<le> length d"
  by (simp add: kpop_def)

lemma length_kpop_less: "v \<in> set d \<Longrightarrow> length (kpop key (key v) d) < length d"
  by (simp add: kpop_def length_filter_less)

lemma keyed_list_store: "keyed_store key (kget key) (kset key) (kpop key) set (kdistinct key)"
  by unfold_locales (simp_all add: store_simps kget_Some_iff kdistinct_kset kdistinct_kpop)

lemma set_kset: "kdistinct key d \<Longrightarrow> set (kset key v d) = insert v {u \<in> set d. key u \<noteq> key v}"
  by (rule keyed_store.entries_put [OF keyed_list_store])

lemma set_kpop: "set (kpop key j d) = {u \<in> set d. key u \<noteq> j}"
  by (auto simp: kpop_def)

section \<open>Mutual exclusion and lifecycles\<close>

text \<open>
  Admission against a symmetric conflict test: an entry joins a collection only when it
  conflicts with none of the entries present. The client facts say that admission,
  removal and replacement by an entry that claims no more keep the collection free of
  conflicts.
\<close>

definition conflict_free :: "('v \<Rightarrow> 'v \<Rightarrow> bool) \<Rightarrow> 'v set \<Rightarrow> bool" where
  "conflict_free conflict A \<longleftrightarrow> (\<forall>x\<in>A. \<forall>y\<in>A. x \<noteq> y \<longrightarrow> \<not> conflict x y)"

locale admission =
  fixes conflict :: "'v \<Rightarrow> 'v \<Rightarrow> bool"
  assumes conflict_sym: "conflict x y \<Longrightarrow> conflict y x"
begin

lemma admit:
  assumes "conflict_free conflict A" and "\<forall>x\<in>A. \<not> conflict x v"
  shows "conflict_free conflict (insert v A)"
  using assms conflict_sym unfolding conflict_free_def by blast

lemma drop: "conflict_free conflict A \<Longrightarrow> B \<subseteq> A \<Longrightarrow> conflict_free conflict B"
  unfolding conflict_free_def by blast

lemma replace:
  assumes "conflict_free conflict A" and "v \<in> A" and "B \<subseteq> A - {v}"
    and "\<And>x. conflict x v' \<Longrightarrow> conflict x v"
  shows "conflict_free conflict (insert v' B)"
proof (rule admit)
  show "conflict_free conflict B" using assms(1,3) by (blast intro: drop)
  show "\<forall>x\<in>B. \<not> conflict x v'"
    using assms unfolding conflict_free_def by blast
qed

end

text \<open>A lifecycle: which status may follow which, and which statuses end it.\<close>

locale lifecycle =
  fixes may_follow :: "'s \<Rightarrow> 's \<Rightarrow> bool" and terminal :: "'s \<Rightarrow> bool"
  assumes terminal_final: "terminal s \<Longrightarrow> may_follow s t \<Longrightarrow> t = s"
begin

lemma terminal_stays: "may_follow\<^sup>*\<^sup>* s t \<Longrightarrow> terminal s \<Longrightarrow> t = s"
  by (induction rule: rtranclp_induct) (auto dest: terminal_final)

end

end
