(* ===== verification/PyRegex.thy ===== *)
theory PyRegex
  imports Prelude
begin

text \<open>
  The part of Python's \<open>re\<close> module that the sources use, as a backtracking matcher. A match
  attempt yields the list of all ways to match, in the order in which \<open>re\<close> tries them; its
  head is the match that \<open>re\<close> reports. A position is the reversed text before it, the text
  after it and the groups captured so far.
\<close>

section \<open>Patterns\<close>

datatype regex =
    REps
  | RPred "char \<Rightarrow> bool"
  | RSeq regex regex
  | RAlt regex regex
  | RStar bool regex
  | RGroup nat regex
  | RBack nat
  | RLineStart
  | RTextEnd
  | RWordEdge

text \<open>\<open>RStar\<close> repeats zero or more times, greedily when its flag is set. \<open>RLineStart\<close> is
  \<open>^\<close> under \<open>MULTILINE\<close>, \<open>RTextEnd\<close> is \<open>$\<close> without it, \<open>RWordEdge\<close> is \<open>\b\<close>.\<close>

type_synonym mstate = "string \<times> string \<times> (nat \<times> string) list"

abbreviation m_before :: "mstate \<Rightarrow> string" where
  "m_before st \<equiv> fst st"

abbreviation m_rest :: "mstate \<Rightarrow> string" where
  "m_rest st \<equiv> fst (snd st)"

abbreviation m_groups :: "mstate \<Rightarrow> (nat \<times> string) list" where
  "m_groups st \<equiv> snd (snd st)"

text \<open>The class \<open>\w\<close>: letters, digits and numerals of Latin 1, and the underscore.\<close>

definition is_word_char :: "char \<Rightarrow> bool" where
  "is_word_char c \<longleftrightarrow>
     is_alnum_char c \<or> c = CHR ''_'' \<or>
     c \<in> {CHR 0xAA, CHR 0xB2, CHR 0xB3, CHR 0xB5, CHR 0xB9, CHR 0xBA, CHR 0xBC, CHR 0xBD, CHR 0xBE} \<or>
     (CHR 0xC0 \<le> c \<and> c \<noteq> CHR 0xD7 \<and> c \<noteq> CHR 0xF7)"

fun starts_word :: "string \<Rightarrow> bool" where
  "starts_word [] = False"
| "starts_word (c # _) = is_word_char c"

section \<open>Matching\<close>

text \<open>An iteration of a repeated pattern must consume a character, so the length of the
  remaining text bounds the number of iterations.\<close>

primrec star_iter :: "nat \<Rightarrow> bool \<Rightarrow> (mstate \<Rightarrow> mstate list) \<Rightarrow> mstate \<Rightarrow> mstate list" where
  "star_iter 0 greedy step st = [st]"
| "star_iter (Suc n) greedy step st =
     (let more = concat (map (star_iter n greedy step)
                   (filter (\<lambda>st'. length (m_rest st') < length (m_rest st)) (step st)))
      in if greedy then more @ [st] else st # more)"

primrec re_run :: "regex \<Rightarrow> mstate \<Rightarrow> mstate list" where
  "re_run REps st = [st]"
| "re_run (RPred p) st =
     (case m_rest st of [] \<Rightarrow> []
      | c # cs \<Rightarrow> if p c then [(c # m_before st, cs, m_groups st)] else [])"
| "re_run (RSeq a b) st = concat (map (re_run b) (re_run a st))"
| "re_run (RAlt a b) st = re_run a st @ re_run b st"
| "re_run (RStar greedy r) st = star_iter (length (m_rest st)) greedy (re_run r) st"
| "re_run (RGroup n r) st =
     map (\<lambda>st'. (m_before st', m_rest st',
            (n, rev (take (length (m_before st') - length (m_before st)) (m_before st')))
              # m_groups st'))
       (re_run r st)"
| "re_run (RBack n) st =
     (case map_of (m_groups st) n of None \<Rightarrow> []
      | Some t \<Rightarrow> if prefix t (m_rest st)
                  then [(rev t @ m_before st, drop (length t) (m_rest st), m_groups st)] else [])"
| "re_run RLineStart st =
     (case m_before st of [] \<Rightarrow> [st] | c # _ \<Rightarrow> if c = CHR 0x0A then [st] else [])"
| "re_run RTextEnd st = (if m_rest st = [] \<or> m_rest st = [CHR 0x0A] then [st] else [])"
| "re_run RWordEdge st =
     (if starts_word (m_before st) \<noteq> starts_word (m_rest st) then [st] else [])"

definition re_at :: "regex \<Rightarrow> string \<Rightarrow> string \<Rightarrow> mstate option" where
  "re_at r pre rest = (case re_run r (pre, rest, []) of [] \<Rightarrow> None | st # _ \<Rightarrow> Some st)"

text \<open>\<open>pattern.match(s)\<close>, \<open>pattern.fullmatch(s)\<close> and \<open>pattern.search(s)\<close>.\<close>

definition re_match :: "regex \<Rightarrow> string \<Rightarrow> mstate option" where
  "re_match r s = re_at r [] s"

definition re_fullmatch :: "regex \<Rightarrow> string \<Rightarrow> bool" where
  "re_fullmatch r s \<longleftrightarrow> list_ex (\<lambda>st. m_rest st = []) (re_run r ([], s, []))"

fun re_search_from :: "regex \<Rightarrow> string \<Rightarrow> string \<Rightarrow> mstate option" where
  "re_search_from r pre [] = re_at r pre []"
| "re_search_from r pre (c # cs) =
     (case re_at r pre (c # cs) of Some st \<Rightarrow> Some st
      | None \<Rightarrow> re_search_from r (c # pre) cs)"

definition re_search :: "regex \<Rightarrow> string \<Rightarrow> bool" where
  "re_search r s \<longleftrightarrow> re_search_from r [] s \<noteq> None"

text \<open>\<open>pattern.sub(f, s)\<close>: every leftmost match is replaced by what \<open>f\<close> makes of its groups.
  A match that consumes nothing leaves the text as it is; no pattern of the sources has one.\<close>

function re_sub_from ::
  "regex \<Rightarrow> ((nat \<Rightarrow> string) \<Rightarrow> string) \<Rightarrow> string \<Rightarrow> string \<Rightarrow> string" where
  "re_sub_from r f pre [] = []"
| "re_sub_from r f pre (c # cs) =
     (case re_at r pre (c # cs) of
        Some st \<Rightarrow>
          (if length (m_rest st) < length (c # cs)
           then f (\<lambda>n. case map_of (m_groups st) n of None \<Rightarrow> [] | Some t \<Rightarrow> t)
                @ re_sub_from r f (m_before st) (m_rest st)
           else c # re_sub_from r f (c # pre) cs)
      | None \<Rightarrow> c # re_sub_from r f (c # pre) cs)"
  by pat_completeness auto
termination
  by (relation "measure (\<lambda>(r, f, pre, rest). length rest)") auto

definition re_sub :: "regex \<Rightarrow> ((nat \<Rightarrow> string) \<Rightarrow> string) \<Rightarrow> string \<Rightarrow> string" where
  "re_sub r f s = re_sub_from r f [] s"

section \<open>Building patterns\<close>

fun r_all :: "regex list \<Rightarrow> regex" where
  "r_all [] = REps"
| "r_all [r] = r"
| "r_all (r # q # rs) = RSeq r (r_all (q # rs))"

fun r_any :: "regex list \<Rightarrow> regex" where
  "r_any [] = RPred (\<lambda>_. False)"
| "r_any [r] = r"
| "r_any (r # q # rs) = RAlt r (r_any (q # rs))"

definition r_lit :: "string \<Rightarrow> regex" where
  "r_lit s = r_all (map (\<lambda>c. RPred (\<lambda>d. d = c)) s)"

text \<open>A literal under \<open>IGNORECASE\<close>.\<close>

definition r_lit_i :: "string \<Rightarrow> regex" where
  "r_lit_i s = r_all (map (\<lambda>c. RPred (\<lambda>d. lower_char d = lower_char c)) s)"

definition r_in :: "string \<Rightarrow> regex" where
  "r_in cs = RPred (\<lambda>c. c \<in> set cs)"

definition r_space :: regex where
  "r_space = RPred is_space_char"

definition r_dot :: regex where
  "r_dot = RPred (\<lambda>c. c \<noteq> CHR 0x0A)"

definition r_star :: "regex \<Rightarrow> regex" where
  "r_star r = RStar True r"

definition r_plus :: "regex \<Rightarrow> regex" where
  "r_plus r = RSeq r (RStar True r)"

definition r_opt :: "regex \<Rightarrow> regex" where
  "r_opt r = RAlt r REps"

definition r_at_least :: "nat \<Rightarrow> regex \<Rightarrow> regex" where
  "r_at_least n r = RSeq (r_all (replicate n r)) (RStar True r)"

section \<open>Facts about matching\<close>

text \<open>A match only moves the position: the text around it is unchanged.\<close>

definition m_text :: "mstate \<Rightarrow> string" where
  "m_text st = rev (m_before st) @ m_rest st"

lemma star_iter_Suc_cases:
  "st' \<in> set (star_iter (Suc n) greedy step st) \<Longrightarrow>
     st' = st \<or> (\<exists>st1\<in>set (step st). st' \<in> set (star_iter n greedy step st1))"
  by (auto simp: Let_def split: if_splits)

lemma star_iter_text:
  assumes step: "\<And>st st'. st' \<in> set (step st) \<Longrightarrow> m_text st' = m_text st"
  shows "st' \<in> set (star_iter n greedy step st) \<Longrightarrow> m_text st' = m_text st"
proof (induction n arbitrary: st st')
  case (Suc n)
  from star_iter_Suc_cases [OF Suc.prems] show ?case
    using Suc.IH step by metis
qed simp

lemma re_run_text: "st' \<in> set (re_run r st) \<Longrightarrow> m_text st' = m_text st"
proof (induction r arbitrary: st st')
  case (RPred p)
  then show ?case by (auto simp: m_text_def split: list.splits if_splits)
next
  case (RSeq a b)
  then obtain st1 where "st1 \<in> set (re_run a st)" and "st' \<in> set (re_run b st1)" by auto
  with RSeq.IH show ?case by metis
next
  case (RStar greedy r)
  from RStar.prems have "st' \<in> set (star_iter (length (m_rest st)) greedy (re_run r) st)"
    by simp
  then show ?case by (rule star_iter_text [rotated]) (rule RStar.IH)
next
  case (RGroup n r)
  then obtain st1 gs where "st1 \<in> set (re_run r st)" and "st' = (m_before st1, m_rest st1, gs)"
    by (simp only: re_run.simps set_map) blast
  with RGroup.IH [of st1 st] show ?case by (simp add: m_text_def)
next
  case (RBack n)
  then show ?case by (auto simp: m_text_def prefix_def split: option.splits if_splits)
qed (auto split: list.splits if_splits)

lemma re_at_text: "re_at r pre rest = Some st \<Longrightarrow> m_text st = rev pre @ rest"
  using re_run_text [of st r "(pre, rest, [])"]
  by (auto simp: re_at_def m_text_def split: list.splits)

text \<open>A repeated character class, by recursion on the text, which is also how it is evaluated.\<close>

fun star_pred :: "bool \<Rightarrow> (char \<Rightarrow> bool) \<Rightarrow> string \<Rightarrow> string \<Rightarrow> (nat \<times> string) list \<Rightarrow> mstate list" where
  "star_pred greedy p pre [] g = [(pre, [], g)]"
| "star_pred greedy p pre (c # cs) g =
     (if p c
      then if greedy then star_pred greedy p (c # pre) cs g @ [(pre, c # cs, g)]
           else (pre, c # cs, g) # star_pred greedy p (c # pre) cs g
      else [(pre, c # cs, g)])"

lemma star_iter_pred:
  "length rest \<le> n \<Longrightarrow> star_iter n greedy (re_run (RPred p)) (pre, rest, g) = star_pred greedy p pre rest g"
proof (induction n arbitrary: pre rest)
  case (Suc n)
  then show ?case by (cases rest) simp_all
qed simp

lemma re_run_star_pred:
  "re_run (RStar greedy (RPred p)) (pre, rest, g) = star_pred greedy p pre rest g"
  by (simp add: star_iter_pred del: re_run.simps(2))

declare re_run.simps(1-4,6-10) [code]

lemma re_run_star_code [code]:
  "re_run (RStar greedy r) st =
     (case r of RPred p \<Rightarrow> star_pred greedy p (m_before st) (m_rest st) (m_groups st)
      | _ \<Rightarrow> star_iter (length (m_rest st)) greedy (re_run r) st)"
  by (cases st; cases r) (simp_all add: re_run_star_pred [simplified])

text \<open>A search fails exactly when the pattern matches at no position.\<close>

lemma re_search_from_None:
  "re_search_from r pre rest = None \<longleftrightarrow>
     (\<forall>xs ys. rest = xs @ ys \<longrightarrow> re_at r (rev xs @ pre) ys = None)"
proof (induction r pre rest rule: re_search_from.induct)
  case (2 r pre c cs)
  have split: "(\<forall>xs ys. c # cs = xs @ ys \<longrightarrow> re_at r (rev xs @ pre) ys = None) \<longleftrightarrow>
      re_at r pre (c # cs) = None \<and>
      (\<forall>xs ys. cs = xs @ ys \<longrightarrow> re_at r (rev xs @ c # pre) ys = None)" (is "?L \<longleftrightarrow> ?R")
  proof
    assume L: ?L
    have "re_at r pre (c # cs) = None" using L [rule_format, of "[]"] by simp
    moreover have "re_at r (rev xs @ c # pre) ys = None" if "cs = xs @ ys" for xs ys
      using L [rule_format, of "c # xs" ys] that by simp
    ultimately show ?R by blast
  next
    assume ?R then show ?L by (auto simp: Cons_eq_append_conv)
  qed
  show ?case unfolding split using 2 by (auto split: option.split)
qed simp

lemma re_search_iff:
  "re_search r s \<longleftrightarrow> (\<exists>xs ys. s = xs @ ys \<and> re_at r (rev xs) ys \<noteq> None)"
  using re_search_from_None [of r "[]" s] by (auto simp: re_search_def)

lemma re_sub_from_id:
  "re_search_from r pre rest = None \<Longrightarrow> re_sub_from r f pre rest = rest"
  by (induction rest arbitrary: pre) (auto split: option.splits)

lemma re_sub_id: "\<not> re_search r s \<Longrightarrow> re_sub r f s = s"
  unfolding re_search_def re_sub_def not_not by (rule re_sub_from_id)

section \<open>First matches\<close>

text \<open>\<open>st'\<close> is the match that \<open>re\<close> reports: the first one tried that succeeds.\<close>

definition first_match :: "regex \<Rightarrow> mstate \<Rightarrow> mstate \<Rightarrow> bool" where
  "first_match r st st' \<longleftrightarrow> (\<exists>more. re_run r st = st' # more)"

lemma first_match_seq:
  "first_match a st st1 \<Longrightarrow> first_match b st1 st2 \<Longrightarrow> first_match (RSeq a b) st st2"
  by (auto simp: first_match_def)

lemma first_match_group:
  "first_match r st st' \<Longrightarrow> first_match (RGroup n r) st (m_before st', m_rest st',
     (n, rev (take (length (m_before st') - length (m_before st)) (m_before st'))) # m_groups st')"
  by (auto simp: first_match_def)

lemma re_match_first: "first_match r ([], s, []) st \<Longrightarrow> re_match r s = Some st"
  by (auto simp: first_match_def re_match_def re_at_def)

lemma re_run_lit:
  "re_run (r_lit s) (pre, t, g) = (if prefix s t then [(rev s @ pre, drop (length s) t, g)] else [])"
proof (induction s arbitrary: pre t)
  case Nil
  then show ?case by (simp add: r_lit_def)
next
  case (Cons c s)
  have "re_run (r_lit (c # s)) (pre, t, g) = concat (map (re_run (r_lit s)) (re_run (RPred (\<lambda>d. d = c)) (pre, t, g)))"
    by (cases s; cases t) (simp_all add: r_lit_def)
  then show ?case by (cases t) (auto simp: Cons.IH)
qed

lemma first_match_lit: "first_match (r_lit s) (pre, s @ t, g) (rev s @ pre, t, g)"
  by (simp add: first_match_def re_run_lit)

text \<open>A repetition of spaces takes all of them.\<close>

lemma star_pred_all:
  "list_all p ws \<Longrightarrow> t = [] \<or> \<not> p (hd t) \<Longrightarrow>
     \<exists>more. star_pred True p pre (ws @ t) g = (rev ws @ pre, t, g) # more"
proof (induction ws arbitrary: pre)
  case Nil
  then show ?case by (cases t) simp_all
next
  case (Cons w ws)
  from Cons.IH [of "w # pre"] Cons.prems show ?case by auto
qed

lemma first_match_spaces:
  assumes "t = [] \<or> \<not> is_space_char (hd t)" "list_all is_space_char ws"
  shows "first_match (r_star r_space) (pre, ws @ t, g) (rev ws @ pre, t, g)"
    and "is_space_char w \<Longrightarrow> first_match (r_plus r_space) (pre, w # ws @ t, g) (rev ws @ w # pre, t, g)"
  using star_pred_all [OF assms(2,1)]
  by (auto simp: first_match_def r_star_def r_plus_def r_space_def re_run_star_pred simp del: re_run.simps(5))

text \<open>\<open>(.+?)\s*$\<close> captures a text that ends in a visible character as a whole.\<close>

lemma spaces_end:
  "s \<noteq> [] \<Longrightarrow> \<not> is_space_char (last s) \<Longrightarrow>
     concat (map (re_run RTextEnd) (star_pred True is_space_char pre s g)) = []"
proof (induction s arbitrary: pre)
  case (Cons c s)
  have "c # s \<noteq> [CHR 0x0A]" using Cons.prems(2) by (auto simp: is_space_char_def less_eq_char_def)
  with Cons show ?case by (cases "s = []") auto
qed simp

definition r_tail :: regex where
  "r_tail = RSeq (r_star r_space) RTextEnd"

lemma r_tail_run: "re_run r_tail (pre, s, g) = concat (map (re_run RTextEnd) (star_pred True is_space_char pre s g))"
  by (simp add: r_tail_def r_star_def r_space_def re_run_star_pred del: re_run.simps(5))

lemma lazy_tail:
  assumes "\<And>st. m_before (f st) = m_before st" "\<And>st. m_rest (f st) = m_rest st"
  shows "CHR 0x0A \<notin> set s \<Longrightarrow> s = [] \<or> \<not> is_space_char (last s) \<Longrightarrow>
    concat (map (\<lambda>st. re_run r_tail (f st)) (star_pred False (\<lambda>c. c \<noteq> CHR 0x0A) pre s g)) =
      [f (rev s @ pre, [], g)]"
proof (induction s arbitrary: pre)
  case Nil
  have "f (pre, [], g) = (pre, [], m_groups (f (pre, [], g)))"
    using assms [of "(pre, [], g)"] by (simp add: prod_eq_iff)
  then show ?case by (metis (no_types) concat.simps list.map star_pred.simps(1) append_Nil2 append_Nil
    rev.simps(1) r_tail_run re_run.simps(9) fst_conv snd_conv)
next
  case (Cons c s)
  have "f (pre, c # s, g) = (pre, c # s, m_groups (f (pre, c # s, g)))"
    using assms [of "(pre, c # s, g)"] by (simp add: prod_eq_iff)
  then have "re_run r_tail (f (pre, c # s, g)) = []"
    using spaces_end [of "c # s"] Cons.prems(2) r_tail_run by (metis list.distinct(1))
  with Cons.IH [of "c # pre"] Cons.prems show ?case by (auto split: if_splits)
qed

lemma first_match_line_end:
  assumes "s \<noteq> []" "CHR 0x0A \<notin> set s" "\<not> is_space_char (last s)"
  shows "first_match (RSeq (RGroup n (RSeq r_dot (RStar False r_dot))) r_tail) (pre, s, g)
    (rev s @ pre, [], (n, s) # g)"
proof -
  obtain c t where s: "s = c # t" using assms(1) by (auto simp: neq_Nil_conv)
  let ?f = "\<lambda>st'. (m_before st', m_rest st',
    (n, rev (take (length (m_before st') - length pre) (m_before st'))) # m_groups st')"
  have "re_run (RSeq (RGroup n (RSeq r_dot (RStar False r_dot))) r_tail) (pre, s, g) =
      concat (map (\<lambda>st. re_run r_tail (?f st)) (star_pred False (\<lambda>c. c \<noteq> CHR 0x0A) (c # pre) t g))"
    using assms(2) by (auto simp: s r_dot_def re_run_star_pred o_def simp del: re_run.simps(5))
  also have "\<dots> = [?f (rev t @ c # pre, [], g)]"
    using assms by (intro lazy_tail) (auto simp: s split: if_splits)
  finally show ?thesis by (simp add: first_match_def s)
qed

end
