(* ===== verification/PyJson.thy ===== *)
theory PyJson
  imports Prelude
begin

text \<open>
  \<open>json.dumps(value, sort_keys=True, separators=(",", ":"))\<close>, the canonical text that the
  sources hash into fingerprints, for values made of strings, integers, booleans, null,
  lists and objects. The main fact is that the text determines the value.
\<close>

section \<open>Encoding\<close>

datatype json =
    JNull
  | JBool bool
  | JInt int
  | JStr string
  | JList "json list"
  | JObj "(string \<times> json) list"

definition hex_digit :: "nat \<Rightarrow> char" where
  "hex_digit n = ''0123456789abcdef'' ! n"

definition escape_char :: "char \<Rightarrow> string" where
  "escape_char c =
     (if c = CHR 0x22 then [CHR 0x5C, CHR 0x22]
      else if c = CHR 0x5C then [CHR 0x5C, CHR 0x5C]
      else if c = CHR 0x0A then [CHR 0x5C, CHR ''n'']
      else if c = CHR 0x0D then [CHR 0x5C, CHR ''r'']
      else if c = CHR 0x09 then [CHR 0x5C, CHR ''t'']
      else if c = CHR 0x0C then [CHR 0x5C, CHR ''f'']
      else if c = CHR 0x08 then [CHR 0x5C, CHR ''b'']
      else if (of_char c :: nat) < 32
        then [CHR 0x5C, CHR ''u'', CHR ''0'', CHR ''0'',
              hex_digit (of_char c div 16), hex_digit (of_char c mod 16)]
      else [c])"

definition json_string :: "string \<Rightarrow> string" where
  "json_string s = CHR 0x22 # concat (map escape_char s) @ [CHR 0x22]"

fun nat_digits :: "nat \<Rightarrow> string" where
  "nat_digits n = (if n < 10 then [hex_digit n] else nat_digits (n div 10) @ [hex_digit (n mod 10)])"

declare nat_digits.simps [simp del]

definition int_digits :: "int \<Rightarrow> string" where
  "int_digits i = (if i < 0 then CHR ''-'' # nat_digits (nat (- i)) else nat_digits (nat i))"

text \<open>The items of a list or of an object are separated by commas.\<close>

fun json_text :: "json \<Rightarrow> string"
  and json_items :: "json list \<Rightarrow> string"
  and json_fields :: "(string \<times> json) list \<Rightarrow> string" where
  "json_text JNull = ''null''"
| "json_text (JBool b) = (if b then ''true'' else ''false'')"
| "json_text (JInt i) = int_digits i"
| "json_text (JStr s) = json_string s"
| "json_text (JList xs) = CHR ''['' # json_items xs @ [CHR '']'']"
| "json_text (JObj kvs) = CHR ''{'' # json_fields kvs @ [CHR ''}'']"
| "json_items [] = []"
| "json_items [x] = json_text x"
| "json_items (x # y # ys) = json_text x @ CHR '','' # json_items (y # ys)"
| "json_fields [] = []"
| "json_fields [(k, v)] = json_string k @ CHR '':'' # json_text v"
| "json_fields ((k, v) # e # es) =
     json_string k @ CHR '':'' # json_text v @ CHR '','' # json_fields (e # es)"

fun json_canon :: "json \<Rightarrow> json" where
  "json_canon (JList xs) = JList (map json_canon xs)"
| "json_canon (JObj kvs) = JObj (sort_key fst (map (\<lambda>(k, v). (k, json_canon v)) kvs))"
| "json_canon v = v"

definition json_dumps :: "json \<Rightarrow> string" where
  "json_dumps v = json_text (json_canon v)"

text \<open>
  \<open>ensure_ascii=True\<close>, the default, writes every character above the tilde as an escape. Such a
  character stands inside strings only, so the escapes can be put in afterwards.
\<close>

definition ascii_char :: "char \<Rightarrow> string" where
  "ascii_char c =
     (if (of_char c :: nat) < 127 then [c]
      else [CHR 0x5C, CHR ''u'', CHR ''0'', CHR ''0'',
            hex_digit (of_char c div 16), hex_digit (of_char c mod 16)])"

definition ensure_ascii :: "string \<Rightarrow> string" where
  "ensure_ascii s = concat (map ascii_char s)"

definition jstrs :: "string list \<Rightarrow> json" where
  "jstrs xs = JList (map JStr xs)"

section \<open>The text determines the value\<close>

lemma hex_digit_inj: "m < 16 \<Longrightarrow> n < 16 \<Longrightarrow> hex_digit m = hex_digit n \<Longrightarrow> m = n"
proof -
  have d: "distinct ''0123456789abcdef''" by code_simp
  assume "m < 16" "n < 16" "hex_digit m = hex_digit n"
  then show ?thesis using nth_eq_iff_index_eq [OF d, of m n] by (simp add: hex_digit_def)
qed

definition digit_chars :: string where
  "digit_chars = ''0123456789''"

lemma hex_digit_decimal: "n < 10 \<Longrightarrow> hex_digit n \<in> set digit_chars"
proof -
  assume n: "n < 10"
  then have "hex_digit n = ''0123456789'' ! n"
    by (simp add: hex_digit_def nth_append [of "''0123456789''" "''abcdef''", simplified])
  moreover have "''0123456789'' ! n \<in> set ''0123456789''" by (rule nth_mem) (use n in simp)
  ultimately show ?thesis unfolding digit_chars_def by simp
qed

lemma escape_char_first: "escape_char c \<noteq> [] \<and> hd (escape_char c) \<noteq> CHR 0x22"
  by (auto simp: escape_char_def)

lemma escape_char_prefix_code:
  assumes "escape_char c @ u = escape_char d @ v" shows "c = d \<and> u = v"
proof (cases "(of_char c :: nat) < 32 \<and> (of_char d :: nat) < 32 \<and>
    hd (tl (escape_char c)) = CHR ''u'' \<and> hd (tl (escape_char d)) = CHR ''u''")
  case True
  then have "escape_char c = [CHR 0x5C, CHR ''u'', CHR ''0'', CHR ''0'',
       hex_digit (of_char c div 16), hex_digit (of_char c mod 16)]"
    and "escape_char d = [CHR 0x5C, CHR ''u'', CHR ''0'', CHR ''0'',
       hex_digit (of_char d div 16), hex_digit (of_char d mod 16)]"
    by (auto simp: escape_char_def split: if_splits)
  with assms have dv: "hex_digit (of_char c div 16) = hex_digit (of_char d div 16)"
    and md: "hex_digit (of_char c mod 16) = hex_digit (of_char d mod 16)" and uv: "u = v" by auto
  from True have "(of_char c div 16 :: nat) < 16" "(of_char d div 16 :: nat) < 16" by auto
  with dv have "(of_char c div 16 :: nat) = of_char d div 16"
    by (rule hex_digit_inj [rotated 2])
  moreover have "(of_char c mod 16 :: nat) = of_char d mod 16"
    using md by (rule hex_digit_inj [rotated 2]) simp_all
  ultimately have "(of_char c :: nat) = of_char d" by (metis div_mult_mod_eq)
  then have "c = d" by (metis char_of_char)
  with uv show ?thesis by simp
next
  case False
  with assms show ?thesis
    by (auto simp: escape_char_def split: if_splits)
qed

lemma json_string_prefix_code:
  assumes "json_string s @ u = json_string t @ v" shows "s = t \<and> u = v"
proof -
  have "concat (map escape_char s) @ CHR 0x22 # u = concat (map escape_char t) @ CHR 0x22 # v
      \<Longrightarrow> s = t \<and> u = v" for s t
  proof (induction s arbitrary: t)
    case Nil
    show ?case
    proof (cases t)
      case (Cons d t')
      with Nil.prems escape_char_first [of d] show ?thesis by (cases "escape_char d") auto
    qed (use Nil.prems in simp)
  next
    case (Cons c s)
    show ?case
    proof (cases t)
      case Nil
      with Cons.prems escape_char_first [of c] show ?thesis by (cases "escape_char c") auto
    next
      case (Cons d t')
      with \<open>concat (map escape_char (c # s)) @ CHR 0x22 # u = _\<close>
      have "escape_char c @ (concat (map escape_char s) @ CHR 0x22 # u) =
            escape_char d @ (concat (map escape_char t') @ CHR 0x22 # v)" by simp
      from escape_char_prefix_code [OF this]
      have "c = d" and eq: "concat (map escape_char s) @ CHR 0x22 # u =
            concat (map escape_char t') @ CHR 0x22 # v" by (rule conjunct1, rule conjunct2)
      with Cons.IH [OF eq] Cons show ?thesis by simp
    qed
  qed
  from this [of s t] assms show ?thesis by (simp add: json_string_def)
qed

lemma nat_digits_chars: "set (nat_digits n) \<subseteq> set digit_chars"
proof (induction n rule: nat_digits.induct)
  case (1 n)
  then show ?case
    by (subst nat_digits.simps) (auto intro: hex_digit_decimal)
qed

lemma nat_digits_nonempty: "nat_digits n \<noteq> []"
  by (subst nat_digits.simps) simp

lemma nat_digits_last: "last (nat_digits n) = hex_digit (n mod 10)"
  by (subst nat_digits.simps) simp

lemma nat_digits_single: "length (nat_digits n) = 1 \<longleftrightarrow> n < 10"
  using nat_digits_nonempty [of "n div 10"]
  by (cases "n < 10") (simp_all add: nat_digits.simps [of n])

lemma nat_digits_butlast: "\<not> n < 10 \<Longrightarrow> butlast (nat_digits n) = nat_digits (n div 10)"
  by (subst nat_digits.simps) simp

lemma nat_digits_inj: "nat_digits m = nat_digits n \<Longrightarrow> m = n"
proof (induction m arbitrary: n rule: nat_digits.induct)
  case (1 m)
  from "1.prems" have len: "m < 10 \<longleftrightarrow> n < 10" by (metis nat_digits_single)
  from "1.prems" have "hex_digit (m mod 10) = hex_digit (n mod 10)" by (metis nat_digits_last)
  then have md: "m mod 10 = n mod 10" by (rule hex_digit_inj [rotated 2]) simp_all
  show ?case
  proof (cases "m < 10")
    case True with len md show ?thesis by simp
  next
    case False
    with len "1.prems" have "nat_digits (m div 10) = nat_digits (n div 10)"
      by (metis nat_digits_butlast)
    with False "1.IH" have "m div 10 = n div 10" by blast
    with md show ?thesis by (metis div_mult_mod_eq)
  qed
qed

definition at_delim :: "string \<Rightarrow> bool" where
  "at_delim u \<longleftrightarrow> (case u of [] \<Rightarrow> True | c # _ \<Rightarrow> c \<in> set '',]}'')"

lemma delim_not_digit: "at_delim (c # u) \<Longrightarrow> c \<notin> set digit_chars"
  by (auto simp: at_delim_def digit_chars_def)

lemma takeWhile_digits:
  assumes "set d \<subseteq> set digit_chars" "at_delim u"
  shows "takeWhile (\<lambda>c. c \<in> set digit_chars) (d @ u) = d"
proof -
  have "takeWhile (\<lambda>c. c \<in> set digit_chars) u = []"
    using assms(2) delim_not_digit by (cases u) auto
  with assms(1) show ?thesis by (subst takeWhile_append2) auto
qed

lemma nat_digits_prefix_code:
  assumes "nat_digits m @ u = nat_digits n @ v" "at_delim u" "at_delim v"
  shows "m = n \<and> u = v"
  using assms takeWhile_digits [OF nat_digits_chars, of u m] takeWhile_digits [OF nat_digits_chars, of v n]
  by (metis nat_digits_inj same_append_eq)

lemma nat_digits_not_minus: "nat_digits n @ u \<noteq> CHR ''-'' # v"
proof -
  obtain c d where d: "nat_digits n = c # d" using nat_digits_nonempty by (cases "nat_digits n") auto
  with nat_digits_chars [of n] have "c \<in> set digit_chars" by auto
  with d show ?thesis by (auto simp: digit_chars_def)
qed

lemma int_digits_prefix_code:
  assumes "int_digits i @ u = int_digits j @ v" "at_delim u" "at_delim v"
  shows "i = j \<and> u = v"
proof (cases "i < 0"; cases "j < 0")
  assume "i < 0" "j < 0"
  with assms have "nat_digits (nat (- i)) @ u = nat_digits (nat (- j)) @ v" by (simp add: int_digits_def)
  from nat_digits_prefix_code [OF this assms(2,3)] \<open>i < 0\<close> \<open>j < 0\<close> show ?thesis by auto
next
  assume "\<not> i < 0" "\<not> j < 0"
  with assms have "nat_digits (nat i) @ u = nat_digits (nat j) @ v" by (simp add: int_digits_def)
  from nat_digits_prefix_code [OF this assms(2,3)] \<open>\<not> i < 0\<close> \<open>\<not> j < 0\<close> show ?thesis by auto
qed (use assms nat_digits_not_minus nat_digits_not_minus [symmetric] in \<open>auto simp: int_digits_def\<close>)

text \<open>The first character of a text tells which kind of value follows.\<close>

definition json_kind :: "char \<Rightarrow> nat" where
  "json_kind c =
     (if c = CHR ''n'' then 0 else if c = CHR ''t'' \<or> c = CHR ''f'' then 1
      else if c = CHR 0x22 then 3 else if c = CHR ''['' then 4 else if c = CHR ''{'' then 5
      else if c = CHR ''-'' \<or> c \<in> set digit_chars then 2 else 6)"

fun json_tag :: "json \<Rightarrow> nat" where
  "json_tag JNull = 0" | "json_tag (JBool _) = 1" | "json_tag (JInt _) = 2"
| "json_tag (JStr _) = 3" | "json_tag (JList _) = 4" | "json_tag (JObj _) = 5"

lemma int_digits_kind: "\<exists>c t. int_digits i = c # t \<and> json_kind c = 2"
proof -
  obtain c d where d: "nat_digits (nat i) = c # d"
    using nat_digits_nonempty by (cases "nat_digits (nat i)") auto
  with nat_digits_chars [of "nat i"] have "c \<in> set digit_chars" by auto
  then have "json_kind c = 2" by (auto simp: json_kind_def digit_chars_def)
  with d show ?thesis by (cases "i < 0") (auto simp: int_digits_def json_kind_def)
qed

lemma json_text_kind: "\<exists>c t. json_text x = c # t \<and> json_kind c = json_tag x"
  using int_digits_kind
  by (cases x) (auto simp: json_string_def json_kind_def digit_chars_def)

lemma json_text_same_tag: "json_text x @ u = json_text y @ v \<Longrightarrow> json_tag x = json_tag y"
  using json_text_kind [of x] json_text_kind [of y] by auto

lemma json_text_not_close: "json_text x @ u \<noteq> CHR '']'' # v"
  using json_text_kind [of x] by (cases x) (auto simp: json_kind_def digit_chars_def)

lemma items_shape:
  obtains (none) "ys = []" | (one) y where "ys = [y]" | (more) y z zs where "ys = y # z # zs"
  by (metis list.exhaust)

lemma fields_shape:
  obtains (none) "ls = []" | (one) l y where "ls = [(l, y)]" | (more) l y e es where "ls = (l, y) # e # es"
  by (metis list.exhaust surj_pair)

lemma json_text_prefix_code:
  "json_text x @ u = json_text y @ v \<Longrightarrow> at_delim u \<Longrightarrow> at_delim v \<Longrightarrow> x = y \<and> u = v"
  "json_items xs @ CHR '']'' # u = json_items ys @ CHR '']'' # v \<Longrightarrow> xs = ys \<and> u = v"
  "json_fields ks @ CHR ''}'' # u = json_fields ls @ CHR ''}'' # v \<Longrightarrow> ks = ls \<and> u = v"
proof (induction x and xs and ks arbitrary: y u v and ys u v and ls u v
    rule: json_text_json_items_json_fields.induct)
  case 1 from json_text_same_tag [OF "1.prems"(1)] "1.prems" show ?case by (cases y) auto
next
  case (2 b)
  from json_text_same_tag [OF "2.prems"(1)] "2.prems" show ?case
    by (cases y) (auto split: if_splits)
next
  case (3 i)
  from json_text_same_tag [OF "3.prems"(1)] "3.prems" show ?case
    by (cases y) (auto dest: int_digits_prefix_code)
next
  case (4 s)
  from json_text_same_tag [OF "4.prems"(1)] "4.prems" show ?case
    by (cases y) (auto dest: json_string_prefix_code)
next
  case (5 xs)
  from json_text_same_tag [OF "5.prems"(1)] obtain ys where "y = JList ys" by (cases y) auto
  with "5.prems" "5.IH" [of u ys v] show ?case by simp
next
  case (6 kvs)
  from json_text_same_tag [OF "6.prems"(1)] obtain ls where "y = JObj ls" by (cases y) auto
  with "6.prems" "6.IH" [of u ls v] show ?case by simp
next
  case 7
  then show ?case using json_text_not_close [symmetric] by (cases ys rule: items_shape) auto
next
  case (8 x)
  have d: "at_delim (CHR '']'' # w)" "at_delim (CHR '','' # w)" for w by (simp_all add: at_delim_def)
  show ?case
  proof (cases ys rule: items_shape)
    case none with "8.prems" json_text_not_close show ?thesis by simp
  next
    case (one y) with "8.prems" "8.IH" [OF _ d(1) d(1)] show ?thesis by simp
  next
    case (more y z zs) with "8.prems" "8.IH" [OF _ d(1) d(2)] show ?thesis by simp
  qed
next
  case (9 x x' xs)
  have d: "at_delim (CHR '']'' # w)" "at_delim (CHR '','' # w)" for w by (simp_all add: at_delim_def)
  show ?case
  proof (cases ys rule: items_shape)
    case none with "9.prems" json_text_not_close show ?thesis by simp
  next
    case (one y) with "9.prems" "9.IH"(1) [OF _ d(2) d(1)] show ?thesis by simp
  next
    case (more y z zs)
    with "9.prems" "9.IH"(1) [OF _ d(2) d(2)] have "x = y"
      and "json_items (x' # xs) @ CHR '']'' # u = json_items (z # zs) @ CHR '']'' # v" by simp_all
    with "9.IH"(2) more show ?thesis by blast
  qed
next
  case 10
  then show ?case by (cases ls rule: fields_shape) (auto simp: json_string_def)
next
  case (11 k x)
  have d: "at_delim (CHR ''}'' # w)" "at_delim (CHR '','' # w)" for w by (simp_all add: at_delim_def)
  show ?case
  proof (cases ls rule: fields_shape)
    case none with "11.prems" show ?thesis by (simp add: json_string_def)
  next
    case (one l y)
    with "11.prems" have "k = l" and "json_text x @ CHR ''}'' # u = json_text y @ CHR ''}'' # v"
      by (auto dest: json_string_prefix_code)
    with "11.IH" [OF _ d(1) d(1)] one show ?thesis by blast
  next
    case (more l y e es)
    with "11.prems" have "json_text x @ CHR ''}'' # u =
        json_text y @ CHR '','' # json_fields (e # es) @ CHR ''}'' # v"
      by (auto dest: json_string_prefix_code)
    with "11.IH" [OF _ d(1) d(2)] show ?thesis by blast
  qed
next
  case (12 k x e' es')
  have d: "at_delim (CHR ''}'' # w)" "at_delim (CHR '','' # w)" for w by (simp_all add: at_delim_def)
  show ?case
  proof (cases ls rule: fields_shape)
    case none with "12.prems" show ?thesis by (simp add: json_string_def)
  next
    case (one l y)
    with "12.prems" have "json_text x @ CHR '','' # json_fields (e' # es') @ CHR ''}'' # u =
        json_text y @ CHR ''}'' # v"
      by (auto dest: json_string_prefix_code)
    with "12.IH"(1) [OF _ d(2) d(1)] show ?thesis by blast
  next
    case (more l y e es)
    with "12.prems" have kl: "k = l" and "json_text x @ CHR '','' # json_fields (e' # es') @ CHR ''}'' # u =
        json_text y @ CHR '','' # json_fields (e # es) @ CHR ''}'' # v"
      by (auto dest: json_string_prefix_code)
    with "12.IH"(1) [OF _ d(2) d(2)] have "x = y"
      and "json_fields (e' # es') @ CHR ''}'' # u = json_fields (e # es) @ CHR ''}'' # v" by blast+
    with "12.IH"(2) more kl show ?thesis by blast
  qed
qed

theorem json_text_inj: "json_text x = json_text y \<Longrightarrow> x = y"
  using json_text_prefix_code(1) [of x "[]" y "[]"] by (simp add: at_delim_def)

lemma json_dumps_inj: "json_dumps x = json_dumps y \<Longrightarrow> json_canon x = json_canon y"
  unfolding json_dumps_def by (rule json_text_inj)

lemma json_canon_jstrs [simp]: "json_canon (jstrs xs) = jstrs xs"
  by (simp add: jstrs_def o_def)

lemma jstrs_inj [simp]: "jstrs xs = jstrs ys \<longleftrightarrow> xs = ys"
proof
  show "jstrs xs = jstrs ys \<Longrightarrow> xs = ys"
    by (simp add: jstrs_def inj_map_eq_map inj_def)
qed simp

end
