(* ===== verification/DependencyGraph.thy ===== *)
theory DependencyGraph
  imports Prelude
begin

text \<open>
  Graphs of task dependencies, as the planners of \<open>director_parallel.py\<close>,
  \<open>director_orchestration.py\<close> and \<open>director_dispatch.py\<close> (under \<open>src/src/chatgpt_dev_mcp/\<close>) keep
  them: a dictionary from a task id to the ids it depends on. The worklist search and the
  depth-first search for cycles are the code's; the facts are that the first computes the
  transitive closure, that the second finds a cycle exactly when there is one, and that a graph
  without cycles always has a task whose dependencies are all done.
\<close>

section \<open>Searches\<close>

type_synonym task_graph = "(string \<times> string list) list"

definition needs :: "task_graph \<Rightarrow> string \<Rightarrow> string list" where
  "needs g x = (case map_of g x of None \<Rightarrow> [] | Some ds \<Rightarrow> ds)"

lemma unseen_less: "finite U \<Longrightarrow> x \<in> U \<Longrightarrow> x \<notin> S \<Longrightarrow> card (U - insert x S) < card (U - S)"
  by (rule psubset_card_mono) auto

lemma unseen_same: "x \<notin> U \<Longrightarrow> U - insert x S = U - S"
  by blast

lemma map_of_key: "map_of g x = Some ds \<Longrightarrow> x \<in> fst ` set g"
  by (force dest: map_of_SomeD)

text \<open>The stack is kept with its top first, so that \<open>pending.extend(xs)\<close> pushes \<open>xs\<close> in
  reverse.\<close>

function graph_search :: "task_graph \<Rightarrow> string \<Rightarrow> string list \<Rightarrow> string list \<Rightarrow> bool" where
  "graph_search g target [] seen = False"
| "graph_search g target (current # pending) seen =
     (if current = target then True
      else if current \<in> set seen then graph_search g target pending seen
      else case map_of g current of
          None \<Rightarrow> graph_search g target pending (current # seen)
        | Some ds \<Rightarrow> graph_search g target (rev ds @ pending) (current # seen))"
  by pat_completeness auto
termination
  by (relation "measures [\<lambda>(g, target, pending, seen). card (fst ` set g - set seen),
      \<lambda>(g, target, pending, seen). length pending]")
    (auto simp: map_of_eq_None_iff unseen_same dest!: map_of_key intro!: unseen_less)

text \<open>A depth-first search. Both loops of the code, over the dependencies of a task and over all
  tasks, visit the ids of a list one after the other: \<open>visiting\<close> is the path to the current task
  and \<open>visited\<close> the tasks that are finished, the last one first.\<close>

function cycle_search ::
  "task_graph \<Rightarrow> string list \<Rightarrow> string list \<Rightarrow> string list \<Rightarrow> bool \<times> string list" where
  "cycle_search g visiting visited [] = (False, visited)"
| "cycle_search g visiting visited (x # xs) =
     (case map_of g x of
        None \<Rightarrow> cycle_search g visiting visited xs
      | Some ds \<Rightarrow>
          if x \<in> set visiting then (True, visited)
          else if x \<in> set visited then cycle_search g visiting visited xs
          else case cycle_search g (x # visiting) visited ds of
              (True, visited') \<Rightarrow> (True, visited')
            | (False, visited') \<Rightarrow> cycle_search g visiting (x # visited') xs)"
  by pat_completeness auto
termination
  by (relation "measures [\<lambda>(g, visiting, visited, xs). card (fst ` set g - set visiting),
      \<lambda>(g, visiting, visited, xs). length xs]")
    (auto dest!: map_of_key intro!: unseen_less)

definition graph_cycle :: "task_graph \<Rightarrow> bool" where
  "graph_cycle g = fst (cycle_search g [] [] (map fst g))"

section \<open>The worklist search computes the transitive closure\<close>

definition needs_rel :: "task_graph \<Rightarrow> (string \<times> string) set" where
  "needs_rel g = {(x, y). y \<in> set (needs g x)}"

lemma graph_search_sound:
  "graph_search g target pending seen \<Longrightarrow> \<exists>p\<in>set pending. (p, target) \<in> (needs_rel g)\<^sup>*"
proof (induction g target pending seen rule: graph_search.induct)
  case (2 g target current pending seen)
  show ?case
  proof (cases "current = target \<or> current \<in> set seen \<or> map_of g current = None")
    case True
    with 2 show ?thesis by (auto split: if_splits)
  next
    case False
    then obtain ds where ds: "map_of g current = Some ds" by auto
    have "graph_search g target (rev ds @ pending) (current # seen)" using 2(4) False ds by simp
    with 2(3) [OF _ _ ds] False obtain p where "p \<in> set ds \<union> set pending"
      "(p, target) \<in> (needs_rel g)\<^sup>*" by auto
    moreover have "(current, p) \<in> needs_rel g" if "p \<in> set ds"
      using that ds by (simp add: needs_rel_def needs_def)
    ultimately show ?thesis by (auto intro: converse_rtrancl_into_rtrancl)
  qed
qed simp

lemma graph_search_complete:
  "\<not> graph_search g target pending seen \<Longrightarrow> target \<notin> set seen \<Longrightarrow>
     (\<forall>x\<in>set seen. set (needs g x) \<subseteq> set seen \<union> set pending) \<Longrightarrow>
     \<exists>C. set seen \<union> set pending \<subseteq> C \<and> target \<notin> C \<and> (\<forall>x\<in>C. set (needs g x) \<subseteq> C)"
proof (induction g target pending seen rule: graph_search.induct)
  case (1 g target seen)
  then show ?case by (intro exI [of _ "set seen"]) auto
next
  case (2 g target current pending seen)
  from 2(4) have ne: "current \<noteq> target" by auto
  show ?case
  proof (cases "current \<in> set seen")
    case True
    with 2(1) [OF ne True] 2(4-6) ne show ?thesis by (auto simp: insert_absorb)
  next
    case False
    show ?thesis
    proof (cases "map_of g current")
      case None
      then have "needs g current = []" by (simp add: needs_def)
      with 2(2) [OF ne False None] 2(4-6) ne False None show ?thesis by auto
    next
      case (Some ds)
      have "\<not> graph_search g target (rev ds @ pending) (current # seen)"
        using 2(4) ne False Some by simp
      moreover have "target \<notin> set (current # seen)" using 2(5) ne by simp
      moreover have "\<forall>x\<in>set (current # seen). set (needs g x) \<subseteq>
          set (current # seen) \<union> set (rev ds @ pending)"
        using 2(6) Some by (auto simp: needs_def)
      ultimately obtain C where "set (current # seen) \<union> set (rev ds @ pending) \<subseteq> C"
        "target \<notin> C" "\<forall>x\<in>C. set (needs g x) \<subseteq> C"
        using 2(3) [OF ne False Some] by blast
      then show ?thesis by (intro exI [of _ C]) auto
    qed
  qed
qed

lemma graph_search_iff:
  "graph_search g b (rev (needs g a)) [] \<longleftrightarrow> (a, b) \<in> (needs_rel g)\<^sup>+"
proof
  assume "graph_search g b (rev (needs g a)) []"
  then obtain p where "p \<in> set (needs g a)" "(p, b) \<in> (needs_rel g)\<^sup>*"
    using graph_search_sound by fastforce
  then show "(a, b) \<in> (needs_rel g)\<^sup>+" by (auto simp: needs_rel_def intro: rtrancl_into_trancl2)
next
  assume path: "(a, b) \<in> (needs_rel g)\<^sup>+"
  show "graph_search g b (rev (needs g a)) []"
  proof (rule ccontr)
    assume "\<not> graph_search g b (rev (needs g a)) []"
    then obtain C where C: "set (needs g a) \<subseteq> C" "b \<notin> C" "\<forall>x\<in>C. set (needs g x) \<subseteq> C"
      using graph_search_complete [of g b "rev (needs g a)" "[]"] by auto
    from path have "b \<in> C"
      by (induction rule: trancl_induct) (use C in \<open>auto simp: needs_rel_def\<close>)
    with C(2) show False ..
  qed
qed

section \<open>The depth-first search finds the cycles\<close>

text \<open>A list of finished tasks: each one after all its dependencies that are tasks.\<close>

fun all_finished :: "task_graph \<Rightarrow> string list \<Rightarrow> bool" where
  "all_finished g [] = True"
| "all_finished g (x # xs) =
     (x \<notin> set xs \<and> x \<in> fst ` set g \<and> set (needs g x) \<inter> fst ` set g \<subseteq> set xs \<and> all_finished g xs)"

fun finish_rank :: "string list \<Rightarrow> string \<Rightarrow> nat" where
  "finish_rank [] y = 0"
| "finish_rank (x # xs) y = (if x = y then Suc (length xs) else finish_rank xs y)"

lemma finish_rank_le: "finish_rank xs y \<le> length xs"
  by (induction xs) auto

lemma finished_keys: "all_finished g xs \<Longrightarrow> set xs \<subseteq> fst ` set g"
  by (induction xs) auto

lemma finished_closed: "all_finished g xs \<Longrightarrow> u \<in> set xs \<Longrightarrow> set (needs g u) \<inter> fst ` set g \<subseteq> set xs"
  by (induction xs) auto

lemma needs_key: "y \<in> set (needs g x) \<Longrightarrow> x \<in> fst ` set g"
  by (cases "map_of g x") (auto simp: needs_def dest: map_of_key)

lemma finished_rank:
  "all_finished g xs \<Longrightarrow> x \<in> set xs \<Longrightarrow> y \<in> set (needs g x) \<Longrightarrow> finish_rank xs y < finish_rank xs x"
proof (induction xs)
  case (Cons z xs)
  show ?case
  proof (cases "z = x")
    case True
    have "y \<noteq> z" using Cons.prems True by auto
    then show ?thesis using True finish_rank_le [of xs y] by simp
  next
    case False
    then have "x \<in> set xs" using Cons.prems(2) by simp
    moreover from this have "y \<noteq> z"
      using Cons.prems finished_closed [of g xs x] by auto
    ultimately show ?thesis using Cons False by simp
  qed
qed simp

lemma finished_acyclic:
  assumes "all_finished g xs" and "fst ` set g \<subseteq> set xs"
  shows "acyclic (needs_rel g)"
proof -
  have "(needs_rel g)\<inverse> \<subseteq> measure (finish_rank xs)"
  proof
    fix e assume "e \<in> (needs_rel g)\<inverse>"
    then obtain x y where e: "e = (y, x)" "y \<in> set (needs g x)" by (auto simp: needs_rel_def)
    then have "x \<in> set xs" using needs_key assms(2) by blast
    with assms(1) e show "e \<in> measure (finish_rank xs)" by (auto intro: finished_rank)
  qed
  then have "wf ((needs_rel g)\<inverse>)" by (rule wf_subset [OF wf_measure])
  then show ?thesis using wf_acyclic acyclic_converse by metis
qed

lemma cycle_search_finished:
  "cycle_search g visiting visited xs = (False, v) \<Longrightarrow> all_finished g visited \<Longrightarrow>
     set visiting \<inter> set visited = {} \<Longrightarrow>
     all_finished g v \<and> set visited \<subseteq> set v \<and> set xs \<inter> fst ` set g \<subseteq> set v \<and>
     set visiting \<inter> set v = {}"
proof (induction g visiting visited xs arbitrary: v rule: cycle_search.induct)
  case (2 g visiting visited x xs)
  show ?case
  proof (cases "map_of g x")
    case None
    then have "x \<notin> fst ` set g" by (simp add: map_of_eq_None_iff)
    with 2 None show ?thesis by auto
  next
    case (Some ds)
    have x: "x \<in> fst ` set g" using Some by (rule map_of_key)
    have new: "x \<notin> set visiting" using 2(5) Some by (auto split: if_splits)
    show ?thesis
    proof (cases "x \<in> set visited")
      case True
      with 2(2) [OF Some new] 2(5-7) Some new show ?thesis by auto
    next
      case False
      obtain b u where inner: "cycle_search g (x # visiting) visited ds = (b, u)" by force
      with 2(5) Some new False have b: "\<not> b" by (auto split: bool.splits)
      with inner have inner: "cycle_search g (x # visiting) visited ds = (False, u)" by simp
      have "set (x # visiting) \<inter> set visited = {}" using 2(7) False by auto
      from 2(3) [OF Some new False inner 2(6) this]
      have u: "all_finished g u" "set visited \<subseteq> set u" "set ds \<inter> fst ` set g \<subseteq> set u"
        "x \<notin> set u" "set visiting \<inter> set u = {}" by auto
      have "all_finished g (x # u)" using u x Some by (simp add: needs_def)
      moreover have "cycle_search g visiting (x # u) xs = (False, v)"
        using 2(5) Some new False inner by simp
      moreover have "set visiting \<inter> set (x # u) = {}" using u new by auto
      ultimately have "all_finished g v \<and> set (x # u) \<subseteq> set v \<and> set xs \<inter> fst ` set g \<subseteq> set v \<and>
          set visiting \<inter> set v = {}"
        using 2(4) [OF Some new False inner [symmetric] refl] by blast
      then show ?thesis using u by auto
    qed
  qed
qed simp

text \<open>A path of the search, the current task first.\<close>

fun search_path :: "task_graph \<Rightarrow> string list \<Rightarrow> bool" where
  "search_path g [] = True"
| "search_path g [x] = True"
| "search_path g (y # x # xs) = (y \<in> set (needs g x) \<and> search_path g (x # xs))"

lemma search_path_reaches: "search_path g (y # p) \<Longrightarrow> x \<in> set (y # p) \<Longrightarrow> (x, y) \<in> (needs_rel g)\<^sup>*"
proof (induction p arbitrary: y)
  case (Cons z p)
  show ?case
  proof (cases "x = y")
    case False
    then have "(x, z) \<in> (needs_rel g)\<^sup>*" using Cons by simp
    moreover have "(z, y) \<in> needs_rel g" using Cons.prems(1) by (simp add: needs_rel_def)
    ultimately show ?thesis by (rule rtrancl_into_rtrancl)
  qed simp
qed simp

lemma cycle_search_sound:
  "cycle_search g visiting visited xs = (True, v) \<Longrightarrow> search_path g visiting \<Longrightarrow>
     (\<forall>y p. visiting = y # p \<longrightarrow> set xs \<subseteq> set (needs g y)) \<Longrightarrow> \<not> acyclic (needs_rel g)"
proof (induction g visiting visited xs arbitrary: v rule: cycle_search.induct)
  case (2 g visiting visited x xs)
  show ?case
  proof (cases "map_of g x")
    case None
    with 2 show ?thesis by auto
  next
    case (Some ds)
    show ?thesis
    proof (cases "x \<in> set visiting")
      case True
      then obtain y p where p: "visiting = y # p" by (cases visiting) auto
      with 2(7) have "(y, x) \<in> needs_rel g" by (simp add: needs_rel_def)
      moreover have "(x, y) \<in> (needs_rel g)\<^sup>*" using 2(6) True p search_path_reaches by blast
      ultimately show ?thesis by (auto simp: acyclic_def intro: rtrancl_into_trancl2)
    next
      case new: False
      show ?thesis
      proof (cases "x \<in> set visited")
        case True
        with 2(2) [OF Some new] 2(5-7) Some new show ?thesis by auto
      next
        case False
        obtain b u where inner: "cycle_search g (x # visiting) visited ds = (b, u)" by force
        show ?thesis
        proof (cases b)
          case True
          have "search_path g (x # visiting)"
            using 2(6,7) by (cases visiting) auto
          moreover have "set ds \<subseteq> set (needs g x)" using Some by (simp add: needs_def)
          ultimately show ?thesis using 2(3) [OF Some new False] inner True by auto
        next
          case b: False
          then have "cycle_search g visiting (x # u) xs = (True, v)"
            using 2(5) Some new False inner by simp
          moreover have "\<forall>y p. visiting = y # p \<longrightarrow> set xs \<subseteq> set (needs g y)" using 2(7) by auto
          ultimately show ?thesis using 2(4) [OF Some new False inner [symmetric]] b 2(6) by blast
        qed
      qed
    qed
  qed
qed simp

theorem graph_cycle_iff: "graph_cycle g \<longleftrightarrow> \<not> acyclic (needs_rel g)"
proof
  assume "graph_cycle g"
  then obtain v where "cycle_search g [] [] (map fst g) = (True, v)"
    unfolding graph_cycle_def by (cases "cycle_search g [] [] (map fst g)") auto
  then show "\<not> acyclic (needs_rel g)" by (rule cycle_search_sound) simp_all
next
  assume cyclic: "\<not> acyclic (needs_rel g)"
  show "graph_cycle g"
  proof (rule ccontr)
    assume "\<not> graph_cycle g"
    then obtain v where "cycle_search g [] [] (map fst g) = (False, v)"
      unfolding graph_cycle_def by (cases "cycle_search g [] [] (map fst g)") auto
    from cycle_search_finished [OF this] have "all_finished g v" "fst ` set g \<subseteq> set v" by auto
    with cyclic show False using finished_acyclic by blast
  qed
qed

section \<open>A graph without cycles always has a ready task\<close>

lemma acyclic_ready:
  assumes "acyclic (needs_rel g)" and "finite R" and "R \<noteq> {}"
  shows "\<exists>t\<in>R. set (needs g t) \<inter> R = {}"
proof -
  have "finite (needs_rel g \<inter> R \<times> R)" using assms(2) by blast
  moreover have "acyclic (needs_rel g \<inter> R \<times> R)" using assms(1) by (rule acyclic_subset) blast
  ultimately have wf: "wf ((needs_rel g \<inter> R \<times> R)\<inverse>)" by (rule finite_acyclic_wf_converse)
  obtain x where "x \<in> R" using assms(3) by blast
  obtain t where t: "t \<in> R" and least: "\<And>d. (d, t) \<in> (needs_rel g \<inter> R \<times> R)\<inverse> \<Longrightarrow> d \<notin> R"
    by (rule wfE_min [OF wf \<open>x \<in> R\<close>]) (rule that)
  have "d \<notin> R" if "d \<in> set (needs g t)" for d
    using least [of d] that t by (auto simp: needs_rel_def)
  then show ?thesis using t by blast
qed

end
