(* ===== verification/DirectorText.thy ===== *)
theory DirectorText
  imports PyRegex
begin

text \<open>
  The input boundary of \<open>src/src/chatgpt_dev_mcp/director.py\<close>: bounded text, identifiers,
  workspace-relative paths, resource ids and the recognition and redaction of credential-like
  content. Arguments typed \<open>object\<close> in the source are of type \<open>pyval\<close> here, so that the
  \<open>isinstance\<close> tests are branches. The SHA-256 digest of the Python runtime is the parameter
  \<open>sha\<close> of the definitions that use it.
\<close>

section \<open>Bounds and errors\<close>

definition default_context_max_bytes :: nat where "default_context_max_bytes = 64 * 1024"
definition default_context_max_items :: nat where "default_context_max_items = 32"
definition default_context_max_item_bytes :: nat where "default_context_max_item_bytes = 16 * 1024"
definition default_patch_max_bytes :: int where "default_patch_max_bytes = 128 * 1024"
definition default_patch_max_files :: int where "default_patch_max_files = 32"
definition default_ledger_max_records :: nat where "default_ledger_max_records = 256"
definition default_lease_ttl_seconds :: time where "default_lease_ttl_seconds = 15 * 60"
definition max_context_bytes :: int where "max_context_bytes = 256 * 1024"
definition max_context_items :: int where "max_context_items = 128"
definition max_context_item_bytes :: int where "max_context_item_bytes = 64 * 1024"
definition max_patch_bytes :: int where "max_patch_bytes = 512 * 1024"
definition max_patch_files :: int where "max_patch_files = 128"
definition max_identifier_length :: nat where "max_identifier_length = 128"
definition max_title_length :: nat where "max_title_length = 240"
definition max_detail_length :: nat where "max_detail_length = 1000"
definition max_result_ref_length :: nat where "max_result_ref_length = 512"

text \<open>The exceptions of the module. \<open>CallbackRaised\<close> is whatever a persistence callback
  supplied by the runtime raises.\<close>

datatype director_error =
    ValidationError string
  | LeaseConflict string
  | LedgerConflict string
  | CallbackRaised

section \<open>Character formats\<close>

text \<open>\<open>^[A-Za-z0-9][A-Za-z0-9...]{0,n}$\<close> under \<open>fullmatch\<close>.\<close>

definition id_format :: "string \<Rightarrow> nat \<Rightarrow> string \<Rightarrow> bool" where
  "id_format extra n s =
     (case s of [] \<Rightarrow> False
      | c # cs \<Rightarrow> is_alnum_char c \<and> length cs \<le> n \<and>
          list_all (\<lambda>d. is_alnum_char d \<or> d \<in> set extra) cs)"

definition workspace_id_re :: "string \<Rightarrow> bool" where
  "workspace_id_re = id_format ''._-'' 63"

definition identifier_re :: "string \<Rightarrow> bool" where
  "identifier_re = id_format ''._:-'' 127"

definition resource_re :: "string \<Rightarrow> bool" where
  "resource_re = id_format ''._:/-'' 239"

definition hex64 :: "string \<Rightarrow> bool" where
  "hex64 s \<longleftrightarrow> length s = 64 \<and> list_all (\<lambda>c. is_digit_char c \<or> c \<in> set ''abcdef'') s"

section \<open>Credential-like content\<close>

definition sensitive_dir_names :: "string list" where
  "sensitive_dir_names =
     [''.aws'', ''.config'', ''.git'', ''.ssh'', ''browser profiles'', ''chromedata'', ''chrome'',
      ''keychains'', ''mozilla'']"

definition r_dotted_tail :: regex where
  "r_dotted_tail = r_opt (RSeq (r_lit_i ''.'') (r_star r_dot))"

definition sensitive_basename_re :: regex where
  "sensitive_basename_re = r_any
     [RSeq (r_lit_i ''.env'') r_dotted_tail,
      RSeq (r_lit_i ''id_'') (r_any (map r_lit_i [''rsa'', ''dsa'', ''ecdsa'', ''ed25519''])),
      r_lit_i ''authorized_keys'',
      r_lit_i ''known_hosts'',
      RSeq (r_lit_i ''credentials'') r_dotted_tail,
      r_all [r_lit_i ''secret'', r_opt (r_lit_i ''s''), r_dotted_tail],
      r_all [r_star r_dot, r_lit_i ''.'',
        r_any (map r_lit_i [''pem'', ''key'', ''p12'', ''pfx'', ''kdbx''])]]"

definition r_key_label :: regex where
  "r_key_label = r_star (RPred (\<lambda>c. is_alnum_char c \<or> c = CHR '' ''))"

definition private_key_re :: regex where
  "private_key_re = r_all
     [r_lit_i ''-----BEGIN '', r_key_label, r_lit_i ''PRIVATE KEY-----'',
      RStar False (RPred (\<lambda>_. True)),
      r_lit_i ''-----END '', r_key_label, r_lit_i ''PRIVATE KEY-----'']"

definition r_quote_opt :: regex where
  "r_quote_opt = r_opt (RPred (\<lambda>c. c = CHR 0x22 \<or> c = CHR 0x27))"

definition assignment_secret_re :: regex where
  "assignment_secret_re = r_all
     [RGroup 1 (r_all
        [RLineStart, r_star r_space, r_quote_opt,
         r_any [r_lit_i ''password'', r_lit_i ''passwd'', r_lit_i ''token'', r_lit_i ''secret'',
                r_all [r_lit_i ''api'', r_opt (r_in ''_-''), r_lit_i ''key''],
                r_all [r_lit_i ''access'', r_opt (r_in ''_-''), r_lit_i ''key'']],
         r_quote_opt, r_star r_space, r_in '':='', r_star r_space]),
      RGroup 2 r_quote_opt,
      RGroup 3 (r_plus (RPred (\<lambda>c. \<not> is_space_char c \<and> c \<notin> set '',}]''))),
      RGroup 4 (RBack 2)]"

definition bearer_secret_re :: regex where
  "bearer_secret_re = r_all
     [RWordEdge, r_lit_i ''Bearer'', r_plus r_space,
      r_at_least 20 (RPred (\<lambda>c. is_alnum_char c \<or> c \<in> set ''._~+/=-''))]"

definition token_secret_re :: regex where
  "token_secret_re = r_all
     [RWordEdge,
      r_any
        [RSeq (r_lit ''sk-'') (r_at_least 12 (RPred (\<lambda>c. is_alnum_char c \<or> c \<in> set ''_-''))),
         r_all [r_lit ''gh'', r_in ''pousr'', r_lit ''_'',
                r_at_least 12 (RPred (\<lambda>c. is_alnum_char c \<or> c = CHR ''_''))],
         RSeq (r_lit ''AKIA'') (r_at_least 12 (RPred (\<lambda>c. is_digit_char c \<or> is_upper_char c)))],
      RWordEdge]"

definition contains_secret_like_content :: "string \<Rightarrow> bool" where
  "contains_secret_like_content value \<longleftrightarrow>
     re_search private_key_re value \<or> re_search assignment_secret_re value \<or>
     re_search bearer_secret_re value \<or> re_search token_secret_re value"

definition redact_secrets :: "string \<Rightarrow> string" where
  "redact_secrets value =
     (let redacted = re_sub private_key_re (\<lambda>_. ''[REDACTED_PRIVATE_KEY]'') value;
          redacted = re_sub assignment_secret_re
            (\<lambda>g. g 1 @ g 2 @ ''[REDACTED]'' @ g 4) redacted;
          redacted = re_sub bearer_secret_re (\<lambda>_. ''Bearer [REDACTED]'') redacted
      in re_sub token_secret_re (\<lambda>_. ''[REDACTED_TOKEN]'') redacted)"

definition truncate_utf8 :: "string \<Rightarrow> nat \<Rightarrow> string \<times> bool" where
  "truncate_utf8 value maximum_bytes =
     (let encoded = utf8_encode value in
      if length encoded \<le> maximum_bytes then (value, False)
      else (utf8_decode (take maximum_bytes encoded), True))"

section \<open>Validation\<close>

definition bounded_text :: "string \<Rightarrow> nat \<Rightarrow> bool \<Rightarrow> pyval \<Rightarrow> director_error + string" where
  "bounded_text name maximum allow_empty value =
     (case value of
        PStr s \<Rightarrow>
          if \<not> allow_empty \<and> py_strip s = []
          then Inl (ValidationError (name @ '' must not be empty''))
          else if maximum < length s \<or> has_nul s
          then Inl (ValidationError (name @ '' is outside its safety bound''))
          else Inr s
      | _ \<Rightarrow> Inl (ValidationError (name @ '' must be text'')))"

definition validate_workspace_id :: "pyval \<Rightarrow> director_error + string" where
  "validate_workspace_id value =
     bindE (bounded_text ''workspace_id'' 64 False value) (\<lambda>text.
     if \<not> workspace_id_re text then Inl (ValidationError ''workspace_id has an invalid format'')
     else Inr text)"

definition validate_identifier :: "string \<Rightarrow> pyval \<Rightarrow> director_error + string" where
  "validate_identifier name value =
     bindE (bounded_text name max_identifier_length False value) (\<lambda>text.
     if \<not> identifier_re text then Inl (ValidationError (name @ '' has an invalid format''))
     else Inr text)"

definition normalize_resource_id :: "pyval \<Rightarrow> director_error + string" where
  "normalize_resource_id value =
     bindE (bounded_text ''resource'' 240 False value) (\<lambda>text.
     if \<not> resource_re text \<or> contains_secret_like_content text
     then Inl (ValidationError ''resource has an invalid format'')
     else Inr text)"

definition sha256_text :: "(string \<Rightarrow> string) \<Rightarrow> pyval \<Rightarrow> director_error + string" where
  "sha256_text sha value =
     (case value of PStr s \<Rightarrow> Inr (sha s) | _ \<Rightarrow> Inl (ValidationError ''hash input must be text''))"

definition is_sensitive_path :: "string \<Rightarrow> bool" where
  "is_sensitive_path path =
     (let parts = map py_lower (py_split CHR ''/'' path)
      in list_ex (\<lambda>part. part \<in> set sensitive_dir_names) parts \<or>
         re_fullmatch sensitive_basename_re (last parts))"

text \<open>\<open>str(PurePosixPath(*pieces))\<close>: empty and \<open>.\<close> segments vanish, the rest is joined.\<close>

definition posix_join :: "string list \<Rightarrow> string" where
  "posix_join pieces = py_join ''/'' (filter (\<lambda>p. p \<noteq> [] \<and> p \<noteq> ''.'') pieces)"

definition normalize_relative_path :: "pyval \<Rightarrow> director_error + string" where
  "normalize_relative_path value =
     bindE (bounded_text ''path'' 240 False value) (\<lambda>raw.
     if py_strip raw \<noteq> raw \<or> prefix ''/'' raw \<or> prefix ''~'' raw \<or> CHR 0x5C \<in> set raw
     then Inl (ValidationError ''path must be a normalized relative POSIX path'')
     else
       let pieces = py_split CHR ''/'' raw in
       if list_ex (\<lambda>piece. piece \<in> {[], ''.'', ''..''}) pieces
       then Inl (ValidationError ''path must not contain traversal or empty segments'')
       else
         let normalized = posix_join pieces in
         if normalized \<noteq> raw \<or> is_sensitive_path normalized
         then Inl (ValidationError ''path is sensitive or not normalized'')
         else Inr normalized)"

definition patch_contains_secret_like_content :: "string \<Rightarrow> bool" where
  "patch_contains_secret_like_content value \<longleftrightarrow>
     contains_secret_like_content value \<or>
     contains_secret_like_content (py_join [CHR 0x0A]
       (map (\<lambda>line. if prefix ''+'' line \<or> prefix ''-'' line \<or> prefix '' '' line then drop 1 line else line)
         (filter (\<lambda>line. \<not> (prefix ''+++'' line \<or> prefix ''---'' line)) (py_splitlines value))))"

section \<open>Facts\<close>

lemma bounded_text_Inr:
  "bounded_text name maximum allow_empty value = Inr s \<longleftrightarrow>
     value = PStr s \<and> (allow_empty \<or> py_strip s \<noteq> []) \<and> length s \<le> maximum \<and> \<not> has_nul s"
  by (auto simp: bounded_text_def split: pyval.splits)

lemma validate_identifier_Inr:
  "validate_identifier name value = Inr s \<Longrightarrow> value = PStr s \<and> identifier_re s"
  by (auto simp: validate_identifier_def bounded_text_Inr result_simps split: if_splits)

lemma validate_workspace_id_Inr:
  "validate_workspace_id value = Inr s \<Longrightarrow> value = PStr s \<and> workspace_id_re s"
  by (auto simp: validate_workspace_id_def bounded_text_Inr result_simps split: if_splits)

lemma normalize_resource_id_Inr:
  "normalize_resource_id value = Inr s \<Longrightarrow>
     value = PStr s \<and> resource_re s \<and> \<not> contains_secret_like_content s"
  by (auto simp: normalize_resource_id_def bounded_text_Inr result_simps split: if_splits)

lemma posix_join_pieces:
  assumes "\<not> list_ex (\<lambda>piece. piece \<in> {[], ''.'', ''..''}) (py_split CHR ''/'' raw)"
  shows "posix_join (py_split CHR ''/'' raw) = raw"
proof -
  have "filter (\<lambda>p. p \<noteq> [] \<and> p \<noteq> ''.'') (py_split CHR ''/'' raw) = py_split CHR ''/'' raw"
    using assms by (auto simp: filter_id_conv list_ex_iff)
  then show ?thesis by (simp add: posix_join_def)
qed

text \<open>The specification of an admissible path, without reference to how it is checked.\<close>

definition admissible_path :: "string \<Rightarrow> bool" where
  "admissible_path p \<longleftrightarrow>
     py_strip p = p \<and> p \<noteq> [] \<and> length p \<le> 240 \<and> CHR 0x00 \<notin> set p \<and> CHR 0x5C \<notin> set p \<and>
     hd p \<noteq> CHR ''/'' \<and> hd p \<noteq> CHR ''~'' \<and>
     (\<forall>piece\<in>set (py_split CHR ''/'' p). piece \<noteq> [] \<and> piece \<noteq> ''.'' \<and> piece \<noteq> ''..'') \<and>
     \<not> is_sensitive_path p"

lemma prefix_singleton_hd: "prefix [c] s \<longleftrightarrow> s \<noteq> [] \<and> hd s = c"
  by (cases s) auto

lemma normalize_relative_path_Inr:
  "normalize_relative_path value = Inr p \<longleftrightarrow> value = PStr p \<and> admissible_path p"
proof (cases "\<exists>raw. bounded_text ''path'' 240 False value = Inr raw")
  case False
  then have "bounded_text ''path'' 240 False value \<noteq> Inr p" by blast
  moreover have "bounded_text ''path'' 240 False value = Inr p"
    if "value = PStr p" "admissible_path p"
    using that by (auto simp: bounded_text_Inr admissible_path_def has_nul_def)
  ultimately show ?thesis
    using False by (auto simp: normalize_relative_path_def result_simps)
next
  case True
  then obtain raw where raw: "bounded_text ''path'' 240 False value = Inr raw" by blast
  then have v: "value = PStr raw" "py_strip raw \<noteq> []" "length raw \<le> 240" "CHR 0x00 \<notin> set raw"
    by (auto simp: bounded_text_Inr has_nul_def)
  show ?thesis
  proof (cases "list_ex (\<lambda>piece. piece \<in> {[], ''.'', ''..''}) (py_split CHR ''/'' raw)")
    case True
    with raw v show ?thesis
      by (auto simp: normalize_relative_path_def admissible_path_def list_ex_iff)
  next
    case False
    with posix_join_pieces have "posix_join (py_split CHR ''/'' raw) = raw" .
    moreover have "raw \<noteq> []" using v by (auto simp: py_strip_def py_lstrip_def)
    ultimately show ?thesis using raw v False
      by (auto simp: normalize_relative_path_def admissible_path_def prefix_singleton_hd list_ex_iff)
  qed
qed

lemma normalize_paths_Inr:
  "mapE normalize_relative_path vs = Inr ps \<Longrightarrow> vs = map PStr ps \<and> (\<forall>p\<in>set ps. admissible_path p)"
  by (induction vs arbitrary: ps) (auto simp: result_simps normalize_relative_path_Inr)

lemma normalize_path_refused:
  "(\<exists>e. normalize_relative_path value = Inl e) \<longleftrightarrow> \<not> (\<exists>p. value = PStr p \<and> admissible_path p)"
  using normalize_relative_path_Inr by (metis sum.exhaust sum.distinct(1))

lemma redact_secrets_id: "\<not> contains_secret_like_content s \<Longrightarrow> redact_secrets s = s"
  by (simp add: contains_secret_like_content_def redact_secrets_def re_sub_id)

text \<open>Truncation keeps the longest prefix whose encoding fits.\<close>

lemma truncate_utf8_longest:
  assumes "truncate_utf8 s n = (t, flag)"
  obtains u where "s = t @ u" "utf8_size t \<le> n" "flag \<longleftrightarrow> u \<noteq> []" "u = [] \<or> n < utf8_size (t @ [hd u])"
proof (cases "length (utf8_encode s) \<le> n")
  case True
  with assms show thesis by (intro that [of "[]"]) (auto simp: truncate_utf8_def utf8_size_def)
next
  case False
  obtain t' u where u: "s = t' @ u" "utf8_decode (take n (utf8_encode s)) = t'" "utf8_size t' \<le> n"
    "u = [] \<or> n < utf8_size (t' @ [hd u])"
    using utf8_cut [of s n] by blast
  have "t' = t" "flag" using assms False u(2) by (simp_all add: truncate_utf8_def)
  moreover have "u \<noteq> []" using u(1,3) False by (auto simp: utf8_size_def)
  ultimately show thesis using that u by blast
qed

section \<open>Resolution inside a workspace\<close>

text \<open>
  How an operating system resolves a path below a root directory: empty and \<open>.\<close> segments
  stay, \<open>..\<close> climbs one directory, possibly above the root.
\<close>

fun resolve_below :: "string list \<Rightarrow> string list \<Rightarrow> string list" where
  "resolve_below dir [] = dir"
| "resolve_below dir (piece # pieces) =
     (if piece = [] \<or> piece = ''.'' then resolve_below dir pieces
      else if piece = ''..'' then resolve_below (butlast dir) pieces
      else resolve_below (dir @ [piece]) pieces)"

lemma resolve_below_plain:
  "\<forall>piece\<in>set pieces. piece \<noteq> [] \<and> piece \<noteq> ''.'' \<and> piece \<noteq> ''..'' \<Longrightarrow>
     resolve_below dir pieces = dir @ pieces"
  by (induction pieces arbitrary: dir) auto

text \<open>C8: A path that \<open>normalize_relative_path\<close> accepts is returned unchanged, and resolving
  it below any root directory ends strictly inside that root, at a place whose directory names
  are none of the protected ones and whose last name does not look like a credential file.\<close>

theorem normalize_relative_path_contained:
  assumes "normalize_relative_path value = Inr p"
  shows "value = PStr p \<and>
     resolve_below base (py_split CHR ''/'' p) = base @ py_split CHR ''/'' p \<and>
     strict_prefix base (resolve_below base (py_split CHR ''/'' p)) \<and>
     (\<forall>piece\<in>set (py_split CHR ''/'' p). py_lower piece \<notin> set sensitive_dir_names) \<and>
     \<not> re_fullmatch sensitive_basename_re (py_lower (last (py_split CHR ''/'' p)))"
proof -
  from assms have v: "value = PStr p" and a: "admissible_path p"
    by (simp_all add: normalize_relative_path_Inr)
  then have "\<forall>piece\<in>set (py_split CHR ''/'' p). piece \<noteq> [] \<and> piece \<noteq> ''.'' \<and> piece \<noteq> ''..''"
    by (simp add: admissible_path_def)
  then have r: "resolve_below base (py_split CHR ''/'' p) = base @ py_split CHR ''/'' p"
    by (rule resolve_below_plain)
  from a have "\<not> is_sensitive_path p" by (simp add: admissible_path_def)
  then show ?thesis
    using v r by (auto simp: is_sensitive_path_def Let_def list_ex_iff last_map strict_prefix_def)
qed

lemma normalize_relative_path_contained_witness:
  "strict_prefix [''srv'', ''ws''] (resolve_below [''srv'', ''ws''] (py_split CHR ''/'' ''src/app.py''))"
proof -
  have "normalize_relative_path (PStr ''src/app.py'') = Inr ''src/app.py''" by code_simp
  from normalize_relative_path_contained [OF this, of "[''srv'', ''ws'']"] show ?thesis by blast
qed

text \<open>C35: The checks of \<open>normalize_relative_path\<close> accept exactly the admissible paths: text of
  at most 240 characters without surrounding space, NUL or backslash, that starts with neither
  slash nor tilde, has no empty, \<open>.\<close> or \<open>..\<close> segment and touches no sensitive name; and the
  result can be validated again with the same outcome.\<close>

theorem normalize_relative_path_exact:
  "(normalize_relative_path value = Inr p \<longleftrightarrow> value = PStr p \<and> admissible_path p) \<and>
   ((\<exists>e. normalize_relative_path value = Inl e) \<longleftrightarrow> (\<nexists>q. value = PStr q \<and> admissible_path q)) \<and>
   bindE (normalize_relative_path value) (\<lambda>q. normalize_relative_path (PStr q)) =
     normalize_relative_path value"
proof -
  have "bindE (normalize_relative_path value) (\<lambda>q. normalize_relative_path (PStr q)) =
        normalize_relative_path value"
  proof (cases "normalize_relative_path value")
    case (Inr q)
    then have "value = PStr q" by (simp add: normalize_relative_path_Inr)
    with Inr show ?thesis by simp
  qed simp
  then show ?thesis using normalize_relative_path_Inr normalize_path_refused by blast
qed

end
