(* ===== verification/WriterLeases.thy ===== *)
theory WriterLeases
  imports DirectorText
begin

text \<open>
  \<open>WriterLease\<close> and \<open>WriterLeaseManager\<close> of \<open>src/src/chatgpt_dev_mcp/director.py\<close>: leases over
  path and resource scopes. The state holds the dictionary \<open>self._leases\<close> in insertion order,
  the time to live, and the notifications that the persistence callback \<open>on_change\<close> accepted.
  The callback is the parameter \<open>persist\<close>: it is false where the callback raises. The clock
  reading and the fresh \<open>uuid4\<close> of an operation are arguments of the operation. The
  \<open>isinstance(lease, WriterLease)\<close> tests are the types of the model.
\<close>

section \<open>Leases\<close>

record writer_lease =
  wl_workspace_id :: string
  wl_working_tree_id :: string
  wl_owner_id :: string
  wl_task_id :: string
  wl_paths :: "string list"
  wl_resources :: "string list"
  wl_lease_id :: string
  wl_expires_at :: time
  wl_base_revision :: string
  wl_scope_hashes :: "(string \<times> string) list"
  wl_workspace_state_hash :: string
  wl_workspace_wide :: bool
  wl_acquired_at :: time

definition lease_as_dict :: "writer_lease \<Rightarrow> (string \<times> pyval) list" where
  "lease_as_dict l =
     [(''workspace_id'', PStr (wl_workspace_id l)),
      (''working_tree_id'', PStr (wl_working_tree_id l)),
      (''owner_id'', PStr (wl_owner_id l)),
      (''task_id'', PStr (wl_task_id l)),
      (''paths'', PList (map PStr (wl_paths l))),
      (''resources'', PList (map PStr (wl_resources l))),
      (''lease_id'', PStr (wl_lease_id l)),
      (''expires_at'', PFloat (wl_expires_at l)),
      (''base_revision'', PStr (wl_base_revision l)),
      (''scope_hashes'', PDict (map (\<lambda>(p, h). (p, PStr h)) (wl_scope_hashes l))),
      (''workspace_state_hash'', PStr (wl_workspace_state_hash l)),
      (''workspace_wide'', PBool (wl_workspace_wide l)),
      (''acquired_at'', PFloat (wl_acquired_at l))]"

record lease_manager =
  lm_ttl_seconds :: time
  lm_leases :: "writer_lease list"
  lm_notified :: "(writer_lease \<times> string) list"

type_synonym 'a lease_op = "(lease_manager, director_error, 'a) step"

type_synonym lease_callback = "writer_lease \<Rightarrow> string \<Rightarrow> bool"

definition lease_manager_init :: "time \<Rightarrow> director_error + lease_manager" where
  "lease_manager_init ttl_seconds =
     (if \<not> (1 \<le> ttl_seconds \<and> ttl_seconds \<le> 24 * 60 * 60)
      then Inl (ValidationError ''ttl_seconds is outside its safety bound'')
      else Inr \<lparr>lm_ttl_seconds = ttl_seconds, lm_leases = [], lm_notified = []\<rparr>)"

section \<open>Operations\<close>

definition lease_notify :: "lease_callback \<Rightarrow> writer_lease \<Rightarrow> string \<Rightarrow> unit lease_op" where
  "lease_notify persist lease state =
     (if persist lease state
      then updS (\<lambda>m. m\<lparr>lm_notified := lm_notified m @ [(lease, state)]\<rparr>)
      else failS CallbackRaised)"

definition lease_store :: "writer_lease \<Rightarrow> unit lease_op" where
  "lease_store lease = updS (\<lambda>m. m\<lparr>lm_leases := kset wl_lease_id lease (lm_leases m)\<rparr>)"

definition lease_forget :: "string \<Rightarrow> unit lease_op" where
  "lease_forget lease_id = updS (\<lambda>m. m\<lparr>lm_leases := kpop wl_lease_id lease_id (lm_leases m)\<rparr>)"

definition lease_paths_overlap :: "string \<Rightarrow> string \<Rightarrow> bool" where
  "lease_paths_overlap first second = folded_overlap first second"

fun lease_prune_ids :: "lease_callback \<Rightarrow> string list \<Rightarrow> unit lease_op" where
  "lease_prune_ids persist [] = retS ()"
| "lease_prune_ids persist (lease_id # ids) =
     readS (\<lambda>m. case kget wl_lease_id lease_id (lm_leases m) of
         None \<Rightarrow> lease_prune_ids persist ids
       | Some lease \<Rightarrow>
           bindS (lease_notify persist lease ''expired'') (\<lambda>_.
           bindS (lease_forget lease_id) (\<lambda>_. lease_prune_ids persist ids)))"

definition lease_prune :: "lease_callback \<Rightarrow> time \<Rightarrow> unit lease_op" where
  "lease_prune persist now =
     readS (\<lambda>m. lease_prune_ids persist
       (map wl_lease_id (filter (\<lambda>l. wl_expires_at l \<le> now) (lm_leases m))))"

definition lease_active_values :: "lease_callback \<Rightarrow> time \<Rightarrow> writer_lease list lease_op" where
  "lease_active_values persist now =
     bindS (lease_prune persist now) (\<lambda>_. readS (\<lambda>m. retS (lm_leases m)))"

text \<open>The loop of \<open>acquire\<close> over the active leases: why the first lease that stands in the way
  does so.\<close>

definition lease_refusal ::
  "writer_lease \<Rightarrow> string \<Rightarrow> string \<Rightarrow> string list \<Rightarrow> string list \<Rightarrow> bool \<Rightarrow> string option" where
  "lease_refusal current workspace tree paths resources workspace_wide =
     (if intersects (wl_resources current) resources
      then Some ''runtime resource already has an active writer''
      else if wl_workspace_id current \<noteq> workspace then None
      else if wl_workspace_wide current \<or> workspace_wide
      then Some ''working tree already has a workspace-wide writer''
      else if wl_working_tree_id current = tree \<and>
        list_ex (\<lambda>first. list_ex (\<lambda>second. lease_paths_overlap first second) paths) (wl_paths current)
      then Some ''writer lease paths overlap''
      else None)"

fun first_refusal :: "(writer_lease \<Rightarrow> string option) \<Rightarrow> writer_lease list \<Rightarrow> string option" where
  "first_refusal f [] = None"
| "first_refusal f (l # ls) = (case f l of Some msg \<Rightarrow> Some msg | None \<Rightarrow> first_refusal f ls)"

text \<open>The pairs \<open>(path, digest)\<close> of a scope snapshot, each inside the given scope.\<close>

definition parse_scope_hash ::
  "string \<Rightarrow> bool \<Rightarrow> string list \<Rightarrow> pyval \<times> pyval \<Rightarrow> director_error + (string \<times> string)" where
  "parse_scope_hash outside workspace_wide allowed_paths item =
     (case item of (path, digest) \<Rightarrow>
     bindE (normalize_relative_path path) (\<lambda>normalized.
     if \<not> workspace_wide \<and> \<not> list_ex (\<lambda>allowed. path_under normalized allowed) allowed_paths
     then Inl (ValidationError outside)
     else case digest of
         PStr d \<Rightarrow> if hex64 d then Inr (normalized, d)
                   else Inl (ValidationError ''scope hash must be sha256 hex'')
       | _ \<Rightarrow> Inl (ValidationError ''scope hash must be sha256 hex'')))"

record lease_request =
  rq_workspace_id :: pyval
  rq_owner_id :: pyval
  rq_working_tree_id :: pyval
  rq_task_id :: pyval
  rq_paths :: "pyval list option"
  rq_resources :: "pyval list"
  rq_base_revision :: pyval
  rq_scope_hashes :: "(pyval \<times> pyval) list"
  rq_workspace_state_hash :: pyval
  rq_workspace_wide :: pyval

text \<open>The validation of \<open>acquire\<close> before the lock is taken, ending in the lease to grant.\<close>

definition lease_parse_request ::
  "time \<Rightarrow> time \<Rightarrow> string \<Rightarrow> lease_request \<Rightarrow> director_error + writer_lease" where
  "lease_parse_request ttl now uuid rq =
     bindE (validate_workspace_id (rq_workspace_id rq)) (\<lambda>workspace.
     bindE (validate_identifier ''owner_id'' (rq_owner_id rq)) (\<lambda>owner.
     bindE (validate_identifier ''working_tree_id''
       (if rq_working_tree_id rq \<noteq> PNone then rq_working_tree_id rq
        else PStr (''workspace:'' @ workspace))) (\<lambda>tree.
     bindE (validate_identifier ''task_id''
       (if rq_task_id rq \<noteq> PNone then rq_task_id rq else PStr (''legacy:'' @ owner))) (\<lambda>task.
     bindE (case rq_paths rq of
         None \<Rightarrow> Inr True
       | Some _ \<Rightarrow> (case rq_workspace_wide rq of PBool b \<Rightarrow> Inr b
                    | _ \<Rightarrow> Inl (ValidationError ''workspace_wide must be boolean''))) (\<lambda>workspace_wide.
     bindE (mapE normalize_relative_path (case rq_paths rq of None \<Rightarrow> [] | Some ps \<Rightarrow> ps)) (\<lambda>paths.
     if \<not> distinct paths then Inl (ValidationError ''lease paths must be unique'') else
     bindE (mapE normalize_resource_id (rq_resources rq)) (\<lambda>resources.
     if \<not> distinct resources then Inl (ValidationError ''lease resources must be unique'') else
     if \<not> workspace_wide \<and> paths = [] \<and> resources = []
     then Inl (ValidationError ''INVALID_LEASE_SCOPE'') else
     bindE (bounded_text ''base_revision'' 128 False (rq_base_revision rq)) (\<lambda>revision.
     bindE (bounded_text ''workspace_state_hash'' 128 True (rq_workspace_state_hash rq)) (\<lambda>state_hash.
     bindE (mapE (parse_scope_hash ''scope hash path is outside lease paths'' workspace_wide paths)
       (rq_scope_hashes rq)) (\<lambda>parsed_hashes.
     Inr \<lparr>wl_workspace_id = workspace, wl_working_tree_id = tree, wl_owner_id = owner,
          wl_task_id = task, wl_paths = paths, wl_resources = resources, wl_lease_id = uuid,
          wl_expires_at = now + ttl, wl_base_revision = revision,
          wl_scope_hashes = sort parsed_hashes, wl_workspace_state_hash = state_hash,
          wl_workspace_wide = workspace_wide, wl_acquired_at = now\<rparr>))))))))))"

definition lease_acquire ::
  "lease_callback \<Rightarrow> time \<Rightarrow> string \<Rightarrow> lease_request \<Rightarrow> writer_lease lease_op" where
  "lease_acquire persist now uuid rq =
     readS (\<lambda>m0. checkS (lease_parse_request (lm_ttl_seconds m0) now uuid rq) (\<lambda>lease.
     bindS (lease_active_values persist now) (\<lambda>active.
     case first_refusal (\<lambda>current. lease_refusal current (wl_workspace_id lease)
            (wl_working_tree_id lease) (wl_paths lease) (wl_resources lease)
            (wl_workspace_wide lease)) active of
       Some msg \<Rightarrow> failS (LeaseConflict msg)
     | None \<Rightarrow>
         bindS (lease_notify persist lease ''active'') (\<lambda>_.
         bindS (lease_store lease) (\<lambda>_. retS lease)))))"

text \<open>The entry under the id of \<open>lease\<close>, when it still belongs to the same owner.\<close>

definition lease_current_of :: "writer_lease \<Rightarrow> writer_lease lease_op" where
  "lease_current_of lease =
     readS (\<lambda>m. case kget wl_lease_id (wl_lease_id lease) (lm_leases m) of
         None \<Rightarrow> failS (LeaseConflict ''lease is not current'')
       | Some current \<Rightarrow>
           if wl_owner_id current \<noteq> wl_owner_id lease
           then failS (LeaseConflict ''lease is not current'') else retS current)"

definition lease_refresh :: "lease_callback \<Rightarrow> time \<Rightarrow> writer_lease \<Rightarrow> writer_lease lease_op" where
  "lease_refresh persist now lease =
     bindS (lease_prune persist now) (\<lambda>_.
     bindS (lease_current_of lease) (\<lambda>current.
     readS (\<lambda>m. let refreshed = current\<lparr>wl_expires_at := now + lm_ttl_seconds m\<rparr> in
       bindS (lease_notify persist refreshed ''active'') (\<lambda>_.
       bindS (lease_store refreshed) (\<lambda>_. retS refreshed)))))"

definition lease_update_snapshot ::
  "lease_callback \<Rightarrow> time \<Rightarrow> writer_lease \<Rightarrow> pyval \<Rightarrow> (pyval \<times> pyval) list \<Rightarrow> pyval
     \<Rightarrow> writer_lease lease_op" where
  "lease_update_snapshot persist now lease base_revision scope_hashes workspace_state_hash =
     checkS (bounded_text ''base_revision'' 128 False base_revision) (\<lambda>revision.
     checkS (bounded_text ''workspace_state_hash'' 128 True workspace_state_hash) (\<lambda>state_hash.
     checkS (mapE (parse_scope_hash ''snapshot path is outside lease scope''
         (wl_workspace_wide lease) (wl_paths lease)) scope_hashes) (\<lambda>parsed.
     bindS (lease_prune persist now) (\<lambda>_.
     bindS (lease_current_of lease) (\<lambda>current.
     let updated = current\<lparr>wl_base_revision := revision, wl_scope_hashes := sort parsed,
           wl_workspace_state_hash := state_hash\<rparr> in
     bindS (lease_notify persist updated ''active'') (\<lambda>_.
     bindS (lease_store updated) (\<lambda>_. retS updated)))))))"

definition lease_release :: "lease_callback \<Rightarrow> writer_lease \<Rightarrow> unit lease_op" where
  "lease_release persist lease =
     bindS (lease_current_of lease) (\<lambda>current.
     bindS (lease_notify persist current ''released'') (\<lambda>_.
     lease_forget (wl_lease_id lease)))"

definition lease_suspend :: "lease_callback \<Rightarrow> writer_lease \<Rightarrow> unit lease_op" where
  "lease_suspend persist lease =
     bindS (lease_current_of lease) (\<lambda>current.
     bindS (lease_notify persist current ''stale'') (\<lambda>_.
     lease_forget (wl_lease_id lease)))"

definition restore_conflict :: "writer_lease \<Rightarrow> writer_lease \<Rightarrow> bool" where
  "restore_conflict active lease \<longleftrightarrow>
     wl_workspace_id active = wl_workspace_id lease \<and>
     (wl_workspace_wide active \<or> wl_workspace_wide lease \<or>
      list_ex (\<lambda>left. list_ex (\<lambda>right. lease_paths_overlap left right) (wl_paths lease))
        (wl_paths active) \<or>
      intersects (wl_resources active) (wl_resources lease))"

fun lease_restore_loop ::
  "time \<Rightarrow> writer_lease list \<Rightarrow> writer_lease list \<Rightarrow> writer_lease list lease_op" where
  "lease_restore_loop current_time restored [] = retS restored"
| "lease_restore_loop current_time restored (lease # leases) =
     readS (\<lambda>m.
       if wl_expires_at lease \<le> current_time \<or>
          list_ex (\<lambda>active. restore_conflict active lease) (lm_leases m)
       then lease_restore_loop current_time restored leases
       else bindS (lease_store lease) (\<lambda>_.
            lease_restore_loop current_time (restored @ [lease]) leases))"

definition lease_restore ::
  "lease_callback \<Rightarrow> time \<Rightarrow> writer_lease list \<Rightarrow> writer_lease list lease_op" where
  "lease_restore persist current_time leases =
     bindS (lease_prune persist current_time) (\<lambda>_. lease_restore_loop current_time [] leases)"

definition lease_get :: "lease_callback \<Rightarrow> time \<Rightarrow> pyval \<Rightarrow> writer_lease option lease_op" where
  "lease_get persist now lease_id =
     checkS (validate_identifier ''lease_id'' lease_id) (\<lambda>lease_key.
     bindS (lease_prune persist now) (\<lambda>_.
     readS (\<lambda>m. retS (kget wl_lease_id lease_key (lm_leases m)))))"

definition in_view :: "string \<Rightarrow> string option \<Rightarrow> writer_lease \<Rightarrow> bool" where
  "in_view workspace tree lease \<longleftrightarrow> wl_workspace_id lease = workspace \<and>
     (case tree of None \<Rightarrow> True | Some t \<Rightarrow> wl_working_tree_id lease = t)"

definition optional_tree :: "pyval \<Rightarrow> director_error + string option" where
  "optional_tree working_tree_id =
     (if working_tree_id = PNone then Inr None
      else bindE (validate_identifier ''working_tree_id'' working_tree_id) (\<lambda>t. Inr (Some t)))"

definition lease_active ::
  "lease_callback \<Rightarrow> time \<Rightarrow> pyval \<Rightarrow> pyval \<Rightarrow> writer_lease list lease_op" where
  "lease_active persist now workspace_id working_tree_id =
     checkS (validate_workspace_id workspace_id) (\<lambda>workspace.
     checkS (optional_tree working_tree_id) (\<lambda>tree.
     bindS (lease_active_values persist now) (\<lambda>active.
     retS (sort_key wl_lease_id (filter (in_view workspace tree) active)))))"

definition lease_observed_active :: "time \<Rightarrow> pyval \<Rightarrow> pyval \<Rightarrow> writer_lease list lease_op" where
  "lease_observed_active now workspace_id working_tree_id =
     checkS (validate_workspace_id workspace_id) (\<lambda>workspace.
     checkS (optional_tree working_tree_id) (\<lambda>tree.
     readS (\<lambda>m. retS (sort_key wl_lease_id
       (filter (\<lambda>lease. now < wl_expires_at lease \<and> in_view workspace tree lease) (lm_leases m))))))"

definition lease_active_all :: "lease_callback \<Rightarrow> time \<Rightarrow> writer_lease list lease_op" where
  "lease_active_all persist now =
     bindS (lease_active_values persist now) (\<lambda>active. retS (sort_key wl_lease_id active))"

definition lease_covers ::
  "writer_lease \<Rightarrow> pyval list \<Rightarrow> pyval list \<Rightarrow> director_error + bool" where
  "lease_covers lease paths resources =
     bindE (mapE normalize_relative_path paths) (\<lambda>parsed_paths.
     bindE (mapE normalize_resource_id resources) (\<lambda>parsed_resources.
     if \<not> wl_workspace_wide lease \<and>
        list_ex (\<lambda>path. \<not> list_ex (\<lambda>allowed. path_under path allowed) (wl_paths lease)) parsed_paths
     then Inr False
     else Inr (set parsed_resources \<subseteq> set (wl_resources lease))))"

definition lease_current ::
  "lease_callback \<Rightarrow> time \<Rightarrow> pyval \<Rightarrow> writer_lease option lease_op" where
  "lease_current persist now workspace_id =
     bindS (lease_active persist now workspace_id PNone) (\<lambda>active.
     retS (case active of [] \<Rightarrow> None | l # _ \<Rightarrow> Some l))"

section \<open>Sequences of operations\<close>

datatype lease_call =
    LAcquire time string lease_request
  | LRefresh time writer_lease
  | LUpdateSnapshot time writer_lease pyval "(pyval \<times> pyval) list" pyval
  | LRelease writer_lease
  | LSuspend writer_lease
  | LRestore time "writer_lease list"
  | LGet time pyval
  | LActive time pyval pyval
  | LObservedActive time pyval pyval
  | LActiveAll time
  | LCurrent time pyval

text \<open>The state that a call leaves, whether it returns or raises.\<close>

fun lease_run :: "lease_callback \<Rightarrow> lease_call \<Rightarrow> lease_manager \<Rightarrow> lease_manager" where
  "lease_run persist (LAcquire now uuid rq) m = snd (lease_acquire persist now uuid rq m)"
| "lease_run persist (LRefresh now l) m = snd (lease_refresh persist now l m)"
| "lease_run persist (LUpdateSnapshot now l r h s) m = snd (lease_update_snapshot persist now l r h s m)"
| "lease_run persist (LRelease l) m = snd (lease_release persist l m)"
| "lease_run persist (LSuspend l) m = snd (lease_suspend persist l m)"
| "lease_run persist (LRestore now ls) m = snd (lease_restore persist now ls m)"
| "lease_run persist (LGet now i) m = snd (lease_get persist now i m)"
| "lease_run persist (LActive now w t) m = snd (lease_active persist now w t m)"
| "lease_run persist (LObservedActive now w t) m = snd (lease_observed_active now w t m)"
| "lease_run persist (LActiveAll now) m = snd (lease_active_all persist now m)"
| "lease_run persist (LCurrent now w) m = snd (lease_current persist now w m)"

fun is_restore :: "lease_call \<Rightarrow> bool" where
  "is_restore (LRestore _ _) = True"
| "is_restore _ = False"

text \<open>The states of a manager that serves calls, with or without \<open>restore\<close> among them.\<close>

inductive lease_reachable :: "lease_callback \<Rightarrow> bool \<Rightarrow> lease_manager \<Rightarrow> bool"
  for persist :: lease_callback and restores :: bool where
  lease_start: "lease_manager_init ttl = Inr m \<Longrightarrow> lease_reachable persist restores m"
| lease_call: "lease_reachable persist restores m \<Longrightarrow> restores \<or> \<not> is_restore call \<Longrightarrow>
    lease_reachable persist restores (lease_run persist call m)"

inductive_cases lease_reachableE: "lease_reachable persist restores m"

section \<open>How an operation changes the state\<close>

interpretation lease_dict: keyed_store wl_lease_id "kget wl_lease_id" "kset wl_lease_id"
    "kpop wl_lease_id" set "kdistinct wl_lease_id"
  by (rule keyed_list_store)

abbreviation lease_recorded :: "writer_lease \<Rightarrow> string \<Rightarrow> lease_manager \<Rightarrow> lease_manager" where
  "lease_recorded l state m \<equiv>
     m\<lparr>lm_notified := lm_notified m @ [(l, state)], lm_leases := kset wl_lease_id l (lm_leases m)\<rparr>"

abbreviation lease_erased :: "writer_lease \<Rightarrow> string \<Rightarrow> lease_manager \<Rightarrow> lease_manager" where
  "lease_erased l state m \<equiv>
     m\<lparr>lm_notified := lm_notified m @ [(l, state)],
       lm_leases := kpop wl_lease_id (wl_lease_id l) (lm_leases m)\<rparr>"

lemma ends_lease_notify [ends_simps]:
  "ends (lease_notify persist l state) Q m =
     (if persist l state then Q (Inr ()) (m\<lparr>lm_notified := lm_notified m @ [(l, state)]\<rparr>)
      else Q (Inl CallbackRaised) m)"
  by (simp add: ends_simps lease_notify_def)

lemma ends_lease_store [ends_simps]:
  "ends (lease_store l) Q m = Q (Inr ()) (m\<lparr>lm_leases := kset wl_lease_id l (lm_leases m)\<rparr>)"
  by (simp add: ends_simps lease_store_def)

lemma ends_lease_forget [ends_simps]:
  "ends (lease_forget i) Q m = Q (Inr ()) (m\<lparr>lm_leases := kpop wl_lease_id i (lm_leases m)\<rparr>)"
  by (simp add: ends_simps lease_forget_def)

lemma ends_current_of:
  assumes "\<And>e. Q (Inl e) m"
    and "\<And>c. c \<in> set (lm_leases m) \<Longrightarrow> wl_lease_id c = wl_lease_id l \<Longrightarrow>
      wl_owner_id c = wl_owner_id l \<Longrightarrow> Q (Inr c) m"
  shows "ends (lease_current_of l) Q m"
  using assms by (auto simp: lease_current_of_def ends_simps dest: kget_SomeD split: option.split)

text \<open>Pruning erases expired leases only, one after the other.\<close>

lemma ends_prune_ids:
  assumes "I m"
    and erase: "\<And>m l. I m \<Longrightarrow> l \<in> set (lm_leases m) \<Longrightarrow> wl_lease_id l \<in> set ids \<Longrightarrow>
      persist l ''expired'' \<Longrightarrow> I (lease_erased l ''expired'' m)"
  shows "ends (lease_prune_ids persist ids) (\<lambda>_ t. I t) m"
  using assms
proof (induction ids arbitrary: m)
  case (Cons i ids)
  show ?case
  proof (cases "kget wl_lease_id i (lm_leases m)")
    case None
    with Cons show ?thesis by (simp add: ends_simps)
  next
    case (Some l)
    then have l: "l \<in> set (lm_leases m)" "wl_lease_id l = i" by (auto dest: kget_SomeD)
    have "ends (lease_prune_ids persist ids) (\<lambda>_ t. I t) (lease_erased l ''expired'' m)"
      if "persist l ''expired''"
      using Cons.IH Cons.prems(2) [OF Cons.prems(1) l(1) _ that] Cons.prems(2) l by simp
    with Some l Cons.prems(1) show ?thesis by (auto simp: ends_simps)
  qed
qed (simp add: ends_simps)

lemma ends_prune:
  assumes "I m"
    and "\<And>m l. I m \<Longrightarrow> l \<in> set (lm_leases m) \<Longrightarrow> persist l ''expired'' \<Longrightarrow> I (lease_erased l ''expired'' m)"
  shows "ends (lease_prune persist now) (\<lambda>_ t. I t) m"
  unfolding lease_prune_def using assms by (simp add: ends_simps ends_prune_ids)


text \<open>
  What a property of the manager's state must satisfy for every operation to keep it: it
  survives the notified removal of a lease, the notified replacement of a lease by one of the
  same scope, and the notified admission of a lease that no present lease refuses.
\<close>

definition same_scope :: "writer_lease \<Rightarrow> writer_lease \<Rightarrow> bool" where
  "same_scope l k \<longleftrightarrow>
     wl_lease_id l = wl_lease_id k \<and> wl_workspace_id l = wl_workspace_id k \<and>
     wl_working_tree_id l = wl_working_tree_id k \<and> wl_paths l = wl_paths k \<and>
     wl_resources l = wl_resources k \<and> wl_workspace_wide l = wl_workspace_wide k \<and>
     wl_owner_id l = wl_owner_id k \<and> wl_task_id l = wl_task_id k"

definition leases_conflict :: "writer_lease \<Rightarrow> writer_lease \<Rightarrow> bool" where
  "leases_conflict l k \<longleftrightarrow>
     intersects (wl_resources l) (wl_resources k) \<or>
     wl_workspace_id l = wl_workspace_id k \<and>
       (wl_workspace_wide l \<or> wl_workspace_wide k \<or>
        wl_working_tree_id l = wl_working_tree_id k \<and>
          (\<exists>p\<in>set (wl_paths l). \<exists>q\<in>set (wl_paths k). folded_overlap p q))"

lemma first_refusal_None: "first_refusal f ls = None \<longleftrightarrow> (\<forall>l\<in>set ls. f l = None)"
  by (induction ls) (auto split: option.splits)

lemma lease_refusal_None:
  "lease_refusal l (wl_workspace_id k) (wl_working_tree_id k) (wl_paths k) (wl_resources k)
     (wl_workspace_wide k) = None \<longleftrightarrow> \<not> leases_conflict l k"
  by (auto simp: lease_refusal_def leases_conflict_def lease_paths_overlap_def list_ex_iff)

locale lease_kept =
  fixes persist :: lease_callback and I :: "lease_manager \<Rightarrow> bool"
  assumes erase: "I m \<Longrightarrow> l \<in> set (lm_leases m) \<Longrightarrow> persist l state \<Longrightarrow> state \<noteq> ''active'' \<Longrightarrow>
      I (lease_erased l state m)"
    and renew: "I m \<Longrightarrow> l \<in> set (lm_leases m) \<Longrightarrow> same_scope k l \<Longrightarrow> persist k ''active'' \<Longrightarrow>
      I (lease_recorded k ''active'' m)"
    and grant: "I m \<Longrightarrow> \<forall>l\<in>set (lm_leases m). \<not> leases_conflict l k \<Longrightarrow> persist k ''active'' \<Longrightarrow>
      I (lease_recorded k ''active'' m)"
begin

lemma prune: "I m \<Longrightarrow> ends (lease_prune persist now) (\<lambda>_ t. I t) m"
  by (rule ends_prune) (simp_all add: erase)

lemma active_values: "I m \<Longrightarrow> ends (lease_active_values persist now)
    (\<lambda>r t. I t \<and> (\<forall>ls. r = Inr ls \<longrightarrow> ls = lm_leases t)) m"
  unfolding lease_active_values_def
  by (simp add: ends_simps) (erule ends_mono [OF prune], simp add: ends_simps split: sum.split)

lemma after_prune:
  assumes "I m" and "\<And>t. I t \<Longrightarrow> ends f (\<lambda>_ t. I t) t"
  shows "ends (bindS (lease_prune persist now) (\<lambda>_. f)) (\<lambda>_ t. I t) m"
  by (simp add: ends_simps) (rule ends_mono [OF prune [OF assms(1)]], simp add: assms(2) split: sum.split)

lemma after_current_of:
  assumes "I m" and "\<And>c. c \<in> set (lm_leases m) \<Longrightarrow> wl_lease_id c = wl_lease_id l \<Longrightarrow>
    ends (f c) (\<lambda>_ t. I t) m"
  shows "ends (bindS (lease_current_of l) f) (\<lambda>_ t. I t) m"
  unfolding ends_bindS using assms by (auto intro!: ends_current_of)

lemma acquire: "I m \<Longrightarrow> ends (lease_acquire persist now uuid rq) (\<lambda>_ t. I t) m"
  unfolding lease_acquire_def ends_readS
  apply (rule ends_checkS_I)
   apply simp
  apply (simp only: ends_bindS)
  apply (erule ends_mono [OF active_values])
  apply (auto simp: ends_simps first_refusal_None lease_refusal_None split: sum.split option.split
      intro: grant)
  done

lemma refresh: "I m \<Longrightarrow> ends (lease_refresh persist now l) (\<lambda>_ t. I t) m"
  unfolding lease_refresh_def
  by (intro after_prune after_current_of)
    (auto simp: ends_simps Let_def same_scope_def intro: renew)

lemma update_snapshot:
  "I m \<Longrightarrow> ends (lease_update_snapshot persist now l revision hashes state) (\<lambda>_ t. I t) m"
  unfolding lease_update_snapshot_def
  by (intro ends_checkS_I after_prune after_current_of)
    (auto simp: ends_simps Let_def same_scope_def intro: renew)

lemma release: "I m \<Longrightarrow> ends (lease_release persist l) (\<lambda>_ t. I t) m"
  unfolding lease_release_def
  by (intro after_current_of) (auto simp: ends_simps dest: erase [where state = "''released''"])

lemma suspend: "I m \<Longrightarrow> ends (lease_suspend persist l) (\<lambda>_ t. I t) m"
  unfolding lease_suspend_def
  by (intro after_current_of) (auto simp: ends_simps dest: erase [where state = "''stale''"])

lemma get: "I m \<Longrightarrow> ends (lease_get persist now i) (\<lambda>_ t. I t) m"
  unfolding lease_get_def by (intro ends_checkS_I after_prune) (auto simp: ends_simps)

lemma observed: "I m \<Longrightarrow> ends (lease_observed_active now w t) (\<lambda>_ t. I t) m"
  unfolding lease_observed_active_def by (intro ends_checkS_I) (auto simp: ends_simps)

lemma active: "I m \<Longrightarrow> ends (lease_active persist now w t) (\<lambda>_ t. I t) m"
  unfolding lease_active_def ends_bindS
  by (intro ends_checkS_I, simp_all add: ends_simps)
    (rule ends_mono [OF active_values], auto simp: ends_simps split: sum.split)

lemma active_all: "I m \<Longrightarrow> ends (lease_active_all persist now) (\<lambda>_ t. I t) m"
  unfolding lease_active_all_def ends_bindS
  by (rule ends_mono [OF active_values]) (auto simp: ends_simps split: sum.split)

lemma current: "I m \<Longrightarrow> ends (lease_current persist now w) (\<lambda>_ t. I t) m"
  unfolding lease_current_def ends_bindS
  by (rule ends_mono [OF active]) (auto simp: ends_simps split: sum.split)

lemmas operations = acquire refresh update_snapshot release suspend get observed active active_all
  current

lemma run: "I m \<Longrightarrow> \<not> is_restore call \<Longrightarrow> I (lease_run persist call m)"
  by (cases call) (simp_all add: operations [unfolded ends_snd])

lemma runs: "I m \<Longrightarrow> list_all (\<lambda>call. \<not> is_restore call) calls \<Longrightarrow> I (fold (lease_run persist) calls m)"
  by (induction calls arbitrary: m) (auto intro: run)

end

text \<open>An invariant of every manager holds of a fresh one, too.\<close>

locale lease_invariant = lease_kept persist I
  for persist :: lease_callback and I :: "lease_manager \<Rightarrow> bool" +
  assumes initial: "lease_manager_init ttl = Inr m \<Longrightarrow> I m"
begin

lemma reachable: "lease_reachable persist False m \<Longrightarrow> I m"
  by (induction rule: lease_reachable.induct) (auto intro: initial run)

end


section \<open>Mutual exclusion\<close>

definition exclusive :: "(writer_lease \<Rightarrow> writer_lease \<Rightarrow> bool) \<Rightarrow> lease_manager \<Rightarrow> bool" where
  "exclusive conflict m \<longleftrightarrow>
     kdistinct wl_lease_id (lm_leases m) \<and> conflict_free conflict (set (lm_leases m))"

text \<open>What \<open>acquire\<close> and \<open>restore\<close> both guard against: a clash inside one workspace.\<close>

definition workspace_conflict :: "writer_lease \<Rightarrow> writer_lease \<Rightarrow> bool" where
  "workspace_conflict l k \<longleftrightarrow>
     wl_workspace_id l = wl_workspace_id k \<and>
       (wl_workspace_wide l \<or> wl_workspace_wide k \<or>
        intersects (wl_resources l) (wl_resources k) \<or>
        wl_working_tree_id l = wl_working_tree_id k \<and>
          (\<exists>p\<in>set (wl_paths l). \<exists>q\<in>set (wl_paths k). folded_overlap p q))"

text \<open>A conflict test that depends on the scope only and that \<open>acquire\<close> enforces.\<close>

locale lease_discipline = admission conflict
  for conflict :: "writer_lease \<Rightarrow> writer_lease \<Rightarrow> bool" +
  assumes scope_only: "same_scope l k \<Longrightarrow> conflict x l \<Longrightarrow> conflict x k"
    and enforced: "conflict l k \<Longrightarrow> leases_conflict l k"
begin

lemma put_exclusive:
  assumes "exclusive conflict m" and "\<forall>l\<in>set (lm_leases m). \<not> conflict l k"
    and "lm_leases n = kset wl_lease_id k (lm_leases m)"
  shows "exclusive conflict n"
proof -
  have "conflict_free conflict {u \<in> set (lm_leases m). wl_lease_id u \<noteq> wl_lease_id k}"
    using assms(1) unfolding exclusive_def by (blast intro: drop)
  then have "conflict_free conflict (insert k {u \<in> set (lm_leases m). wl_lease_id u \<noteq> wl_lease_id k})"
    by (rule admit) (use assms(2) in simp)
  with assms show ?thesis by (simp add: exclusive_def set_kset kdistinct_kset)
qed

lemma invariant: "lease_invariant persist (exclusive conflict)"
proof unfold_locales
  show "exclusive conflict m" if "lease_manager_init ttl = Inr m" for ttl m
    using that by (auto simp: lease_manager_init_def exclusive_def kdistinct_def conflict_free_def
        split: if_splits)
next
  fix m l state assume "exclusive conflict m"
  then show "exclusive conflict (lease_erased l state m)"
    by (auto simp: exclusive_def kdistinct_kpop set_kpop intro: drop)
next
  fix m l k
  assume e: "exclusive conflict m" and l: "l \<in> set (lm_leases m)" and s: "same_scope k l"
  have "conflict_free conflict (insert k {u \<in> set (lm_leases m). wl_lease_id u \<noteq> wl_lease_id k})"
  proof (rule replace)
    show "{u \<in> set (lm_leases m). wl_lease_id u \<noteq> wl_lease_id k} \<subseteq> set (lm_leases m) - {l}"
      using s by (auto simp: same_scope_def)
  qed (use e l scope_only [OF s] in \<open>simp_all add: exclusive_def\<close>)
  with e show "exclusive conflict (lease_recorded k ''active'' m)"
    by (simp add: exclusive_def set_kset kdistinct_kset)
next
  fix m k assume "exclusive conflict m" and "\<forall>l\<in>set (lm_leases m). \<not> leases_conflict l k"
  then show "exclusive conflict (lease_recorded k ''active'' m)"
    by - (rule put_exclusive [of m k], auto dest: enforced)
qed

end

interpretation everywhere: lease_discipline leases_conflict
proof unfold_locales
  show "leases_conflict l k \<Longrightarrow> leases_conflict k l" for l k
    using folded_scope.overlap_sym
    by (auto simp: leases_conflict_def intersects_commute [of "wl_resources k"])
  show "same_scope l k \<Longrightarrow> leases_conflict x l \<Longrightarrow> leases_conflict x k" for l k x
    by (simp add: leases_conflict_def same_scope_def)
qed

interpretation in_workspace: lease_discipline workspace_conflict
proof unfold_locales
  show "workspace_conflict l k \<Longrightarrow> workspace_conflict k l" for l k
    using folded_scope.overlap_sym
    by (auto simp: workspace_conflict_def intersects_commute [of "wl_resources k"])
  show "same_scope l k \<Longrightarrow> workspace_conflict x l \<Longrightarrow> workspace_conflict x k" for l k x
    by (simp add: workspace_conflict_def same_scope_def)
  show "workspace_conflict l k \<Longrightarrow> leases_conflict l k" for l k
    by (auto simp: workspace_conflict_def leases_conflict_def)
qed

interpretation everywhere_inv: lease_invariant persist "exclusive leases_conflict"
  for persist :: lease_callback
  by (rule everywhere.invariant)

interpretation in_workspace_inv: lease_invariant persist "exclusive workspace_conflict"
  for persist :: lease_callback
  by (rule in_workspace.invariant)

lemma workspace_conflict_restore: "workspace_conflict l k \<Longrightarrow> restore_conflict l k"
  by (auto simp: workspace_conflict_def restore_conflict_def lease_paths_overlap_def list_ex_iff)

lemma restore_loop_exclusive:
  "exclusive workspace_conflict m \<Longrightarrow>
     ends (lease_restore_loop now restored ls) (\<lambda>_ t. exclusive workspace_conflict t) m"
proof (induction ls arbitrary: m restored)
  case (Cons l ls)
  have "exclusive workspace_conflict (m\<lparr>lm_leases := kset wl_lease_id l (lm_leases m)\<rparr>)"
    if "\<not> list_ex (\<lambda>active. restore_conflict active l) (lm_leases m)"
    using Cons.prems that
    by - (rule in_workspace.put_exclusive [of m l],
      auto simp: list_ex_iff dest: workspace_conflict_restore)
  with Cons show ?case by (simp add: ends_simps)
qed (simp add: ends_simps)

lemma restore_exclusive:
  "exclusive workspace_conflict m \<Longrightarrow>
     ends (lease_restore persist now ls) (\<lambda>_ t. exclusive workspace_conflict t) m"
  unfolding lease_restore_def
  by (rule in_workspace_inv.after_prune) (simp_all add: restore_loop_exclusive)

lemma reachable_in_workspace:
  "lease_reachable persist restores m \<Longrightarrow> exclusive workspace_conflict m"
proof (induction rule: lease_reachable.induct)
  case (lease_call m call)
  show ?case
  proof (cases "is_restore call")
    case True
    then obtain now ls where "call = LRestore now ls" by (cases call) auto
    with lease_call.IH restore_exclusive [unfolded ends_snd] show ?thesis by simp
  next
    case False
    with lease_call.IH show ?thesis by (rule in_workspace_inv.run)
  qed
qed (rule in_workspace_inv.initial)

section \<open>The notified history\<close>

text \<open>What a reader of the durable notifications reconstructs.\<close>

fun replay_leases :: "(writer_lease \<times> string) list \<Rightarrow> writer_lease list \<Rightarrow> writer_lease list" where
  "replay_leases [] d = d"
| "replay_leases ((l, state) # evs) d =
     replay_leases evs (if state = ''active'' then kset wl_lease_id l d
                        else kpop wl_lease_id (wl_lease_id l) d)"

lemma replay_leases_append: "replay_leases (a @ b) d = replay_leases b (replay_leases a d)"
  by (induction a d rule: replay_leases.induct) auto

interpretation history: lease_kept persist
    "\<lambda>m. \<exists>evs. lm_notified m = lm_notified start @ evs \<and> replay_leases evs (lm_leases start) = lm_leases m"
  for persist :: lease_callback and start :: lease_manager
  by unfold_locales (auto simp: replay_leases_append)


section \<open>Pruning with a callback that never raises\<close>

abbreviation quiet :: lease_callback where
  "quiet \<equiv> \<lambda>_ _. True"

definition unexpired :: "time \<Rightarrow> lease_manager \<Rightarrow> writer_lease list" where
  "unexpired now m = filter (\<lambda>l. now < wl_expires_at l) (lm_leases m)"

lemma prune_ids_quiet:
  "fst (lease_prune_ids quiet ids m) = Inr () \<and>
   lm_ttl_seconds (snd (lease_prune_ids quiet ids m)) = lm_ttl_seconds m \<and>
   lm_leases (snd (lease_prune_ids quiet ids m)) =
     filter (\<lambda>l. wl_lease_id l \<notin> set ids) (lm_leases m)"
proof (induction ids arbitrary: m)
  case (Cons i ids)
  have none: "filter (\<lambda>l. wl_lease_id l \<noteq> i \<and> wl_lease_id l \<notin> set ids) (lm_leases m) =
      filter (\<lambda>l. wl_lease_id l \<notin> set ids) (lm_leases m)"
    if "kget wl_lease_id i (lm_leases m) = None"
    using that by (auto simp: kget_None_iff image_iff intro!: filter_cong)
  show ?case
    using Cons none
    by (auto simp: readS_def bindS_def lease_notify_def lease_forget_def updS_def kpop_def
        dest!: kget_SomeD split: option.split)
qed (simp add: retS_def)

lemma prune_quiet:
  assumes "kdistinct wl_lease_id (lm_leases m)"
  obtains n where "lease_prune quiet now m = (Inr (), n)" "lm_leases n = unexpired now m"
    "lm_ttl_seconds n = lm_ttl_seconds m"
proof -
  let ?ids = "map wl_lease_id (filter (\<lambda>l. wl_expires_at l \<le> now) (lm_leases m))"
  have "wl_lease_id l \<notin> set ?ids \<longleftrightarrow> now < wl_expires_at l" if "l \<in> set (lm_leases m)" for l
    using that lease_dict.same_key_eq [OF assms] by (fastforce simp: not_le)
  then have "filter (\<lambda>l. wl_lease_id l \<notin> set ?ids) (lm_leases m) = unexpired now m"
    unfolding unexpired_def by (rule filter_cong [OF refl])
  with prune_ids_quiet [of ?ids m] that [of "snd (lease_prune_ids quiet ?ids m)"] show thesis
    by (simp add: lease_prune_def readS_def prod_eq_iff)
qed

lemma active_values_quiet:
  assumes "kdistinct wl_lease_id (lm_leases m)"
  obtains n where "lease_active_values quiet now m = (Inr (unexpired now m), n)"
    "lm_leases n = unexpired now m"
proof -
  obtain n where "lease_prune quiet now m = (Inr (), n)" "lm_leases n = unexpired now m"
    using prune_quiet [OF assms] by blast
  with that show thesis by (simp add: lease_active_values_def bindS_def readS_def retS_def)
qed

section \<open>Example states\<close>

definition example_request :: "string \<Rightarrow> string \<Rightarrow> string \<Rightarrow> string list \<Rightarrow> string list \<Rightarrow> lease_request" where
  "example_request workspace tree owner paths resources =
     \<lparr>rq_workspace_id = PStr workspace, rq_owner_id = PStr owner, rq_working_tree_id = PStr tree,
      rq_task_id = PNone, rq_paths = Some (map PStr paths), rq_resources = map PStr resources,
      rq_base_revision = PStr ''abc'', rq_scope_hashes = [], rq_workspace_state_hash = PStr [],
      rq_workspace_wide = PBool False\<rparr>"

definition example_manager :: lease_manager where
  "example_manager = \<lparr>lm_ttl_seconds = 60, lm_leases = [], lm_notified = []\<rparr>"

definition example_calls :: "lease_call list" where
  "example_calls =
     [LAcquire 0 ''l1'' (example_request ''repo'' ''tree-a'' ''w1'' [''src/app''] [''port:1'']),
      LAcquire 1 ''l2'' (example_request ''repo'' ''tree-a'' ''w2'' [''src/lib''] []),
      LAcquire 2 ''l3'' (example_request ''repo'' ''tree-b'' ''w3'' [''src/app''] []),
      LAcquire 3 ''l4'' (example_request ''repo'' ''tree-a'' ''w4'' [''SRC/app/main.py''] []),
      LAcquire 4 ''l5'' (example_request ''docs'' ''tree-c'' ''w5'' [''a''] [''port:1''])]"

definition example_leases :: lease_manager where
  "example_leases = fold (lease_run quiet) example_calls example_manager"

definition example_lease :: "string \<Rightarrow> string \<Rightarrow> string \<Rightarrow> string list \<Rightarrow> string list \<Rightarrow> time \<Rightarrow> writer_lease" where
  "example_lease lease_id tree owner paths resources now =
     \<lparr>wl_workspace_id = ''repo'', wl_working_tree_id = tree, wl_owner_id = owner,
      wl_task_id = ''legacy:'' @ owner, wl_paths = paths, wl_resources = resources,
      wl_lease_id = lease_id, wl_expires_at = now + 60, wl_base_revision = ''abc'',
      wl_scope_hashes = [], wl_workspace_state_hash = [], wl_workspace_wide = False,
      wl_acquired_at = now\<rparr>"

lemma example_leases_value:
  "lm_leases example_leases =
     [example_lease ''l1'' ''tree-a'' ''w1'' [''src/app''] [''port:1''] 0,
      example_lease ''l2'' ''tree-a'' ''w2'' [''src/lib''] [] 1,
      example_lease ''l3'' ''tree-b'' ''w3'' [''src/app''] [] 2]"
  by code_simp

lemma lease_reachable_fold:
  "lease_reachable persist restores m \<Longrightarrow> list_all (\<lambda>c. restores \<or> \<not> is_restore c) calls \<Longrightarrow>
     lease_reachable persist restores (fold (lease_run persist) calls m)"
  by (induction calls arbitrary: m) (auto intro: lease_reachable.lease_call)

lemma example_manager_reachable: "lease_reachable persist restores example_manager"
  by (rule lease_reachable.lease_start [of 60]) (simp add: lease_manager_init_def example_manager_def)

lemma example_leases_reachable: "lease_reachable quiet restores example_leases"
  unfolding example_leases_def
  by (rule lease_reachable_fold [OF example_manager_reachable]) (simp add: example_calls_def)

section \<open>Properties\<close>

text \<open>
  C1: Whatever sequence of calls other than \<open>restore\<close> a manager has served, and whichever
  notifications were refused, no two of its leases stand in each other's way: they share no
  runtime resource, and within a workspace neither is workspace-wide and, on the same working
  tree, no path of one lies at, above or below a path of the other up to case.
\<close>

theorem writer_leases_exclusive:
  assumes "lease_reachable persist False m"
    and "l \<in> set (lm_leases m)" and "k \<in> set (lm_leases m)" and "l \<noteq> k"
  shows "set (wl_resources l) \<inter> set (wl_resources k) = {} \<and>
    (wl_workspace_id l = wl_workspace_id k \<longrightarrow>
      \<not> wl_workspace_wide l \<and> \<not> wl_workspace_wide k \<and>
      (wl_working_tree_id l = wl_working_tree_id k \<longrightarrow>
        (\<forall>p\<in>set (wl_paths l). \<forall>q\<in>set (wl_paths k). \<not> lease_paths_overlap p q)))"
proof -
  have "\<not> leases_conflict l k"
    using everywhere_inv.reachable [OF assms(1)] assms(2-4) by (auto simp: exclusive_def conflict_free_def)
  then show ?thesis unfolding leases_conflict_def lease_paths_overlap_def intersects_iff by blast
qed

theorem writer_leases_exclusive_witness:
  "\<not> lease_paths_overlap ''src/app'' ''src/lib'' \<and> {''port:1''} \<inter> {} = ({} :: string set)"
  using writer_leases_exclusive [OF example_leases_reachable,
      of "example_lease ''l1'' ''tree-a'' ''w1'' [''src/app''] [''port:1''] 0"
        "example_lease ''l2'' ''tree-a'' ''w2'' [''src/lib''] [] 1"]
  by (simp add: example_leases_value) (simp add: example_lease_def)

text \<open>
  C36: With \<open>restore\<close> among the calls the guarantee shrinks to one workspace, where leases still
  exclude each other, resources included.
\<close>

theorem restored_leases_exclusive_in_workspace:
  assumes "lease_reachable persist True m"
    and "l \<in> set (lm_leases m)" and "k \<in> set (lm_leases m)" and "l \<noteq> k"
    and "wl_workspace_id l = wl_workspace_id k"
  shows "\<not> wl_workspace_wide l \<and> \<not> wl_workspace_wide k \<and>
    set (wl_resources l) \<inter> set (wl_resources k) = {} \<and>
    (wl_working_tree_id l = wl_working_tree_id k \<longrightarrow>
      (\<forall>p\<in>set (wl_paths l). \<forall>q\<in>set (wl_paths k). \<not> lease_paths_overlap p q))"
proof -
  have "\<not> workspace_conflict l k"
    using reachable_in_workspace [OF assms(1)] assms(2-4) by (auto simp: exclusive_def conflict_free_def)
  then show ?thesis
    using assms(5) unfolding workspace_conflict_def lease_paths_overlap_def intersects_iff by blast
qed


theorem restored_leases_exclusive_in_workspace_witness:
  "\<not> lease_paths_overlap ''src/app'' ''src/lib''"
  using restored_leases_exclusive_in_workspace [OF example_leases_reachable,
      of "example_lease ''l1'' ''tree-a'' ''w1'' [''src/app''] [''port:1''] 0"
        "example_lease ''l2'' ''tree-a'' ''w2'' [''src/lib''] [] 1"]
  by (simp add: example_leases_value) (simp add: example_lease_def)

text \<open>
  C24: What \<open>covers\<close> approves under a current lease is private to it: in any reachable state, no
  approved path meets a path of another lease of the same working tree, and no approved resource
  is held by another lease of the workspace.
\<close>

theorem covered_scope_private:
  assumes "lease_reachable persist True m"
    and "l \<in> set (lm_leases m)" and "k \<in> set (lm_leases m)" and "l \<noteq> k"
    and "wl_workspace_id l = wl_workspace_id k" and "wl_working_tree_id l = wl_working_tree_id k"
    and "lease_covers l (map PStr paths) (map PStr resources) = Inr True"
  shows "(\<forall>p\<in>set paths. \<forall>q\<in>set (wl_paths k). \<not> lease_paths_overlap p q) \<and>
    set resources \<inter> set (wl_resources k) = {}"
proof -
  have free: "\<not> workspace_conflict l k"
    using reachable_in_workspace [OF assms(1)] assms(2-4) by (auto simp: exclusive_def conflict_free_def)
  then have apart: "\<forall>a\<in>set (wl_paths l). \<forall>q\<in>set (wl_paths k). \<not> folded_overlap a q"
    and "set (wl_resources l) \<inter> set (wl_resources k) = {}" and narrow: "\<not> wl_workspace_wide l"
    using assms(5,6) by (simp_all add: workspace_conflict_def intersects_iff)
  from assms(7) obtain ps rs where c: "mapE normalize_relative_path (map PStr paths) = Inr ps"
    "mapE normalize_resource_id (map PStr resources) = Inr rs"
    "\<forall>p\<in>set ps. \<exists>a\<in>set (wl_paths l). path_under p a" "set rs \<subseteq> set (wl_resources l)"
    using narrow by (auto simp: lease_covers_def result_simps list_ex_iff split: if_splits)
  have ps: "ps = paths" using normalize_paths_Inr [OF c(1)] by (simp add: inj_map_eq_map inj_def)
  have "rs = resources" using c(2)
    by (induction resources arbitrary: rs)
      (auto simp: result_simps dest!: normalize_resource_id_Inr)
  with c(4) \<open>set (wl_resources l) \<inter> set (wl_resources k) = {}\<close>
  have "set resources \<inter> set (wl_resources k) = {}" by blast
  with folded_scope.covered_disjoint [OF c(3) apart] ps show ?thesis
    by (simp add: lease_paths_overlap_def)
qed

lemma covered_scope_private_witness:
  "\<not> lease_paths_overlap ''src/app/main.py'' ''src/lib''"
proof -
  have "lease_covers (example_lease ''l1'' ''tree-a'' ''w1'' [''src/app''] [''port:1''] 0)
      (map PStr [''src/app/main.py'']) (map PStr [''port:1'']) = Inr True"
    by code_simp
  from covered_scope_private [OF example_leases_reachable _ _ _ _ _ this,
      of "example_lease ''l2'' ''tree-a'' ''w2'' [''src/lib''] [] 1"]
  show ?thesis by (simp add: example_leases_value) (simp add: example_lease_def)
qed

text \<open>
  C25: The durable notifications are a write-ahead record between restarts: from any state of a
  manager, a fresh or a restored one, after any calls other than \<open>restore\<close>, replaying the notifications
  that the callback has accepted since on the leases of that state gives exactly the leases in memory,
  although the callback may refuse any of them and the call then raises. \<open>restore\<close> itself loads
  leases without notifying them.
\<close>

theorem lease_history_replays:
  assumes "list_all (\<lambda>call. \<not> is_restore call) calls"
  shows "\<exists>evs. lm_notified (fold (lease_run persist) calls m) = lm_notified m @ evs \<and>
    replay_leases evs (lm_leases m) = lm_leases (fold (lease_run persist) calls m)"
  by (rule history.runs [OF _ assms]) simp

lemma lease_history_replays_witness:
  "replay_leases (lm_notified example_leases) [] =
     [example_lease ''l1'' ''tree-a'' ''w1'' [''src/app''] [''port:1''] 0,
      example_lease ''l2'' ''tree-a'' ''w2'' [''src/lib''] [] 1,
      example_lease ''l3'' ''tree-b'' ''w3'' [''src/app''] [] 2]"
proof -
  have "list_all (\<lambda>call. \<not> is_restore call) example_calls" by (simp add: example_calls_def)
  from lease_history_replays [OF this, of quiet example_manager] show ?thesis
    by (simp add: example_leases_def [symmetric] example_leases_value) (simp add: example_manager_def)
qed



text \<open>
  \<open>observed_active\<close> is a faithful read-only view: it leaves the state as it is, and it
  returns or raises what \<open>active\<close> does when the callback accepts the expiry notifications.
\<close>

theorem observed_active_agrees:
  assumes "kdistinct wl_lease_id (lm_leases m)"
  shows "snd (lease_observed_active now workspace_id working_tree_id m) = m \<and>
    fst (lease_observed_active now workspace_id working_tree_id m) =
    fst (lease_active (\<lambda>_ _. True) now workspace_id working_tree_id m)"
proof -
  obtain n where n: "lease_active_values quiet now m = (Inr (unexpired now m), n)"
    using active_values_quiet [OF assms] by blast
  have "filter (\<lambda>l. now < wl_expires_at l \<and> in_view w t l) (lm_leases m) =
      filter (in_view w t) (unexpired now m)" for w t
    by (auto simp: unexpired_def intro: filter_cong)
  with n show ?thesis
    by (simp add: lease_observed_active_def lease_active_def checkS_eq readS_def bindS_def retS_def
        split: sum.split)
qed

lemma observed_active_agrees_witness:
  "fst (lease_observed_active 60 (PStr ''repo'') PNone example_leases) =
     fst (lease_active (\<lambda>_ _. True) 60 (PStr ''repo'') PNone example_leases)"
proof -
  have "kdistinct wl_lease_id (lm_leases example_leases)"
    by (simp add: example_leases_value example_lease_def kdistinct_def)
  from observed_active_agrees [OF this] show ?thesis by blast
qed

text \<open>
  \<open>restore\<close> does not accept every set of leases that \<open>acquire\<close> grants. The three leases of
  \<open>example_leases\<close> were granted together, the first and the third on the same path of two working
  trees; handed to \<open>restore\<close> on a fresh manager before any of them expires, the third is dropped,
  because \<open>restore\<close> compares paths without comparing the working trees.
\<close>

theorem restore_drops_granted_lease:
  "lease_reachable (\<lambda>_ _. True) False example_leases \<and>
   map wl_lease_id (lm_leases example_leases) = [''l1'', ''l2'', ''l3''] \<and>
   list_all (\<lambda>l. 5 < wl_expires_at l) (lm_leases example_leases) \<and>
   map wl_lease_id (lm_leases (snd (lease_restore (\<lambda>_ _. True) 5 (lm_leases example_leases)
     example_manager))) = [''l1'', ''l2'']"
proof -
  have "map wl_lease_id (lm_leases (snd (lease_restore quiet 5 (lm_leases example_leases)
      example_manager))) = [''l1'', ''l2'']"
    unfolding example_leases_value by code_simp
  then show ?thesis
    using example_leases_reachable by (simp add: example_leases_value example_lease_def)
qed

end
