(* ===== verification/TaskLedger.thy ===== *)
theory TaskLedger
  imports DirectorText
begin

text \<open>
  \<open>TaskReceipt\<close> and \<open>TaskLedger\<close> of \<open>src/src/chatgpt_dev_mcp/director.py\<close>: the bounded,
  idempotent store of task receipts. The state holds the dictionary \<open>self._records\<close> in
  insertion order, the bound, and the receipts that the persistence callback \<open>on_change\<close>
  accepted; the parameter \<open>persist\<close> is false where the callback raises. The clock reading
  (an ISO timestamp) and the fresh \<open>uuid4\<close> of an operation are arguments of the operation.
\<close>

section \<open>Receipts\<close>

datatype task_status =
    TQueued | TReady | TLeased | TRunning | TVerifying | TReviewReady
  | TSucceeded | TFailed | TCancelled | TBlocked | TStale

definition task_statuses :: "(string \<times> task_status) list" where
  "task_statuses =
     [(''queued'', TQueued), (''ready'', TReady), (''leased'', TLeased), (''running'', TRunning),
      (''verifying'', TVerifying), (''review_ready'', TReviewReady), (''succeeded'', TSucceeded),
      (''failed'', TFailed), (''cancelled'', TCancelled), (''blocked'', TBlocked),
      (''stale'', TStale)]"

fun task_status_name :: "task_status \<Rightarrow> string" where
  "task_status_name TQueued = ''queued''"
| "task_status_name TReady = ''ready''"
| "task_status_name TLeased = ''leased''"
| "task_status_name TRunning = ''running''"
| "task_status_name TVerifying = ''verifying''"
| "task_status_name TReviewReady = ''review_ready''"
| "task_status_name TSucceeded = ''succeeded''"
| "task_status_name TFailed = ''failed''"
| "task_status_name TCancelled = ''cancelled''"
| "task_status_name TBlocked = ''blocked''"
| "task_status_name TStale = ''stale''"

record task_receipt =
  tr_task_id :: string
  tr_request_id :: string
  tr_workspace_id :: string
  tr_title :: string
  tr_status :: task_status
  tr_owner_id :: "string option"
  tr_created_at :: string
  tr_updated_at :: string
  tr_detail :: string
  tr_result_ref :: string
  tr_working_tree_id :: string
  tr_development_session_id :: string
  tr_allowed_paths :: "string list"
  tr_resources :: "string list"
  tr_lease_id :: string
  tr_base_revision :: string
  tr_patch_hash :: string
  tr_verification_receipt :: string
  tr_security_audit_receipt :: string
  tr_context_pack_id :: string
  tr_integration_receipt :: string
  tr_git_commit_receipt :: string
  tr_git_push_receipt :: string
  tr_dependencies :: "string list"
  tr_result :: string

definition task_as_dict :: "task_receipt \<Rightarrow> (string \<times> pyval) list" where
  "task_as_dict r =
     [(''task_id'', PStr (tr_task_id r)),
      (''request_id'', PStr (tr_request_id r)),
      (''workspace_id'', PStr (tr_workspace_id r)),
      (''title'', PStr (tr_title r)),
      (''status'', PStr (task_status_name (tr_status r))),
      (''owner_id'', case tr_owner_id r of None \<Rightarrow> PNone | Some owner \<Rightarrow> PStr owner),
      (''created_at'', PStr (tr_created_at r)),
      (''updated_at'', PStr (tr_updated_at r)),
      (''detail'', PStr (tr_detail r)),
      (''result_ref'', PStr (tr_result_ref r)),
      (''working_tree_id'', PStr (tr_working_tree_id r)),
      (''development_session_id'', PStr (tr_development_session_id r)),
      (''allowed_paths'', PList (map PStr (tr_allowed_paths r))),
      (''resources'', PList (map PStr (tr_resources r))),
      (''lease_id'', PStr (tr_lease_id r)),
      (''base_revision'', PStr (tr_base_revision r)),
      (''patch_hash'', PStr (tr_patch_hash r)),
      (''verification_receipt'', PStr (tr_verification_receipt r)),
      (''security_audit_receipt'', PStr (tr_security_audit_receipt r)),
      (''context_pack_id'', PStr (tr_context_pack_id r)),
      (''integration_receipt'', PStr (tr_integration_receipt r)),
      (''git_commit_receipt'', PStr (tr_git_commit_receipt r)),
      (''git_push_receipt'', PStr (tr_git_push_receipt r)),
      (''dependencies'', PList (map PStr (tr_dependencies r))),
      (''result'', PStr (tr_result r))]"

section \<open>State and validation\<close>

record task_ledger =
  tl_max_records :: nat
  tl_records :: "task_receipt list"
  tl_notified :: "task_receipt list"

type_synonym 'a ledger_op = "(task_ledger, director_error, 'a) step"

type_synonym task_callback = "task_receipt \<Rightarrow> bool"

definition task_ledger_init :: "nat \<Rightarrow> director_error + task_ledger" where
  "task_ledger_init max_records =
     (if \<not> (1 \<le> max_records \<and> max_records \<le> 4096)
      then Inl (ValidationError ''max_records is outside its safety bound'')
      else Inr \<lparr>tl_max_records = max_records, tl_records = [], tl_notified = []\<rparr>)"

definition task_notify :: "task_callback \<Rightarrow> task_receipt \<Rightarrow> unit ledger_op" where
  "task_notify persist receipt =
     (if persist receipt then updS (\<lambda>l. l\<lparr>tl_notified := tl_notified l @ [receipt]\<rparr>)
      else failS CallbackRaised)"

definition task_store :: "task_receipt \<Rightarrow> unit ledger_op" where
  "task_store receipt = updS (\<lambda>l. l\<lparr>tl_records := kset tr_task_id receipt (tl_records l)\<rparr>)"

text \<open>The common end of the operations: notify, store, return.\<close>

definition task_commit :: "task_callback \<Rightarrow> task_receipt \<Rightarrow> task_receipt ledger_op" where
  "task_commit persist receipt =
     bindS (task_notify persist receipt) (\<lambda>_. bindS (task_store receipt) (\<lambda>_. retS receipt))"

definition task_title :: "pyval \<Rightarrow> director_error + string" where
  "task_title value =
     bindE (bounded_text ''title'' max_title_length False value) (\<lambda>title.
     if contains_secret_like_content title
     then Inl (ValidationError ''title looks like credential material'') else Inr title)"

definition task_detail :: "pyval \<Rightarrow> director_error + string" where
  "task_detail value =
     bindE (bounded_text ''detail'' max_detail_length True value) (\<lambda>detail.
     if contains_secret_like_content detail
     then Inl (ValidationError ''detail looks like credential material'') else Inr detail)"

definition task_result_ref :: "pyval \<Rightarrow> director_error + string" where
  "task_result_ref value =
     bindE (bounded_text ''result_ref'' max_result_ref_length True value) (\<lambda>result_ref.
     if contains_secret_like_content result_ref \<or> CHR 0x0A \<in> set result_ref \<or> CHR 0x0D \<in> set result_ref
     then Inl (ValidationError ''result_ref is invalid'') else Inr result_ref)"

definition optional_identifier :: "string \<Rightarrow> pyval \<Rightarrow> director_error + string" where
  "optional_identifier name value =
     (if value = PNone \<or> value = PStr [] then Inr [] else validate_identifier name value)"

definition optional_hash :: "string \<Rightarrow> pyval \<Rightarrow> director_error + string" where
  "optional_hash name value =
     (if value = PNone \<or> value = PStr [] then Inr []
      else case value of
          PStr s \<Rightarrow> if hex64 s then Inr s else Inl (ValidationError (name @ '' must be sha256 hex''))
        | _ \<Rightarrow> Inl (ValidationError (name @ '' must be sha256 hex'')))"

section \<open>Insertion\<close>

definition evictable :: "task_receipt \<Rightarrow> bool" where
  "evictable record \<longleftrightarrow> tr_status record \<in> {TSucceeded, TFailed, TCancelled, TBlocked, TStale}"

lemma oldest_evictable:
  assumes "filter evictable records = r # rs"
  shows "py_min_by tr_created_at r rs \<in> set records \<and> evictable (py_min_by tr_created_at r rs)"
proof -
  have "py_min_by tr_created_at r rs \<in> set (filter evictable records)"
    unfolding assms by (rule py_min_by_in)
  then show ?thesis by simp
qed

text \<open>\<open>_trim_for_insert\<close>: whether there is room, and the records that are left.\<close>

function trim_for_insert :: "nat \<Rightarrow> task_receipt list \<Rightarrow> bool \<times> task_receipt list" where
  "trim_for_insert max_records records =
     (if length records < max_records then (True, records)
      else case filter evictable records of
          [] \<Rightarrow> (False, records)
        | r # rs \<Rightarrow>
            trim_for_insert max_records
              (kpop tr_task_id (tr_task_id (py_min_by tr_created_at r rs)) records))"
  by pat_completeness auto

termination
  by (relation "measure (\<lambda>(_, records). length records)")
    (auto dest!: oldest_evictable intro: length_kpop_less)

declare trim_for_insert.simps [simp del]

definition task_trim :: "unit ledger_op" where
  "task_trim l =
     (case trim_for_insert (tl_max_records l) (tl_records l) of
        (room, records) \<Rightarrow>
          (if room then Inr () else Inl (LedgerConflict ''task ledger is full of active tasks''),
           l\<lparr>tl_records := records\<rparr>))"

record enqueue_request =
  eq_request_id :: pyval
  eq_workspace_id :: pyval
  eq_title :: pyval
  eq_working_tree_id :: pyval
  eq_development_session_id :: pyval
  eq_allowed_paths :: "pyval list"
  eq_resources :: "pyval list"
  eq_depends_on :: "pyval list"
  eq_base_revision :: pyval
  eq_context_pack_id :: pyval

definition parse_enqueue :: "string \<Rightarrow> string \<Rightarrow> enqueue_request \<Rightarrow> director_error + task_receipt" where
  "parse_enqueue now uuid rq =
     bindE (validate_identifier ''request_id'' (eq_request_id rq)) (\<lambda>request.
     bindE (validate_workspace_id (eq_workspace_id rq)) (\<lambda>workspace.
     bindE (task_title (eq_title rq)) (\<lambda>title.
     bindE (optional_identifier ''working_tree_id'' (eq_working_tree_id rq)) (\<lambda>tree.
     bindE (optional_identifier ''development_session_id'' (eq_development_session_id rq)) (\<lambda>session.
     bindE (mapE normalize_relative_path (eq_allowed_paths rq)) (\<lambda>paths.
     if \<not> distinct paths then Inl (ValidationError ''allowed_paths must be unique'') else
     bindE (bounded_text ''base_revision'' 128 True (eq_base_revision rq)) (\<lambda>revision.
     bindE (optional_identifier ''context_pack_id'' (eq_context_pack_id rq)) (\<lambda>context_id.
     bindE (mapE normalize_resource_id (eq_resources rq)) (\<lambda>resources.
     if \<not> distinct resources then Inl (ValidationError ''resources must be unique'') else
     bindE (mapE (validate_identifier ''dependency'') (eq_depends_on rq)) (\<lambda>dependencies.
     if \<not> distinct dependencies \<or> request \<in> set dependencies
     then Inl (ValidationError ''dependencies must be unique and cannot reference the request id'')
     else if 64 < length dependencies
     then Inl (ValidationError ''dependencies exceed the safety bound'')
     else Inr \<lparr>tr_task_id = ''task-'' @ uuid, tr_request_id = request, tr_workspace_id = workspace,
       tr_title = title, tr_status = TQueued, tr_owner_id = None, tr_created_at = now,
       tr_updated_at = now, tr_detail = [], tr_result_ref = [], tr_working_tree_id = tree,
       tr_development_session_id = session, tr_allowed_paths = paths, tr_resources = resources,
       tr_lease_id = [], tr_base_revision = revision, tr_patch_hash = [],
       tr_verification_receipt = [], tr_security_audit_receipt = [],
       tr_context_pack_id = context_id, tr_integration_receipt = [], tr_git_commit_receipt = [],
       tr_git_push_receipt = [], tr_dependencies = dependencies, tr_result = []\<rparr>))))))))))"

definition same_request :: "task_receipt \<Rightarrow> task_receipt \<Rightarrow> bool" where
  "same_request record receipt \<longleftrightarrow>
     tr_request_id record = tr_request_id receipt \<and> tr_workspace_id record = tr_workspace_id receipt"

definition task_enqueue ::
  "task_callback \<Rightarrow> string \<Rightarrow> string \<Rightarrow> enqueue_request \<Rightarrow> task_receipt ledger_op" where
  "task_enqueue persist now uuid rq =
     checkS (parse_enqueue now uuid rq) (\<lambda>receipt.
     readS (\<lambda>l. case find (\<lambda>record. same_request record receipt) (tl_records l) of
         Some record \<Rightarrow>
           if tr_title record \<noteq> tr_title receipt
           then failS (LedgerConflict ''request_id is already used for a different task'')
           else retS record
       | None \<Rightarrow> bindS task_trim (\<lambda>_. task_commit persist receipt)))"

section \<open>Transitions\<close>

fun task_transitions :: "task_status \<Rightarrow> task_status list" where
  "task_transitions TQueued = [TReady, TRunning, TCancelled, TBlocked, TStale]"
| "task_transitions TReady = [TLeased, TRunning, TCancelled, TBlocked, TStale]"
| "task_transitions TLeased = [TRunning, TCancelled, TBlocked, TStale]"
| "task_transitions TRunning =
     [TVerifying, TReviewReady, TSucceeded, TFailed, TCancelled, TBlocked, TStale]"
| "task_transitions TVerifying = [TReviewReady, TFailed, TBlocked, TStale]"
| "task_transitions TReviewReady = [TSucceeded, TFailed, TCancelled, TBlocked, TStale]"
| "task_transitions TSucceeded = []"
| "task_transitions TFailed = []"
| "task_transitions TCancelled = []"
| "task_transitions TBlocked = []"
| "task_transitions TStale = []"

text \<open>The keyword arguments of \<open>_transition_locked\<close>; \<open>None\<close> keeps the current value.\<close>

record task_update =
  tu_owner_id :: "string option"
  tu_lease_id :: "string option"
  tu_patch_hash :: "string option"
  tu_verification_receipt :: "string option"
  tu_security_audit_receipt :: "string option"
  tu_integration_receipt :: "string option"
  tu_git_commit_receipt :: "string option"
  tu_git_push_receipt :: "string option"
  tu_detail :: "string option"
  tu_result_ref :: "string option"
  tu_result :: "string option"

definition no_update :: task_update where
  "no_update =
     \<lparr>tu_owner_id = None, tu_lease_id = None, tu_patch_hash = None, tu_verification_receipt = None,
      tu_security_audit_receipt = None, tu_integration_receipt = None, tu_git_commit_receipt = None,
      tu_git_push_receipt = None, tu_detail = None, tu_result_ref = None, tu_result = None\<rparr>"

definition given :: "string option \<Rightarrow> string \<Rightarrow> string" where
  "given new old = (case new of Some v \<Rightarrow> v | None \<Rightarrow> old)"

definition transition_locked ::
  "string \<Rightarrow> task_receipt \<Rightarrow> task_status \<Rightarrow> task_update \<Rightarrow> director_error + task_receipt" where
  "transition_locked now current status u =
     (if tu_owner_id u \<noteq> None \<and> tr_owner_id current \<noteq> None \<and> tu_owner_id u \<noteq> tr_owner_id current
      then Inl (LedgerConflict ''task is owned by a different writer'')
      else if tu_lease_id u \<noteq> None \<and> tr_lease_id current \<noteq> [] \<and>
        tu_lease_id u \<noteq> Some (tr_lease_id current)
      then Inl (LedgerConflict ''task is bound to a different writer lease'')
      else if tr_status current \<noteq> status \<and> status \<notin> set (task_transitions (tr_status current))
      then Inl (LedgerConflict (''invalid task transition: '' @ task_status_name (tr_status current) @
        ''->'' @ task_status_name status))
      else Inr (current\<lparr>tr_status := status,
        tr_owner_id := (case tu_owner_id u of Some v \<Rightarrow> Some v | None \<Rightarrow> tr_owner_id current),
        tr_lease_id := given (tu_lease_id u) (tr_lease_id current),
        tr_patch_hash := given (tu_patch_hash u) (tr_patch_hash current),
        tr_verification_receipt :=
          given (tu_verification_receipt u) (tr_verification_receipt current),
        tr_security_audit_receipt :=
          given (tu_security_audit_receipt u) (tr_security_audit_receipt current),
        tr_integration_receipt :=
          given (tu_integration_receipt u) (tr_integration_receipt current),
        tr_git_commit_receipt := given (tu_git_commit_receipt u) (tr_git_commit_receipt current),
        tr_git_push_receipt := given (tu_git_push_receipt u) (tr_git_push_receipt current),
        tr_detail := given (tu_detail u) (tr_detail current),
        tr_result_ref := given (tu_result_ref u) (tr_result_ref current),
        tr_result := given (tu_result u) (tr_result current),
        tr_updated_at := now\<rparr>))"

definition task_lookup :: "string \<Rightarrow> string \<Rightarrow> task_receipt ledger_op" where
  "task_lookup missing task =
     readS (\<lambda>l. case kget tr_task_id task (tl_records l) of
       None \<Rightarrow> failS (LedgerConflict missing) | Some current \<Rightarrow> retS current)"

definition optional_parse :: "(pyval \<Rightarrow> 'e + 'a) \<Rightarrow> pyval list option \<Rightarrow> 'e + 'a list option" where
  "optional_parse f values =
     (case values of None \<Rightarrow> Inr None | Some vs \<Rightarrow> bindE (mapE f vs) (\<lambda>xs. Inr (Some xs)))"

definition task_bind_execution ::
  "task_callback \<Rightarrow> string \<Rightarrow> pyval \<Rightarrow> pyval \<Rightarrow> pyval \<Rightarrow> pyval \<Rightarrow> pyval list option \<Rightarrow>
     pyval list option \<Rightarrow> task_receipt ledger_op" where
  "task_bind_execution persist now task_id working_tree_id development_session_id base_revision
     allowed_paths resources =
     checkS (validate_identifier ''task_id'' task_id) (\<lambda>task.
     checkS (validate_identifier ''working_tree_id'' working_tree_id) (\<lambda>tree.
     checkS (validate_identifier ''development_session_id'' development_session_id) (\<lambda>session.
     checkS (bounded_text ''base_revision'' 128 True base_revision) (\<lambda>revision.
     checkS (optional_parse normalize_relative_path allowed_paths) (\<lambda>paths.
     checkS (optional_parse normalize_resource_id resources) (\<lambda>parsed_resources.
     bindS (task_lookup ''task is unknown'' task) (\<lambda>current.
     task_commit persist (current\<lparr>tr_working_tree_id := tree,
       tr_development_session_id := session,
       tr_base_revision := (if revision \<noteq> [] then revision else tr_base_revision current),
       tr_allowed_paths := (case paths of None \<Rightarrow> tr_allowed_paths current | Some ps \<Rightarrow> ps),
       tr_resources := (case parsed_resources of None \<Rightarrow> tr_resources current | Some rs \<Rightarrow> rs),
       tr_updated_at := now\<rparr>))))))))"

record transition_request =
  xq_owner_id :: pyval
  xq_lease_id :: pyval
  xq_patch_hash :: pyval
  xq_verification_receipt :: pyval
  xq_security_audit_receipt :: pyval
  xq_git_commit_receipt :: pyval
  xq_git_push_receipt :: pyval
  xq_detail :: pyval
  xq_result_ref :: pyval
  xq_result :: pyval
  xq_integration_receipt :: pyval

text \<open>\<open>value or None\<close>.\<close>

definition or_none :: "string \<Rightarrow> string option" where
  "or_none s = (if s = [] then None else Some s)"

definition parse_transition :: "transition_request \<Rightarrow> director_error + task_update" where
  "parse_transition rq =
     bindE (if xq_owner_id rq = PNone then Inr None
            else bindE (validate_identifier ''owner_id'' (xq_owner_id rq)) (\<lambda>o'. Inr (Some o'))) (\<lambda>owner.
     bindE (optional_identifier ''lease_id'' (xq_lease_id rq)) (\<lambda>lease.
     bindE (optional_hash ''patch_hash'' (xq_patch_hash rq)) (\<lambda>patch.
     bindE (optional_identifier ''verification_receipt'' (xq_verification_receipt rq)) (\<lambda>verification.
     bindE (optional_identifier ''security_audit_receipt'' (xq_security_audit_receipt rq)) (\<lambda>audit.
     bindE (optional_identifier ''git_commit_receipt'' (xq_git_commit_receipt rq)) (\<lambda>git_commit.
     bindE (optional_identifier ''git_push_receipt'' (xq_git_push_receipt rq)) (\<lambda>git_push.
     bindE (optional_identifier ''integration_receipt'' (xq_integration_receipt rq)) (\<lambda>integration.
     bindE (task_detail (xq_detail rq)) (\<lambda>detail.
     bindE (task_result_ref (xq_result_ref rq)) (\<lambda>result_ref.
     bindE (task_detail (xq_result rq)) (\<lambda>result.
     Inr \<lparr>tu_owner_id = owner, tu_lease_id = or_none lease, tu_patch_hash = or_none patch,
          tu_verification_receipt = or_none verification, tu_security_audit_receipt = or_none audit,
          tu_integration_receipt = or_none integration, tu_git_commit_receipt = or_none git_commit,
          tu_git_push_receipt = or_none git_push, tu_detail = or_none detail,
          tu_result_ref = or_none result_ref, tu_result = or_none result\<rparr>)))))))))))"

definition task_transition ::
  "task_callback \<Rightarrow> string \<Rightarrow> pyval \<Rightarrow> string \<Rightarrow> transition_request \<Rightarrow> task_receipt ledger_op" where
  "task_transition persist now task_id status rq =
     checkS (validate_identifier ''task_id'' task_id) (\<lambda>task.
     checkS (case map_of task_statuses status of
         None \<Rightarrow> Inl (ValidationError ''status is invalid'') | Some s \<Rightarrow> Inr s) (\<lambda>target.
     checkS (parse_transition rq) (\<lambda>u.
     bindS (task_lookup ''task does not exist'' task) (\<lambda>current.
     checkS (transition_locked now current target u) (\<lambda>updated. task_commit persist updated)))))"

definition task_start :: "task_callback \<Rightarrow> string \<Rightarrow> pyval \<Rightarrow> pyval \<Rightarrow> task_receipt ledger_op" where
  "task_start persist now task_id owner_id =
     checkS (validate_identifier ''task_id'' task_id) (\<lambda>task.
     checkS (validate_identifier ''owner_id'' owner_id) (\<lambda>owner.
     bindS (task_lookup ''task does not exist'' task) (\<lambda>current.
     if tr_status current = TRunning \<and> tr_owner_id current = Some owner then retS current
     else if tr_status current \<notin> {TQueued, TReady, TLeased}
     then failS (LedgerConflict ''task is not startable'')
     else checkS (transition_locked now current TRunning (no_update\<lparr>tu_owner_id := Some owner\<rparr>))
       (\<lambda>updated. task_commit persist updated))))"

definition task_rollback_claim :: "task_callback \<Rightarrow> string \<Rightarrow> pyval \<Rightarrow> pyval \<Rightarrow> task_receipt ledger_op" where
  "task_rollback_claim persist now task_id detail =
     checkS (validate_identifier ''task_id'' task_id) (\<lambda>task.
     checkS (task_detail detail) (\<lambda>parsed_detail.
     bindS (task_lookup ''task does not exist'' task) (\<lambda>current.
     if tr_status current \<notin> {TLeased, TRunning}
     then failS (LedgerConflict ''task claim is not rollbackable'')
     else task_commit persist (current\<lparr>tr_status := TReady, tr_owner_id := None, tr_lease_id := [],
       tr_working_tree_id := [], tr_development_session_id := [],
       tr_detail := (if parsed_detail \<noteq> [] then parsed_detail else tr_detail current),
       tr_updated_at := now\<rparr>))))"

text \<open>The guards and the evidence reset that \<open>resume\<close> and \<open>reactivate\<close> share.\<close>

definition resumable_by :: "string \<Rightarrow> string \<Rightarrow> task_receipt \<Rightarrow> task_receipt ledger_op" where
  "resumable_by owner revision current =
     (if tr_status current \<noteq> TStale then failS (LedgerConflict ''task is not resumable'')
      else if tr_owner_id current \<noteq> Some owner
      then failS (LedgerConflict ''task is owned by a different writer'')
      else if revision \<noteq> [] \<and> tr_base_revision current \<noteq> [] \<and> revision \<noteq> tr_base_revision current
      then failS (LedgerConflict ''task base revision changed'')
      else retS current)"

definition without_evidence :: "string \<Rightarrow> string \<Rightarrow> string \<Rightarrow> task_receipt \<Rightarrow> task_receipt" where
  "without_evidence now revision detail current =
     current\<lparr>tr_base_revision := (if revision \<noteq> [] then revision else tr_base_revision current),
       tr_patch_hash := [], tr_verification_receipt := [], tr_security_audit_receipt := [],
       tr_integration_receipt := [], tr_git_commit_receipt := [], tr_git_push_receipt := [],
       tr_detail := detail, tr_result_ref := [], tr_result := [], tr_updated_at := now\<rparr>"

definition task_resume ::
  "task_callback \<Rightarrow> string \<Rightarrow> pyval \<Rightarrow> pyval \<Rightarrow> pyval \<Rightarrow> pyval \<Rightarrow> task_receipt ledger_op" where
  "task_resume persist now task_id owner_id base_revision detail =
     checkS (validate_identifier ''task_id'' task_id) (\<lambda>task.
     checkS (validate_identifier ''owner_id'' owner_id) (\<lambda>owner.
     checkS (bounded_text ''base_revision'' 128 True base_revision) (\<lambda>revision.
     checkS (task_detail detail) (\<lambda>parsed_detail.
     bindS (task_lookup ''task does not exist'' task) (\<lambda>found.
     bindS (resumable_by owner revision found) (\<lambda>current.
     task_commit persist ((without_evidence now revision parsed_detail current)
       \<lparr>tr_status := TReady, tr_owner_id := None, tr_lease_id := []\<rparr>)))))))"

definition task_reactivate ::
  "task_callback \<Rightarrow> string \<Rightarrow> pyval \<Rightarrow> pyval \<Rightarrow> pyval \<Rightarrow> pyval \<Rightarrow> pyval \<Rightarrow> task_receipt ledger_op" where
  "task_reactivate persist now task_id owner_id lease_id base_revision detail =
     checkS (validate_identifier ''task_id'' task_id) (\<lambda>task.
     checkS (validate_identifier ''owner_id'' owner_id) (\<lambda>owner.
     checkS (validate_identifier ''lease_id'' lease_id) (\<lambda>lease.
     checkS (bounded_text ''base_revision'' 128 True base_revision) (\<lambda>revision.
     checkS (task_detail detail) (\<lambda>parsed_detail.
     bindS (task_lookup ''task does not exist'' task) (\<lambda>found.
     bindS (resumable_by owner revision found) (\<lambda>current.
     task_commit persist ((without_evidence now revision parsed_detail current)
       \<lparr>tr_status := TRunning, tr_owner_id := Some owner, tr_lease_id := lease\<rparr>))))))))"

definition task_finish ::
  "task_callback \<Rightarrow> string \<Rightarrow> pyval \<Rightarrow> string \<Rightarrow> pyval \<Rightarrow> pyval \<Rightarrow> pyval \<Rightarrow> task_receipt ledger_op" where
  "task_finish persist now task_id status owner_id detail result_ref =
     checkS (validate_identifier ''task_id'' task_id) (\<lambda>task.
     checkS (validate_identifier ''owner_id'' owner_id) (\<lambda>owner.
     checkS (if status \<notin> {''succeeded'', ''failed'', ''cancelled''}
       then Inl (ValidationError ''status is not terminal'')
       else Inr (the (map_of task_statuses status))) (\<lambda>target.
     checkS (task_detail detail) (\<lambda>parsed_detail.
     checkS (task_result_ref result_ref) (\<lambda>parsed_result_ref.
     bindS (task_lookup ''task does not exist'' task) (\<lambda>current.
     if tr_status current \<notin> {TRunning, TVerifying, TReviewReady} \<or> tr_owner_id current \<noteq> Some owner
     then failS (LedgerConflict ''task is not owned by this writer'')
     else checkS (transition_locked now current target
         (no_update\<lparr>tu_detail := Some parsed_detail, tu_result_ref := Some parsed_result_ref\<rparr>))
       (\<lambda>updated. task_commit persist updated)))))))"

section \<open>Restart and reading\<close>

definition synthetic_stale :: "task_receipt \<Rightarrow> bool" where
  "synthetic_stale r \<longleftrightarrow>
     tr_status r = TStale \<and> tr_detail r = ''push receipt recorded'' \<and> tr_working_tree_id r \<noteq> [] \<and>
     \<not> prefix ''session:'' (tr_working_tree_id r) \<and> tr_development_session_id r = [] \<and>
     (prefix ''git-commit:'' (tr_git_commit_receipt r) \<or>
      prefix ''git-verified-commit:'' (tr_git_commit_receipt r)) \<and>
     prefix ''git-push:'' (tr_git_push_receipt r)"

definition normalize_restored :: "task_receipt \<Rightarrow> task_receipt" where
  "normalize_restored r = (if synthetic_stale r then r\<lparr>tr_status := TReviewReady\<rparr> else r)"

text \<open>The records in the order of creation, and the newest \<open>n\<close> of a list.\<close>

definition by_creation :: "task_receipt list \<Rightarrow> task_receipt list" where
  "by_creation records = sort_key (\<lambda>r. (tr_created_at r, tr_task_id r)) records"

definition last_n :: "nat \<Rightarrow> 'a list \<Rightarrow> 'a list" where
  "last_n n xs = drop (length xs - n) xs"

definition task_restore :: "task_receipt list \<Rightarrow> bool \<Rightarrow> unit ledger_op" where
  "task_restore records replace_existing =
     updS (\<lambda>l.
       let merged = fold (kset tr_task_id) (map normalize_restored records)
             (if replace_existing then [] else tl_records l)
       in l\<lparr>tl_records := (if tl_max_records l < length merged
                          then last_n (tl_max_records l) (by_creation merged) else merged)\<rparr>)"

definition task_get :: "pyval \<Rightarrow> task_receipt option ledger_op" where
  "task_get task_id =
     checkS (validate_identifier ''task_id'' task_id) (\<lambda>task.
     readS (\<lambda>l. retS (kget tr_task_id task (tl_records l))))"

definition task_list :: "pyval \<Rightarrow> task_receipt list ledger_op" where
  "task_list workspace_id =
     checkS (if workspace_id = PNone then Inr None
       else bindE (validate_workspace_id workspace_id) (\<lambda>w. Inr (Some w))) (\<lambda>workspace.
     readS (\<lambda>l. retS (by_creation (filter (\<lambda>r. case workspace of None \<Rightarrow> True
       | Some w \<Rightarrow> tr_workspace_id r = w) (tl_records l)))))"

section \<open>Calls\<close>

datatype ledger_call =
    CEnqueue string string enqueue_request
  | CBindExecution string pyval pyval pyval pyval "pyval list option" "pyval list option"
  | CTransition string pyval string transition_request
  | CStart string pyval pyval
  | CRollbackClaim string pyval pyval
  | CResume string pyval pyval pyval pyval
  | CReactivate string pyval pyval pyval pyval pyval
  | CFinish string pyval string pyval pyval pyval
  | CRestore "task_receipt list" bool
  | CGet pyval
  | CList pyval

fun ledger_run :: "task_callback \<Rightarrow> ledger_call \<Rightarrow> task_ledger \<Rightarrow> task_ledger" where
  "ledger_run persist (CEnqueue now uuid rq) l = snd (task_enqueue persist now uuid rq l)"
| "ledger_run persist (CBindExecution now t w s b ps rs) l =
     snd (task_bind_execution persist now t w s b ps rs l)"
| "ledger_run persist (CTransition now t s rq) l = snd (task_transition persist now t s rq l)"
| "ledger_run persist (CStart now t w) l = snd (task_start persist now t w l)"
| "ledger_run persist (CRollbackClaim now t d) l = snd (task_rollback_claim persist now t d l)"
| "ledger_run persist (CResume now t w b d) l = snd (task_resume persist now t w b d l)"
| "ledger_run persist (CReactivate now t w le b d) l = snd (task_reactivate persist now t w le b d l)"
| "ledger_run persist (CFinish now t s w d r) l = snd (task_finish persist now t s w d r l)"
| "ledger_run persist (CRestore rs b) l = snd (task_restore rs b l)"
| "ledger_run persist (CGet t) l = snd (task_get t l)"
| "ledger_run persist (CList w) l = snd (task_list w l)"

text \<open>A call other than \<open>restore\<close> whose fresh identifier, if it needs one, satisfies \<open>fresh\<close>.\<close>

fun plain_call :: "(string \<Rightarrow> bool) \<Rightarrow> ledger_call \<Rightarrow> bool" where
  "plain_call fresh (CEnqueue now uuid rq) = fresh (''task-'' @ uuid)"
| "plain_call fresh (CRestore rs b) = False"
| "plain_call fresh _ = True"

section \<open>The abstract ledger\<close>

interpretation task_dict: keyed_store tr_task_id "kget tr_task_id" "kset tr_task_id"
    "kpop tr_task_id" set "kdistinct tr_task_id"
  by (rule keyed_list_store)

text \<open>
  The abstract specification of a ledger: a receipt is inserted while there is room and no
  receipt of the same request, an evictable one is removed when there is none, or a receipt is
  replaced along the lifecycle. Insertion and replacement are notified first.
\<close>

definition task_may_follow :: "task_status \<Rightarrow> task_status \<Rightarrow> bool" where
  "task_may_follow s t \<longleftrightarrow>
     t = s \<or> t \<in> set (task_transitions s) \<or>
     t = TReady \<and> s \<in> {TLeased, TRunning, TStale} \<or> t = TRunning \<and> s = TStale"

definition task_final :: "task_status \<Rightarrow> bool" where
  "task_final s \<longleftrightarrow> s \<in> {TSucceeded, TFailed, TCancelled, TBlocked}"

definition same_task :: "task_receipt \<Rightarrow> task_receipt \<Rightarrow> bool" where
  "same_task c t \<longleftrightarrow>
     tr_task_id t = tr_task_id c \<and> tr_request_id t = tr_request_id c \<and>
     tr_workspace_id t = tr_workspace_id c \<and> tr_title t = tr_title c \<and>
     tr_created_at t = tr_created_at c \<and> tr_dependencies t = tr_dependencies c \<and>
     tr_context_pack_id t = tr_context_pack_id c"

definition evidence :: "task_receipt \<Rightarrow> string list" where
  "evidence r =
     [tr_patch_hash r, tr_verification_receipt r, tr_security_audit_receipt r,
      tr_integration_receipt r, tr_git_commit_receipt r, tr_git_push_receipt r]"

text \<open>A task step keeps the identity, follows the lifecycle, changes a set owner only on the way
  back to ready, and loses evidence only when it leaves the stale state.\<close>

definition task_step :: "task_receipt \<Rightarrow> task_receipt \<Rightarrow> bool" where
  "task_step c t \<longleftrightarrow>
     same_task c t \<and> task_may_follow (tr_status c) (tr_status t) \<and>
     (tr_owner_id c \<noteq> None \<and> tr_owner_id t \<noteq> tr_owner_id c \<longrightarrow>
        tr_status t = TReady \<and> tr_status c \<in> {TLeased, TRunning, TStale}) \<and>
     (tr_status c \<noteq> TStale \<or> tr_status t = TStale \<longrightarrow>
        list_all2 (\<lambda>old new. old \<noteq> [] \<longrightarrow> new \<noteq> []) (evidence c) (evidence t))"

abbreviation ledger_put :: "task_receipt \<Rightarrow> task_ledger \<Rightarrow> task_ledger" where
  "ledger_put t l \<equiv>
     l\<lparr>tl_notified := tl_notified l @ [t], tl_records := kset tr_task_id t (tl_records l)\<rparr>"

text \<open>
  What one call may do to a receipt. \<open>entered_from\<close> lists for each status the statuses from which it is
  entered; a call names its task, and says which status, owner and evidence it may write.
\<close>

fun entered_from :: "task_status \<Rightarrow> task_status set" where
  "entered_from TQueued = {}"
| "entered_from TReady = {TQueued}"
| "entered_from TLeased = {TReady}"
| "entered_from TRunning = {TQueued, TReady, TLeased}"
| "entered_from TVerifying = {TRunning}"
| "entered_from TReviewReady = {TRunning, TVerifying}"
| "entered_from TSucceeded = {TRunning, TReviewReady}"
| "entered_from TFailed = {TRunning, TVerifying, TReviewReady}"
| "entered_from TCancelled = {TQueued, TReady, TLeased, TRunning, TReviewReady}"
| "entered_from TBlocked = {TQueued, TReady, TLeased, TRunning, TVerifying, TReviewReady}"
| "entered_from TStale = {TQueued, TReady, TLeased, TRunning, TVerifying, TReviewReady}"

fun call_target :: "ledger_call \<Rightarrow> pyval" where
  "call_target (CBindExecution now t w s b ps rs) = t"
| "call_target (CTransition now t s rq) = t"
| "call_target (CStart now t w) = t"
| "call_target (CRollbackClaim now t d) = t"
| "call_target (CResume now t w b d) = t"
| "call_target (CReactivate now t w le b d) = t"
| "call_target (CFinish now t s w d res) = t"
| "call_target _ = PNone"

definition owned_by :: "task_receipt \<Rightarrow> pyval \<Rightarrow> bool" where
  "owned_by r w \<longleftrightarrow> map_option PStr (tr_owner_id r) = Some w"

fun status_entered :: "ledger_call \<Rightarrow> task_receipt \<Rightarrow> task_receipt \<Rightarrow> bool" where
  "status_entered (CTransition now t s rq) r c \<longleftrightarrow>
     s = task_status_name (tr_status c) \<and> tr_status r \<in> entered_from (tr_status c)"
| "status_entered (CStart now t w) r c \<longleftrightarrow>
     tr_status r \<in> {TQueued, TReady, TLeased} \<and> tr_status c = TRunning \<and> owned_by c w"
| "status_entered (CRollbackClaim now t d) r c \<longleftrightarrow> tr_status r \<in> {TLeased, TRunning} \<and> tr_status c = TReady"
| "status_entered (CResume now t w b d) r c \<longleftrightarrow> tr_status r = TStale \<and> owned_by r w \<and> tr_status c = TReady"
| "status_entered (CReactivate now t w le b d) r c \<longleftrightarrow>
     tr_status r = TStale \<and> owned_by r w \<and> tr_status c = TRunning"
| "status_entered (CFinish now t s w d res) r c \<longleftrightarrow>
     tr_status r \<in> {TRunning, TVerifying, TReviewReady} \<inter> entered_from (tr_status c) \<and> owned_by r w \<and>
     tr_status c \<in> {TSucceeded, TFailed, TCancelled} \<and> s = task_status_name (tr_status c)"
| "status_entered _ r c \<longleftrightarrow> False"

fun owner_changed :: "ledger_call \<Rightarrow> task_receipt \<Rightarrow> task_receipt \<Rightarrow> bool" where
  "owner_changed (CTransition now t s rq) r c \<longleftrightarrow> tr_owner_id r = None \<and> owned_by c (xq_owner_id rq)"
| "owner_changed (CStart now t w) r c \<longleftrightarrow> tr_owner_id r = None \<and> owned_by c w"
| "owner_changed (CRollbackClaim now t d) r c \<longleftrightarrow>
     tr_status r \<in> {TLeased, TRunning} \<and> tr_status c = TReady \<and> tr_owner_id c = None"
| "owner_changed (CResume now t w b d) r c \<longleftrightarrow>
     tr_status r = TStale \<and> owned_by r w \<and> tr_status c = TReady \<and> tr_owner_id c = None"
| "owner_changed _ r c \<longleftrightarrow> False"

definition offered_evidence :: "transition_request \<Rightarrow> pyval list" where
  "offered_evidence rq =
     [xq_patch_hash rq, xq_verification_receipt rq, xq_security_audit_receipt rq,
      xq_integration_receipt rq, xq_git_commit_receipt rq, xq_git_push_receipt rq]"

text \<open>A transition writes the pieces that it offers and keeps the others; resuming a stale task clears
  all of them.\<close>

definition taken :: "string \<Rightarrow> pyval \<Rightarrow> string" where
  "taken old v = (case v of PStr new \<Rightarrow> if new = [] then old else new | _ \<Rightarrow> old)"

fun evidence_changed :: "ledger_call \<Rightarrow> task_receipt \<Rightarrow> task_receipt \<Rightarrow> bool" where
  "evidence_changed (CTransition now t s rq) r c \<longleftrightarrow> evidence c = map2 taken (evidence r) (offered_evidence rq)"
| "evidence_changed (CResume now t w b d) r c \<longleftrightarrow>
     tr_status r = TStale \<and> tr_status c = TReady \<and> evidence c = replicate 6 []"
| "evidence_changed (CReactivate now t w le b d) r c \<longleftrightarrow>
     tr_status r = TStale \<and> tr_status c = TRunning \<and> evidence c = replicate 6 []"
| "evidence_changed _ r c \<longleftrightarrow> False"

definition task_change :: "ledger_call \<Rightarrow> task_receipt \<Rightarrow> task_receipt \<Rightarrow> bool" where
  "task_change call r c \<longleftrightarrow>
     same_task r c \<and> call_target call = PStr (tr_task_id r) \<and>
     (tr_status c \<noteq> tr_status r \<longrightarrow> status_entered call r c) \<and>
     (tr_owner_id c \<noteq> tr_owner_id r \<longrightarrow> owner_changed call r c) \<and>
     (evidence c \<noteq> evidence r \<longrightarrow> evidence_changed call r c)"

inductive ledger_step :: "task_callback \<Rightarrow> (string \<Rightarrow> bool) \<Rightarrow> task_ledger \<Rightarrow> task_ledger \<Rightarrow> bool"
  for persist fresh where
  step_update: "c \<in> set (tl_records l) \<Longrightarrow> task_step c t \<Longrightarrow> persist t \<Longrightarrow>
    ledger_step persist fresh l (ledger_put t l)"
| step_insert: "length (tl_records l) < tl_max_records l \<Longrightarrow>
    \<forall>r\<in>set (tl_records l). \<not> same_request r t \<Longrightarrow> tr_status t = TQueued \<Longrightarrow>
    fresh (tr_task_id t) \<Longrightarrow> persist t \<Longrightarrow> ledger_step persist fresh l (ledger_put t l)"
| step_evict: "tl_max_records l \<le> length (tl_records l) \<Longrightarrow> r \<in> set (tl_records l) \<Longrightarrow> evictable r \<Longrightarrow>
    ledger_step persist fresh l (l\<lparr>tl_records := kpop tr_task_id (tr_task_id r) (tl_records l)\<rparr>)"

inductive_cases ledger_stepE: "ledger_step persist fresh l l'"

abbreviation ledger_steps where
  "ledger_steps persist fresh \<equiv> (ledger_step persist fresh)\<^sup>*\<^sup>*"

interpretation task_lifecycle: lifecycle task_may_follow task_final
  by unfold_locales (auto simp: task_final_def task_may_follow_def)

section \<open>Every call is a sequence of abstract steps\<close>

lemma ends_task_commit [ends_simps]:
  "ends (task_commit persist t) Q l =
     (if persist t then Q (Inr t) (ledger_put t l) else Q (Inl CallbackRaised) l)"
  by (simp add: task_commit_def task_notify_def task_store_def ends_simps)

lemma ends_task_lookup:
  assumes "\<And>e. Q (Inl e) l"
    and "\<And>c. c \<in> set (tl_records l) \<Longrightarrow> tr_task_id c = task \<Longrightarrow> Q (Inr c) l"
  shows "ends (task_lookup missing task) Q l"
  using assms by (auto simp: task_lookup_def ends_simps dest: kget_SomeD split: option.split)

lemma after_lookup:
  assumes "I l"
    and "\<And>c. c \<in> set (tl_records l) \<Longrightarrow> tr_task_id c = task \<Longrightarrow> ends (f c) (\<lambda>_ t. I t) l"
  shows "ends (bindS (task_lookup missing task) f) (\<lambda>_ t. I t) l"
  unfolding ends_bindS using assms by (auto intro!: ends_task_lookup)

lemma entered_from_transitions: "s \<in> entered_from t \<longleftrightarrow> t \<in> set (task_transitions s)"
  by (cases s; cases t) simp_all

lemma taken_kept: "old \<noteq> [] \<Longrightarrow> taken old v \<noteq> []"
  by (simp add: taken_def split: pyval.split)

lemma task_change_step:
  assumes "task_change call r c" shows "task_step r c"
proof -
  note change = assms [unfolded task_change_def]
  have "task_may_follow (tr_status r) (tr_status c)"
    using change by (cases call) (auto simp: task_may_follow_def entered_from_transitions)
  moreover have "tr_owner_id r \<noteq> None \<and> tr_owner_id c \<noteq> tr_owner_id r \<longrightarrow>
      tr_status c = TReady \<and> tr_status r \<in> {TLeased, TRunning, TStale}"
    using change by (cases call) auto
  moreover have "tr_status r \<noteq> TStale \<or> tr_status c = TStale \<longrightarrow>
      list_all2 (\<lambda>old new. old \<noteq> [] \<longrightarrow> new \<noteq> []) (evidence r) (evidence c)"
  proof (cases "evidence c = evidence r")
    case False
    with change have "evidence_changed call r c" by blast
    then show ?thesis
      by (cases call) (simp_all add: evidence_def offered_evidence_def taken_kept)
  qed (simp add: list_all2_same)
  ultimately show ?thesis using change by (simp add: task_step_def)
qed

lemma or_none_given: "given (or_none s) old = (if s = [] then old else s)"
  by (simp add: given_def or_none_def)

lemma optional_hash_Inr:
  "optional_hash name v = Inr s \<Longrightarrow> (if s = [] then v = PNone \<or> v = PStr [] else v = PStr s)"
  by (auto simp: optional_hash_def split: if_splits pyval.splits)

lemma optional_identifier_Inr:
  "optional_identifier name v = Inr s \<Longrightarrow> (if s = [] then v = PNone \<or> v = PStr [] else v = PStr s)"
  by (auto simp: optional_identifier_def split: if_splits dest!: validate_identifier_Inr)

lemma taken_optional:
  "(if s = [] then v = PNone \<or> v = PStr [] else v = PStr s) \<Longrightarrow> given (or_none s) old = taken old v"
  by (auto simp: taken_def or_none_given split: if_splits)

text \<open>What the arguments of \<open>transition\<close> become.\<close>

lemma parse_transition_offers:
  assumes "parse_transition rq = Inr u"
  shows "[given (tu_patch_hash u) a, given (tu_verification_receipt u) b, given (tu_security_audit_receipt u) c,
      given (tu_integration_receipt u) d, given (tu_git_commit_receipt u) e, given (tu_git_push_receipt u) f] =
      map2 taken [a, b, c, d, e, f] (offered_evidence rq)"
    and "map_option PStr (tu_owner_id u) = (if xq_owner_id rq = PNone then None else Some (xq_owner_id rq))"
  using assms
  by (auto simp: parse_transition_def result_simps offered_evidence_def split: if_splits
    intro!: taken_optional dest: optional_hash_Inr optional_identifier_Inr dest!: validate_identifier_Inr)

lemma transition_locked_Inr:
  assumes "transition_locked now c s u = Inr t"
  shows "same_task c t" and "tr_status t = s" and "s = tr_status c \<or> tr_status c \<in> entered_from s"
    and "tr_owner_id t = (case tr_owner_id c of None \<Rightarrow> tu_owner_id u | Some w \<Rightarrow> Some w)"
    and "evidence t =
      [given (tu_patch_hash u) (tr_patch_hash c),
       given (tu_verification_receipt u) (tr_verification_receipt c),
       given (tu_security_audit_receipt u) (tr_security_audit_receipt c),
       given (tu_integration_receipt u) (tr_integration_receipt c),
       given (tu_git_commit_receipt u) (tr_git_commit_receipt c),
       given (tu_git_push_receipt u) (tr_git_push_receipt c)]"
proof -
  show "same_task c t" "tr_status t = s" "evidence t =
      [given (tu_patch_hash u) (tr_patch_hash c),
       given (tu_verification_receipt u) (tr_verification_receipt c),
       given (tu_security_audit_receipt u) (tr_security_audit_receipt c),
       given (tu_integration_receipt u) (tr_integration_receipt c),
       given (tu_git_commit_receipt u) (tr_git_commit_receipt c),
       given (tu_git_push_receipt u) (tr_git_push_receipt c)]"
    using assms by (auto simp: transition_locked_def same_task_def evidence_def split: if_splits)
  show "s = tr_status c \<or> tr_status c \<in> entered_from s"
    using assms by (auto simp: transition_locked_def entered_from_transitions split: if_splits)
  have "tr_owner_id t = (case tu_owner_id u of Some v \<Rightarrow> Some v | None \<Rightarrow> tr_owner_id c)"
    "tu_owner_id u = None \<or> tr_owner_id c = None \<or> tu_owner_id u = tr_owner_id c"
    using assms by (auto simp: transition_locked_def split: if_splits)
  then show "tr_owner_id t = (case tr_owner_id c of None \<Rightarrow> tu_owner_id u | Some w \<Rightarrow> Some w)"
    by (auto split: option.split)
qed

lemma same_evidence:
  assumes "transition_locked now c s u = Inr t"
    and "tu_patch_hash u = None" "tu_verification_receipt u = None" "tu_security_audit_receipt u = None"
    and "tu_integration_receipt u = None" "tu_git_commit_receipt u = None" "tu_git_push_receipt u = None"
  shows "evidence t = evidence c"
  using transition_locked_Inr(5) [OF assms(1)] assms(2-) by (simp add: given_def evidence_def)

text \<open>The effect of every operation but \<open>enqueue\<close> and \<open>restore\<close>: at most one update.\<close>

definition ledger_update :: "task_callback \<Rightarrow> ledger_call \<Rightarrow> task_ledger \<Rightarrow> task_ledger \<Rightarrow> bool" where
  "ledger_update persist call l l' \<longleftrightarrow>
     l' = l \<or> (\<exists>c\<in>set (tl_records l). \<exists>t. task_change call c t \<and> persist t \<and> l' = ledger_put t l)"

lemma ledger_update_refl [simp]: "ledger_update persist call l l"
  by (simp add: ledger_update_def)

lemma ledger_update_put:
  "c \<in> set (tl_records l) \<Longrightarrow> task_change call c t \<Longrightarrow> persist t \<Longrightarrow> ledger_update persist call l (ledger_put t l)"
  by (auto simp: ledger_update_def)

lemma ledger_update_steps: "ledger_update persist call l l' \<Longrightarrow> ledger_steps persist fresh l l'"
  by (auto simp: ledger_update_def intro: step_update task_change_step)

lemma commit_steps:
  assumes "c \<in> set (tl_records l)" and "task_change call c t"
  shows "ends (task_commit persist t) (\<lambda>_ l'. ledger_update persist call l l') l"
  using assms by (auto simp: ends_simps intro: ledger_update_put)

lemma same_task_refl [simp]: "same_task c c"
  by (simp add: same_task_def)

lemma bind_execution_steps:
  "ends (task_bind_execution persist now t w s b ps rs)
     (\<lambda>_ l'. ledger_update persist (CBindExecution now t w s b ps rs) l l') l"
  unfolding task_bind_execution_def
  by (intro ends_checkS_I after_lookup commit_steps; (rule ledger_update_refl | assumption)?)
    (auto simp: task_change_def same_task_def evidence_def dest: validate_identifier_Inr)

lemma transition_change:
  assumes "transition_locked now c target u = Inr t" "parse_transition rq = Inr u"
    and "map_of task_statuses s = Some target" "tid = PStr (tr_task_id c)"
  shows "task_change (CTransition now' tid s rq) c t"
proof -
  note t = transition_locked_Inr [OF assms(1)]
  have "s = task_status_name target"
    using map_of_SomeD [OF assms(3)] by (auto simp: task_statuses_def)
  moreover have "tr_owner_id c = None \<and> owned_by t (xq_owner_id rq)" if "tr_owner_id t \<noteq> tr_owner_id c"
    using that t(4) parse_transition_offers(2) [OF assms(2)]
    by (auto simp: owned_by_def split: option.splits if_splits)
  moreover have "evidence t = map2 taken (evidence c) (offered_evidence rq)"
    unfolding t(5) evidence_def [of c] by (rule parse_transition_offers(1) [OF assms(2)])
  ultimately show ?thesis using t assms(4) by (auto simp: task_change_def)
qed

lemma transition_steps:
  "ends (task_transition persist now t s rq) (\<lambda>_ l'. ledger_update persist (CTransition now t s rq) l l') l"
  unfolding task_transition_def
  by (intro ends_checkS_I after_lookup commit_steps; (rule ledger_update_refl | assumption)?)
    (auto intro!: transition_change dest: validate_identifier_Inr split: option.splits)

lemma start_change:
  assumes "transition_locked now c TRunning (no_update\<lparr>tu_owner_id := Some w\<rparr>) = Inr t"
    and "tr_status c \<in> {TQueued, TReady, TLeased}"
  shows "task_change (CStart now' (PStr (tr_task_id c)) (PStr w)) c t"
proof -
  note t = transition_locked_Inr [OF assms(1)]
  have "tr_owner_id c = None \<or> tr_owner_id c = Some w"
    using assms(1) by (auto simp: transition_locked_def split: if_splits)
  then have "owned_by t (PStr w)" using t(4) by (auto simp: owned_by_def)
  moreover have "evidence t = evidence c" by (rule same_evidence [OF assms(1)]) (simp_all add: no_update_def)
  ultimately show ?thesis using t assms(2) by (auto simp: task_change_def split: option.splits)
qed

lemma start_steps:
  "ends (task_start persist now t w) (\<lambda>_ l'. ledger_update persist (CStart now t w) l l') l"
  unfolding task_start_def ends_if
  by (intro ends_checkS_I after_lookup)
    (auto simp: ends_simps intro!: ledger_update_put start_change dest!: validate_identifier_Inr split: sum.split)

lemma rollback_claim_steps:
  "ends (task_rollback_claim persist now t d) (\<lambda>_ l'. ledger_update persist (CRollbackClaim now t d) l l') l"
  unfolding task_rollback_claim_def
  by (intro ends_checkS_I after_lookup)
    (auto simp: ends_simps task_change_def same_task_def evidence_def dest!: validate_identifier_Inr
      intro!: ledger_update_put)

lemma after_resumable:
  assumes "I l" and "tr_status c = TStale \<Longrightarrow> tr_owner_id c = Some owner \<Longrightarrow> ends (f c) (\<lambda>_ t. I t) l"
  shows "ends (bindS (resumable_by owner revision c) f) (\<lambda>_ t. I t) l"
  using assms by (auto simp: resumable_by_def ends_simps)

lemma resume_change:
  assumes "tr_status c = TStale" "tr_owner_id c = Some w"
  shows "task_change (CResume now' (PStr (tr_task_id c)) (PStr w) b d) c
      ((without_evidence now revision detail c)\<lparr>tr_status := TReady, tr_owner_id := None, tr_lease_id := []\<rparr>)"
    and "task_change (CReactivate now' (PStr (tr_task_id c)) (PStr w) le b d) c
      ((without_evidence now revision detail c)\<lparr>tr_status := TRunning, tr_owner_id := Some w, tr_lease_id := lease\<rparr>)"
  using assms
  by (simp_all add: task_change_def same_task_def without_evidence_def evidence_def owned_by_def numeral_eq_Suc)

lemma resume_steps:
  "ends (task_resume persist now t w b d) (\<lambda>_ l'. ledger_update persist (CResume now t w b d) l l') l"
  unfolding task_resume_def
  by (intro ends_checkS_I after_lookup after_resumable; (rule ledger_update_refl)?)
    (auto intro!: commit_steps resume_change(1) dest!: validate_identifier_Inr)

lemma reactivate_steps:
  "ends (task_reactivate persist now t w le b d)
     (\<lambda>_ l'. ledger_update persist (CReactivate now t w le b d) l l') l"
  unfolding task_reactivate_def
  by (intro ends_checkS_I after_lookup after_resumable; (rule ledger_update_refl)?)
    (auto intro!: commit_steps resume_change(2) dest!: validate_identifier_Inr)

lemma finish_change:
  assumes "transition_locked now c target (no_update\<lparr>tu_detail := x, tu_result_ref := y\<rparr>) = Inr t"
    and "target = the (map_of task_statuses s)" "s \<in> {''succeeded'', ''failed'', ''cancelled''}"
    and "tr_status c \<in> {TRunning, TVerifying, TReviewReady}" "tr_owner_id c = Some w"
  shows "task_change (CFinish now' (PStr (tr_task_id c)) s (PStr w) d res) c t"
proof -
  note t = transition_locked_Inr [OF assms(1)]
  have "s = task_status_name target \<and> target \<in> {TSucceeded, TFailed, TCancelled}"
    using assms(2,3) by (auto simp: task_statuses_def)
  moreover have "evidence t = evidence c" by (rule same_evidence [OF assms(1)]) (simp_all add: no_update_def)
  ultimately show ?thesis using t assms(4,5) by (auto simp: task_change_def owned_by_def)
qed

lemma finish_steps:
  "ends (task_finish persist now t s w d r) (\<lambda>_ l'. ledger_update persist (CFinish now t s w d r) l l') l"
  unfolding task_finish_def
  by (intro ends_checkS_I after_lookup)
    (auto simp: ends_simps intro!: ledger_update_put finish_change dest!: validate_identifier_Inr
      split: sum.split if_splits)

lemma trim_for_insert_steps:
  "trim_for_insert mx d = (room, rs) \<Longrightarrow> tl_max_records l = mx \<Longrightarrow> tl_records l = d \<Longrightarrow>
     ledger_steps persist fresh l (l\<lparr>tl_records := rs\<rparr>) \<and> set rs \<subseteq> set d \<and>
     (room \<longrightarrow> length rs < mx) \<and>
     (kdistinct tr_task_id d \<longrightarrow> (\<forall>r\<in>set d. \<not> evictable r \<longrightarrow> r \<in> set rs))"
proof (induction mx d arbitrary: l rule: trim_for_insert.induct)
  case (1 mx d)
  show ?case
  proof (cases "length d < mx \<or> filter evictable d = []")
    case True
    with 1(2) have "rs = d \<and> (room \<longrightarrow> length rs < mx)"
      by (auto simp: trim_for_insert.simps [of mx] split: if_splits)
    with 1(4) show ?thesis by auto
  next
    case False
    then have full: "\<not> length d < mx" by simp
    from False obtain e es where f: "filter evictable d = e # es" by (auto simp: neq_Nil_conv)
    let ?oldest = "py_min_by tr_created_at e es"
    let ?d = "kpop tr_task_id (tr_task_id ?oldest) d"
    let ?l = "l\<lparr>tl_records := ?d\<rparr>"
    have o: "?oldest \<in> set d" "evictable ?oldest" using oldest_evictable [OF f] by simp_all
    have "trim_for_insert mx ?d = (room, rs)"
      using 1(2) full f by (simp add: trim_for_insert.simps [of mx d])
    note ih = 1(1) [OF full f this, of ?l]
    have "ledger_step persist fresh l ?l"
      using step_evict [of l ?oldest persist fresh] o full 1(3,4) by simp
    with ih 1(3) have "ledger_steps persist fresh l (l\<lparr>tl_records := rs\<rparr>)"
      by (simp add: converse_rtranclp_into_rtranclp)
    moreover have "r \<in> set rs" if "r \<in> set d" "\<not> evictable r" "kdistinct tr_task_id d" for r
    proof -
      have "r \<in> set ?d"
        using that o task_dict.same_key_eq [OF that(3) that(1) o(1)] by (auto simp: set_kpop)
      with ih 1(3) that kdistinct_kpop [OF that(3)] show ?thesis by simp
    qed
    moreover have "set rs \<subseteq> set d" using ih 1(3) by (auto simp: set_kpop)
    ultimately show ?thesis using ih 1(3) by simp
  qed
qed

lemma ends_task_trim:
  assumes "\<And>room rs. trim_for_insert (tl_max_records l) (tl_records l) = (room, rs) \<Longrightarrow>
    Q (if room then Inr () else Inl (LedgerConflict ''task ledger is full of active tasks''))
      (l\<lparr>tl_records := rs\<rparr>)"
  shows "ends task_trim Q l"
  using assms by (auto simp: ends_def task_trim_def split: prod.splits)

lemma parse_enqueue_Inr:
  "parse_enqueue now uuid rq = Inr t \<Longrightarrow>
     tr_task_id t = ''task-'' @ uuid \<and> tr_status t = TQueued \<and> tr_owner_id t = None"
  by (auto simp: parse_enqueue_def result_simps split: if_splits)

lemma enqueue_steps:
  assumes "fresh (''task-'' @ uuid)"
  shows "ends (task_enqueue persist now uuid rq) (\<lambda>_ l'. ledger_steps persist fresh l l') l"
proof -
  have "ends (bindS task_trim (\<lambda>_. task_commit persist t)) (\<lambda>_ l'. ledger_steps persist fresh l l') l"
    if t: "parse_enqueue now uuid rq = Inr t" and new: "find (\<lambda>r. same_request r t) (tl_records l) = None"
    for t
    unfolding ends_bindS
  proof (rule ends_task_trim)
    fix room rs assume trim: "trim_for_insert (tl_max_records l) (tl_records l) = (room, rs)"
    note s = trim_for_insert_steps [OF trim refl refl, of persist fresh]
    have "ledger_step persist fresh (l\<lparr>tl_records := rs\<rparr>) (ledger_put t (l\<lparr>tl_records := rs\<rparr>))"
      if "room" "persist t"
      using s that new parse_enqueue_Inr [OF t] assms
      by (intro step_insert) (auto simp: find_None_iff)
    with s show "case if room then Inr () else Inl (LedgerConflict ''task ledger is full of active tasks'') of
        Inl e \<Rightarrow> ledger_steps persist fresh l (l\<lparr>tl_records := rs\<rparr>)
      | Inr x \<Rightarrow> ends (task_commit persist t) (\<lambda>_. ledger_steps persist fresh l) (l\<lparr>tl_records := rs\<rparr>)"
      by (auto simp: ends_simps intro: rtranclp.rtrancl_into_rtrancl)
  qed
  then show ?thesis
    by (auto simp: task_enqueue_def ends_checkS ends_readS ends_simps(1,2) split: sum.split option.split)
qed

lemma read_steps:
  "ends (task_get t) (\<lambda>_ l'. l' = l) l" "ends (task_list w) (\<lambda>_ l'. l' = l) l"
  by (simp_all add: task_get_def task_list_def ends_simps split: sum.split)

fun is_enqueue :: "ledger_call \<Rightarrow> bool" where
  "is_enqueue (CEnqueue now uuid rq) = True"
| "is_enqueue _ = False"

lemma ledger_call_updates:
  "plain_call fresh call \<Longrightarrow> \<not> is_enqueue call \<Longrightarrow> ledger_update persist call l (ledger_run persist call l)"
  using bind_execution_steps transition_steps start_steps rollback_claim_steps
    resume_steps reactivate_steps finish_steps read_steps
  by (cases call) (simp_all add: ends_snd)

lemma ledger_call_refines:
  assumes "plain_call fresh call"
  shows "ledger_steps persist fresh l (ledger_run persist call l)"
proof (cases "is_enqueue call")
  case True
  then obtain now uuid rq where "call = CEnqueue now uuid rq" by (cases call) auto
  with assms enqueue_steps [of fresh uuid persist now rq l] show ?thesis by (simp add: ends_snd)
next
  case False
  from ledger_update_steps [OF ledger_call_updates [OF assms False]] show ?thesis .
qed

lemma ledger_calls_refine:
  "list_all (plain_call fresh) calls \<Longrightarrow>
     ledger_steps persist fresh l (fold (ledger_run persist) calls l)"
  by (induction calls arbitrary: l) (auto intro: rtranclp_trans ledger_call_refines)

section \<open>Invariants\<close>

definition ledger_wf :: "task_ledger \<Rightarrow> bool" where
  "ledger_wf l \<longleftrightarrow>
     kdistinct tr_task_id (tl_records l) \<and> length (tl_records l) \<le> tl_max_records l"

interpretation request_admission: admission same_request
  by unfold_locales (simp add: same_request_def)

definition requests_unique :: "task_ledger \<Rightarrow> bool" where
  "requests_unique l \<longleftrightarrow> conflict_free same_request (set (tl_records l))"

lemma step_wf:
  assumes "ledger_step persist fresh l l'" and "ledger_wf l"
  shows "ledger_wf l'"
  using assms
proof (cases rule: ledger_step.cases)
  case (step_update c t)
  then have "tr_task_id t \<in> tr_task_id ` set (tl_records l)"
    by (auto simp: task_step_def same_task_def)
  with step_update assms(2) show ?thesis by (simp add: ledger_wf_def length_kset kdistinct_kset)
next
  case (step_insert t)
  with assms(2) show ?thesis by (simp add: ledger_wf_def length_kset kdistinct_kset)
next
  case (step_evict r)
  with assms(2) show ?thesis
    using length_kpop_le [of tr_task_id "tr_task_id r" "tl_records l"]
    by (simp add: ledger_wf_def kdistinct_kpop)
qed

lemma task_same_request: "task_step c t \<Longrightarrow> same_request x t = same_request x c"
  by (simp add: task_step_def same_task_def same_request_def)

lemma step_requests_unique:
  assumes "ledger_step persist fresh l l'" and "ledger_wf l" and "requests_unique l"
  shows "requests_unique l'"
  using assms(1)
proof (cases rule: ledger_step.cases)
  case (step_update c t)
  have "conflict_free same_request (insert t {u \<in> set (tl_records l). tr_task_id u \<noteq> tr_task_id t})"
  proof (rule request_admission.replace)
    show "{u \<in> set (tl_records l). tr_task_id u \<noteq> tr_task_id t} \<subseteq> set (tl_records l) - {c}"
      using step_update by (auto simp: task_step_def same_task_def)
  qed (use step_update assms(3) task_same_request in \<open>auto simp: requests_unique_def\<close>)
  with step_update assms(2) show ?thesis by (simp add: requests_unique_def set_kset ledger_wf_def)
next
  case (step_insert t)
  have "conflict_free same_request (insert t {u \<in> set (tl_records l). tr_task_id u \<noteq> tr_task_id t})"
    by (rule request_admission.admit, rule request_admission.drop)
      (use step_insert assms(3) in \<open>auto simp: requests_unique_def\<close>)
  with step_insert assms(2) show ?thesis by (simp add: requests_unique_def set_kset ledger_wf_def)
next
  case (step_evict r)
  then show ?thesis using assms(3)
    by (auto simp: requests_unique_def set_kpop intro: request_admission.drop)
qed

lemma steps_invariant:
  assumes "ledger_steps persist fresh l l'" and "ledger_wf l"
  shows "ledger_wf l' \<and> (requests_unique l \<longrightarrow> requests_unique l')"
  using assms by (induction rule: rtranclp_induct) (auto intro: step_wf step_requests_unique)

lemma kdistinct_fold_kset: "kdistinct key d \<Longrightarrow> kdistinct key (fold (kset key) vs d)"
  by (induction vs arbitrary: d) (simp_all add: kdistinct_kset)

lemma kdistinct_by_creation: "kdistinct tr_task_id d \<Longrightarrow> kdistinct tr_task_id (last_n n (by_creation d))"
proof -
  assume "kdistinct tr_task_id d"
  then have "distinct (map tr_task_id (by_creation d))"
    by (simp add: kdistinct_def by_creation_def distinct_map)
  then show ?thesis by (simp add: kdistinct_def last_n_def drop_map [symmetric])
qed

lemma restore_wf: "ledger_wf l \<Longrightarrow> ledger_wf (snd (task_restore records replace l))"
proof -
  assume wf: "ledger_wf l"
  let ?d = "fold (kset tr_task_id) (map normalize_restored records) (if replace then [] else tl_records l)"
  have "kdistinct tr_task_id ?d"
    by (rule kdistinct_fold_kset) (use wf in \<open>simp add: ledger_wf_def kdistinct_def\<close>)
  then show ?thesis
    using kdistinct_by_creation [of ?d "tl_max_records l"]
    by (simp add: task_restore_def updS_def Let_def ledger_wf_def last_n_def by_creation_def)
qed

text \<open>How one receipt develops while its identifier is not issued again.\<close>

definition develops :: "task_receipt \<Rightarrow> task_receipt \<Rightarrow> bool" where
  "develops r r' \<longleftrightarrow> same_task r r' \<and> task_may_follow\<^sup>*\<^sup>* (tr_status r) (tr_status r')"

lemma develops_step: "develops r c \<Longrightarrow> task_step c t \<Longrightarrow> develops r t"
  by (auto simp: develops_def task_step_def same_task_def intro: rtranclp.rtrancl_into_rtrancl)

lemma step_develops:
  assumes "ledger_step persist (\<lambda>i. i \<noteq> tr_task_id r) l l'"
    and "\<forall>c\<in>set (tl_records l). tr_task_id c = tr_task_id r \<longrightarrow> develops r c"
  shows "\<forall>c\<in>set (tl_records l'). tr_task_id c = tr_task_id r \<longrightarrow> develops r c"
  using assms(1)
proof (cases rule: ledger_step.cases)
  case (step_update c t)
  have "develops r t" if "tr_task_id t = tr_task_id r"
    using step_update that assms(2) by (auto simp: task_step_def same_task_def intro: develops_step)
  with step_update assms(2) show ?thesis using set_kset_subset [of tr_task_id t "tl_records l"] by auto
next
  case (step_insert t)
  with assms(2) show ?thesis using set_kset_subset [of tr_task_id t "tl_records l"] by auto
next
  case (step_evict x)
  with assms(2) show ?thesis by (auto simp: set_kpop)
qed

lemma steps_develop:
  assumes "ledger_steps persist (\<lambda>i. i \<noteq> tr_task_id r) l l'"
    and "kdistinct tr_task_id (tl_records l)" and "r \<in> set (tl_records l)"
    and "c \<in> set (tl_records l')" and "tr_task_id c = tr_task_id r"
  shows "develops r c"
proof -
  have "\<forall>c\<in>set (tl_records l'). tr_task_id c = tr_task_id r \<longrightarrow> develops r c"
    using assms(1)
  proof (induction rule: rtranclp_induct)
    case base
    show ?case
      using task_dict.same_key_eq [OF assms(2) _ assms(3)] by (metis develops_def rtranclp.rtrancl_refl same_task_refl)
  qed (rule step_develops)
  with assms(4,5) show ?thesis by blast
qed

text \<open>What one call does to the receipts that are present.\<close>

lemma enqueue_keeps:
  assumes "ledger_wf l" and "r \<in> set (tl_records l)" and "tr_task_id r \<noteq> ''task-'' @ uuid"
  shows "ends (task_enqueue persist now uuid rq) (\<lambda>_ l'.
    (\<forall>c\<in>set (tl_records l'). tr_task_id c = tr_task_id r \<longrightarrow> c = r) \<and>
    (\<not> evictable r \<longrightarrow> r \<in> set (tl_records l'))) l"
proof -
  have d: "kdistinct tr_task_id (tl_records l)" using assms(1) by (simp add: ledger_wf_def)
  note only = task_dict.same_key_eq [OF d _ assms(2)]
  have "ends (bindS task_trim (\<lambda>_. task_commit persist t)) (\<lambda>_ l'.
      (\<forall>c\<in>set (tl_records l'). tr_task_id c = tr_task_id r \<longrightarrow> c = r) \<and>
      (\<not> evictable r \<longrightarrow> r \<in> set (tl_records l'))) l"
    if t: "parse_enqueue now uuid rq = Inr t" for t
    unfolding ends_bindS
  proof (rule ends_task_trim)
    fix room rs assume trim: "trim_for_insert (tl_max_records l) (tl_records l) = (room, rs)"
    have sub: "set rs \<subseteq> set (tl_records l)" and kept: "\<not> evictable r \<longrightarrow> r \<in> set rs"
      using trim_for_insert_steps [OF trim refl refl] d assms(2) by blast+
    have id: "tr_task_id t \<noteq> tr_task_id r" using parse_enqueue_Inr [OF t] assms(3) by auto
    then have "r \<in> set (kset tr_task_id t rs)" if "r \<in> set rs" using that by (auto simp: kset_def)
    then show "case if room then Inr () else Inl (LedgerConflict ''task ledger is full of active tasks'') of
        Inl e \<Rightarrow> (\<forall>c\<in>set (tl_records (l\<lparr>tl_records := rs\<rparr>)). tr_task_id c = tr_task_id r \<longrightarrow> c = r) \<and>
          (\<not> evictable r \<longrightarrow> r \<in> set (tl_records (l\<lparr>tl_records := rs\<rparr>)))
      | Inr x \<Rightarrow> ends (task_commit persist t) (\<lambda>_ l'.
          (\<forall>c\<in>set (tl_records l'). tr_task_id c = tr_task_id r \<longrightarrow> c = r) \<and>
          (\<not> evictable r \<longrightarrow> r \<in> set (tl_records l'))) (l\<lparr>tl_records := rs\<rparr>)"
      using sub kept only id set_kset_subset [of tr_task_id t rs]
      by (auto simp: ends_simps)
  qed
  then show ?thesis
    using only assms(2)
    by (auto simp: task_enqueue_def ends_checkS ends_readS ends_simps(1,2) split: sum.split option.split)
qed

lemma update_keeps:
  assumes "ledger_update persist call l l'" and "ledger_wf l" and "r \<in> set (tl_records l)"
  shows "(\<exists>c\<in>set (tl_records l'). tr_task_id c = tr_task_id r) \<and>
    (\<forall>c\<in>set (tl_records l'). tr_task_id c = tr_task_id r \<longrightarrow> c = r \<or> task_change call r c)"
proof -
  have d: "kdistinct tr_task_id (tl_records l)" using assms(2) by (simp add: ledger_wf_def)
  from assms(1) consider "l' = l"
    | c t where "c \<in> set (tl_records l)" "task_change call c t" "l' = ledger_put t l"
    by (auto simp: ledger_update_def)
  then show ?thesis
  proof cases
    case 1
    with assms(3) task_dict.same_key_eq [OF d _ assms(3)] show ?thesis by blast
  next
    case 2
    then have "tr_task_id t = tr_task_id c" by (simp add: task_change_def same_task_def)
    with 2 assms(3) task_dict.same_key_eq [OF d _ assms(3)] show ?thesis
      by (auto simp: set_kset [OF d])
  qed
qed

lemma call_keeps:
  assumes "plain_call (\<lambda>i. i \<noteq> tr_task_id r) call" and "ledger_wf l" and "r \<in> set (tl_records l)"
    and "l' = ledger_run persist call l"
  shows "(\<not> evictable r \<longrightarrow> (\<exists>c\<in>set (tl_records l'). tr_task_id c = tr_task_id r)) \<and>
    (\<forall>c\<in>set (tl_records l'). tr_task_id c = tr_task_id r \<longrightarrow> c = r \<or> task_change call r c)"
proof (cases "is_enqueue call")
  case True
  then obtain now uuid rq where "call = CEnqueue now uuid rq" by (cases call) auto
  with assms enqueue_keeps [OF assms(2,3), of uuid persist now rq] show ?thesis
    by (auto simp: ends_snd)
next
  case False
  from update_keeps [OF ledger_call_updates [OF assms(1) False] assms(2,3), of persist] assms(4)
  show ?thesis by blast
qed

lemma steps_no_new:
  "ledger_steps persist (\<lambda>i. i \<noteq> x) l l' \<Longrightarrow> x \<notin> tr_task_id ` set (tl_records l) \<Longrightarrow>
     x \<notin> tr_task_id ` set (tl_records l')"
proof (induction rule: rtranclp_induct)
  case (step k k')
  from step.hyps(2) show ?case
  proof (cases rule: ledger_step.cases)
    case (step_update c t)
    then have "tr_task_id t \<in> tr_task_id ` set (tl_records k)" by (auto simp: task_step_def same_task_def)
    with step.IH [OF step.prems] step_update set_kset_subset [of tr_task_id t "tl_records k"]
    show ?thesis by auto
  next
    case (step_insert t)
    with step.IH [OF step.prems] set_kset_subset [of tr_task_id t "tl_records k"] show ?thesis by auto
  next
    case (step_evict r)
    with step.IH [OF step.prems] show ?thesis by (auto simp: set_kpop)
  qed
qed simp

text \<open>The receipts that a reader of the accepted notifications knows.\<close>

definition task_mirror :: "task_ledger \<Rightarrow> task_receipt list" where
  "task_mirror l = fold (kset tr_task_id) (tl_notified l) []"

definition mirrored :: "task_ledger \<Rightarrow> bool" where
  "mirrored l \<longleftrightarrow> (\<forall>r\<in>set (tl_records l). kget tr_task_id (tr_task_id r) (task_mirror l) = Some r)"

lemma put_mirrored:
  assumes "ledger_wf l" and "mirrored l" shows "mirrored (ledger_put t l)"
  using assms by (auto simp: mirrored_def task_mirror_def ledger_wf_def set_kset store_simps)

lemma step_mirrored:
  assumes "ledger_step persist fresh l l'" and "ledger_wf l" and "mirrored l"
  shows "mirrored l'"
  using assms(1)
proof (cases rule: ledger_step.cases)
  case (step_evict r)
  with assms(3) show ?thesis by (auto simp: mirrored_def task_mirror_def set_kpop)
qed (simp_all add: put_mirrored assms)

lemma steps_mirrored:
  assumes "ledger_steps persist fresh l l'" and "ledger_wf l" and "mirrored l"
  shows "mirrored l' \<and> ledger_wf l'"
  using assms by (induction rule: rtranclp_induct) (auto intro: step_wf step_mirrored)

section \<open>Example states\<close>

definition example_enqueue :: "string \<Rightarrow> string list \<Rightarrow> enqueue_request" where
  "example_enqueue request paths =
     \<lparr>eq_request_id = PStr request, eq_workspace_id = PStr ''repo'', eq_title = PStr ''a task'',
      eq_working_tree_id = PNone, eq_development_session_id = PNone,
      eq_allowed_paths = map PStr paths, eq_resources = [], eq_depends_on = [],
      eq_base_revision = PStr [], eq_context_pack_id = PNone\<rparr>"

definition no_receipts :: transition_request where
  "no_receipts =
     \<lparr>xq_owner_id = PNone, xq_lease_id = PNone, xq_patch_hash = PNone,
      xq_verification_receipt = PNone, xq_security_audit_receipt = PNone,
      xq_git_commit_receipt = PNone, xq_git_push_receipt = PNone, xq_detail = PStr [],
      xq_result_ref = PStr [], xq_result = PStr [], xq_integration_receipt = PNone\<rparr>"

definition example_ledger :: task_ledger where
  "example_ledger = \<lparr>tl_max_records = 2, tl_records = [], tl_notified = []\<rparr>"

definition accept :: task_callback where
  "accept = (\<lambda>_. True)"

text \<open>A task that runs, records a verification receipt, and succeeds.\<close>

definition example_run :: "ledger_call list" where
  "example_run =
     [CEnqueue ''t0'' ''a'' (example_enqueue ''r1'' [''src/app'']),
      CStart ''t1'' (PStr ''task-a'') (PStr ''w1''),
      CTransition ''t2'' (PStr ''task-a'') ''verifying''
        (no_receipts\<lparr>xq_verification_receipt := PStr ''check:1''\<rparr>),
      CTransition ''t3'' (PStr ''task-a'') ''review_ready'' no_receipts]"

definition example_finish :: ledger_call where
  "example_finish = CFinish ''t4'' (PStr ''task-a'') ''succeeded'' (PStr ''w1'') (PStr []) (PStr [])"

definition example_bind :: ledger_call where
  "example_bind =
     CBindExecution ''t5'' (PStr ''task-a'') (PStr ''tree-2'') (PStr ''session-2'') (PStr []) None None"

definition example_task :: "task_status \<Rightarrow> string \<Rightarrow> task_receipt" where
  "example_task status now =
     \<lparr>tr_task_id = ''task-a'', tr_request_id = ''r1'', tr_workspace_id = ''repo'', tr_title = ''a task'',
      tr_status = status, tr_owner_id = Some ''w1'', tr_created_at = ''t0'', tr_updated_at = now,
      tr_detail = [], tr_result_ref = [], tr_working_tree_id = [], tr_development_session_id = [],
      tr_allowed_paths = [''src/app''], tr_resources = [], tr_lease_id = [], tr_base_revision = [],
      tr_patch_hash = [], tr_verification_receipt = ''check:1'', tr_security_audit_receipt = [],
      tr_context_pack_id = [], tr_integration_receipt = [], tr_git_commit_receipt = [],
      tr_git_push_receipt = [], tr_dependencies = [], tr_result = []\<rparr>"

definition reviewed :: task_ledger where
  "reviewed = fold (ledger_run accept) example_run example_ledger"

definition finished :: task_ledger where
  "finished = ledger_run accept example_finish reviewed"

lemma reviewed_value:
  "reviewed = \<lparr>tl_max_records = 2, tl_records = [example_task TReviewReady ''t3''],
     tl_notified =
       [(example_task TQueued ''t0'')\<lparr>tr_owner_id := None, tr_verification_receipt := []\<rparr>,
        (example_task TRunning ''t1'')\<lparr>tr_verification_receipt := []\<rparr>,
        example_task TVerifying ''t2'', example_task TReviewReady ''t3'']\<rparr>"
  by code_simp

lemma reviewed_records: "tl_records reviewed = [example_task TReviewReady ''t3'']"
  by (simp add: reviewed_value)

lemma finished_records: "tl_records finished = [example_task TSucceeded ''t4'']"
  unfolding finished_def reviewed_value by code_simp

lemma example_wf: "ledger_wf reviewed" "ledger_wf finished"
proof -
  have e: "ledger_wf example_ledger" by (simp add: ledger_wf_def kdistinct_def example_ledger_def)
  have "list_all (plain_call (\<lambda>_. True)) example_run" by code_simp
  from ledger_calls_refine [OF this] steps_invariant [OF _ e] show r: "ledger_wf reviewed"
    unfolding reviewed_def by blast
  have "plain_call (\<lambda>_. True) example_finish" by code_simp
  from ledger_call_refines [OF this] steps_invariant [OF _ r] show "ledger_wf finished"
    unfolding finished_def by blast
qed

section \<open>Properties\<close>

text \<open>
  C4: Receipts follow the lifecycle call by call. Take any sequence of calls other than \<open>restore\<close>
  that does not issue the task's identifier again. A receipt of the task after the last call comes from
  one before it; when their statuses differ, the last call names this task and enters the new
  status as it may: \<open>transition\<close> enters the status it names from one of the statuses that lead to it,
  \<open>start\<close> sets a queued, ready or leased task running under the given owner, a rolled back claim and
  a resumption by the owner return to ready, a reactivation by the owner to running, and \<open>finish\<close> is the
  owner's. The receipt has the identity, request, workspace, title, creation time and
  dependencies it had at the start, and a succeeded, failed, cancelled or blocked task stays so.
\<close>

theorem task_lifecycle_respected:
  assumes "ledger_wf l" and "r \<in> set (tl_records l)"
    and "list_all (plain_call (\<lambda>i. i \<noteq> tr_task_id r)) (calls @ [call])"
    and "c \<in> set (tl_records (fold (ledger_run persist) (calls @ [call]) l))" and "tr_task_id c = tr_task_id r"
  shows "same_task r c \<and> (task_final (tr_status r) \<longrightarrow> tr_status c = tr_status r) \<and>
    (\<exists>m\<in>set (tl_records (fold (ledger_run persist) calls l)). tr_task_id m = tr_task_id r \<and>
      (tr_status c \<noteq> tr_status m \<longrightarrow> call_target call = PStr (tr_task_id r) \<and> status_entered call m c))"
proof -
  let ?mid = "fold (ledger_run persist) calls l"
  have calls: "list_all (plain_call (\<lambda>i. i \<noteq> tr_task_id r)) calls" "plain_call (\<lambda>i. i \<noteq> tr_task_id r) call"
    using assms(3) by simp_all
  have c: "c \<in> set (tl_records (ledger_run persist call ?mid))" using assms(4) by simp
  have "tr_task_id r \<in> tr_task_id ` set (tl_records ?mid)"
    using steps_no_new [OF ledger_call_refines [OF calls(2)]] c assms(5) by (metis imageI)
  then obtain m where m: "m \<in> set (tl_records ?mid)" "tr_task_id m = tr_task_id r" by auto
  have wf: "ledger_wf ?mid" using steps_invariant [OF ledger_calls_refine [OF calls(1)] assms(1)] by blast
  have "c = m \<or> task_change call m c"
    using call_keeps [OF _ wf m(1) refl, of call persist] calls(2) c assms(5) m(2) by simp
  then have step: "tr_status c \<noteq> tr_status m \<longrightarrow> call_target call = PStr (tr_task_id r) \<and> status_entered call m c"
    using m(2) by (auto simp: task_change_def)
  have "develops r c"
    using steps_develop [OF ledger_calls_refine [OF assms(3)] _ assms(2,4,5)] assms(1) by (simp add: ledger_wf_def)
  then have "same_task r c \<and> (task_final (tr_status r) \<longrightarrow> tr_status c = tr_status r)"
    using task_lifecycle.terminal_stays by (simp add: develops_def)
  with m step show ?thesis by blast
qed

lemma task_lifecycle_respected_witness:
  "tr_status (example_task TReviewReady ''t3'') \<in> entered_from TSucceeded \<and>
   owned_by (example_task TReviewReady ''t3'') (PStr ''w1'')"
proof -
  have p: "list_all (plain_call (\<lambda>i. i \<noteq> tr_task_id (example_task TReviewReady ''t3''))) ([] @ [example_finish])"
    by code_simp
  have c: "example_task TSucceeded ''t4'' \<in>
      set (tl_records (fold (ledger_run accept) ([] @ [example_finish]) reviewed))"
    using finished_records by (simp add: finished_def)
  from task_lifecycle_respected [OF example_wf(1) _ p c] show ?thesis
    by (simp add: reviewed_records) (simp add: example_task_def example_finish_def)
qed

text \<open>
  C26: The ledger is bounded and idempotent. Whatever calls it served, restarts included, it
  holds at most \<open>max_records\<close> receipts under distinct task ids; and as long as \<open>restore\<close> was not
  among the calls, no workspace has two receipts of one request.
\<close>

theorem task_ledger_bounded:
  assumes "task_ledger_init n = Inr l"
  shows "ledger_wf (fold (ledger_run persist) calls l) \<and>
    (list_all (plain_call (\<lambda>_. True)) calls \<longrightarrow>
      conflict_free same_request (set (tl_records (fold (ledger_run persist) calls l))))"
proof -
  have l: "ledger_wf l" "requests_unique l"
    using assms by (auto simp: task_ledger_init_def ledger_wf_def kdistinct_def requests_unique_def
        conflict_free_def split: if_splits)
  have "ledger_wf (ledger_run persist call k)" if "ledger_wf k" for call k
  proof (cases "plain_call (\<lambda>_. True) call")
    case True
    from steps_invariant [OF ledger_call_refines [OF True] that] show ?thesis by blast
  next
    case False
    then obtain rs b where "call = CRestore rs b" by (cases call) auto
    with restore_wf [OF that] show ?thesis by simp
  qed
  then have "ledger_wf (fold (ledger_run persist) calls k)" if "ledger_wf k" for k
    using that by (induction calls arbitrary: k) auto
  with l steps_invariant [OF ledger_calls_refine l(1)] show ?thesis
    by (auto simp: requests_unique_def)
qed

lemma task_ledger_bounded_witness:
  "conflict_free same_request (set (tl_records reviewed))"
proof -
  have i: "task_ledger_init 2 = Inr example_ledger" by code_simp
  have "list_all (plain_call (\<lambda>_. True)) example_run" by code_simp
  with task_ledger_bounded [OF i, of accept example_run] show ?thesis by (simp add: reviewed_def)
qed

text \<open>
  A repeated \<open>enqueue\<close> changes nothing. Once a request was enqueued, a further request with
  the same request id, workspace and title returns the receipt of the first, whatever else it
  asks for and whatever uuid and time it brings, and leaves the ledger as it is.
\<close>

theorem enqueue_idempotent:
  assumes "task_enqueue persist now uuid rq l = (Inr t, l')"
    and "parse_enqueue now2 uuid2 rq2 = Inr t2" and "same_request t t2" and "tr_title t2 = tr_title t"
  shows "task_enqueue persist now2 uuid2 rq2 l' = (Inr t, l')"
proof -
  from assms(1) obtain p where p: "parse_enqueue now uuid rq = Inr p"
    by (auto simp: task_enqueue_def checkS_eq split: sum.splits)
  have same: "same_request x t2 = same_request x t" for x
    using assms(3) by (auto simp: same_request_def)
  have "find (\<lambda>r. same_request r t) (tl_records l') = Some t"
  proof (cases "find (\<lambda>r. same_request r p) (tl_records l)")
    case (Some r)
    with assms(1) p have r: "r = t" "l' = l"
      by (auto simp: task_enqueue_def checkS_eq readS_def retS_def failS_def split: if_splits)
    from Some have "same_request r p"
      by (metis find_Some_iff)
    then have "same_request x p = same_request x t" for x
      using r by (auto simp: same_request_def)
    with Some r show ?thesis by simp
  next
    case None
    obtain room rs where trim: "trim_for_insert (tl_max_records l) (tl_records l) = (room, rs)"
      by fastforce
    have "t = p \<and> l' = ledger_put p (l\<lparr>tl_records := rs\<rparr>)"
      using assms(1) p None trim
      by (auto simp: task_enqueue_def checkS_eq readS_def bindS_def task_trim_def task_commit_def
          task_notify_def task_store_def updS_def retS_def failS_def split: if_splits)
    moreover have "\<forall>r\<in>set rs. \<not> same_request r p"
      using None subsetD [OF conjunct1 [OF conjunct2 [OF trim_for_insert_steps [OF trim refl refl]]]]
      by (auto simp: find_None_iff)
    then have "find (\<lambda>r. same_request r p) (kset tr_task_id p rs) = Some p"
      by (rule find_kset) (simp add: same_request_def)
    ultimately show ?thesis by simp
  qed
  with assms(2,4) same show ?thesis
    by (simp add: task_enqueue_def checkS_eq readS_def retS_def)
qed

lemma enqueue_idempotent_witness:
  "fst (task_enqueue accept ''t9'' ''z'' (example_enqueue ''r1'' [''docs''])
     (snd (task_enqueue accept ''t0'' ''a'' (example_enqueue ''r1'' [''src/app'']) example_ledger))) =
   Inr ((example_task TQueued ''t0'')\<lparr>tr_owner_id := None, tr_verification_receipt := []\<rparr>)"
proof -
  let ?t = "(example_task TQueued ''t0'')\<lparr>tr_owner_id := None, tr_verification_receipt := []\<rparr>"
  let ?t2 = "?t\<lparr>tr_task_id := ''task-z'', tr_created_at := ''t9'', tr_updated_at := ''t9'',
    tr_allowed_paths := [''docs'']\<rparr>"
  have a: "task_enqueue accept ''t0'' ''a'' (example_enqueue ''r1'' [''src/app'']) example_ledger =
      (Inr ?t, ledger_put ?t example_ledger)"
    by code_simp
  have b: "parse_enqueue ''t9'' ''z'' (example_enqueue ''r1'' [''docs'']) = Inr ?t2"
    by code_simp
  have "same_request ?t ?t2" "tr_title ?t2 = tr_title ?t"
    by (simp_all add: same_request_def)
  from enqueue_idempotent [OF a b this] show ?thesis by (simp add: a)
qed

text \<open>
  C27: One call other than \<open>restore\<close> never loses a task that is still active, and changes only the
  receipt of the task it names. The owner of a task changes only when an unowned task is given one by
  \<open>transition\<close> or \<open>start\<close>, or when it is removed as a leased or running task is rolled back to ready
  or a stale task is resumed by that owner. The recorded evidence (patch hash and receipts)
  changes only when \<open>transition\<close> offers a piece, which replaces that piece and no other, or when a
  stale task is resumed or reactivated, which clears it.
\<close>

theorem task_call_keeps_active:
  assumes "ledger_wf l" and "r \<in> set (tl_records l)"
    and "plain_call (\<lambda>i. i \<noteq> tr_task_id r) call" and "l' = ledger_run persist call l"
  shows "(tr_status r \<in> {TQueued, TReady, TLeased, TRunning, TVerifying, TReviewReady} \<longrightarrow>
      tr_task_id r \<in> tr_task_id ` set (tl_records l')) \<and>
    (\<forall>c\<in>set (tl_records l'). tr_task_id c = tr_task_id r \<longrightarrow>
      (c \<noteq> r \<longrightarrow> call_target call = PStr (tr_task_id r)) \<and>
      (tr_owner_id c \<noteq> tr_owner_id r \<longrightarrow> owner_changed call r c) \<and>
      (evidence c \<noteq> evidence r \<longrightarrow> evidence_changed call r c))"
proof -
  note k = call_keeps [OF assms(3,1,2,4)]
  have "tr_task_id r \<in> tr_task_id ` set (tl_records l')"
    if "tr_status r \<in> {TQueued, TReady, TLeased, TRunning, TVerifying, TReviewReady}"
  proof -
    have "\<not> evictable r" using that by (auto simp: evictable_def)
    with k show ?thesis by (metis imageI)
  qed
  with k show ?thesis unfolding task_change_def by blast
qed

lemma task_call_keeps_active_witness:
  "tr_owner_id (example_task TSucceeded ''t4'') = tr_owner_id (example_task TReviewReady ''t3'') \<and>
   evidence (example_task TSucceeded ''t4'') = evidence (example_task TReviewReady ''t3'') \<and>
   tr_task_id (example_task TReviewReady ''t3'') \<in> tr_task_id ` set (tl_records finished)"
proof -
  have p: "plain_call (\<lambda>i. i \<noteq> tr_task_id (example_task TReviewReady ''t3'')) example_finish"
    by code_simp
  from task_call_keeps_active [OF example_wf(1) _ p finished_def] show ?thesis
    by (simp add: reviewed_records finished_records) (simp add: example_task_def example_finish_def evidence_def)
qed

text \<open>
  C28: The accepted notifications mirror the ledger: for every receipt the ledger holds, after any
  sequence of calls other than \<open>restore\<close> and with the callback refusing at will, the last accepted
  notification of that task is this very receipt.
\<close>

theorem task_notifications_mirror:
  assumes "task_ledger_init n = Inr l" and "list_all (plain_call (\<lambda>_. True)) calls"
    and "r \<in> set (tl_records (fold (ledger_run persist) calls l))"
  shows "kget tr_task_id (tr_task_id r) (fold (kset tr_task_id)
    (tl_notified (fold (ledger_run persist) calls l)) []) = Some r"
proof -
  have "ledger_wf l" "mirrored l"
    using assms(1) by (auto simp: task_ledger_init_def ledger_wf_def kdistinct_def mirrored_def
        split: if_splits)
  with steps_mirrored [OF ledger_calls_refine [OF assms(2)]]
  have "mirrored (fold (ledger_run persist) calls l)" by blast
  with assms(3) show ?thesis by (simp add: mirrored_def task_mirror_def)
qed

lemma task_notifications_mirror_witness:
  "kget tr_task_id ''task-a'' (fold (kset tr_task_id) (tl_notified reviewed) []) =
     Some (example_task TReviewReady ''t3'')"
proof -
  have i: "task_ledger_init 2 = Inr example_ledger" by code_simp
  have p: "list_all (plain_call (\<lambda>_. True)) example_run" by code_simp
  from task_notifications_mirror [OF i p, of _ accept, folded reviewed_def] show ?thesis
    by (simp add: reviewed_records) (simp add: example_task_def)
qed

text \<open>
  The identity that \<open>bind_execution\<close> attaches is not immutable: it is overwritten by a later
  call, even on a task that has already succeeded.
\<close>

theorem bind_execution_rebinds_finished_task:
  "tl_records finished = [example_task TSucceeded ''t4''] \<and>
   tl_records (ledger_run accept example_bind finished) =
     [(example_task TSucceeded ''t4'')\<lparr>tr_working_tree_id := ''tree-2'',
        tr_development_session_id := ''session-2'', tr_updated_at := ''t5''\<rparr>] \<and>
   map tr_working_tree_id (tl_records (ledger_run accept
     (CBindExecution ''t6'' (PStr ''task-a'') (PStr ''tree-3'') (PStr ''session-3'') (PStr []) None None)
     (ledger_run accept example_bind finished))) = [''tree-3'']"
proof -
  have f: "finished = \<lparr>tl_max_records = 2, tl_records = [example_task TSucceeded ''t4''],
      tl_notified = tl_notified reviewed @ [example_task TSucceeded ''t4'']\<rparr>"
    unfolding finished_def reviewed_value by code_simp
  show ?thesis unfolding f reviewed_value by code_simp
qed

end
