(* ===== verification/PatchPolicy.thy ===== *)
theory PatchPolicy
  imports DirectorText
begin

text \<open>
  The patch preflight \<open>evaluate_patch\<close> of \<open>src/src/chatgpt_dev_mcp/director.py\<close>, and the
  adapter \<open>_unified_to_apply_patch\<close> of \<open>server.py\<close> that rewrites a preflighted patch before it
  is applied. A stage of the preflight that ends it with \<open>_deny_patch(reason)\<close> returns \<open>Inl\<close> of
  the reason.
\<close>

section \<open>Decisions\<close>

datatype patch_status = PAllow | PReviewRequired | PDeny

datatype patch_risk = RLow | RMedium | RHigh

datatype patch_operation = OpAdd | OpUpdate | OpDelete | OpMove

record patch_decision =
  pd_status :: patch_status
  pd_risk :: patch_risk
  pd_reason :: string
  pd_paths :: "string list"
  pd_operations :: "patch_operation list"

definition pd_allowed :: "patch_decision \<Rightarrow> bool" where
  "pd_allowed d \<longleftrightarrow> pd_status d \<noteq> PDeny"

definition pd_requires_review :: "patch_decision \<Rightarrow> bool" where
  "pd_requires_review d \<longleftrightarrow> pd_status d = PReviewRequired"

definition deny_patch :: "string \<Rightarrow> patch_decision" where
  "deny_patch reason =
     \<lparr>pd_status = PDeny, pd_risk = RHigh, pd_reason = reason, pd_paths = [], pd_operations = []\<rparr>"

section \<open>Headers\<close>

text \<open>\<open>.+?\<close>\<close>

definition r_some_lazy :: regex where
  "r_some_lazy = RSeq r_dot (RStar False r_dot)"

definition apply_patch_header_re :: regex where
  "apply_patch_header_re = r_all
     [r_lit ''***'', r_plus r_space,
      RGroup 1 (r_any [r_lit ''Add'', r_lit ''Update'', r_lit ''Delete'']),
      r_lit '' File:'', r_star r_space, RGroup 2 r_some_lazy, r_star r_space, RTextEnd]"

definition apply_patch_move_re :: regex where
  "apply_patch_move_re = r_all
     [r_lit ''***'', r_plus r_space, r_lit ''Move to:'', r_star r_space, RGroup 1 r_some_lazy,
      r_star r_space, RTextEnd]"

definition unified_header_re :: regex where
  "unified_header_re = r_all
     [RGroup 1 (r_any [r_lit ''---'', r_lit ''+++'']), r_plus r_space, RGroup 2 r_some_lazy,
      r_star r_space, RTextEnd]"

definition m_group :: "mstate \<Rightarrow> nat \<Rightarrow> string" where
  "m_group st n = (case map_of (m_groups st) n of None \<Rightarrow> [] | Some t \<Rightarrow> t)"

text \<open>\<open>operation.lower()\<close> for the three words that the header pattern admits.\<close>

definition header_operation :: "string \<Rightarrow> patch_operation" where
  "header_operation word =
     (if word = ''Add'' then OpAdd else if word = ''Update'' then OpUpdate else OpDelete)"

definition patch_path_from_unified :: "string \<Rightarrow> string \<Rightarrow> director_error + string option" where
  "patch_path_from_unified raw pre =
     (let path = py_strip (hd (py_split CHR 0x09 raw)) in
      if path = ''/dev/null'' then Inr None
      else
        let path' = (if prefix (pre @ ''/'') path then drop (length pre + 1) path else path) in
        bindE (normalize_relative_path (PStr path')) (\<lambda>p. Inr (Some p)))"

definition denied :: "string \<Rightarrow> 'e + 'a \<Rightarrow> string + 'a" where
  "denied reason = mapError (\<lambda>_. reason)"

text \<open>The entries of the \<open>*** Add/Update/Delete File:\<close> and \<open>*** Move to:\<close> headers.\<close>

definition apply_entry :: "string \<Rightarrow> string + (patch_operation \<times> string) list" where
  "apply_entry line =
     (case re_match apply_patch_header_re line of
        Some st \<Rightarrow>
          bindE (denied ''PATCH_PATH_INVALID'' (normalize_relative_path (PStr (m_group st 2)))) (\<lambda>path.
          Inr [(header_operation (m_group st 1), path)])
      | None \<Rightarrow> (case re_match apply_patch_move_re line of
          Some st \<Rightarrow>
            bindE (denied ''PATCH_PATH_INVALID'' (normalize_relative_path (PStr (m_group st 1)))) (\<lambda>path.
            Inr [(OpMove, path)])
        | None \<Rightarrow> Inr []))"

definition apply_entries :: "string list \<Rightarrow> string + (patch_operation \<times> string) list" where
  "apply_entries lines = bindE (mapE apply_entry lines) (\<lambda>ess. Inr (concat ess))"

text \<open>The entry of a pair of unified headers.\<close>

fun unified_entry ::
  "string option \<Rightarrow> string option \<Rightarrow> string + (patch_operation \<times> string) list" where
  "unified_entry None None = Inl ''PATCH_HEADER_INVALID''"
| "unified_entry None (Some new) = Inr [(OpAdd, new)]"
| "unified_entry (Some old) None = Inr [(OpDelete, old)]"
| "unified_entry (Some old) (Some new) =
     Inr (if old \<noteq> new then [(OpMove, old), (OpMove, new)] else [(OpUpdate, old)])"

text \<open>The loop over the unified headers; the first argument is \<open>pending_old\<close> when a \<open>---\<close>
  header waits for its \<open>+++\<close> header.\<close>

fun unified_entries ::
  "string option option \<Rightarrow> string list \<Rightarrow> string + (patch_operation \<times> string) list" where
  "unified_entries pending [] =
     (if pending \<noteq> None then Inl ''PATCH_HEADER_INVALID'' else Inr [])"
| "unified_entries pending (line # lines) =
     (case re_match unified_header_re line of
        None \<Rightarrow> unified_entries pending lines
      | Some st \<Rightarrow>
          bindE (denied ''PATCH_PATH_INVALID''
            (patch_path_from_unified (m_group st 2)
              (if m_group st 1 = ''---'' then ''a'' else ''b''))) (\<lambda>path.
          if m_group st 1 = ''---''
          then if pending \<noteq> None then Inl ''PATCH_HEADER_INVALID''
               else unified_entries (Some path) lines
          else case pending of
              None \<Rightarrow> Inl ''PATCH_HEADER_INVALID''
            | Some old \<Rightarrow>
                bindE (unified_entry old path) (\<lambda>es.
                bindE (unified_entries None lines) (\<lambda>rest. Inr (es @ rest)))))"

section \<open>The preflight\<close>

definition patch_entries :: "string list \<Rightarrow> string + (patch_operation \<times> string) list" where
  "patch_entries lines =
     bindE (apply_entries lines) (\<lambda>entries.
     if entries = [] then unified_entries None lines else Inr entries)"

definition has_line :: "string \<Rightarrow> string list \<Rightarrow> bool" where
  "has_line marker lines = list_ex (\<lambda>line. py_strip line = marker) lines"

text \<open>The checks up to the list of entries.\<close>

definition preflight_entries ::
  "pyval \<Rightarrow> int \<Rightarrow> int \<Rightarrow> pyval list \<Rightarrow> string + (string list \<times> (patch_operation \<times> string) list)" where
  "preflight_entries patch max_bytes max_files allowed_prefixes =
     (case patch of
        PStr text \<Rightarrow>
          if py_strip text = [] \<or> has_nul text then Inl ''PATCH_INVALID_INPUT''
          else if \<not> (1 \<le> max_bytes \<and> max_bytes \<le> max_patch_bytes) \<or> max_bytes < int (utf8_size text)
          then Inl ''PATCH_SIZE_LIMIT''
          else if \<not> (1 \<le> max_files \<and> max_files \<le> max_patch_files) then Inl ''PATCH_FILE_LIMIT''
          else if patch_contains_secret_like_content text then Inl ''PATCH_SECRET_LIKE_CONTENT''
          else
            bindE (denied ''PATCH_PREFIX_INVALID'' (mapE normalize_relative_path allowed_prefixes))
              (\<lambda>scopes.
            let lines = py_splitlines text in
            if has_line ''*** Begin Patch'' lines \<noteq> has_line ''*** End Patch'' lines
            then Inl ''PATCH_BOUNDARY_INVALID''
            else bindE (patch_entries lines) (\<lambda>entries. Inr (scopes, entries)))
      | _ \<Rightarrow> Inl ''PATCH_INVALID_INPUT'')"

definition evaluate_patch :: "pyval \<Rightarrow> int \<Rightarrow> int \<Rightarrow> pyval list \<Rightarrow> patch_decision" where
  "evaluate_patch patch max_bytes max_files allowed_prefixes =
     (case preflight_entries patch max_bytes max_files allowed_prefixes of
        Inl reason \<Rightarrow> deny_patch reason
      | Inr (scopes, entries) \<Rightarrow>
          if entries = [] then deny_patch ''PATCH_NO_FILES''
          else if max_files < int (length entries) then deny_patch ''PATCH_FILE_LIMIT''
          else
            let paths = map snd entries; operations = map fst entries in
            if \<not> distinct paths then deny_patch ''PATCH_DUPLICATE_PATH''
            else if scopes \<noteq> [] \<and>
              list_ex (\<lambda>path. \<not> list_ex (\<lambda>pre. path_under path pre) scopes) paths
            then deny_patch ''PATCH_PATH_OUTSIDE_ALLOWED_PREFIX''
            else if list_ex (\<lambda>operation. operation \<in> {OpDelete, OpMove}) operations
            then \<lparr>pd_status = PReviewRequired, pd_risk = RHigh, pd_reason = ''PATCH_DESTRUCTIVE_REVIEW'',
                   pd_paths = paths, pd_operations = operations\<rparr>
            else \<lparr>pd_status = PAllow, pd_risk = (if OpUpdate \<in> set operations then RMedium else RLow),
                   pd_reason = ''PATCH_PREFLIGHT_OK'', pd_paths = paths, pd_operations = operations\<rparr>)"

section \<open>The adapter in front of the patch tool\<close>

datatype tool_failure = ToolFailure string string | ToolError director_error

definition unified_patch_path :: "string \<Rightarrow> string \<Rightarrow> tool_failure + string option" where
  "unified_patch_path raw pre = mapError ToolError (patch_path_from_unified raw pre)"

fun is_file_header :: "string list \<Rightarrow> bool" where
  "is_file_header (a # b # _) \<longleftrightarrow> prefix ''--- '' a \<and> prefix ''+++ '' b"
| "is_file_header _ \<longleftrightarrow> False"

text \<open>The lines of a hunk, without the \<open>\\<close> lines, and the lines after it.\<close>

fun take_hunk :: "string list \<Rightarrow> string list \<times> string list" where
  "take_hunk [] = ([], [])"
| "take_hunk (line # lines) =
     (if prefix ''@@'' line \<or> is_file_header (line # lines) then ([], line # lines)
      else case take_hunk lines of (hunk, rest) \<Rightarrow>
        (if prefix [CHR 0x5C] line then hunk else line # hunk, rest))"

lemma take_hunk_length: "length (snd (take_hunk lines)) \<le> length lines"
  by (induction lines rule: take_hunk.induct) (auto split: prod.splits)

lemma take_hunk_shorter: "take_hunk lines = (hunk, rest) \<Longrightarrow> length rest < Suc (length lines)"
  using take_hunk_length [of lines] by simp

function take_hunks :: "string list \<Rightarrow> string list list \<times> string list" where
  "take_hunks [] = ([], [])"
| "take_hunks (line # lines) =
     (if is_file_header (line # lines) then ([], line # lines)
      else if \<not> prefix ''@@'' line then take_hunks lines
      else case take_hunk lines of (hunk, rest) \<Rightarrow>
        (case take_hunks rest of (hunks, rest') \<Rightarrow> (hunk # hunks, rest')))"
  by pat_completeness auto
termination
  by (relation "measure length") (auto dest: take_hunk_shorter [OF sym])

lemma take_hunks_length: "length (snd (take_hunks lines)) \<le> length lines"
proof (induction lines rule: take_hunks.induct)
  case (2 line lines)
  obtain hunk rest where h: "take_hunk lines = (hunk, rest)" by fastforce
  with 2 take_hunk_shorter [OF h] show ?case by (auto split: prod.split)
qed simp

definition converted_file ::
  "string option \<Rightarrow> string option \<Rightarrow> string list list \<Rightarrow> tool_failure + string list" where
  "converted_file old new hunks =
     (case old of
        None \<Rightarrow>
          (if list_all (\<lambda>line. prefix ''+'' line) (concat hunks)
           then Inr ((''*** Add File: '' @ the new) # concat hunks)
           else Inl (ToolFailure ''PATCH_FAILED'' (''Unified add-file lines must start with '' @ [CHR 0x27, CHR ''+'', CHR 0x27, CHR ''.''])))
      | Some o' \<Rightarrow>
          (case new of
             None \<Rightarrow> Inr [''*** Delete File: '' @ o']
           | Some n \<Rightarrow>
               Inr ((''*** Update File: '' @ o') # (if o' \<noteq> n then [''*** Move to: '' @ n] else [])
                 @ concat (map (\<lambda>hunk. ''@@'' # hunk) hunks))))"

text \<open>The loop over the file headers: the output lines of every file found.\<close>

function convert_files :: "string list \<Rightarrow> tool_failure + string list list" where
  "convert_files [] = Inr []"
| "convert_files (line # lines) =
     (if \<not> is_file_header (line # lines) then convert_files lines
      else
        bindE (unified_patch_path (drop 4 line) ''a'') (\<lambda>old.
        bindE (unified_patch_path (drop 4 (hd lines)) ''b'') (\<lambda>new.
        if old = None \<and> new = None
        then Inl (ToolFailure ''PATCH_FAILED''
          ''Unified patch contains a file with no source or destination path.'')
        else
          (case take_hunks (tl lines) of (hunks, rest) \<Rightarrow>
            bindE (converted_file old new hunks) (\<lambda>file.
            bindE (convert_files rest) (\<lambda>files. Inr (file # files)))))))"
  by pat_completeness auto
termination
proof (relation "measure length")
  fix line lines hunks rest
  assume "(hunks, rest) = take_hunks (tl lines)"
  then have "length rest \<le> length lines"
    using take_hunks_length [of "tl lines"] by (metis length_tl diff_le_self le_trans snd_conv)
  then show "(rest, line # lines) \<in> measure length" by simp
qed auto

definition unified_to_apply_patch :: "string \<Rightarrow> tool_failure + string" where
  "unified_to_apply_patch patch =
     (let lines = py_splitlines patch in
      if lines \<noteq> [] \<and> py_strip (hd lines) = ''*** Begin Patch'' then Inr patch
      else
        bindE (convert_files lines) (\<lambda>files.
        if files = []
        then Inl (ToolFailure ''PATCH_FAILED'' ''Patch contains no supported unified file headers.'')
        else Inr (py_join [CHR 0x0A] (''*** Begin Patch'' # concat files @ [''*** End Patch'']))))"

section \<open>Facts\<close>

lemma denied_Inr: "denied reason m = Inr x \<longleftrightarrow> m = Inr x"
  by (simp add: denied_def result_simps)



lemma apply_entries_Inr:
  "apply_entries lines = Inr es \<longleftrightarrow> (\<exists>ess. mapE apply_entry lines = Inr ess \<and> es = concat ess)"
  by (auto simp: apply_entries_def result_simps)




section \<open>The headers of a patch\<close>












text \<open>What a patch that is not denied has passed.\<close>

lemma evaluate_patch_not_denied:
  assumes "pd_allowed (evaluate_patch patch max_bytes max_files allowed_prefixes)"
  obtains body scopes entries where "patch = PStr body"
    and "preflight_entries patch max_bytes max_files allowed_prefixes = Inr (scopes, entries)"
    and "mapE normalize_relative_path allowed_prefixes = Inr scopes"
    and "patch_entries (py_splitlines body) = Inr entries"
    and "1 \<le> max_bytes" and "max_bytes \<le> max_patch_bytes" and "int (utf8_size body) \<le> max_bytes"
    and "max_files \<le> max_patch_files" and "\<not> patch_contains_secret_like_content body"
    and "entries \<noteq> []" and "int (length entries) \<le> max_files" and "distinct (map snd entries)"
    and "scopes = [] \<or> (\<forall>path\<in>snd ` set entries. \<exists>scope\<in>set scopes. path_under path scope)"
    and "pd_paths (evaluate_patch patch max_bytes max_files allowed_prefixes) = map snd entries"
    and "pd_operations (evaluate_patch patch max_bytes max_files allowed_prefixes) = map fst entries"
    and "pd_requires_review (evaluate_patch patch max_bytes max_files allowed_prefixes) \<longleftrightarrow>
      (\<exists>operation\<in>fst ` set entries. operation = OpDelete \<or> operation = OpMove)"
proof -
  from assms obtain scopes entries where
    pre: "preflight_entries patch max_bytes max_files allowed_prefixes = Inr (scopes, entries)"
    by (auto simp: evaluate_patch_def pd_allowed_def deny_patch_def split: sum.splits)
  then obtain body where body: "patch = PStr body"
    by (auto simp: preflight_entries_def split: pyval.splits)
  have p: "mapE normalize_relative_path allowed_prefixes = Inr scopes"
    "patch_entries (py_splitlines body) = Inr entries" "1 \<le> max_bytes" "max_bytes \<le> max_patch_bytes"
    "int (utf8_size body) \<le> max_bytes" "max_files \<le> max_patch_files"
    "\<not> patch_contains_secret_like_content body"
    using pre body by (auto simp: preflight_entries_def Let_def result_simps denied_Inr split: if_splits)
  have e: "entries \<noteq> []" "int (length entries) \<le> max_files" "distinct (map snd entries)"
    "scopes = [] \<or> (\<forall>path\<in>snd ` set entries. \<exists>scope\<in>set scopes. path_under path scope)"
    using assms pre
    by (auto simp: evaluate_patch_def pd_allowed_def deny_patch_def Let_def list_ex_iff split: if_splits)
  moreover have "pd_paths (evaluate_patch patch max_bytes max_files allowed_prefixes) = map snd entries"
    "pd_operations (evaluate_patch patch max_bytes max_files allowed_prefixes) = map fst entries"
    "pd_requires_review (evaluate_patch patch max_bytes max_files allowed_prefixes) \<longleftrightarrow>
      (\<exists>operation\<in>fst ` set entries. operation = OpDelete \<or> operation = OpMove)"
    using e pre
    by (auto simp: evaluate_patch_def pd_requires_review_def Let_def list_ex_iff)
  ultimately show thesis using that body pre p by blast
qed

section \<open>Properties\<close>

text \<open>
  No file header of the apply-patch format escapes a patch that is not denied: the path of
  every line that \<open>re\<close> matches as an Add, Update or Delete header is among the decided paths under
  its operation, and so is the destination of every Move line; and a patch that opens with
  \<open>*** Begin Patch\<close> reaches the patch tool unchanged.
\<close>

theorem apply_headers_accounted:
  assumes "pd_allowed (evaluate_patch (PStr body) max_bytes max_files allowed_prefixes)"
    and "d = evaluate_patch (PStr body) max_bytes max_files allowed_prefixes"
    and "line \<in> set (py_splitlines body)"
  shows "(\<forall>st. re_match apply_patch_header_re line = Some st \<longrightarrow>
      (header_operation (m_group st 1), m_group st 2) \<in> set (zip (pd_operations d) (pd_paths d))) \<and>
    (\<forall>st. re_match apply_patch_header_re line = None \<longrightarrow> re_match apply_patch_move_re line = Some st \<longrightarrow>
      (OpMove, m_group st 1) \<in> set (zip (pd_operations d) (pd_paths d))) \<and>
    (py_strip (hd (py_splitlines body)) = ''*** Begin Patch'' \<longrightarrow>
      unified_to_apply_patch body = Inr body)"
  using assms(1)
proof (cases rule: evaluate_patch_not_denied)
  case (1 body' scopes entries)
  then have "patch_entries (py_splitlines body) = Inr entries" by simp
  then obtain as where as: "apply_entries (py_splitlines body) = Inr as" "as \<noteq> [] \<Longrightarrow> entries = as"
    by (auto simp: patch_entries_def result_simps split: if_splits)
  from as(1) obtain ess where ess: "mapE apply_entry (py_splitlines body) = Inr ess" "as = concat ess"
    by (auto simp: apply_entries_Inr)
  have in_entries: "e \<in> set entries" if "apply_entry line = Inr [e]" for e
  proof -
    from mapE_Inr_in [OF ess(1) assms(3)] obtain es
      where "es \<in> set ess" "apply_entry line = Inr es" by blast
    with that ess(2) have "e \<in> set as" by (auto intro!: bexI [of _ "[e]"])
    with as(2) show ?thesis by (metis empty_iff list.set(1))
  qed
  have entry: "\<exists>e. apply_entry line = Inr e"
    using mapE_Inr_in [OF ess(1) assms(3)] by blast
  have zip: "zip (pd_operations d) (pd_paths d) = entries"
    using 1(14,15) assms(2) by (simp add: zip_map_fst_snd)
  have "(header_operation (m_group st 1), m_group st 2) \<in> set entries"
    if "re_match apply_patch_header_re line = Some st" for st
    using that entry in_entries
    by (auto simp: apply_entry_def result_simps denied_Inr normalize_relative_path_Inr)
  moreover have "(OpMove, m_group st 1) \<in> set entries"
    if "re_match apply_patch_header_re line = None" "re_match apply_patch_move_re line = Some st" for st
    using that entry in_entries
    by (auto simp: apply_entry_def result_simps denied_Inr normalize_relative_path_Inr)
  ultimately show ?thesis
    using zip assms(3) by (auto simp: unified_to_apply_patch_def Let_def)
qed





definition example_patch :: string where
  "example_patch = py_join [CHR 0x0A]
     [''*** Begin Patch'', ''*** Update File: src/app.py'', ''@@'', ''-x'', ''+y'',
      ''*** Add File: src/new.py'', ''+z'', ''*** End Patch'']"

lemma example_patch_decision:
  "evaluate_patch (PStr example_patch) 4096 8 [PStr ''src''] =
     \<lparr>pd_status = PAllow, pd_risk = RMedium, pd_reason = ''PATCH_PREFLIGHT_OK'',
      pd_paths = [''src/app.py'', ''src/new.py''], pd_operations = [OpUpdate, OpAdd]\<rparr>"
  by code_simp


lemma apply_headers_accounted_witness:
  "(OpUpdate, ''src/app.py'') \<in> set (zip [OpUpdate, OpAdd] [''src/app.py'', ''src/new.py'']) \<and>
   unified_to_apply_patch example_patch = Inr example_patch"
proof -
  have a: "pd_allowed (evaluate_patch (PStr example_patch) 4096 8 [PStr ''src''])"
    by (simp add: example_patch_decision pd_allowed_def)
  have l: "''*** Update File: src/app.py'' \<in> set (py_splitlines example_patch)" by code_simp
  have h: "py_strip (hd (py_splitlines example_patch)) = ''*** Begin Patch''" by code_simp
  have m: "case re_match apply_patch_header_re ''*** Update File: src/app.py'' of
      None \<Rightarrow> False | Some st \<Rightarrow> header_operation (m_group st 1) = OpUpdate \<and> m_group st 2 = ''src/app.py''"
    by code_simp
  then obtain st where "re_match apply_patch_header_re ''*** Update File: src/app.py'' = Some st"
    "header_operation (m_group st 1) = OpUpdate" "m_group st 2 = ''src/app.py''"
    by (auto split: option.splits)
  with apply_headers_accounted [OF a refl l] h show ?thesis
    by (simp add: example_patch_decision)
qed

definition mixed_patch :: string where
  "mixed_patch = py_join [CHR 0x0A]
     [''*** Update File: docs/a.md'', ''--- a/src/core.py'', ''+++ /dev/null'']"

text \<open>
  The same does not hold for unified headers. A patch whose first line is an Update header
  for a file inside the granted scope and whose body is a unified diff of a file outside of it is
  allowed without review and reported to touch only the former; the adapter then hands the patch
  tool an envelope that deletes the latter.
\<close>

theorem unified_headers_escape_preflight:
  "evaluate_patch (PStr mixed_patch) 4096 8 [PStr ''docs''] =
     \<lparr>pd_status = PAllow, pd_risk = RMedium, pd_reason = ''PATCH_PREFLIGHT_OK'',
      pd_paths = [''docs/a.md''], pd_operations = [OpUpdate]\<rparr> \<and>
   unified_to_apply_patch mixed_patch = Inr (py_join [CHR 0x0A]
     [''*** Begin Patch'', ''*** Delete File: src/core.py'', ''*** End Patch'']) \<and>
   \<not> path_under ''src/core.py'' ''docs''"
  by code_simp

end
