(* ===== verification/ContextPack.thy ===== *)
theory ContextPack
  imports DirectorText PyJson
begin

text \<open>
  Context packs and the usage ledger of \<open>src/src/chatgpt_dev_mcp/director.py\<close>:
  \<open>ContextSource\<close>, \<open>build_context_pack\<close> and \<open>UsageLedger\<close>. SHA-256 is the parameter \<open>sha\<close>; the
  clock reading of \<open>_utc_now\<close> is the argument \<open>now\<close>.
\<close>

section \<open>Context packs\<close>

record context_source =
  cs_path :: string
  cs_content :: string
  cs_start_line :: int

definition make_context_source :: "pyval \<Rightarrow> pyval \<Rightarrow> pyval \<Rightarrow> director_error + context_source" where
  "make_context_source path content start_line =
     bindE (normalize_relative_path path) (\<lambda>p.
     case content of
       PStr c \<Rightarrow>
         if has_nul c
         then Inl (ValidationError ''context content must be text without NUL bytes'')
         else if max_context_item_bytes * 16 < int (utf8_size c)
         then Inl (ValidationError ''context content exceeds the input safety bound'')
         else (case start_line of
             PInt n \<Rightarrow>
               if n < 1 then Inl (ValidationError ''start_line must be a positive integer'')
               else Inr \<lparr>cs_path = p, cs_content = c, cs_start_line = n\<rparr>
           | _ \<Rightarrow> Inl (ValidationError ''start_line must be a positive integer''))
     | _ \<Rightarrow> Inl (ValidationError ''context content must be text without NUL bytes''))"

record context_item =
  ci_path :: string
  ci_content :: string
  ci_start_line :: int
  ci_end_line :: int
  ci_truncated :: bool
  ci_content_hash :: string

record context_pack =
  cp_workspace_id :: string
  cp_items :: "context_item list"
  cp_total_bytes :: nat
  cp_truncated :: bool
  cp_omitted_paths :: "string list"
  cp_base_revision :: string
  cp_context_pack_id :: string
  cp_generated_at :: string

definition newline_count :: "string \<Rightarrow> nat" where
  "newline_count s = length (filter (\<lambda>c. c = CHR 0x0A) s)"

text \<open>The variables of the loop over the sources.\<close>

record pack_state =
  ps_items :: "context_item list"
  ps_omitted :: "string list"
  ps_total :: nat
  ps_truncated :: bool

definition pack_step ::
  "(string \<Rightarrow> string) \<Rightarrow> nat \<Rightarrow> nat \<Rightarrow> nat \<Rightarrow> nat \<Rightarrow> context_source \<Rightarrow> pack_state \<Rightarrow> pack_state" where
  "pack_step sha max_bytes max_items max_item_bytes index source st =
     (case truncate_utf8 (redact_secrets (cs_content source)) max_item_bytes of
        (bounded0, item_truncated) \<Rightarrow>
      let omit = st\<lparr>ps_omitted := ps_omitted st @ [cs_path source], ps_truncated := True\<rparr> in
      if max_items \<le> index \<or> max_bytes \<le> ps_total st then omit
      else (case truncate_utf8 bounded0 (max_bytes - ps_total st) of
        (bounded, pack_truncated) \<Rightarrow>
          if bounded = [] \<and> cs_content source \<noteq> [] then omit
          else
            let truncated = (item_truncated \<or> pack_truncated);
                line_count = newline_count bounded + (if bounded \<noteq> [] then 1 else 0)
            in \<lparr>ps_items = ps_items st @
                  [\<lparr>ci_path = cs_path source, ci_content = bounded,
                    ci_start_line = cs_start_line source,
                    ci_end_line = cs_start_line source + max (int line_count - 1) 0,
                    ci_truncated = truncated, ci_content_hash = sha (cs_content source)\<rparr>],
                ps_omitted = ps_omitted st,
                ps_total = ps_total st + utf8_size bounded,
                ps_truncated = (ps_truncated st \<or> truncated)\<rparr>))"

fun pack_loop ::
  "(string \<Rightarrow> string) \<Rightarrow> nat \<Rightarrow> nat \<Rightarrow> nat \<Rightarrow> nat \<Rightarrow> context_source list \<Rightarrow> pack_state \<Rightarrow> pack_state" where
  "pack_loop sha max_bytes max_items max_item_bytes index [] st = st"
| "pack_loop sha max_bytes max_items max_item_bytes index (source # sources) st =
     pack_loop sha max_bytes max_items max_item_bytes (Suc index) sources
       (pack_step sha max_bytes max_items max_item_bytes index source st)"

definition pack_fingerprint ::
  "(string \<Rightarrow> string) \<Rightarrow> string \<Rightarrow> string \<Rightarrow> context_source list \<Rightarrow> string" where
  "pack_fingerprint sha workspace revision sources =
     sha (json_dumps (JObj
       [(''workspace_id'', JStr workspace), (''base_revision'', JStr revision),
        (''files'', JList (map (\<lambda>s. JList [JStr (cs_path s), JStr (sha (cs_content s)),
          JInt (cs_start_line s)]) sources))]))"

definition build_context_pack ::
  "(string \<Rightarrow> string) \<Rightarrow> string \<Rightarrow> pyval \<Rightarrow> context_source list \<Rightarrow> int \<Rightarrow> int \<Rightarrow> int \<Rightarrow> pyval \<Rightarrow>
     string option \<Rightarrow> director_error + context_pack" where
  "build_context_pack sha now workspace_id sources max_bytes max_items max_item_bytes base_revision
     generated_at =
     bindE (validate_workspace_id workspace_id) (\<lambda>workspace.
     bindE (bounded_text ''base_revision'' 128 False base_revision) (\<lambda>revision.
     let created_at = (case generated_at of None \<Rightarrow> now | Some t \<Rightarrow> if t = [] then now else t) in
     if \<not> (1 \<le> max_bytes \<and> max_bytes \<le> max_context_bytes)
     then Inl (ValidationError ''max_bytes is outside its safety bound'')
     else if \<not> (1 \<le> max_items \<and> max_items \<le> max_context_items)
     then Inl (ValidationError ''max_items is outside its safety bound'')
     else if \<not> (1 \<le> max_item_bytes \<and> max_item_bytes \<le> max_context_item_bytes)
     then Inl (ValidationError ''max_item_bytes is outside its safety bound'')
     else if \<not> distinct (map cs_path sources)
     then Inl (ValidationError ''context paths must be unique'')
     else
       let st = pack_loop sha (nat max_bytes) (nat max_items) (nat max_item_bytes) 0 sources
             \<lparr>ps_items = [], ps_omitted = [], ps_total = 0, ps_truncated = False\<rparr>
       in Inr \<lparr>cp_workspace_id = workspace, cp_items = ps_items st, cp_total_bytes = ps_total st,
            cp_truncated = ps_truncated st, cp_omitted_paths = ps_omitted st,
            cp_base_revision = revision,
            cp_context_pack_id = ''context:'' @ take 32 (pack_fingerprint sha workspace revision sources),
            cp_generated_at = created_at\<rparr>))"

definition item_json :: "context_item \<Rightarrow> json" where
  "item_json i = JObj
     [(''path'', JStr (ci_path i)), (''content'', JStr (ci_content i)),
      (''start_line'', JInt (ci_start_line i)), (''end_line'', JInt (ci_end_line i)),
      (''truncated'', JBool (ci_truncated i)), (''content_hash'', JStr (ci_content_hash i))]"

definition pack_json :: "context_pack \<Rightarrow> json" where
  "pack_json p = JObj
     [(''schema_version'', JInt 2), (''workspace_id'', JStr (cp_workspace_id p)),
      (''base_revision'', JStr (cp_base_revision p)),
      (''context_pack_id'', JStr (cp_context_pack_id p)),
      (''generated_at'', JStr (cp_generated_at p)),
      (''items'', JList (map item_json (cp_items p))), (''total_bytes'', JInt (int (cp_total_bytes p))),
      (''truncated'', JBool (cp_truncated p)), (''omitted_paths'', jstrs (cp_omitted_paths p))]"

definition pack_to_json :: "context_pack \<Rightarrow> string" where
  "pack_to_json p = json_dumps (pack_json p)"

section \<open>Usage ledger\<close>

record usage_ledger =
  ul_profile :: string
  ul_capabilities :: "string list"
  ul_external_execution :: bool
  ul_counters :: "(string \<times> int) list"

definition usage_ledger_init ::
  "string \<Rightarrow> pyval list \<Rightarrow> pyval \<Rightarrow> director_error + usage_ledger" where
  "usage_ledger_init profile capabilities external_execution =
     (if profile \<notin> {''READ_ONLY'', ''READ_WRITE'', ''DEVELOPMENT''}
      then Inl (ValidationError ''profile is invalid'')
      else case external_execution of
          PBool b \<Rightarrow>
            bindE (mapE (validate_identifier ''capability'') capabilities) (\<lambda>names.
            Inr \<lparr>ul_profile = profile, ul_capabilities = sorted_set names,
                 ul_external_execution = b, ul_counters = []\<rparr>)
        | _ \<Rightarrow> Inl (ValidationError ''external_execution must be boolean''))"

definition usage_count :: "string \<Rightarrow> usage_ledger \<Rightarrow> int" where
  "usage_count name u = (case kget fst name (ul_counters u) of None \<Rightarrow> 0 | Some (_, n) \<Rightarrow> n)"

definition usage_record :: "pyval \<Rightarrow> pyval \<Rightarrow> (usage_ledger, director_error, unit) step" where
  "usage_record capability amount =
     checkS (validate_identifier ''capability'' capability) (\<lambda>name.
     checkS (case amount of
         PInt n \<Rightarrow> if 1 \<le> n \<and> n \<le> 1000 then Inr n
                   else Inl (ValidationError ''amount is outside its safety bound'')
       | _ \<Rightarrow> Inl (ValidationError ''amount is outside its safety bound'')) (\<lambda>n.
     updS (\<lambda>u. u\<lparr>ul_counters := kset fst (name, usage_count name u + n) (ul_counters u)\<rparr>)))"

record capability_snapshot =
  sn_profile :: string
  sn_external_execution :: bool
  sn_account_usage :: string
  sn_capabilities :: "string list"
  sn_local_counters :: "(string \<times> int) list"

definition usage_snapshot :: "usage_ledger \<Rightarrow> capability_snapshot" where
  "usage_snapshot u =
     \<lparr>sn_profile = ul_profile u, sn_external_execution = ul_external_execution u,
      sn_account_usage = ''unknown'', sn_capabilities = ul_capabilities u,
      sn_local_counters = sort (ul_counters u)\<rparr>"

section \<open>Facts\<close>

interpretation counter_dict: keyed_store "fst :: string \<times> int \<Rightarrow> string" "kget fst" "kset fst"
    "kpop fst" set "kdistinct fst"
  by (rule keyed_list_store)

lemma usage_record_counts:
  "ends (usage_record (PStr name) (PInt n)) (\<lambda>r t.
     r = Inr () \<longrightarrow> usage_count other t = usage_count other u + (if other = name then n else 0)) u"
  by (auto simp: usage_record_def ends_simps usage_count_def store_simps
      dest!: validate_identifier_Inr split: sum.split)

text \<open>What the loop keeps: the items are prefixes of redacted sources within the bounds, cut only where
  one more character would exceed a bound, and every source so far is either an item or omitted.\<close>

definition item_of :: "(string \<Rightarrow> string) \<Rightarrow> nat \<Rightarrow> nat \<Rightarrow> nat \<Rightarrow> context_source \<Rightarrow> context_item \<Rightarrow> bool" where
  "item_of sha max_bytes max_item_bytes used s i \<longleftrightarrow>
     ci_path i = cs_path s \<and> utf8_size (ci_content i) \<le> max_item_bytes \<and>
     ci_content_hash i = sha (cs_content s) \<and>
     ci_start_line i = cs_start_line s \<and> ci_start_line i \<le> ci_end_line i \<and>
     (\<exists>rest. redact_secrets (cs_content s) = ci_content i @ rest \<and> (ci_truncated i \<longleftrightarrow> rest \<noteq> []) \<and>
        (rest = [] \<or> max_item_bytes < utf8_size (ci_content i @ [hd rest]) \<or>
         max_bytes < used + utf8_size [hd rest]))"

lemma item_of_mono: "item_of sha mb mib n s i \<Longrightarrow> n \<le> k \<Longrightarrow> item_of sha mb mib k s i"
  unfolding item_of_def by (elim conjE exE) (intro conjI exI, assumption+, auto)

definition pack_inv ::
  "(string \<Rightarrow> string) \<Rightarrow> nat \<Rightarrow> nat \<Rightarrow> nat \<Rightarrow> context_source list \<Rightarrow> pack_state \<Rightarrow> bool" where
  "pack_inv sha max_bytes max_items max_item_bytes seen st \<longleftrightarrow>
     ps_total st \<le> max_bytes \<and> ps_total st = sum_list (map (utf8_size \<circ> ci_content) (ps_items st)) \<and>
     length (ps_items st) \<le> min max_items (length seen) \<and>
     (\<forall>i\<in>set (ps_items st). \<exists>s\<in>set seen. item_of sha max_bytes max_item_bytes (ps_total st) s i) \<and>
     set (map ci_path (ps_items st)) \<union> set (ps_omitted st) = set (map cs_path seen) \<and>
     (\<not> ps_truncated st \<longrightarrow> ps_omitted st = [] \<and> (\<forall>i\<in>set (ps_items st). \<not> ci_truncated i))"

lemma pack_step_inv:
  assumes "pack_inv sha mb mi mib seen st"
  shows "pack_inv sha mb mi mib (seen @ [s]) (pack_step sha mb mi mib (length seen) s st)"
proof -
  obtain b0 t0 where b0: "truncate_utf8 (redact_secrets (cs_content s)) mib = (b0, t0)" by fastforce
  obtain b t where b: "truncate_utf8 b0 (mb - ps_total st) = (b, t)" by fastforce
  obtain u0 where u0: "redact_secrets (cs_content s) = b0 @ u0" "utf8_size b0 \<le> mib" "t0 \<longleftrightarrow> u0 \<noteq> []"
    "u0 = [] \<or> mib < utf8_size (b0 @ [hd u0])" by (rule truncate_utf8_longest [OF b0])
  obtain u where u: "b0 = b @ u" "utf8_size b \<le> mb - ps_total st" "t \<longleftrightarrow> u \<noteq> []"
    "u = [] \<or> mb - ps_total st < utf8_size (b @ [hd u])" by (rule truncate_utf8_longest [OF b])
  let ?omit = "st\<lparr>ps_omitted := ps_omitted st @ [cs_path s], ps_truncated := True\<rparr>"
  have omit: "pack_inv sha mb mi mib (seen @ [s]) ?omit"
    using assms by (auto simp: pack_inv_def)
  show ?thesis
  proof (cases "mi \<le> length seen \<or> mb \<le> ps_total st \<or> b = [] \<and> cs_content s \<noteq> []")
    case True
    with omit b0 b show ?thesis by (auto simp: pack_step_def Let_def)
  next
    case False
    define i where "i = \<lparr>ci_path = cs_path s, ci_content = b, ci_start_line = cs_start_line s,
      ci_end_line = cs_start_line s + max (int (newline_count b + (if b \<noteq> [] then 1 else 0)) - 1) 0,
      ci_truncated = (t0 \<or> t), ci_content_hash = sha (cs_content s)\<rparr>"
    have eq: "pack_step sha mb mi mib (length seen) s st =
        \<lparr>ps_items = ps_items st @ [i], ps_omitted = ps_omitted st, ps_total = ps_total st + utf8_size b,
         ps_truncated = (ps_truncated st \<or> t0 \<or> t)\<rparr>"
      using False b0 b by (cases "b = []") (simp_all add: pack_step_def Let_def i_def)
    have rest: "redact_secrets (cs_content s) = b @ u @ u0" "t0 \<or> t \<longleftrightarrow> u @ u0 \<noteq> []"
      using u0 u by auto
    have "u @ u0 = [] \<or> mib < utf8_size (b @ [hd (u @ u0)]) \<or>
        mb < ps_total st + utf8_size b + utf8_size [hd (u @ u0)]"
      using u0(1,4) u(1,4) by (cases u) auto
    with rest u0(2) u(1) have item: "item_of sha mb mib (ps_total st + utf8_size b) s i"
      by (auto simp: item_of_def i_def)
    have old: "\<exists>s\<in>set seen. item_of sha mb mib (ps_total st + utf8_size b) s j" if "j \<in> set (ps_items st)" for j
      using assms [unfolded pack_inv_def] that by (meson item_of_mono le_add1)
    have i: "ci_path i = cs_path s" "ci_content i = b" "ci_truncated i = (t0 \<or> t)"
      by (simp_all add: i_def)
    show ?thesis
      unfolding eq pack_inv_def
      using assms [unfolded pack_inv_def] item old i u(2) False by (auto simp del: One_nat_def)
  qed
qed

lemma pack_loop_inv:
  "pack_inv sha mb mi mib seen st \<Longrightarrow> index = length seen \<Longrightarrow>
     pack_inv sha mb mi mib (seen @ sources) (pack_loop sha mb mi mib index sources st)"
proof (induction sources arbitrary: seen st index)
  case (Cons s sources)
  from Cons.IH [OF pack_step_inv [OF Cons.prems(1), of s]] Cons.prems(2) show ?case by simp
qed simp

text \<open>
  C34: A context pack stays within its bounds, counted in bytes of UTF-8, and accounts for every
  source. It has at most \<open>max_items\<close> items of at most \<open>max_item_bytes\<close> bytes, \<open>total_bytes\<close> is the sum of
  their encodings and at most \<open>max_bytes\<close>; each item is a prefix of the redacted content of a
  source, carries the digest of the original, is marked truncated exactly when something is missing,
  and is cut only where one more whole character would exceed a byte bound; every source is an
  item or listed as omitted; and a pack that is not marked truncated holds every source whole.
\<close>

theorem context_pack_bounded:
  assumes "build_context_pack sha now workspace_id sources max_bytes max_items max_item_bytes
    base_revision generated_at = Inr pack"
  shows "cp_total_bytes pack = sum_list (map (length \<circ> utf8_encode \<circ> ci_content) (cp_items pack)) \<and>
    int (cp_total_bytes pack) \<le> max_bytes \<and> int (length (cp_items pack)) \<le> max_items \<and>
    (\<forall>i\<in>set (cp_items pack). int (length (utf8_encode (ci_content i))) \<le> max_item_bytes \<and>
      (\<exists>s\<in>set sources. \<exists>rest. ci_path i = cs_path s \<and> ci_content_hash i = sha (cs_content s) \<and>
        redact_secrets (cs_content s) = ci_content i @ rest \<and> (ci_truncated i \<longleftrightarrow> rest \<noteq> []) \<and>
        (rest = [] \<or> max_item_bytes < int (length (utf8_encode (ci_content i @ [hd rest]))) \<or>
         max_bytes < int (cp_total_bytes pack + length (utf8_encode [hd rest]))))) \<and>
    set (map ci_path (cp_items pack)) \<union> set (cp_omitted_paths pack) = set (map cs_path sources) \<and>
    (\<not> cp_truncated pack \<longrightarrow> cp_omitted_paths pack = [] \<and> (\<forall>i\<in>set (cp_items pack). \<not> ci_truncated i))"
proof -
  define st where "st = pack_loop sha (nat max_bytes) (nat max_items) (nat max_item_bytes) 0 sources
    \<lparr>ps_items = [], ps_omitted = [], ps_total = 0, ps_truncated = False\<rparr>"
  have inv: "pack_inv sha (nat max_bytes) (nat max_items) (nat max_item_bytes) sources st"
    unfolding st_def by (rule pack_loop_inv [where seen = "[]", simplified]) (simp_all add: pack_inv_def)
  have pack: "cp_items pack = ps_items st" "cp_total_bytes pack = ps_total st"
    "cp_truncated pack = ps_truncated st" "cp_omitted_paths pack = ps_omitted st"
    "1 \<le> max_bytes" "1 \<le> max_items" "1 \<le> max_item_bytes"
    using assms by (auto simp: build_context_pack_def Let_def result_simps st_def split: if_splits)
  have item: "int (utf8_size (ci_content i)) \<le> max_item_bytes \<and>
      (\<exists>s\<in>set sources. \<exists>rest. ci_path i = cs_path s \<and> ci_content_hash i = sha (cs_content s) \<and>
        redact_secrets (cs_content s) = ci_content i @ rest \<and> (ci_truncated i \<longleftrightarrow> rest \<noteq> []) \<and>
        (rest = [] \<or> max_item_bytes < int (utf8_size (ci_content i @ [hd rest])) \<or>
         max_bytes < int (cp_total_bytes pack + utf8_size [hd rest])))"
    if "i \<in> set (cp_items pack)" for i
  proof -
    from inv that [unfolded pack(1)] have "\<exists>s\<in>set sources.
      item_of sha (nat max_bytes) (nat max_item_bytes) (ps_total st) s i"
      unfolding pack_inv_def by blast
    then obtain s where s: "s \<in> set sources"
      "item_of sha (nat max_bytes) (nat max_item_bytes) (ps_total st) s i" by blast
    from s(2) obtain rest where "redact_secrets (cs_content s) = ci_content i @ rest"
      "ci_truncated i \<longleftrightarrow> rest \<noteq> []"
      "rest = [] \<or> nat max_item_bytes < utf8_size (ci_content i @ [hd rest]) \<or>
         nat max_bytes < ps_total st + utf8_size [hd rest]"
      unfolding item_of_def by blast
    moreover have "ci_path i = cs_path s" "ci_content_hash i = sha (cs_content s)"
      "utf8_size (ci_content i) \<le> nat max_item_bytes"
      using s(2) by (simp_all add: item_of_def)
    ultimately show ?thesis
      using s(1) pack(5,7) unfolding pack(2)
      by (intro conjI bexI [OF _ s(1)] exI [of _ rest]) (auto simp: nat_le_iff nat_less_iff)
  qed
  have "cp_total_bytes pack = sum_list (map (utf8_size \<circ> ci_content) (cp_items pack))"
    "int (cp_total_bytes pack) \<le> max_bytes" "int (length (cp_items pack)) \<le> max_items"
    "set (map ci_path (cp_items pack)) \<union> set (cp_omitted_paths pack) = set (map cs_path sources)"
    "\<not> cp_truncated pack \<longrightarrow> cp_omitted_paths pack = [] \<and> (\<forall>i\<in>set (cp_items pack). \<not> ci_truncated i)"
    using inv pack(5,6) unfolding pack_inv_def pack(1-4) by (simp_all add: nat_le_iff le_nat_iff)
  with item show ?thesis by (simp add: utf8_size_def comp_def)
qed

text \<open>The second character takes two bytes, so that a bound of two bytes keeps only the first.\<close>

lemma context_pack_bounded_witness:
  "length (utf8_encode ''a'') \<le> 2 \<and> 2 < length (utf8_encode [CHR ''a'', CHR 0xE9])"
proof -
  let ?s = "\<lparr>cs_path = ''a.py'', cs_content = [CHR ''a'', CHR 0xE9, CHR ''b''], cs_start_line = 1\<rparr>"
  have "case build_context_pack (\<lambda>s. s) ''t'' (PStr ''repo'') [?s] 100 5 2 (PStr ''r'') None of
      Inl e \<Rightarrow> False | Inr p \<Rightarrow> map ci_content (cp_items p) = [''a''] \<and> cp_total_bytes p = 1"
    by code_simp
  then obtain p where p:
    "build_context_pack (\<lambda>s. s) ''t'' (PStr ''repo'') [?s] 100 5 2 (PStr ''r'') None = Inr p"
    "map ci_content (cp_items p) = [''a'']" "cp_total_bytes p = 1"
    by (auto split: sum.splits)
  then obtain i where i: "i \<in> set (cp_items p)" "ci_content i = ''a''" by auto
  have red: "redact_secrets [CHR ''a'', CHR 0xE9, CHR ''b''] = [CHR ''a'', CHR 0xE9, CHR ''b'']" by code_simp
  from context_pack_bounded [OF p(1)] i p(3) red show ?thesis
    by (fastforce simp: utf8_char_def)
qed

end
