(* ===== verification/ParallelControl.thy ===== *)
theory ParallelControl
  imports DependencyGraph TaskLedger PyJson "HOL-Library.Multiset"
begin

text \<open>
  Project-wide coordination facts, \<open>src/src/chatgpt_dev_mcp/director_parallel.py\<close>, with the queue
  test of \<open>integration_queue.py\<close> that it calls: task intents and their duplicates, dependency
  paths, conflicts, the number of writers that may run at once, and the project summary. The
  module keeps no state. SHA-256 is the parameter \<open>sha\<close>. The records of the model stand for
  objects whose \<open>__post_init__\<close> succeeded; the functions \<open>make_project_task\<close> and
  \<open>make_session_record\<close> are that validation.
\<close>

section \<open>Validation\<close>

datatype parallel_error = ParallelInvalid string | ParallelText director_error

definition from_director :: "director_error + 'a \<Rightarrow> parallel_error + 'a" where
  "from_director = mapError ParallelText"

definition pc_identifier :: "string \<Rightarrow> pyval \<Rightarrow> parallel_error + string" where
  "pc_identifier name value =
     (case value of
        PStr s \<Rightarrow>
          if s = [] \<or> 128 < length s \<or> has_nul s then Inl (ParallelInvalid (name @ '' is invalid''))
          else if list_ex is_space_char s \<or> contains_secret_like_content s
          then Inl (ParallelInvalid (name @ '' is invalid''))
          else Inr s
      | _ \<Rightarrow> Inl (ParallelInvalid (name @ '' is invalid'')))"

definition pc_revision :: "string \<Rightarrow> pyval \<Rightarrow> parallel_error + string" where
  "pc_revision name value =
     (case value of
        PStr s \<Rightarrow> if s = [] \<or> 128 < length s \<or> has_nul s
                  then Inl (ParallelInvalid (name @ '' is invalid'')) else Inr s
      | _ \<Rightarrow> Inl (ParallelInvalid (name @ '' is invalid'')))"

definition pc_paths_overlap :: "string \<Rightarrow> string \<Rightarrow> bool" where
  "pc_paths_overlap left right = folded_overlap left right"

text \<open>NFKC normalisation does nothing on ASCII, the text for which it is modelled.\<close>

definition normalize_task_title :: "pyval \<Rightarrow> parallel_error + string" where
  "normalize_task_title value =
     (case value of
        PStr s \<Rightarrow>
          if py_strip s = [] \<or> 240 < length s \<or> has_nul s
          then Inl (ParallelInvalid ''task title is invalid'')
          else
            let collapsed = map (\<lambda>c. if is_alnum_char c then c else CHR '' '') (casefold s);
                result = py_join '' '' (py_words collapsed)
            in if result = [] then Inl (ParallelInvalid ''task title is invalid'') else Inr result
      | _ \<Rightarrow> Inl (ParallelInvalid ''task title is invalid''))"

section \<open>Task intents\<close>

definition intent_json :: "string \<Rightarrow> string \<Rightarrow> string list \<Rightarrow> string list \<Rightarrow> json" where
  "intent_json project title paths resources =
     JObj [(''project_id'', JStr project), (''title'', JStr title), (''paths'', jstrs paths),
           (''resources'', jstrs resources)]"

definition task_intent_fingerprint ::
  "(string \<Rightarrow> string) \<Rightarrow> pyval \<Rightarrow> pyval \<Rightarrow> pyval list \<Rightarrow> pyval list \<Rightarrow> parallel_error + string" where
  "task_intent_fingerprint sha project_id title paths resources =
     bindE (from_director (validate_workspace_id project_id)) (\<lambda>project.
     bindE (from_director (mapE normalize_relative_path paths)) (\<lambda>ps.
     bindE (from_director (mapE normalize_resource_id resources)) (\<lambda>rs.
     bindE (normalize_task_title title) (\<lambda>normalized_title.
     Inr (sha (json_dumps (intent_json project normalized_title (sort ps) (sort rs))))))))"

text \<open>
  \<open>difflib.SequenceMatcher(None, a, b, autojunk=False)\<close>: the longest common block that starts
  first in \<open>a\<close> and then in \<open>b\<close>, and the total size of the blocks found recursively on both sides.
\<close>

fun common_run :: "string \<Rightarrow> string \<Rightarrow> nat" where
  "common_run (x # xs) (y # ys) = (if x = y then Suc (common_run xs ys) else 0)"
| "common_run _ _ = 0"

definition best_block :: "string \<Rightarrow> string \<Rightarrow> nat \<times> nat \<times> nat" where
  "best_block a b =
     fold (\<lambda>(i, j) (bi, bj, best).
         let k = common_run (drop i a) (drop j b) in if best < k then (i, j, k) else (bi, bj, best))
       (List.product [0..<length a] [0..<length b]) (0, 0, 0)"

lemma common_run_le: "common_run a b \<le> length a"
  by (induction a b rule: common_run.induct) auto

lemma best_block_bound:
  "best_block a b = (i, j, k) \<Longrightarrow> k = 0 \<or> i < length a \<and> i + k \<le> length a"
proof -
  let ?f = "\<lambda>(i, j) (bi, bj, best).
      let k = common_run (drop i a) (drop j b) in if best < k then (i, j, k) else (bi, bj, best)"
  let ?P = "\<lambda>(i, j, k). k = 0 \<or> i < length a \<and> i + k \<le> length a"
  have "?P (fold ?f ps st)" if "?P st" "set ps \<subseteq> {0..<length a} \<times> {0..<length b}" for ps st
    using that
  proof (induction ps arbitrary: st)
    case (Cons p ps)
    obtain x y where p: "p = (x, y)" by fastforce
    have "common_run (drop x a) (drop y b) \<le> length a - x" using common_run_le [of "drop x a"] by simp
    with Cons.prems p have "?P (?f p st)" by (auto simp: Let_def split: prod.splits)
    with Cons show ?case by simp
  qed simp
  from this [of "(0, 0, 0)" "List.product [0..<length a] [0..<length b]"]
  show "best_block a b = (i, j, k) \<Longrightarrow> k = 0 \<or> i < length a \<and> i + k \<le> length a"
    by (auto simp: best_block_def)
qed

function matching_size :: "string \<Rightarrow> string \<Rightarrow> nat" where
  "matching_size a b =
     (case best_block a b of (i, j, k) \<Rightarrow>
        if k = 0 then 0
        else k + matching_size (take i a) (take j b) + matching_size (drop (i + k) a) (drop (j + k) b))"
  by pat_completeness auto
termination
  by (relation "measure (\<lambda>(a, b). length a)") (auto dest: best_block_bound [OF sym])

declare matching_size.simps [simp del]

text \<open>\<open>ratio() >= 0.90\<close>, where the ratio is \<open>2 * M / T\<close>, or 1 of two empty texts.\<close>

definition titles_similar :: "string \<Rightarrow> string \<Rightarrow> bool" where
  "titles_similar a b \<longleftrightarrow> 9 * (length a + length b) \<le> 20 * matching_size a b"

datatype duplicate_kind = DupExact | DupNear

definition classify_task_intent_duplicate ::
  "(string \<Rightarrow> string) \<Rightarrow> pyval \<Rightarrow> pyval \<Rightarrow> pyval list \<Rightarrow> pyval list \<Rightarrow>
     pyval \<Rightarrow> pyval \<Rightarrow> pyval list \<Rightarrow> pyval list \<Rightarrow> parallel_error + duplicate_kind option" where
  "classify_task_intent_duplicate sha project_id title paths resources existing_project_id
     existing_title existing_paths existing_resources =
     bindE (from_director (validate_workspace_id project_id)) (\<lambda>project.
     bindE (from_director (validate_workspace_id existing_project_id)) (\<lambda>existing_project.
     if project \<noteq> existing_project then Inr None else
     bindE (from_director (mapE normalize_relative_path paths)) (\<lambda>current_paths.
     bindE (from_director (mapE normalize_relative_path existing_paths)) (\<lambda>prior_paths.
     bindE (from_director (mapE normalize_resource_id resources)) (\<lambda>current_resources.
     bindE (from_director (mapE normalize_resource_id existing_resources)) (\<lambda>prior_resources.
     bindE (task_intent_fingerprint sha (PStr project) title (map PStr current_paths)
       (map PStr current_resources)) (\<lambda>current_fingerprint.
     bindE (task_intent_fingerprint sha (PStr existing_project) existing_title (map PStr prior_paths)
       (map PStr prior_resources)) (\<lambda>prior_fingerprint.
     if current_fingerprint = prior_fingerprint then Inr (Some DupExact)
     else if \<not> (list_ex (\<lambda>left. list_ex (\<lambda>right. pc_paths_overlap left right) prior_paths) current_paths \<or>
       intersects current_resources prior_resources) then Inr None
     else
       bindE (normalize_task_title title) (\<lambda>current_title.
       bindE (normalize_task_title existing_title) (\<lambda>prior_title.
       if current_title = prior_title \<or> titles_similar current_title prior_title
       then Inr (Some DupNear) else Inr None))))))))))"

section \<open>Project tasks\<close>

record project_task =
  pt_task_id :: string
  pt_project_id :: string
  pt_logical_workspace_id :: string
  pt_owner_id :: string
  pt_development_session_id :: string
  pt_worktree_id :: string
  pt_source_revision :: string
  pt_paths :: "string list"
  pt_resources :: "string list"
  pt_requires :: "string list"
  pt_depends_on :: "string list"
  pt_status :: task_status

definition make_project_task ::
  "pyval \<Rightarrow> pyval \<Rightarrow> pyval \<Rightarrow> pyval \<Rightarrow> pyval \<Rightarrow> pyval \<Rightarrow> pyval \<Rightarrow> pyval list \<Rightarrow> pyval list \<Rightarrow> pyval list \<Rightarrow>
     pyval list \<Rightarrow> string \<Rightarrow> parallel_error + project_task" where
  "make_project_task task_id project_id logical_workspace_id owner_id development_session_id worktree_id
     source_revision paths resources requires depends_on status =
     bindE (pc_identifier ''task_id'' task_id) (\<lambda>task.
     bindE (pc_identifier ''project_id'' project_id) (\<lambda>project.
     bindE (from_director (validate_workspace_id logical_workspace_id)) (\<lambda>workspace.
     bindE (pc_identifier ''owner_id'' owner_id) (\<lambda>owner.
     bindE (pc_identifier ''development_session_id'' development_session_id) (\<lambda>session.
     bindE (pc_identifier ''worktree_id'' worktree_id) (\<lambda>worktree.
     bindE (pc_revision ''source_revision'' source_revision) (\<lambda>revision.
     bindE (case map_of task_statuses status of None \<Rightarrow> Inl (ParallelInvalid ''status is invalid'')
            | Some s \<Rightarrow> Inr s) (\<lambda>parsed_status.
     bindE (from_director (mapE normalize_relative_path paths)) (\<lambda>ps.
     bindE (from_director (mapE normalize_resource_id resources)) (\<lambda>rs.
     bindE (mapE (pc_identifier ''requirement'') requires) (\<lambda>qs.
     bindE (mapE (pc_identifier ''dependency'') depends_on) (\<lambda>ds.
     if \<not> distinct ps \<or> \<not> distinct rs \<or> \<not> distinct qs
     then Inl (ParallelInvalid ''paths and resources must be unique'')
     else if \<not> distinct ds \<or> task \<in> set ds
     then Inl (ParallelInvalid ''dependencies are invalid'')
     else Inr \<lparr>pt_task_id = task, pt_project_id = project, pt_logical_workspace_id = workspace,
       pt_owner_id = owner, pt_development_session_id = session, pt_worktree_id = worktree,
       pt_source_revision = revision, pt_paths = ps, pt_resources = rs, pt_requires = qs,
       pt_depends_on = ds, pt_status = parsed_status\<rparr>))))))))))))"

definition is_terminal_task :: "project_task \<Rightarrow> bool" where
  "is_terminal_task t \<longleftrightarrow> pt_status t \<in> {TSucceeded, TFailed, TCancelled, TBlocked, TStale}"

section \<open>Dependency paths\<close>

definition dependencies_of :: "project_task list \<Rightarrow> string \<Rightarrow> string list" where
  "dependencies_of tasks task_id =
     (case kget pt_task_id task_id tasks of None \<Rightarrow> [] | Some task \<Rightarrow> pt_depends_on task)"

definition task_edges :: "project_task list \<Rightarrow> task_graph" where
  "task_edges tasks = map (\<lambda>t. (pt_task_id t, pt_depends_on t)) tasks"

text \<open>Called on ids of the task map only (\<open>tasks[task_id]\<close>).\<close>

definition has_dependency_path :: "string \<Rightarrow> string \<Rightarrow> project_task list \<Rightarrow> bool" where
  "has_dependency_path task_id dependency_id tasks =
     graph_search (task_edges tasks) dependency_id (rev (dependencies_of tasks task_id)) []"

definition has_cycle :: "project_task list \<Rightarrow> bool" where
  "has_cycle tasks = list_ex (\<lambda>t. has_dependency_path (pt_task_id t) (pt_task_id t) tasks) tasks"

section \<open>Writers that may run at once\<close>

datatype conflict_reason = ProjectPathOverlap | ProjectResourceOverlap

record project_conflict =
  pk_task_ids :: "string \<times> string"
  pk_reason :: conflict_reason
  pk_paths :: "string list"
  pk_resources :: "string list"

text \<open>The adjacency sets of the candidates; a set is a list whose order does not matter.\<close>

definition adjacency :: "string list \<Rightarrow> project_conflict list \<Rightarrow> string \<Rightarrow> string list" where
  "adjacency candidates conflicts x =
     filter (\<lambda>y. list_ex (\<lambda>c. pk_task_ids c = (x, y) \<or> pk_task_ids c = (y, x)) conflicts)
       (if x \<in> set candidates then candidates else [])"

text \<open>The component of a seed, by depth-first search.\<close>

function component_search ::
  "(string \<Rightarrow> string list) \<Rightarrow> string list \<Rightarrow> string list \<Rightarrow> string list \<Rightarrow> string list" where
  "component_search adj universe [] component = component"
| "component_search adj universe (current # pending) component =
     (if current \<in> set component \<or> current \<notin> set universe
      then component_search adj universe pending component
      else component_search adj universe
        (filter (\<lambda>y. y \<notin> set (current # component)) (adj current) @ pending) (current # component))"
  by pat_completeness auto
termination
  by (relation "measures [\<lambda>(adj, universe, pending, component). card (set universe - set component),
      \<lambda>(adj, universe, pending, component). length pending]")
    (auto simp del: card_Diff_insert intro!: unseen_less)

lemma component_search_grows:
  "set component \<subseteq> set (component_search adj universe pending component)"
  by (induction adj universe pending component rule: component_search.induct) auto

lemma component_search_seed: "s \<in> set universe \<Longrightarrow> s \<in> set (component_search adj universe [s] [])"
  using component_search_grows [of "[s]" adj universe "filter (\<lambda>y. y \<noteq> s) (adj s)"] by simp

definition least_id :: "string list \<Rightarrow> string" where
  "least_id xs = py_min_by (\<lambda>x. x) (hd xs) (tl xs)"

lemma least_id_in: "xs \<noteq> [] \<Longrightarrow> least_id xs \<in> set xs"
  unfolding least_id_def using py_min_by_in [of "\<lambda>x. x" "hd xs" "tl xs"] by simp

function components_of ::
  "(string \<Rightarrow> string list) \<Rightarrow> string list \<Rightarrow> string list \<Rightarrow> string list list" where
  "components_of adj universe remaining =
     (if remaining = [] \<or> \<not> set remaining \<subseteq> set universe then []
      else
        let component = component_search adj universe [least_id remaining] []
        in component # components_of adj universe (filter (\<lambda>x. x \<notin> set component) remaining))"
  by pat_completeness auto
termination
proof (relation "measure (\<lambda>(adj, universe, remaining). length remaining)")
  fix adj :: "string \<Rightarrow> string list" and universe remaining component :: "string list"
  assume r: "\<not> (remaining = [] \<or> \<not> set remaining \<subseteq> set universe)"
    and c: "component = component_search adj universe [least_id remaining] []"
  from r have l: "least_id remaining \<in> set remaining" by (simp add: least_id_in)
  with r have "least_id remaining \<in> set component" unfolding c by (blast intro: component_search_seed)
  with l have "length (filter (\<lambda>x. x \<notin> set component) remaining) < length remaining"
    by (intro length_filter_less) auto
  then show "((adj, universe, filter (\<lambda>x. x \<notin> set component) remaining), adj, universe, remaining)
      \<in> measure (\<lambda>(adj, universe, remaining). length remaining)" by simp
qed simp

declare components_of.simps [simp del]

text \<open>\<open>max(vertices, key=f)\<close> and \<open>min(vertices, key=f)\<close>; the key contains the vertex itself, so
  the order of the set does not matter.\<close>

definition degree_key :: "(string \<Rightarrow> string list) \<Rightarrow> string list \<Rightarrow> string \<Rightarrow> nat \<times> string" where
  "degree_key adj vertices x = (length (filter (\<lambda>y. y \<in> set (adj x)) vertices), x)"

fun py_max_by :: "('a \<Rightarrow> 'k::linorder) \<Rightarrow> 'a \<Rightarrow> 'a list \<Rightarrow> 'a" where
  "py_max_by f x [] = x"
| "py_max_by f x (y # ys) = (if f x < f y then py_max_by f y ys else py_max_by f x ys)"

lemma py_max_by_in: "py_max_by f x xs \<in> set (x # xs)"
  by (induction f x xs rule: py_max_by.induct) (auto split: if_splits)

definition without :: "string \<Rightarrow> string list \<Rightarrow> string list" where
  "without v vertices = filter (\<lambda>x. x \<noteq> v) vertices"

definition without_neighbours :: "(string \<Rightarrow> string list) \<Rightarrow> string \<Rightarrow> string list \<Rightarrow> string list" where
  "without_neighbours adj v vertices = filter (\<lambda>x. x \<noteq> v \<and> x \<notin> set (adj v)) vertices"

lemma without_shorter: "v \<in> set vertices \<Longrightarrow> length (without v vertices) < length vertices"
  unfolding without_def by (rule length_filter_less) auto

lemma without_neighbours_shorter:
  "v \<in> set vertices \<Longrightarrow> length (without_neighbours adj v vertices) < length vertices"
  unfolding without_neighbours_def by (rule length_filter_less) auto

text \<open>The branch and bound search; \<open>best\<close> is the nonlocal variable.\<close>

function exact_search ::
  "(string \<Rightarrow> string list) \<Rightarrow> string list \<Rightarrow> nat \<Rightarrow> nat \<Rightarrow> nat" where
  "exact_search adj vertices selected best =
     (if selected + length vertices \<le> best then best
      else if vertices = [] then max best selected
      else
        let v = py_max_by (degree_key adj vertices) (hd vertices) (tl vertices)
        in exact_search adj (without v vertices) selected
             (exact_search adj (without_neighbours adj v vertices) (Suc selected) best))"
  by pat_completeness auto
termination
proof (relation "measure (\<lambda>(adj, vertices, selected, best). length vertices)")
  fix adj :: "string \<Rightarrow> string list" and vertices :: "string list" and v
  assume "vertices \<noteq> []" "v = py_max_by (degree_key adj vertices) (hd vertices) (tl vertices)"
  then have v: "v \<in> set vertices"
    using py_max_by_in [of "degree_key adj vertices" "hd vertices" "tl vertices"] by simp
  fix selected best b
  show "((adj, without_neighbours adj v vertices, Suc selected, best), adj, vertices, selected, best)
      \<in> measure (\<lambda>(adj, vertices, selected, best). length vertices)"
    using without_neighbours_shorter [OF v] by simp
  show "((adj, without v vertices, selected, b), adj, vertices, selected, best)
      \<in> measure (\<lambda>(adj, vertices, selected, best). length vertices)"
    using without_shorter [OF v] by simp
qed simp

declare exact_search.simps [simp del]

function conservative_count :: "(string \<Rightarrow> string list) \<Rightarrow> string list \<Rightarrow> nat" where
  "conservative_count adj vertices =
     (if vertices = [] then 0
      else
        let v = py_min_by (degree_key adj vertices) (hd vertices) (tl vertices)
        in Suc (conservative_count adj (without_neighbours adj v vertices)))"
  by pat_completeness auto
termination
proof (relation "measure (\<lambda>(adj, vertices). length vertices)")
  fix adj :: "string \<Rightarrow> string list" and vertices :: "string list" and v
  assume "vertices \<noteq> []" "v = py_min_by (degree_key adj vertices) (hd vertices) (tl vertices)"
  then have "v \<in> set vertices"
    using py_min_by_in [of "degree_key adj vertices" "hd vertices" "tl vertices"] by simp
  then show "((adj, without_neighbours adj v vertices), adj, vertices) \<in> measure (\<lambda>(adj, vertices). length vertices)"
    using without_neighbours_shorter by simp
qed simp

declare conservative_count.simps [simp del]

definition maximum_safe_writer_count :: "string list \<Rightarrow> project_conflict list \<Rightarrow> nat" where
  "maximum_safe_writer_count candidates conflicts =
     (let adj = adjacency candidates conflicts in
      sum_list (map (\<lambda>component. if length component \<le> 32 then exact_search adj component 0 0
                                  else conservative_count adj component)
        (components_of adj candidates candidates)))"

section \<open>Analysis of a project\<close>

definition ordered_by_dependency :: "project_task list \<Rightarrow> project_task \<Rightarrow> project_task \<Rightarrow> bool" where
  "ordered_by_dependency tasks first second \<longleftrightarrow>
     has_dependency_path (pt_task_id first) (pt_task_id second) tasks \<or>
     has_dependency_path (pt_task_id second) (pt_task_id first) tasks"

definition overlapping_paths :: "project_task \<Rightarrow> project_task \<Rightarrow> string list" where
  "overlapping_paths first second =
     (if pt_worktree_id first = pt_worktree_id second
      then sorted_set (filter (\<lambda>left. list_ex (\<lambda>right. pc_paths_overlap left right) (pt_paths second))
        (pt_paths first))
      else [])"

definition overlapping_resources :: "project_task \<Rightarrow> project_task \<Rightarrow> string list" where
  "overlapping_resources first second =
     sorted_set (filter (\<lambda>r. r \<in> set (pt_resources second)) (pt_resources first))"

definition task_conflict ::
  "project_task list \<Rightarrow> project_task \<Rightarrow> project_task \<Rightarrow> project_conflict list" where
  "task_conflict tasks first second =
     (if is_terminal_task first \<or> is_terminal_task second \<or> ordered_by_dependency tasks first second
      then []
      else if overlapping_paths first second \<noteq> []
      then [\<lparr>pk_task_ids = (pt_task_id first, pt_task_id second), pk_reason = ProjectPathOverlap,
             pk_paths = overlapping_paths first second, pk_resources = []\<rparr>]
      else if overlapping_resources first second \<noteq> []
      then [\<lparr>pk_task_ids = (pt_task_id first, pt_task_id second), pk_reason = ProjectResourceOverlap,
             pk_paths = [], pk_resources = overlapping_resources first second\<rparr>]
      else [])"

fun project_conflicts :: "project_task list \<Rightarrow> project_task list \<Rightarrow> project_conflict list" where
  "project_conflicts tasks [] = []"
| "project_conflicts tasks (first # rest) =
     concat (map (task_conflict tasks first) rest) @ project_conflicts tasks rest"

definition conflict_task_ids :: "project_conflict list \<Rightarrow> string list" where
  "conflict_task_ids conflicts = concat (map (\<lambda>c. [fst (pk_task_ids c), snd (pk_task_ids c)]) conflicts)"

definition dependency_succeeded :: "project_task list \<Rightarrow> string \<Rightarrow> bool" where
  "dependency_succeeded tasks d =
     (case kget pt_task_id d tasks of None \<Rightarrow> False | Some t \<Rightarrow> pt_status t = TSucceeded)"

datatype task_disposition = Ready | Waiting string | Neither

text \<open>What the second loop decides for one task that is not terminal.\<close>

definition disposition :: "project_task list \<Rightarrow> project_conflict list \<Rightarrow> project_task \<Rightarrow> task_disposition" where
  "disposition tasks conflicts t =
     (if is_terminal_task t then Neither
      else if pt_task_id t \<in> set (conflict_task_ids conflicts) then Waiting ''PROJECT_CONFLICT''
      else if list_ex (\<lambda>d. \<not> dependency_succeeded tasks d) (pt_depends_on t)
      then Waiting ''DEPENDENCY_PENDING''
      else if pt_status t \<in> {TQueued, TReady} then Ready else Neither)"

definition capacity_candidates :: "project_task list \<Rightarrow> string list" where
  "capacity_candidates tasks =
     sort (map pt_task_id (filter (\<lambda>t.
       pt_status t \<in> {TQueued, TReady, TLeased, TRunning, TVerifying} \<and>
       list_all (dependency_succeeded tasks) (pt_depends_on t)) tasks))"

record project_analysis =
  pa_project_id :: string
  pa_logical_workspace_id :: string
  pa_conflicts :: "project_conflict list"
  pa_ready_task_ids :: "string list"
  pa_waiting_reasons :: "(string \<times> string) list"
  pa_max_safe_parallel_writers :: nat

text \<open>
  The lookup \<open>task_map[dependency]\<close> of a capacity candidate cannot fail: its dependencies were
  checked to be known, as those of every task that is not terminal.
\<close>

definition analyze_project_tasks :: "project_task list \<Rightarrow> parallel_error + project_analysis" where
  "analyze_project_tasks tasks =
     (case tasks of
        [] \<Rightarrow> Inl (ParallelInvalid ''tasks must be a non-empty ProjectTask list'')
      | t0 # _ \<Rightarrow>
          if \<not> distinct (map pt_task_id tasks) then Inl (ParallelInvalid ''task ids must be unique'')
          else if list_ex (\<lambda>t. (pt_project_id t, pt_logical_workspace_id t) \<noteq>
            (pt_project_id t0, pt_logical_workspace_id t0)) tasks
          then Inl (ParallelInvalid ''tasks must belong to one logical project'')
          else if list_ex (\<lambda>t. \<not> is_terminal_task t \<and>
            list_ex (\<lambda>d. d \<notin> set (map pt_task_id tasks)) (pt_depends_on t)) tasks
          then Inl (ParallelInvalid ''dependencies must reference project tasks'')
          else if list_ex (\<lambda>t. \<not> is_terminal_task t \<and>
            has_dependency_path (pt_task_id t) (pt_task_id t) tasks) tasks
          then Inl (ParallelInvalid ''dependency cycle is invalid'')
          else
            let conflicts = project_conflicts tasks tasks;
                ordered = sort_key pt_task_id tasks
            in Inr \<lparr>pa_project_id = pt_project_id t0,
                 pa_logical_workspace_id = pt_logical_workspace_id t0,
                 pa_conflicts = conflicts,
                 pa_ready_task_ids =
                   map pt_task_id (filter (\<lambda>t. disposition tasks conflicts t = Ready) ordered),
                 pa_waiting_reasons =
                   concat (map (\<lambda>t. case disposition tasks conflicts t of
                     Waiting reason \<Rightarrow> [(pt_task_id t, reason)] | _ \<Rightarrow> []) ordered),
                 pa_max_safe_parallel_writers =
                   maximum_safe_writer_count (capacity_candidates tasks) conflicts\<rparr>)"

definition capability_eligible_task_ids ::
  "project_task list \<Rightarrow> pyval list \<Rightarrow> parallel_error + string list" where
  "capability_eligible_task_ids tasks capabilities =
     bindE (mapE (pc_identifier ''capability'') capabilities) (\<lambda>parsed.
     if \<not> distinct parsed then Inl (ParallelInvalid ''capabilities must be unique'')
     else Inr (sort (map pt_task_id (filter (\<lambda>t. set (pt_requires t) \<subseteq> set parsed) tasks))))"

section \<open>Sessions and the project summary\<close>

datatype session_state =
    SActive | SReviewReady | SIntegrated | SExpiredClean | SExpiredDirtyRetained | SStale
  | SCleanupCandidate

definition session_states :: "(string \<times> session_state) list" where
  "session_states =
     [(''active'', SActive), (''review_ready'', SReviewReady), (''integrated'', SIntegrated),
      (''expired_clean'', SExpiredClean), (''expired_dirty_retained'', SExpiredDirtyRetained),
      (''stale'', SStale), (''cleanup_candidate'', SCleanupCandidate)]"

record session_record =
  ds_project_id :: string
  ds_logical_workspace_id :: string
  ds_worktree_id :: string
  ds_development_session_id :: string
  ds_source_revision :: string
  ds_root_path_hash :: string
  ds_owner_id :: string
  ds_task_id :: string
  ds_state :: session_state
  ds_dirty :: bool

definition make_session_record ::
  "pyval \<Rightarrow> pyval \<Rightarrow> pyval \<Rightarrow> pyval \<Rightarrow> pyval \<Rightarrow> pyval \<Rightarrow> pyval \<Rightarrow> pyval \<Rightarrow> string \<Rightarrow> pyval \<Rightarrow>
     parallel_error + session_record" where
  "make_session_record project_id logical_workspace_id worktree_id development_session_id
     source_revision root_path_hash owner_id task_id state dirty =
     bindE (pc_identifier ''project_id'' project_id) (\<lambda>project.
     bindE (from_director (validate_workspace_id logical_workspace_id)) (\<lambda>workspace.
     bindE (pc_identifier ''worktree_id'' worktree_id) (\<lambda>worktree.
     bindE (pc_identifier ''development_session_id'' development_session_id) (\<lambda>session.
     bindE (pc_identifier ''root_path_hash'' root_path_hash) (\<lambda>root_hash.
     bindE (pc_identifier ''owner_id'' owner_id) (\<lambda>owner.
     bindE (pc_identifier ''task_id'' task_id) (\<lambda>task.
     bindE (pc_revision ''source_revision'' source_revision) (\<lambda>revision.
     case (map_of session_states state, dirty) of
       (Some s, PBool d) \<Rightarrow>
         Inr \<lparr>ds_project_id = project, ds_logical_workspace_id = workspace, ds_worktree_id = worktree,
              ds_development_session_id = session, ds_source_revision = revision,
              ds_root_path_hash = root_hash, ds_owner_id = owner, ds_task_id = task, ds_state = s,
              ds_dirty = d\<rparr>
     | _ \<Rightarrow> Inl (ParallelInvalid ''session state is invalid'')))))))))"

definition orphaned_writer :: "string list \<Rightarrow> project_task \<Rightarrow> bool" where
  "orphaned_writer present t \<longleftrightarrow>
     pt_status t \<in> {TQueued, TReady, TLeased, TRunning, TVerifying, TReviewReady} \<and>
     prefix ''session:'' (pt_development_session_id t) \<and> prefix ''session:'' (pt_worktree_id t) \<and>
     pt_development_session_id t \<notin> set present"

definition orphaned_writer_task_ids ::
  "project_task list \<Rightarrow> string list \<Rightarrow> parallel_error + string list" where
  "orphaned_writer_task_ids tasks session_ids =
     (if [] \<in> set session_ids then Inl (ParallelInvalid ''session_ids must contain identifiers'')
      else Inr (sort (map pt_task_id (filter (orphaned_writer session_ids) tasks))))"

text \<open>\<open>is_code_integration_queue_entry\<close> of \<open>integration_queue.py\<close>.\<close>

definition is_code_integration_queue_entry ::
  "task_status \<Rightarrow> string list \<Rightarrow> string \<Rightarrow> string list \<Rightarrow> bool" where
  "is_code_integration_queue_entry status paths patch_hash resources =
     (if status \<noteq> TReviewReady then False
      else if resources \<noteq> [] \<and> list_all (prefix ''delivery:'') resources \<and> patch_hash = [] then False
      else paths \<noteq> [] \<or> patch_hash \<noteq> [])"

record project_summary =
  su_project_id :: string
  su_logical_workspace_id :: string
  su_baseline_revision :: string
  su_canonical_revision :: string
  su_canonical_dirty :: bool
  su_active_session_ids :: "string list"
  su_active_writer_task_ids :: "string list"
  su_max_safe_parallel_writers :: nat
  su_tasks :: project_analysis
  su_integration_queue_task_ids :: "string list"
  su_cleanup_candidate_session_ids :: "string list"
  su_stale_or_replan_task_ids :: "string list"

definition summarize_project_status ::
  "pyval \<Rightarrow> pyval \<Rightarrow> pyval \<Rightarrow> pyval \<Rightarrow> pyval \<Rightarrow> session_record list \<Rightarrow> project_task list \<Rightarrow>
     parallel_error + project_summary" where
  "summarize_project_status project_id logical_workspace_id baseline_revision canonical_revision
     canonical_dirty sessions tasks =
     bindE (pc_identifier ''project_id'' project_id) (\<lambda>project.
     bindE (from_director (validate_workspace_id logical_workspace_id)) (\<lambda>workspace.
     bindE (case canonical_dirty of PBool b \<Rightarrow> Inr b
            | _ \<Rightarrow> Inl (ParallelInvalid ''canonical_dirty must be boolean'')) (\<lambda>dirty.
     bindE (if tasks \<noteq> [] then analyze_project_tasks tasks
            else Inr \<lparr>pa_project_id = project, pa_logical_workspace_id = workspace,
              pa_conflicts = [], pa_ready_task_ids = [], pa_waiting_reasons = [],
              pa_max_safe_parallel_writers = 0\<rparr>) (\<lambda>analysis.
     if (pa_project_id analysis, pa_logical_workspace_id analysis) \<noteq> (project, workspace)
     then Inl (ParallelInvalid ''tasks do not match the requested project'')
     else if list_ex (\<lambda>s. (ds_project_id s, ds_logical_workspace_id s) \<noteq> (project, workspace)) sessions
     then Inl (ParallelInvalid ''sessions do not match the requested project'')
     else
       bindE (orphaned_writer_task_ids tasks (map ds_development_session_id sessions)) (\<lambda>orphaned.
       bindE (pc_revision ''baseline_revision'' baseline_revision) (\<lambda>baseline.
       bindE (pc_revision ''canonical_revision'' canonical_revision) (\<lambda>canonical.
       Inr \<lparr>su_project_id = project, su_logical_workspace_id = workspace,
         su_baseline_revision = baseline, su_canonical_revision = canonical,
         su_canonical_dirty = dirty,
         su_active_session_ids = sort (map ds_development_session_id
           (filter (\<lambda>s. ds_state s \<in> {SActive, SReviewReady}) sessions)),
         su_active_writer_task_ids = sort (map pt_task_id
           (filter (\<lambda>t. pt_status t \<in> {TLeased, TRunning, TVerifying} \<and> pt_task_id t \<notin> set orphaned) tasks)),
         su_max_safe_parallel_writers = pa_max_safe_parallel_writers analysis,
         su_tasks = analysis,
         su_integration_queue_task_ids = sort (map pt_task_id
           (filter (\<lambda>t. is_code_integration_queue_entry (pt_status t) (pt_paths t) [] (pt_resources t)) tasks)),
         su_cleanup_candidate_session_ids = sort (map ds_development_session_id
           (filter (\<lambda>s. ds_state s \<in> {SIntegrated, SCleanupCandidate} \<and> \<not> ds_dirty s) sessions)),
         su_stale_or_replan_task_ids = sorted_set (map pt_task_id
           (filter (\<lambda>t. pt_status t \<in> {TStale, TBlocked}) tasks) @ orphaned)\<rparr>)))))))"

section \<open>Dependency paths are the transitive closure\<close>

definition depends_on :: "project_task list \<Rightarrow> string \<Rightarrow> string \<Rightarrow> bool" where
  "depends_on tasks x y \<longleftrightarrow> y \<in> set (dependencies_of tasks x)"

lemma needs_task_edges: "needs (task_edges tasks) x = dependencies_of tasks x"
  by (induction tasks) (auto simp: needs_def task_edges_def dependencies_of_def store_simps)

lemma has_dependency_path_iff:
  "has_dependency_path a b tasks \<longleftrightarrow> (depends_on tasks)\<^sup>+\<^sup>+ a b"
proof -
  have "needs_rel (task_edges tasks) = {(x, y). depends_on tasks x y}"
    by (simp add: needs_rel_def needs_task_edges depends_on_def)
  then show ?thesis
    using graph_search_iff [of "task_edges tasks" b a]
    by (simp add: has_dependency_path_def needs_task_edges trancl_def)
qed

section \<open>Independent sets\<close>

definition independent :: "(string \<Rightarrow> string list) \<Rightarrow> string set \<Rightarrow> bool" where
  "independent adj I \<longleftrightarrow> (\<forall>x\<in>I. \<forall>y\<in>I. x \<noteq> y \<longrightarrow> y \<notin> set (adj x))"

definition mis :: "(string \<Rightarrow> string list) \<Rightarrow> string set \<Rightarrow> nat" where
  "mis adj V = Max (card ` {I. I \<subseteq> V \<and> independent adj I})"

lemma independent_subset: "independent adj I \<Longrightarrow> J \<subseteq> I \<Longrightarrow> independent adj J"
  by (auto simp: independent_def)

lemma mis_candidates:
  assumes "finite V"
  shows "finite (card ` {I. I \<subseteq> V \<and> independent adj I})" "card ` {I. I \<subseteq> V \<and> independent adj I} \<noteq> {}"
  using assms by (auto simp: independent_def intro!: exI [of _ "{}"])

lemma mis_upper: "finite V \<Longrightarrow> I \<subseteq> V \<Longrightarrow> independent adj I \<Longrightarrow> card I \<le> mis adj V"
  unfolding mis_def by (rule Max_ge) (auto simp: mis_candidates)

lemma mis_attained:
  assumes "finite V" obtains I where "I \<subseteq> V" "independent adj I" "card I = mis adj V"
proof -
  have "mis adj V \<in> card ` {I. I \<subseteq> V \<and> independent adj I}"
    unfolding mis_def using mis_candidates [OF assms] by (rule Max_in)
  with that show thesis by auto
qed

lemma mis_le_card: "finite V \<Longrightarrow> mis adj V \<le> card V"
  using mis_attained [of V adj] card_mono by metis

lemma mis_split:
  assumes fin: "finite V" and v: "v \<in> V" and sym: "\<And>x y. y \<in> set (adj x) \<Longrightarrow> x \<in> set (adj y)"
  shows "mis adj V = max (mis adj (V - {v})) (Suc (mis adj (V - {v} - set (adj v))))"
proof (rule antisym)
  obtain I where I: "I \<subseteq> V" "independent adj I" "card I = mis adj V" using mis_attained [OF fin] .
  show "mis adj V \<le> max (mis adj (V - {v})) (Suc (mis adj (V - {v} - set (adj v))))"
  proof (cases "v \<in> I")
    case True
    have "I - {v} \<subseteq> V - {v} - set (adj v)" using I True by (auto simp: independent_def)
    then have "card (I - {v}) \<le> mis adj (V - {v} - set (adj v))"
      using fin I independent_subset [of adj I "I - {v}"] by (intro mis_upper) auto
    moreover have "card I = Suc (card (I - {v}))"
      using True I fin by (metis card.remove finite_subset)
    ultimately show ?thesis using I by simp
  next
    case False
    then have "card I \<le> mis adj (V - {v})" using fin I by (intro mis_upper) auto
    with I show ?thesis by simp
  qed
next
  have "mis adj (V - {v}) \<le> mis adj V"
    using mis_attained [of "V - {v}" adj] mis_upper [OF fin] fin by (metis Diff_subset finite_Diff order_trans)
  moreover have "Suc (mis adj (V - {v} - set (adj v))) \<le> mis adj V"
  proof -
    obtain I where I: "I \<subseteq> V - {v} - set (adj v)" "independent adj I"
      "card I = mis adj (V - {v} - set (adj v))"
      using mis_attained [of "V - {v} - set (adj v)" adj] fin by auto
    have "independent adj (insert v I)" using I sym by (auto simp: independent_def)
    then have "card (insert v I) \<le> mis adj V" using I v fin by (intro mis_upper) auto
    moreover have "v \<notin> I" "finite I" using I fin finite_subset by blast+
    ultimately show ?thesis using I by simp
  qed
  ultimately show "max (mis adj (V - {v})) (Suc (mis adj (V - {v} - set (adj v)))) \<le> mis adj V" by simp
qed

lemma exact_search_eq:
  "\<forall>x y. y \<in> set (adj x) \<longrightarrow> x \<in> set (adj y) \<Longrightarrow> distinct vertices \<Longrightarrow>
    exact_search adj vertices selected best = max best (selected + mis adj (set vertices))"
proof (induction adj vertices selected best rule: exact_search.induct)
  case (1 adj vertices selected best)
  have le: "mis adj (set vertices) \<le> length vertices"
    using mis_le_card [of "set vertices" adj] card_length [of vertices] by simp
  show ?case
  proof (cases "selected + length vertices \<le> best \<or> vertices = []")
    case True
    then show ?thesis
      using le by (auto simp: exact_search.simps [of adj vertices] max_def)
  next
    case False
    let ?v = "py_max_by (degree_key adj vertices) (hd vertices) (tl vertices)"
    have v: "?v \<in> set vertices"
      using False py_max_by_in [of "degree_key adj vertices" "hd vertices" "tl vertices"] by simp
    have sets: "set (without ?v vertices) = set vertices - {?v}"
      "set (without_neighbours adj ?v vertices) = set vertices - {?v} - set (adj ?v)"
      by (auto simp: without_def without_neighbours_def)
    have d: "distinct (without ?v vertices)" "distinct (without_neighbours adj ?v vertices)"
      using 1(4) by (simp_all add: without_def without_neighbours_def)
    have "mis adj (set vertices) = max (mis adj (set vertices - {?v}))
        (Suc (mis adj (set vertices - {?v} - set (adj ?v))))"
      using mis_split [OF _ v] 1(3) by blast
    moreover have "exact_search adj (without_neighbours adj ?v vertices) (Suc selected) best =
        max best (Suc selected + mis adj (set vertices - {?v} - set (adj ?v)))"
      using 1(1) [OF _ _ refl 1(3) d(2)] False by (simp add: sets)
    moreover have "exact_search adj (without ?v vertices) selected
        (exact_search adj (without_neighbours adj ?v vertices) (Suc selected) best) =
        max (exact_search adj (without_neighbours adj ?v vertices) (Suc selected) best)
          (selected + mis adj (set vertices - {?v}))"
      using 1(2) [OF _ _ refl 1(3) d(1)] False by (simp add: sets)
    moreover have "exact_search adj vertices selected best = exact_search adj (without ?v vertices)
        selected (exact_search adj (without_neighbours adj ?v vertices) (Suc selected) best)"
      using False exact_search.simps [of adj vertices selected best] by (simp only: Let_def if_False de_Morgan_disj)
    moreover have "max (max best (Suc selected + a)) (selected + c) = max best (selected + max c (Suc a))" for a c
      by (simp add: nat_add_max_right max.assoc max.commute)
    ultimately show ?thesis by (simp only:)
  qed
qed

lemma conservative_independent:
  "\<forall>x y. y \<in> set (adj x) \<longrightarrow> x \<in> set (adj y) \<Longrightarrow>
     \<exists>I\<subseteq>set vertices. independent adj I \<and> card I = conservative_count adj vertices"
proof (induction adj vertices rule: conservative_count.induct)
  case (1 adj vertices)
  show ?case
  proof (cases "vertices = []")
    case True
    then show ?thesis by (auto simp: conservative_count.simps independent_def)
  next
    case False
    let ?v = "py_min_by (degree_key adj vertices) (hd vertices) (tl vertices)"
    have v: "?v \<in> set vertices"
      using False py_min_by_in [of "degree_key adj vertices" "hd vertices" "tl vertices"] by simp
    obtain I where I: "I \<subseteq> set (without_neighbours adj ?v vertices)" "independent adj I"
      "card I = conservative_count adj (without_neighbours adj ?v vertices)"
      using 1(1) [OF False refl 1(2)] by blast
    then have "I \<subseteq> set vertices - {?v} - set (adj ?v)" by (auto simp: without_neighbours_def)
    then have "finite I" by (rule finite_subset) simp
    with \<open>I \<subseteq> set vertices - {?v} - set (adj ?v)\<close>
    have i: "insert ?v I \<subseteq> set vertices" "?v \<notin> I" "finite I" "independent adj (insert ?v I)"
      using v I(2) 1(2) by (auto simp: independent_def)
    have "card (insert ?v I) = conservative_count adj vertices"
      using i I(3) False by (simp add: conservative_count.simps [of adj vertices] Let_def)
    with i show ?thesis by blast
  qed
qed

definition closed_under :: "(string \<Rightarrow> string list) \<Rightarrow> string set \<Rightarrow> bool" where
  "closed_under adj R \<longleftrightarrow> (\<forall>x\<in>R. set (adj x) \<subseteq> R)"

lemma component_search_closed:
  "closed_under adj R \<Longrightarrow> R \<subseteq> set universe \<Longrightarrow> set pending \<subseteq> R \<Longrightarrow> set component \<subseteq> R \<Longrightarrow>
     distinct component \<Longrightarrow> (\<forall>x\<in>set component. set (adj x) \<subseteq> set component \<union> set pending) \<Longrightarrow>
     C = component_search adj universe pending component \<Longrightarrow>
     set C \<subseteq> R \<and> distinct C \<and> closed_under adj (set C)"
proof (induction adj universe pending component rule: component_search.induct)
  case (1 adj universe component)
  then show ?case by (auto simp: closed_under_def)
next
  case (2 adj universe current pending component)
  have cu: "current \<in> set universe" using 2(4,5) by auto
  show ?case
  proof (cases "current \<in> set component")
    case True
    then have t: "current \<in> set component \<or> current \<notin> set universe" by simp
    have "\<forall>x\<in>set component. set (adj x) \<subseteq> set component \<union> set pending" using 2(8) True by auto
    from 2(1) [OF t 2(3,4) _ 2(6,7) this] 2(5,9) True show ?thesis by simp
  next
    case False
    with cu have t: "\<not> (current \<in> set component \<or> current \<notin> set universe)" by simp
    let ?pending = "filter (\<lambda>y. y \<notin> set (current # component)) (adj current) @ pending"
    have "current \<in> R" "set (adj current) \<subseteq> R" using 2(3,5) by (auto simp: closed_under_def)
    then have a: "set ?pending \<subseteq> R" "set (current # component) \<subseteq> R" "distinct (current # component)"
      using 2(5-7) False by auto
    have b: "\<forall>x\<in>set (current # component). set (adj x) \<subseteq> set (current # component) \<union> set ?pending"
      using 2(8) by auto
    have "C = component_search adj universe ?pending (current # component)" using 2(9) t by simp
    from 2(2) [OF t 2(3,4) a b this] show ?thesis .
  qed
qed

lemma component_properties:
  assumes "closed_under adj (set remaining)" and "set remaining \<subseteq> set universe" and "remaining \<noteq> []"
    and "C = component_search adj universe [least_id remaining] []"
  shows "set C \<subseteq> set remaining \<and> distinct C \<and> closed_under adj (set C)"
  by (rule component_search_closed [OF assms(1,2) _ _ _ _ assms(4)])
    (use least_id_in [OF assms(3)] in auto)

lemma closed_rest:
  assumes "closed_under adj R" and "closed_under adj C" and "\<forall>x y. y \<in> set (adj x) \<longrightarrow> x \<in> set (adj y)"
  shows "closed_under adj (R - C)"
  using assms unfolding closed_under_def by blast

lemma independent_union:
  assumes "independent adj I" and "independent adj J" and "I \<subseteq> C" and "J \<inter> C = {}"
    and "closed_under adj C" and "\<forall>x y. y \<in> set (adj x) \<longrightarrow> x \<in> set (adj y)"
  shows "independent adj (I \<union> J)"
  using assms unfolding independent_def closed_under_def by blast

text \<open>A count per component that is attained by an independent set adds up to one that is.\<close>

lemma components_attained:
  "closed_under adj (set remaining) \<Longrightarrow> set remaining \<subseteq> set universe \<Longrightarrow>
     \<forall>x y. y \<in> set (adj x) \<longrightarrow> x \<in> set (adj y) \<Longrightarrow>
     (\<And>C. distinct C \<Longrightarrow> \<exists>I\<subseteq>set C. independent adj I \<and> card I = weight C) \<Longrightarrow>
     \<exists>I\<subseteq>set remaining. independent adj I \<and>
       card I = sum_list (map weight (components_of adj universe remaining))"
proof (induction adj universe remaining rule: components_of.induct)
  case (1 adj universe remaining)
  show ?case
  proof (cases "remaining = []")
    case True
    then show ?thesis by (auto simp: components_of.simps independent_def)
  next
    case False
    let ?C = "component_search adj universe [least_id remaining] []"
    let ?rest = "filter (\<lambda>x. x \<notin> set ?C) remaining"
    from component_properties [OF 1(2,3) False refl]
    have C: "set ?C \<subseteq> set remaining" "distinct ?C" "closed_under adj (set ?C)" by simp_all
    have rest: "set ?rest = set remaining - set ?C" by auto
    have cond: "\<not> (remaining = [] \<or> \<not> set remaining \<subseteq> set universe)" using False 1(3) by simp
    have "closed_under adj (set ?rest)" unfolding rest by (rule closed_rest [OF 1(2) C(3) 1(4)])
    from 1(1) [OF cond refl this _ 1(4,5)] 1(3) obtain J where
      J: "J \<subseteq> set ?rest" "independent adj J"
        "card J = sum_list (map weight (components_of adj universe ?rest))"
      by auto
    from 1(5) [OF C(2)] obtain I where I: "I \<subseteq> set ?C" "independent adj I" "card I = weight ?C" by blast
    have "independent adj (I \<union> J)"
      by (rule independent_union [OF I(2) J(2) I(1) _ C(3) 1(4)]) (use J(1) in auto)
    moreover have "card (I \<union> J) = card I + card J"
      by (rule card_Un_disjoint) (use I(1) J(1) finite_subset in \<open>fastforce+\<close>)
    moreover have "components_of adj universe remaining = ?C # components_of adj universe ?rest"
      using cond by (subst components_of.simps) (simp only: if_False Let_def)
    ultimately show ?thesis
      using I J C(1) rest by (intro exI [of _ "I \<union> J"]) auto
  qed
qed

text \<open>And one that bounds every independent set of its component adds up to a bound.\<close>

lemma components_bound:
  "closed_under adj (set remaining) \<Longrightarrow> set remaining \<subseteq> set universe \<Longrightarrow>
     \<forall>x y. y \<in> set (adj x) \<longrightarrow> x \<in> set (adj y) \<Longrightarrow>
     (\<And>C J. distinct C \<Longrightarrow> set C \<subseteq> set universe \<Longrightarrow> J \<subseteq> set C \<Longrightarrow> independent adj J \<Longrightarrow> card J \<le> weight C) \<Longrightarrow>
     J \<subseteq> set remaining \<Longrightarrow> independent adj J \<Longrightarrow>
     card J \<le> sum_list (map weight (components_of adj universe remaining))"
proof (induction adj universe remaining arbitrary: J rule: components_of.induct)
  case (1 adj universe remaining)
  show ?case
  proof (cases "remaining = []")
    case True
    with 1(6) show ?thesis by simp
  next
    case False
    let ?C = "component_search adj universe [least_id remaining] []"
    let ?rest = "filter (\<lambda>x. x \<notin> set ?C) remaining"
    from component_properties [OF 1(2,3) False refl]
    have C: "set ?C \<subseteq> set remaining" "distinct ?C" "closed_under adj (set ?C)" by simp_all
    have rest: "set ?rest = set remaining - set ?C" by auto
    have cond: "\<not> (remaining = [] \<or> \<not> set remaining \<subseteq> set universe)" using False 1(3) by simp
    have cl: "closed_under adj (set ?rest)" unfolding rest by (rule closed_rest [OF 1(2) C(3) 1(4)])
    have "card (J - set ?C) \<le> sum_list (map weight (components_of adj universe ?rest))"
      by (rule 1(1) [OF cond refl cl _ 1(4,5)])
        (use 1(3,6,7) in \<open>auto intro: independent_subset\<close>)
    moreover have "card (J \<inter> set ?C) \<le> weight ?C"
      by (rule 1(5) [OF C(2)]) (use C(1) 1(3,7) in \<open>auto intro: independent_subset\<close>)
    moreover have "card J = card (J \<inter> set ?C) + card (J - set ?C)"
      using 1(6) by (metis List.finite_set card_Int_Diff finite_subset)
    moreover have "components_of adj universe remaining = ?C # components_of adj universe ?rest"
      using cond by (subst components_of.simps) (simp only: if_False Let_def)
    ultimately show ?thesis by simp
  qed
qed

lemma adjacency_symmetric:
  "\<forall>x y. y \<in> set (adjacency candidates conflicts x) \<longrightarrow> x \<in> set (adjacency candidates conflicts y)"
  by (auto simp: adjacency_def list_ex_iff)

lemma adjacency_closed: "closed_under (adjacency candidates conflicts) (set candidates)"
  by (auto simp: closed_under_def adjacency_def)

definition conflict_free_tasks :: "project_conflict list \<Rightarrow> string set \<Rightarrow> bool" where
  "conflict_free_tasks conflicts I \<longleftrightarrow>
     (\<forall>c\<in>set conflicts. \<forall>x y. pk_task_ids c = (x, y) \<longrightarrow> x \<noteq> y \<longrightarrow> \<not> (x \<in> I \<and> y \<in> I))"

lemma independent_adjacency:
  "I \<subseteq> set candidates \<Longrightarrow>
     independent (adjacency candidates conflicts) I \<longleftrightarrow> conflict_free_tasks conflicts I"
  by (fastforce simp: independent_def conflict_free_tasks_def adjacency_def list_ex_iff)

section \<open>What the analysis says\<close>

text \<open>Two tasks interfere when they would write below the same path of one worktree, up to case,
  or hold a common resource.\<close>

definition interferes :: "project_task \<Rightarrow> project_task \<Rightarrow> bool" where
  "interferes s t \<longleftrightarrow>
     pt_worktree_id s = pt_worktree_id t \<and>
       (\<exists>p\<in>set (pt_paths s). \<exists>q\<in>set (pt_paths t). folded_overlap p q) \<or>
     set (pt_resources s) \<inter> set (pt_resources t) \<noteq> {}"

lemma interferes_sym: "interferes s t \<Longrightarrow> interferes t s"
  using folded_scope.overlap_sym unfolding interferes_def by (metis Int_commute)

lemma sorted_set_Nil: "sorted_set xs = [] \<longleftrightarrow> xs = []"
  by (metis set_empty set_sorted_set)

lemma overlaps_iff:
  "overlapping_paths s t \<noteq> [] \<or> overlapping_resources s t \<noteq> [] \<longleftrightarrow> interferes s t"
  by (auto simp: overlapping_paths_def overlapping_resources_def interferes_def sorted_set_Nil
      filter_empty_conv list_ex_iff pc_paths_overlap_def)

lemma task_conflict_iff:
  "c \<in> set (task_conflict tasks s t) \<longrightarrow> pk_task_ids c = (pt_task_id s, pt_task_id t)"
  "task_conflict tasks s t \<noteq> [] \<longleftrightarrow> \<not> is_terminal_task s \<and> \<not> is_terminal_task t \<and>
     \<not> ordered_by_dependency tasks s t \<and> interferes s t"
  using overlaps_iff [of s t] by (auto simp: task_conflict_def)

lemma ordered_sym: "ordered_by_dependency tasks s t = ordered_by_dependency tasks t s"
  by (auto simp: ordered_by_dependency_def)

lemma project_conflicts_complete:
  assumes "s \<in> set ts" and "t \<in> set ts" and "s \<noteq> t"
    and "\<not> is_terminal_task s" and "\<not> is_terminal_task t"
    and "\<not> ordered_by_dependency tasks s t" and "interferes s t"
  shows "\<exists>c\<in>set (project_conflicts tasks ts).
    pk_task_ids c = (pt_task_id s, pt_task_id t) \<or> pk_task_ids c = (pt_task_id t, pt_task_id s)"
  using assms(1,2)
proof (induction ts)
  case (Cons x xs)
  have "task_conflict tasks s t \<noteq> []" "task_conflict tasks t s \<noteq> []"
    using assms(4-7) interferes_sym ordered_sym by (auto simp: task_conflict_iff(2))
  then obtain c d where c: "c \<in> set (task_conflict tasks s t)" "pk_task_ids c = (pt_task_id s, pt_task_id t)"
    and d: "d \<in> set (task_conflict tasks t s)" "pk_task_ids d = (pt_task_id t, pt_task_id s)"
    using task_conflict_iff(1) by (metis list.set_intros(1) neq_Nil_conv)
  from Cons.prems assms(3) consider "x = s" "t \<in> set xs" | "x = t" "s \<in> set xs" | "s \<in> set xs" "t \<in> set xs"
    by auto
  then show ?case
  proof cases
    case 1 with c show ?thesis by auto
  next
    case 2 with d show ?thesis by auto
  next
    case 3 with Cons.IH show ?thesis by auto
  qed
qed simp

lemma project_conflicts_sound:
  assumes "distinct (map pt_task_id ts)" and "c \<in> set (project_conflicts tasks ts)"
  obtains s t where "s \<in> set ts" "t \<in> set ts" "pt_task_id s \<noteq> pt_task_id t"
    "pk_task_ids c = (pt_task_id s, pt_task_id t)" "\<not> is_terminal_task s" "\<not> is_terminal_task t"
    "\<not> ordered_by_dependency tasks s t" "interferes s t"
  using assms
proof (induction ts arbitrary: thesis)
  case (Cons x xs)
  show ?case
  proof (cases "c \<in> set (project_conflicts tasks xs)")
    case True
    with Cons.IH Cons.prems(2) obtain s t where "s \<in> set xs" "t \<in> set xs" "pt_task_id s \<noteq> pt_task_id t"
      "pk_task_ids c = (pt_task_id s, pt_task_id t)" "\<not> is_terminal_task s" "\<not> is_terminal_task t"
      "\<not> ordered_by_dependency tasks s t" "interferes s t" by auto
    then show ?thesis by (intro Cons.prems(1) [of s t]) auto
  next
    case False
    with Cons.prems(3) obtain t where t: "t \<in> set xs" "c \<in> set (task_conflict tasks x t)" by auto
    then have "task_conflict tasks x t \<noteq> []" by auto
    moreover have "pt_task_id x \<noteq> pt_task_id t" using Cons.prems(2) t(1) by auto
    moreover have "pk_task_ids c = (pt_task_id x, pt_task_id t)" using t(2) task_conflict_iff(1) by blast
    ultimately show ?thesis using Cons.prems(1) [of x t] t(1) by (simp add: task_conflict_iff(2))
  qed
qed simp

lemma analyze_Inr:
  assumes "analyze_project_tasks tasks = Inr a"
  shows "tasks \<noteq> []" and "kdistinct pt_task_id tasks"
    and "\<And>t d. t \<in> set tasks \<Longrightarrow> \<not> is_terminal_task t \<Longrightarrow> d \<in> set (pt_depends_on t) \<Longrightarrow> d \<in> pt_task_id ` set tasks"
    and "pa_conflicts a = project_conflicts tasks tasks"
    and "pa_max_safe_parallel_writers a =
      maximum_safe_writer_count (capacity_candidates tasks) (pa_conflicts a)"
    and "pa_ready_task_ids a = map pt_task_id
      (filter (\<lambda>t. disposition tasks (pa_conflicts a) t = Ready) (sort_key pt_task_id tasks))"
  using assms by (auto simp: analyze_project_tasks_def Let_def kdistinct_def list_ex_iff
      split: list.splits if_splits)

lemma dependency_succeeded_iff:
  assumes "kdistinct pt_task_id tasks"
  shows "dependency_succeeded tasks d \<longleftrightarrow>
    (\<exists>t\<in>set tasks. pt_task_id t = d \<and> pt_status t = TSucceeded)"
proof (cases "kget pt_task_id d tasks")
  case None
  then have "d \<notin> pt_task_id ` set tasks" by (simp add: kget_None_iff)
  with None show ?thesis by (auto simp: dependency_succeeded_def)
next
  case (Some v)
  then have v: "v \<in> set tasks \<and> pt_task_id v = d" by (rule kget_SomeD)
  have "t = v" if "t \<in> set tasks" "pt_task_id t = d" for t
    using kget_Some_iff [OF assms, of d t] that Some by simp
  with v Some show ?thesis by (auto simp: dependency_succeeded_def)
qed

text \<open>Along a dependency path from a task whose dependencies succeeded, everything succeeded,
  when succeeded tasks depend on succeeded tasks only.\<close>

lemma path_succeeded:
  assumes "kdistinct pt_task_id tasks"
    and "\<forall>t\<in>set tasks. pt_status t = TSucceeded \<longrightarrow> list_all (dependency_succeeded tasks) (pt_depends_on t)"
    and "s \<in> set tasks" and "list_all (dependency_succeeded tasks) (pt_depends_on s)"
    and "(depends_on tasks)\<^sup>+\<^sup>+ (pt_task_id s) y"
  shows "dependency_succeeded tasks y"
  using assms(5)
proof (induction rule: tranclp_induct)
  case (base y)
  moreover have "kget pt_task_id (pt_task_id s) tasks = Some s"
    using assms(1,3) by (simp add: kget_Some_iff)
  ultimately show ?case using assms(4) by (auto simp: depends_on_def dependencies_of_def list_all_iff)
next
  case (step y z)
  then obtain t where t: "t \<in> set tasks" "pt_task_id t = y" "pt_status t = TSucceeded"
    using dependency_succeeded_iff [OF assms(1)] by blast
  then have "kget pt_task_id y tasks = Some t" using assms(1) by (simp add: kget_Some_iff)
  with step(2) assms(2) t show ?case by (auto simp: depends_on_def dependencies_of_def list_all_iff)
qed

section \<open>Properties\<close>

text \<open>
  \<open>_has_dependency_path\<close> terminates on every task map, cyclic ones and ones with unknown
  dependencies included, and answers exactly whether the second task is reachable from the first
  by one or more dependency edges; so \<open>_has_cycle\<close> answers whether some task depends on itself.
\<close>

theorem dependency_path_is_transitive_closure:
  "(has_dependency_path a b tasks \<longleftrightarrow> (a, b) \<in> {(x, y). y \<in> set (dependencies_of tasks x)}\<^sup>+) \<and>
   (has_cycle tasks \<longleftrightarrow> (\<exists>x\<in>pt_task_id ` set tasks. (x, x) \<in> {(x, y). y \<in> set (dependencies_of tasks x)}\<^sup>+))"
proof -
  have "(depends_on tasks)\<^sup>+\<^sup>+ x y \<longleftrightarrow> (x, y) \<in> {(x, y). y \<in> set (dependencies_of tasks x)}\<^sup>+" for x y
    by (simp add: trancl_def depends_on_def [abs_def])
  then show ?thesis by (auto simp: has_dependency_path_iff has_cycle_def list_ex_iff)
qed

text \<open>
  C38: \<open>_maximum_safe_writer_count\<close> never overstates: there are that many candidates no two of
  which are in conflict. With at most 32 candidates the number is the largest possible.
\<close>

theorem writer_count_attained_and_maximal:
  "(\<exists>I\<subseteq>set candidates. conflict_free_tasks conflicts I \<and>
      card I = maximum_safe_writer_count candidates conflicts) \<and>
   (length candidates \<le> 32 \<longrightarrow> (\<forall>J\<subseteq>set candidates. conflict_free_tasks conflicts J \<longrightarrow>
      card J \<le> maximum_safe_writer_count candidates conflicts))"
proof -
  let ?adj = "adjacency candidates conflicts"
  let ?weight = "\<lambda>C. if length C \<le> 32 then exact_search ?adj C 0 0 else conservative_count ?adj C"
  note sym = adjacency_symmetric [of candidates conflicts]
  have exact: "exact_search ?adj C 0 0 = mis ?adj (set C)" if "distinct C" for C
    using exact_search_eq [OF sym that] by simp
  have "\<exists>I\<subseteq>set C. independent ?adj I \<and> card I = ?weight C" if "distinct C" for C
  proof (cases "length C \<le> 32")
    case True
    with exact [OF that] mis_attained [of "set C" ?adj] show ?thesis by (metis List.finite_set)
  qed (use conservative_independent [OF sym] in simp)
  from components_attained [OF adjacency_closed subset_refl sym this]
  have attained: "\<exists>I\<subseteq>set candidates. independent ?adj I \<and>
      card I = maximum_safe_writer_count candidates conflicts"
    by (simp add: maximum_safe_writer_count_def Let_def)
  have bound: "card J \<le> maximum_safe_writer_count candidates conflicts"
    if "length candidates \<le> 32" "J \<subseteq> set candidates" "independent ?adj J" for J
  proof -
    have "card J \<le> ?weight C"
      if "distinct C" "set C \<subseteq> set candidates" "J \<subseteq> set C" "independent ?adj J" for C J
    proof -
      have "length C \<le> length candidates"
        using that(1,2) by (metis List.finite_set card_length card_mono distinct_card le_trans)
      with \<open>length candidates \<le> 32\<close> exact [OF that(1)] mis_upper [OF _ that(3,4)] show ?thesis by simp
    qed
    from components_bound [OF adjacency_closed subset_refl sym this that(2,3)]
    show ?thesis by (simp add: maximum_safe_writer_count_def Let_def)
  qed
  from attained bound show ?thesis using independent_adjacency by metis
qed

lemma writer_count_witness:
  "maximum_safe_writer_count [''a'', ''b'', ''c'']
     [\<lparr>pk_task_ids = (''a'', ''b''), pk_reason = ProjectPathOverlap, pk_paths = [], pk_resources = []\<rparr>] \<ge> 2"
proof -
  let ?cs = "[\<lparr>pk_task_ids = (''a'', ''b''), pk_reason = ProjectPathOverlap, pk_paths = [], pk_resources = []\<rparr>]"
  have "conflict_free_tasks ?cs {''a'', ''c''}" by (simp add: conflict_free_tasks_def)
  then have "card {''a'', ''c''} \<le> maximum_safe_writer_count [''a'', ''b'', ''c''] ?cs"
    by (intro writer_count_attained_and_maximal [THEN conjunct2, rule_format]) auto
  then show ?thesis by simp
qed

text \<open>
  C23: Tasks reported as ready can be started side by side: each is queued or ready with every
  dependency succeeded, and it interferes with no other unfinished task of the project, unless
  one of the two depends on the other.
\<close>

theorem ready_tasks_safe:
  assumes "analyze_project_tasks tasks = Inr a" and "t \<in> set tasks"
    and "pt_task_id t \<in> set (pa_ready_task_ids a)"
  shows "pt_status t \<in> {TQueued, TReady} \<and>
    (\<forall>d\<in>set (pt_depends_on t). \<exists>u\<in>set tasks. pt_task_id u = d \<and> pt_status u = TSucceeded) \<and>
    (\<forall>u\<in>set tasks. u \<noteq> t \<longrightarrow> \<not> is_terminal_task u \<longrightarrow> interferes t u \<longrightarrow>
      has_dependency_path (pt_task_id t) (pt_task_id u) tasks \<or>
      has_dependency_path (pt_task_id u) (pt_task_id t) tasks)"
proof -
  note a = analyze_Inr [OF assms(1)]
  have "disposition tasks (pa_conflicts a) t = Ready"
  proof -
    from assms(3) a(6) obtain u where u: "u \<in> set tasks" "pt_task_id u = pt_task_id t"
      "disposition tasks (pa_conflicts a) u = Ready" by auto
    then have "u = t" using a(2) assms(2) by (auto simp: kdistinct_def distinct_map inj_on_def)
    with u show ?thesis by simp
  qed
  then have d: "pt_status t \<in> {TQueued, TReady}" "\<not> is_terminal_task t"
    "pt_task_id t \<notin> set (conflict_task_ids (pa_conflicts a))"
    "\<forall>d\<in>set (pt_depends_on t). dependency_succeeded tasks d"
    by (auto simp: disposition_def list_ex_iff split: if_splits)
  have "ordered_by_dependency tasks t u" if "u \<in> set tasks" "u \<noteq> t" "\<not> is_terminal_task u" "interferes t u" for u
  proof (rule ccontr)
    assume "\<not> ordered_by_dependency tasks t u"
    from project_conflicts_complete [OF assms(2) that(1) _ d(2) that(3) this that(4)] that(2) a(4) d(3)
    show False by (force simp: conflict_task_ids_def)
  qed
  with d dependency_succeeded_iff [OF a(2)] show ?thesis
    by (auto simp: ordered_by_dependency_def)
qed

definition example_project_task :: "string \<Rightarrow> string list \<Rightarrow> string list \<Rightarrow> task_status \<Rightarrow> project_task" where
  "example_project_task task_id paths dependencies status =
     \<lparr>pt_task_id = task_id, pt_project_id = ''p'', pt_logical_workspace_id = ''repo'',
      pt_owner_id = ''w'', pt_development_session_id = ''session:1'', pt_worktree_id = ''tree'',
      pt_source_revision = ''r'', pt_paths = paths, pt_resources = [], pt_requires = [],
      pt_depends_on = dependencies, pt_status = status\<rparr>"

definition example_project :: "project_task list" where
  "example_project =
     [example_project_task ''a'' [''src/a''] [] TSucceeded,
      example_project_task ''b'' [''src/b''] [''a''] TQueued,
      example_project_task ''c'' [''src/c''] [] TReady,
      example_project_task ''d'' [''SRC/c/x''] [] TRunning,
      example_project_task ''e'' [''src/b/y''] [''b''] TQueued]"

lemma ready_tasks_safe_witness:
  "\<not> interferes (example_project_task ''b'' [''src/b''] [''a''] TQueued)
     (example_project_task ''c'' [''src/c''] [] TReady)"
proof -
  let ?b = "example_project_task ''b'' [''src/b''] [''a''] TQueued"
  let ?c = "example_project_task ''c'' [''src/c''] [] TReady"
  have "case analyze_project_tasks example_project of Inl e \<Rightarrow> False
      | Inr a \<Rightarrow> pa_ready_task_ids a = [''b''] \<and> pa_max_safe_parallel_writers a = 2"
    by code_simp
  then obtain a where a: "analyze_project_tasks example_project = Inr a" "pa_ready_task_ids a = [''b'']"
    by (auto split: sum.splits)
  have b: "?b \<in> set example_project" "pt_task_id ?b \<in> set (pa_ready_task_ids a)"
    by (simp_all add: example_project_def a(2)) (simp add: example_project_task_def)
  have c: "?c \<in> set example_project" "?c \<noteq> ?b" "\<not> is_terminal_task ?c"
    "\<not> has_dependency_path (pt_task_id ?b) (pt_task_id ?c) example_project"
    "\<not> has_dependency_path (pt_task_id ?c) (pt_task_id ?b) example_project"
    by code_simp+
  from ready_tasks_safe [OF a(1) b] c show ?thesis by blast
qed

text \<open>
  C22: For a list of tasks in which no succeeded task depends on one that did not succeed, the reported
  number of safe parallel writers is safe: there are that many unfinished tasks with every
  dependency succeeded of which no two interfere. Without the condition it can be too large, as
  \<open>writer_count_overstated\<close> shows.
\<close>

theorem safe_parallel_writers:
  assumes "analyze_project_tasks tasks = Inr a"
    and "\<forall>t\<in>set tasks. pt_status t = TSucceeded \<longrightarrow> list_all (dependency_succeeded tasks) (pt_depends_on t)"
  shows "\<exists>W\<subseteq>set tasks. card W = pa_max_safe_parallel_writers a \<and>
    (\<forall>t\<in>W. pt_status t \<in> {TQueued, TReady, TLeased, TRunning, TVerifying} \<and>
      list_all (dependency_succeeded tasks) (pt_depends_on t)) \<and>
    (\<forall>s\<in>W. \<forall>t\<in>W. s \<noteq> t \<longrightarrow> \<not> interferes s t)"
proof -
  note a = analyze_Inr [OF assms(1)]
  let ?ready = "\<lambda>t. pt_status t \<in> {TQueued, TReady, TLeased, TRunning, TVerifying} \<and>
    list_all (dependency_succeeded tasks) (pt_depends_on t)"
  from writer_count_attained_and_maximal [of "capacity_candidates tasks" "pa_conflicts a"] obtain I where
    I: "I \<subseteq> set (capacity_candidates tasks)" "conflict_free_tasks (pa_conflicts a) I"
      "card I = pa_max_safe_parallel_writers a" using a(5) by auto
  let ?W = "{t \<in> set tasks. pt_task_id t \<in> I}"
  have key: "s = t" if "s \<in> set tasks" "t \<in> set tasks" "pt_task_id s = pt_task_id t" for s t
    using that a(2) by (auto simp: kdistinct_def distinct_map inj_on_def)
  have ready: "?ready t" if t: "t \<in> ?W" for t
  proof -
    from t I(1) obtain u where "u \<in> set tasks" "pt_task_id u = pt_task_id t" "?ready u"
      by (fastforce simp: capacity_candidates_def)
    with t key show ?thesis by blast
  qed
  have "pt_task_id ` ?W = I" using I(1) by (force simp: capacity_candidates_def)
  then have "card ?W = pa_max_safe_parallel_writers a"
    using I(3) key by (metis (mono_tags, lifting) card_image inj_onI mem_Collect_eq)
  moreover have "\<not> interferes s t" if st: "s \<in> ?W" "t \<in> ?W" "s \<noteq> t" for s t
  proof
    assume i: "interferes s t"
    have active: "\<not> is_terminal_task s" "\<not> is_terminal_task t"
      using ready [OF st(1)] ready [OF st(2)] by (auto simp: is_terminal_task_def)
    have "\<not> (depends_on tasks)\<^sup>+\<^sup>+ (pt_task_id x) (pt_task_id y)" if "x \<in> ?W" "y \<in> ?W" for x y
    proof
      assume "(depends_on tasks)\<^sup>+\<^sup>+ (pt_task_id x) (pt_task_id y)"
      from path_succeeded [OF a(2) assms(2) _ _ this] ready that
      obtain u where "u \<in> set tasks" "pt_task_id u = pt_task_id y" "pt_status u = TSucceeded"
        using dependency_succeeded_iff [OF a(2)] by auto
      with key [of u y] ready [OF that(2)] that(2) show False by auto
    qed
    then have "\<not> ordered_by_dependency tasks s t"
      using st by (simp add: ordered_by_dependency_def has_dependency_path_iff)
    from project_conflicts_complete [OF _ _ st(3) active this i] st(1,2) a(4)
    obtain c where "c \<in> set (pa_conflicts a)"
      "pk_task_ids c = (pt_task_id s, pt_task_id t) \<or> pk_task_ids c = (pt_task_id t, pt_task_id s)" by auto
    moreover have "pt_task_id s \<noteq> pt_task_id t" using key st by blast
    ultimately show False using I(2) st(1,2) by (force simp: conflict_free_tasks_def)
  qed
  ultimately show ?thesis using ready by (intro exI [of _ ?W]) auto
qed

lemma safe_parallel_writers_witness:
  "\<exists>W\<subseteq>set example_project. card W = 2 \<and> (\<forall>s\<in>W. \<forall>t\<in>W. s \<noteq> t \<longrightarrow> \<not> interferes s t)"
proof -
  have "case analyze_project_tasks example_project of Inl e \<Rightarrow> False
      | Inr a \<Rightarrow> pa_max_safe_parallel_writers a = 2"
    by code_simp
  then obtain a where a: "analyze_project_tasks example_project = Inr a" "pa_max_safe_parallel_writers a = 2"
    by (auto split: sum.splits)
  have "\<forall>t\<in>set example_project. pt_status t = TSucceeded \<longrightarrow>
      list_all (dependency_succeeded example_project) (pt_depends_on t)"
    by code_simp
  from safe_parallel_writers [OF a(1) this] a(2) show ?thesis by auto
qed

text \<open>
  Without that condition the number can overstate. When a succeeded task stands between a
  queued task and a running one that it depends on, the two are never compared, and both are
  counted although they write the same path of the same worktree.
\<close>

theorem writer_count_overstated:
  "(case analyze_project_tasks
      [example_project_task ''a'' [] [''b''] TSucceeded,
       example_project_task ''b'' [''src/x''] [] TRunning,
       example_project_task ''c'' [''src/x''] [''a''] TQueued] of
     Inl e \<Rightarrow> False
   | Inr a \<Rightarrow> pa_max_safe_parallel_writers a = 2 \<and> pa_conflicts a = [] \<and>
       pa_ready_task_ids a = [''c'']) \<and>
   interferes (example_project_task ''b'' [''src/x''] [] TRunning)
     (example_project_task ''c'' [''src/x''] [''a''] TQueued)"
proof
  show "interferes (example_project_task ''b'' [''src/x''] [] TRunning)
     (example_project_task ''c'' [''src/x''] [''a''] TQueued)"
    by (simp add: interferes_def example_project_task_def folded_scope.overlap_refl)
qed code_simp

lemma normalize_resources_Inr:
  "mapE normalize_resource_id vs = Inr rs \<Longrightarrow> vs = map PStr rs"
  by (induction vs arbitrary: rs) (auto simp: result_simps dest!: normalize_resource_id_Inr)

lemma intent_json_inj:
  "json_dumps (intent_json p t ps rs) = json_dumps (intent_json p' t' ps' rs') \<longleftrightarrow>
     p = p' \<and> t = t' \<and> ps = ps' \<and> rs = rs'"
proof
  assume "json_dumps (intent_json p t ps rs) = json_dumps (intent_json p' t' ps' rs')"
  then have "json_canon (intent_json p t ps rs) = json_canon (intent_json p' t' ps' rs')"
    by (rule json_dumps_inj)
  moreover have "json_canon (intent_json p t ps rs) =
      JObj [(''paths'', jstrs ps), (''project_id'', JStr p), (''resources'', jstrs rs), (''title'', JStr t)]"
    for p t ps rs
    by (simp add: intent_json_def json_canon_jstrs)
  ultimately show "p = p' \<and> t = t' \<and> ps = ps' \<and> rs = rs'" by simp
qed simp

lemma sort_eq_iff_mset: "sort xs = sort ys \<longleftrightarrow> mset xs = mset (ys :: 'a::linorder list)"
  by (metis mset_sort properties_for_sort sorted_sort)

text \<open>
  With a digest that does not collide, two accepted task intents have the same fingerprint
  exactly when they name the same project, titles that normalise alike, and the same paths and
  resources in any order.
\<close>

theorem fingerprint_identifies_intent:
  assumes "task_intent_fingerprint sha p t ps rs = Inr f"
    and "task_intent_fingerprint sha p' t' ps' rs' = Inr f'"
    and "\<And>x y. sha x = sha y \<Longrightarrow> x = y"
  shows "f = f' \<longleftrightarrow> p = p' \<and> normalize_task_title t = normalize_task_title t' \<and>
    mset ps = mset ps' \<and> mset rs = mset rs'"
proof -
  have parts: "\<exists>project title paths resources. p = PStr project \<and> normalize_task_title t = Inr title \<and>
      ps = map PStr paths \<and> rs = map PStr resources \<and>
      f = sha (json_dumps (intent_json project title (sort paths) (sort resources)))"
    if "task_intent_fingerprint sha p t ps rs = Inr f" for p t ps rs f
  proof -
    from that obtain project title paths resources where i: "validate_workspace_id p = Inr project"
      "normalize_task_title t = Inr title" "mapE normalize_relative_path ps = Inr paths"
      "mapE normalize_resource_id rs = Inr resources"
      "f = sha (json_dumps (intent_json project title (sort paths) (sort resources)))"
      by (auto simp: task_intent_fingerprint_def from_director_def result_simps)
    then show ?thesis
      using validate_workspace_id_Inr normalize_paths_Inr normalize_resources_Inr by metis
  qed
  from parts [OF assms(1)] obtain project title paths resources where a: "p = PStr project"
    "normalize_task_title t = Inr title" "ps = map PStr paths" "rs = map PStr resources"
    "f = sha (json_dumps (intent_json project title (sort paths) (sort resources)))" by blast
  from parts [OF assms(2)] obtain project' title' paths' resources' where b: "p' = PStr project'"
    "normalize_task_title t' = Inr title'" "ps' = map PStr paths'" "rs' = map PStr resources'"
    "f' = sha (json_dumps (intent_json project' title' (sort paths') (sort resources')))" by blast
  have "f = f' \<longleftrightarrow> json_dumps (intent_json project title (sort paths) (sort resources)) =
      json_dumps (intent_json project' title' (sort paths') (sort resources'))"
    unfolding a(5) b(5) by (rule iffI) (erule assms(3), erule arg_cong)
  moreover have "mset (map PStr xs) = mset (map PStr ys) \<longleftrightarrow> mset xs = mset ys" for xs ys
  proof
    assume "mset (map PStr xs) = mset (map PStr ys)"
    then have "image_mset (\<lambda>v. case v of PStr s \<Rightarrow> s) (mset (map PStr xs)) =
        image_mset (\<lambda>v. case v of PStr s \<Rightarrow> s) (mset (map PStr ys))" by (rule arg_cong)
    then show "mset xs = mset ys" by (simp add: image_mset.compositionality comp_def flip: mset_map)
  qed simp
  ultimately show ?thesis
    using a b by (simp add: intent_json_inj sort_eq_iff_mset)
qed


lemma fingerprint_identifies_intent_witness:
  "task_intent_fingerprint (\<lambda>s. s) (PStr ''repo'') (PStr ''Fix: the BUG'')
      [PStr ''a.py'', PStr ''b.py''] [] =
   task_intent_fingerprint (\<lambda>s. s) (PStr ''repo'') (PStr ''fix the bug'')
      [PStr ''b.py'', PStr ''a.py''] []"
proof -
  let ?f = "task_intent_fingerprint (\<lambda>s. s) (PStr ''repo'') (PStr ''Fix: the BUG'')
      [PStr ''a.py'', PStr ''b.py''] []"
  let ?g = "task_intent_fingerprint (\<lambda>s. s) (PStr ''repo'') (PStr ''fix the bug'')
      [PStr ''b.py'', PStr ''a.py''] []"
  have "isOk ?f" "isOk ?g" by code_simp+
  then obtain f g where fg: "?f = Inr f" "?g = Inr g" by (metis isOk.simps(1) sum.exhaust)
  have "normalize_task_title (PStr ''Fix: the BUG'') = normalize_task_title (PStr ''fix the bug'')"
    by code_simp
  with fingerprint_identifies_intent [OF fg] have "f = g" by simp
  with fg show ?thesis by simp
qed

end
