(* ===== verification/Orchestration.thy ===== *)
theory Orchestration
  imports DirectorText DependencyGraph "HOL-Library.Multiset"
begin

text \<open>
  Parallel work plans, \<open>src/src/chatgpt_dev_mcp/director_orchestration.py\<close>: tasks of agents, the
  conflicts of writers that may run at the same time, the batches in which the tasks can run, and
  the plan with its rendering. Sets that the code iterates in sorted order are sorted lists here.
\<close>

section \<open>Tasks\<close>

datatype orchestration_error =
    OrchestrationInvalid string
  | OrchestrationText director_error
  | OrchestrationUnhashable

definition orchestration_text :: "director_error + 'a \<Rightarrow> orchestration_error + 'a" where
  "orchestration_text r = mapError OrchestrationText r"

datatype work_mode = ReadOnly | Writer

fun work_mode_name :: "work_mode \<Rightarrow> string" where
  "work_mode_name ReadOnly = ''read_only''"
| "work_mode_name Writer = ''writer''"

record agent_task =
  at_task_id :: string
  at_workspace_id :: string
  at_title :: string
  at_paths :: "string list"
  at_mode :: work_mode
  at_depends_on :: "string list"
  at_resources :: "string list"

definition agent_task_id :: "pyval \<Rightarrow> orchestration_error + string" where
  "agent_task_id value =
     (case value of
        PStr s \<Rightarrow> if s = [] \<or> 80 < length s \<or> list_ex is_space_char s
          then Inl (OrchestrationInvalid ''task_id is invalid'') else Inr s
      | _ \<Rightarrow> Inl (OrchestrationInvalid ''task_id is invalid''))"

definition agent_title :: "pyval \<Rightarrow> orchestration_error + string" where
  "agent_title value =
     (case value of
        PStr s \<Rightarrow> if py_strip s = [] \<or> 200 < length s \<or> contains_secret_like_content s
          then Inl (OrchestrationInvalid ''title is invalid'') else Inr s
      | _ \<Rightarrow> Inl (OrchestrationInvalid ''title is invalid''))"

text \<open>The test \<open>mode not in {...}\<close> raises \<open>TypeError\<close> for a value that has no hash.\<close>

definition agent_mode :: "pyval \<Rightarrow> orchestration_error + work_mode" where
  "agent_mode value =
     (case value of
        PStr s \<Rightarrow> if s = ''read_only'' then Inr ReadOnly else if s = ''writer'' then Inr Writer
          else Inl (OrchestrationInvalid ''mode is invalid'')
      | PList _ \<Rightarrow> Inl OrchestrationUnhashable
      | PDict _ \<Rightarrow> Inl OrchestrationUnhashable
      | _ \<Rightarrow> Inl (OrchestrationInvalid ''mode is invalid''))"

definition agent_dependency :: "string \<Rightarrow> pyval \<Rightarrow> orchestration_error + string" where
  "agent_dependency task_id value =
     (case value of
        PStr s \<Rightarrow> if s = [] \<or> s = task_id then Inl (OrchestrationInvalid ''depends_on is invalid'')
          else Inr s
      | _ \<Rightarrow> Inl (OrchestrationInvalid ''depends_on is invalid''))"

definition make_agent_task ::
  "pyval \<Rightarrow> pyval \<Rightarrow> pyval \<Rightarrow> pyval list \<Rightarrow> pyval \<Rightarrow> pyval list \<Rightarrow> pyval list \<Rightarrow>
     orchestration_error + agent_task" where
  "make_agent_task task_id workspace_id title paths mode depends_on resources =
     bindE (agent_task_id task_id) (\<lambda>i.
     bindE (orchestration_text (validate_workspace_id workspace_id)) (\<lambda>workspace.
     bindE (agent_title title) (\<lambda>t.
     bindE (agent_mode mode) (\<lambda>m.
     if 128 < length paths then Inl (OrchestrationInvalid ''paths exceed the safety bound'') else
     bindE (orchestration_text (mapE normalize_relative_path paths)) (\<lambda>ps.
     if \<not> distinct ps then Inl (OrchestrationInvalid ''paths must be unique'') else
     if 64 < length depends_on
     then Inl (OrchestrationInvalid ''depends_on exceeds the safety bound'') else
     bindE (mapE (agent_dependency i) depends_on) (\<lambda>ds.
     if \<not> distinct ds then Inl (OrchestrationInvalid ''depends_on contains duplicates'') else
     if 128 < length resources
     then Inl (OrchestrationInvalid ''resources exceed the safety bound'') else
     bindE (orchestration_text (mapE normalize_resource_id resources)) (\<lambda>rs.
     if \<not> distinct rs then Inl (OrchestrationInvalid ''resources must be unique'') else
     Inr \<lparr>at_task_id = i, at_workspace_id = workspace, at_title = t, at_paths = ps, at_mode = m,
       at_depends_on = ds, at_resources = rs\<rparr>)))))))"

section \<open>Conflicts\<close>

record orchestration_conflict =
  oc_task_ids :: "string \<times> string"
  oc_paths :: "string list"
  oc_reason :: string
  oc_resources :: "string list"

definition conflict_as_dict :: "orchestration_conflict \<Rightarrow> (string \<times> pyval) list" where
  "conflict_as_dict c =
     [(''task_ids'', PList [PStr (fst (oc_task_ids c)), PStr (snd (oc_task_ids c))]),
      (''paths'', PList (map PStr (oc_paths c))),
      (''resources'', PList (map PStr (oc_resources c))),
      (''reason'', PStr (oc_reason c))]"

definition agent_graph :: "agent_task list \<Rightarrow> task_graph" where
  "agent_graph tasks = map (\<lambda>t. (at_task_id t, at_depends_on t)) tasks"

definition find_cycle :: "agent_task list \<Rightarrow> bool" where
  "find_cycle tasks = graph_cycle (agent_graph tasks)"

definition agent_paths_overlap :: "string \<Rightarrow> string \<Rightarrow> bool" where
  "agent_paths_overlap first second = folded_overlap first second"

definition depends_transitively :: "string \<Rightarrow> string \<Rightarrow> agent_task list \<Rightarrow> bool" where
  "depends_transitively task_id dependency_id tasks =
     graph_search (agent_graph tasks) dependency_id (rev (needs (agent_graph tasks) task_id)) []"

definition can_run_concurrently :: "agent_task \<Rightarrow> agent_task \<Rightarrow> agent_task list \<Rightarrow> bool" where
  "can_run_concurrently first second tasks \<longleftrightarrow>
     \<not> depends_transitively (at_task_id first) (at_task_id second) tasks \<and>
     \<not> depends_transitively (at_task_id second) (at_task_id first) tasks"

definition writer_scope_conflicts :: "agent_task \<Rightarrow> agent_task \<Rightarrow> bool" where
  "writer_scope_conflicts first second \<longleftrightarrow>
     at_mode first = Writer \<and> at_mode second = Writer \<and>
     (list_ex (\<lambda>left. list_ex (agent_paths_overlap left) (at_paths second)) (at_paths first) \<or>
      intersects (at_resources first) (at_resources second))"

section \<open>Waves and batches\<close>

text \<open>The task joins the first wave without a conflicting writer, or opens a new one.\<close>

fun place_in_wave :: "agent_task list \<Rightarrow> agent_task \<Rightarrow> string list list \<Rightarrow> string list list" where
  "place_in_wave tasks t [] = [[at_task_id t]]"
| "place_in_wave tasks t (wave # waves) =
     (if list_all (\<lambda>other_id. case kget at_task_id other_id tasks of
          None \<Rightarrow> True | Some u \<Rightarrow> \<not> writer_scope_conflicts t u) wave
      then (wave @ [at_task_id t]) # waves
      else wave # place_in_wave tasks t waves)"

text \<open>Called on ids of the task map only, so that \<open>tasks[task_id]\<close> is defined.\<close>

definition safe_waves :: "agent_task list \<Rightarrow> string list \<Rightarrow> string list list" where
  "safe_waves tasks task_ids =
     foldl (\<lambda>waves task_id. case kget at_task_id task_id tasks of
         None \<Rightarrow> waves | Some t \<Rightarrow> place_in_wave tasks t waves) [] (sort task_ids)"

definition ready_layer :: "agent_task list \<Rightarrow> string list \<Rightarrow> string list \<Rightarrow> string list" where
  "ready_layer tasks completed remaining =
     filter (\<lambda>task_id. set (needs (agent_graph tasks) task_id) \<subseteq> set completed) (sort remaining)"

function plan_batches ::
  "agent_task list \<Rightarrow> string list \<Rightarrow> string list \<Rightarrow> orchestration_error + string list list" where
  "plan_batches tasks completed remaining =
     (if remaining = [] then Inr []
      else if ready_layer tasks completed remaining = []
      then Inl (OrchestrationInvalid ''plan could not be topologically ordered'')
      else
        bindE (plan_batches tasks (ready_layer tasks completed remaining @ completed)
          (filter (\<lambda>i. i \<notin> set (ready_layer tasks completed remaining)) remaining)) (\<lambda>batches.
        Inr (safe_waves tasks (ready_layer tasks completed remaining) @ batches)))"
  by pat_completeness auto

lemma ready_layer_subset: "set (ready_layer tasks completed remaining) \<subseteq> set remaining"
  by (auto simp: ready_layer_def)

lemma filter_out_shorter:
  assumes "ys \<noteq> []" and "set ys \<subseteq> set xs"
  shows "length (filter (\<lambda>x. x \<notin> set ys) xs) < length xs"
proof -
  obtain y where "y \<in> set ys" using assms(1) by (cases ys) auto
  with assms(2) show ?thesis by (auto intro: length_filter_less)
qed

termination plan_batches
  by (relation "measure (\<lambda>(tasks, completed, remaining). length remaining)")
    (simp_all add: filter_out_shorter ready_layer_subset)

declare plan_batches.simps [simp del]

section \<open>The plan\<close>

fun later_pairs :: "'a list \<Rightarrow> ('a \<times> 'a) list" where
  "later_pairs [] = []"
| "later_pairs (x # xs) = map (Pair x) xs @ later_pairs xs"

definition path_overlap :: "agent_task \<Rightarrow> agent_task \<Rightarrow> string list" where
  "path_overlap first second =
     sorted_set (filter (\<lambda>path. list_ex (agent_paths_overlap path) (at_paths second)) (at_paths first))"

definition resource_overlap :: "agent_task \<Rightarrow> agent_task \<Rightarrow> string list" where
  "resource_overlap first second =
     sorted_set (filter (\<lambda>r. r \<in> set (at_resources second)) (at_resources first))"

definition writer_conflict ::
  "agent_task list \<Rightarrow> agent_task \<times> agent_task \<Rightarrow> orchestration_conflict list" where
  "writer_conflict tasks pair =
     (case pair of (first, second) \<Rightarrow>
       if \<not> can_run_concurrently first second tasks then []
       else if path_overlap first second \<noteq> []
       then [\<lparr>oc_task_ids = (at_task_id first, at_task_id second),
              oc_paths = path_overlap first second, oc_reason = ''MULTIPLE_WRITERS_OVERLAP'',
              oc_resources = []\<rparr>]
       else if resource_overlap first second \<noteq> []
       then [\<lparr>oc_task_ids = (at_task_id first, at_task_id second), oc_paths = [],
              oc_reason = ''MULTIPLE_WRITERS_RESOURCE_OVERLAP'',
              oc_resources = resource_overlap first second\<rparr>]
       else [])"

definition writers_of :: "agent_task list \<Rightarrow> agent_task list" where
  "writers_of tasks = filter (\<lambda>t. at_mode t = Writer) tasks"

definition shared_paths_of :: "agent_task list \<Rightarrow> string list" where
  "shared_paths_of tasks =
     sorted_set (concat (map (\<lambda>(first, second).
       concat (map (\<lambda>p. concat (map (\<lambda>q. if agent_paths_overlap p q then [p, q] else [])
         (at_paths second))) (at_paths first))) (later_pairs tasks)))"

definition shared_resources_of :: "agent_task list \<Rightarrow> string list" where
  "shared_resources_of tasks =
     sorted_set (concat (map (\<lambda>(first, second). resource_overlap first second) (later_pairs tasks)))"

definition is_writer_id :: "agent_task list \<Rightarrow> string \<Rightarrow> bool" where
  "is_writer_id tasks task_id =
     (case kget at_task_id task_id tasks of None \<Rightarrow> False | Some t \<Rightarrow> at_mode t = Writer)"

record orchestration_plan =
  op_workspace_id :: string
  op_tasks :: "agent_task list"
  op_batches :: "string list list"
  op_conflicts :: "orchestration_conflict list"
  op_suggested_leases :: "(string \<times> pyval) list list"
  op_shared_paths :: "string list"
  op_shared_resources :: "string list"
  op_integration_owner :: "string option"
  op_max_safe_parallel_writers :: nat
  op_external_chat_creation :: bool

definition suggested_lease :: "agent_task \<Rightarrow> (string \<times> pyval) list" where
  "suggested_lease t =
     [(''task_id'', PStr (at_task_id t)), (''workspace_id'', PStr (at_workspace_id t)),
      (''paths'', PList (map PStr (at_paths t))), (''resources'', PList (map PStr (at_resources t)))]"

definition integration_owner :: "agent_task list \<Rightarrow> string list list \<Rightarrow> string option" where
  "integration_owner tasks batches =
     (case rev (filter (is_writer_id tasks) (concat batches)) of [] \<Rightarrow> None | i # _ \<Rightarrow> Some i)"

definition max_parallel_writers :: "agent_task list \<Rightarrow> string list list \<Rightarrow> nat" where
  "max_parallel_writers tasks batches =
     foldr max (map (\<lambda>batch. length (filter (is_writer_id tasks) batch)) batches) 0"

text \<open>The checks of the plan; the result is the workspace of all tasks.\<close>

definition check_plan_tasks :: "agent_task list \<Rightarrow> orchestration_error + string" where
  "check_plan_tasks tasks =
     (if tasks = [] then Inl (OrchestrationInvalid ''tasks must be a non-empty list'')
      else if list_ex (\<lambda>t. at_workspace_id t \<noteq> at_workspace_id (hd tasks)) tasks
      then Inl (OrchestrationInvalid ''a plan must target one workspace'')
      else if \<not> distinct (map at_task_id tasks)
      then Inl (OrchestrationInvalid ''task_id values must be unique'')
      else if list_ex (\<lambda>t. list_ex (\<lambda>d. d \<notin> at_task_id ` set tasks) (at_depends_on t)) tasks
      then Inl (OrchestrationInvalid ''plan contains a missing dependency'')
      else if find_cycle tasks
      then Inl (OrchestrationInvalid ''plan contains a dependency cycle'')
      else Inr (at_workspace_id (hd tasks)))"

definition assemble_plan :: "string \<Rightarrow> agent_task list \<Rightarrow> string list list \<Rightarrow> orchestration_plan" where
  "assemble_plan workspace tasks batches =
     \<lparr>op_workspace_id = workspace, op_tasks = tasks, op_batches = batches,
      op_conflicts = concat (map (writer_conflict tasks) (later_pairs (writers_of tasks))),
      op_suggested_leases = map suggested_lease (writers_of tasks),
      op_shared_paths = shared_paths_of tasks,
      op_shared_resources = shared_resources_of tasks,
      op_integration_owner = integration_owner tasks batches,
      op_max_safe_parallel_writers = max_parallel_writers tasks batches,
      op_external_chat_creation = False\<rparr>"

definition build_orchestration_plan ::
  "agent_task list \<Rightarrow> orchestration_error + orchestration_plan" where
  "build_orchestration_plan tasks =
     bindE (check_plan_tasks tasks) (\<lambda>workspace.
     bindE (plan_batches tasks [] (map at_task_id tasks)) (\<lambda>batches.
     Inr (assemble_plan workspace tasks (filter (\<lambda>batch. batch \<noteq> []) batches))))"

definition plan_executable :: "orchestration_plan \<Rightarrow> bool" where
  "plan_executable plan \<longleftrightarrow> op_conflicts plan = []"

definition agent_task_as_dict :: "agent_task \<Rightarrow> pyval" where
  "agent_task_as_dict t =
     PDict [(''task_id'', PStr (at_task_id t)), (''title'', PStr (at_title t)),
       (''paths'', PList (map PStr (at_paths t))), (''mode'', PStr (work_mode_name (at_mode t))),
       (''depends_on'', PList (map PStr (at_depends_on t))),
       (''resources'', PList (map PStr (at_resources t)))]"

definition plan_as_dict :: "orchestration_plan \<Rightarrow> (string \<times> pyval) list" where
  "plan_as_dict plan =
     [(''workspace_id'', PStr (op_workspace_id plan)),
      (''tasks'', PList (map agent_task_as_dict (op_tasks plan))),
      (''batches'', PList (map (\<lambda>batch. PList (map PStr batch)) (op_batches plan))),
      (''conflicts'', PList (map (\<lambda>c. PDict (conflict_as_dict c)) (op_conflicts plan))),
      (''suggested_leases'', PList (map PDict (op_suggested_leases plan))),
      (''shared_paths'', PList (map PStr (op_shared_paths plan))),
      (''shared_resources'', PList (map PStr (op_shared_resources plan))),
      (''integration_owner'',
        case op_integration_owner plan of None \<Rightarrow> PNone | Some i \<Rightarrow> PStr i),
      (''max_safe_parallel_writers'', PInt (int (op_max_safe_parallel_writers plan))),
      (''executable'', PBool (plan_executable plan)),
      (''external_chat_creation'', PBool (op_external_chat_creation plan))]"

section \<open>Waves keep conflicting writers apart\<close>

definition ids_conflict :: "agent_task list \<Rightarrow> string \<Rightarrow> string \<Rightarrow> bool" where
  "ids_conflict tasks i j =
     (case (kget at_task_id i tasks, kget at_task_id j tasks) of
        (Some t, Some u) \<Rightarrow> writer_scope_conflicts t u | _ \<Rightarrow> False)"

lemma agent_paths_overlap_sym: "agent_paths_overlap p q = agent_paths_overlap q p"
  unfolding agent_paths_overlap_def folded_overlap_def scope_overlap_def by (simp add: disj_ac eq_commute)

lemma writer_scope_conflicts_sym: "writer_scope_conflicts t u = writer_scope_conflicts u t"
  unfolding writer_scope_conflicts_def list_ex_iff
  by (metis agent_paths_overlap_sym intersects_commute)

interpretation wave: admission "ids_conflict tasks" for tasks
  by unfold_locales (auto simp: ids_conflict_def writer_scope_conflicts_sym split: option.splits)

definition wave_ok :: "agent_task list \<Rightarrow> string list \<Rightarrow> bool" where
  "wave_ok tasks wave \<longleftrightarrow> wave \<noteq> [] \<and> conflict_free (ids_conflict tasks) (set wave)"

lemma place_in_wave_ok:
  assumes "kget at_task_id (at_task_id t) tasks = Some t" and "list_all (wave_ok tasks) waves"
  shows "list_all (wave_ok tasks) (place_in_wave tasks t waves)"
  using assms(2)
proof (induction waves)
  case Nil
  then show ?case by (simp add: wave_ok_def conflict_free_def)
next
  case (Cons w ws)
  show ?case
  proof (cases "list_all (\<lambda>other_id. case kget at_task_id other_id tasks of
          None \<Rightarrow> True | Some u \<Rightarrow> \<not> writer_scope_conflicts t u) w")
    case True
    then have "\<forall>x\<in>set w. \<not> ids_conflict tasks x (at_task_id t)"
      using assms(1) by (auto simp: ids_conflict_def list_all_iff writer_scope_conflicts_sym
        split: option.splits)
    moreover have "conflict_free (ids_conflict tasks) (set w)" using Cons.prems by (simp add: wave_ok_def)
    ultimately have "wave_ok tasks (w @ [at_task_id t])"
      by (simp add: wave_ok_def wave.admit)
    then show ?thesis using True Cons.prems by simp
  next
    case False
    then show ?thesis using Cons by simp
  qed
qed

lemma mset_place_in_wave:
  "mset (concat (place_in_wave tasks t waves)) = add_mset (at_task_id t) (mset (concat waves))"
  by (induction waves) simp_all

lemma safe_waves_properties:
  assumes "set task_ids \<subseteq> at_task_id ` set tasks"
  shows "list_all (wave_ok tasks) (safe_waves tasks task_ids) \<and>
    mset (concat (safe_waves tasks task_ids)) = mset task_ids"
proof -
  let ?place = "\<lambda>waves task_id. case kget at_task_id task_id tasks of
     None \<Rightarrow> waves | Some t \<Rightarrow> place_in_wave tasks t waves"
  have "list_all (wave_ok tasks) (foldl ?place waves xs) \<and>
      mset (concat (foldl ?place waves xs)) = mset (concat waves) + mset xs"
    if "list_all (wave_ok tasks) waves" and "set xs \<subseteq> at_task_id ` set tasks" for waves xs
    using that
  proof (induction xs arbitrary: waves)
    case (Cons x xs)
    then obtain t where t: "kget at_task_id x tasks = Some t"
      using kget_None_iff [of at_task_id x tasks] by (cases "kget at_task_id x tasks") auto
    then have x: "at_task_id t = x" by (rule kget_SomeD [THEN conjunct2])
    have "list_all (wave_ok tasks) (place_in_wave tasks t waves)"
      by (rule place_in_wave_ok) (simp only: x t, rule Cons.prems(1))
    then show ?case
      using Cons.IH [of "place_in_wave tasks t waves"] Cons.prems(2) t
      by (simp add: mset_place_in_wave x)
  qed simp
  from this [of "[]" "sort task_ids"] show ?thesis
    using assms by (simp add: safe_waves_def)
qed

section \<open>Batches respect the dependencies\<close>

text \<open>Each batch is a wave whose tasks depend on tasks of earlier batches only.\<close>

fun batches_ok :: "agent_task list \<Rightarrow> string set \<Rightarrow> string list list \<Rightarrow> bool" where
  "batches_ok tasks completed [] = True"
| "batches_ok tasks completed (b # bs) =
     (wave_ok tasks b \<and> (\<forall>i\<in>set b. set (needs (agent_graph tasks) i) \<subseteq> completed) \<and>
      batches_ok tasks (completed \<union> set b) bs)"

lemma batches_ok_append:
  "batches_ok tasks completed (bs @ cs) \<longleftrightarrow>
     batches_ok tasks completed bs \<and> batches_ok tasks (completed \<union> set (concat bs)) cs"
  by (induction bs arbitrary: completed) (auto simp: Un_assoc)

lemma batches_ok_layer:
  assumes "list_all (wave_ok tasks) bs"
    and "\<forall>i\<in>set (concat bs). set (needs (agent_graph tasks) i) \<subseteq> completed"
  shows "batches_ok tasks completed bs"
  using assms by (induction bs arbitrary: completed) (auto, blast)

lemma batches_ok_filter: "batches_ok tasks completed bs \<Longrightarrow> filter (\<lambda>b. b \<noteq> []) bs = bs"
  by (induction bs arbitrary: completed) (auto simp: wave_ok_def)

lemma keys_agent_graph [simp]: "fst ` set (agent_graph tasks) = at_task_id ` set tasks"
  by (force simp: agent_graph_def)

text \<open>The loop ends with all tasks ordered: with no cycle and no missing dependency, some
  remaining task is always ready.\<close>

lemma ready_layer_nonempty:
  assumes "acyclic (needs_rel (agent_graph tasks))" and "remaining \<noteq> []"
    and "\<forall>i\<in>set remaining. set (needs (agent_graph tasks) i) \<subseteq> set completed \<union> set remaining"
  shows "ready_layer tasks completed remaining \<noteq> []"
proof -
  obtain i where "i \<in> set remaining" "set (needs (agent_graph tasks) i) \<inter> set remaining = {}"
    using acyclic_ready [OF assms(1), of "set remaining"] assms(2) by auto
  with assms(3) have "i \<in> set (ready_layer tasks completed remaining)"
    by (auto simp: ready_layer_def)
  then show ?thesis by (cases "ready_layer tasks completed remaining") simp_all
qed

lemma mset_layer:
  assumes "distinct remaining"
  shows "mset (ready_layer tasks completed remaining) +
    mset (filter (\<lambda>i. i \<notin> set (ready_layer tasks completed remaining)) remaining) = mset remaining"
proof -
  let ?P = "\<lambda>i. set (needs (agent_graph tasks) i) \<subseteq> set completed"
  have "mset (ready_layer tasks completed remaining) = mset (filter ?P remaining)"
    by (simp add: ready_layer_def mset_filter)
  moreover have "filter (\<lambda>i. i \<notin> set (ready_layer tasks completed remaining)) remaining =
      filter (\<lambda>i. \<not> ?P i) remaining"
    by (rule filter_cong) (auto simp: ready_layer_def)
  ultimately show ?thesis by (simp add: mset_filter multiset_partition [symmetric])
qed

lemma plan_batches_total:
  assumes acyclic: "acyclic (needs_rel (agent_graph tasks))"
  shows "distinct remaining \<Longrightarrow> set remaining \<subseteq> at_task_id ` set tasks \<Longrightarrow>
    (\<forall>i\<in>set remaining. set (needs (agent_graph tasks) i) \<subseteq> set completed \<union> set remaining) \<Longrightarrow>
    \<exists>batches. plan_batches tasks completed remaining = Inr batches \<and>
      batches_ok tasks (set completed) batches \<and> mset (concat batches) = mset remaining"
proof (induction "length remaining" arbitrary: completed remaining rule: less_induct)
  case less
  show ?case
  proof (cases "remaining = []")
    case True
    then show ?thesis by (simp add: plan_batches.simps)
  next
    case False
    let ?ready = "ready_layer tasks completed remaining"
    let ?rest = "filter (\<lambda>i. i \<notin> set ?ready) remaining"
    have ready: "?ready \<noteq> []" using acyclic False less.prems(3) by (rule ready_layer_nonempty)
    have known: "set ?ready \<subseteq> at_task_id ` set tasks"
      using less.prems(2) ready_layer_subset [of tasks completed remaining] by blast
    have "length ?rest < length remaining" using ready ready_layer_subset by (rule filter_out_shorter)
    moreover have "distinct ?rest" using less.prems(1) by simp
    moreover have "set ?rest \<subseteq> at_task_id ` set tasks" using less.prems(2) by auto
    moreover have "\<forall>i\<in>set ?rest. set (needs (agent_graph tasks) i) \<subseteq> set (?ready @ completed) \<union> set ?rest"
      using less.prems(3) by auto
    ultimately obtain bs where bs: "plan_batches tasks (?ready @ completed) ?rest = Inr bs"
      "batches_ok tasks (set (?ready @ completed)) bs" "mset (concat bs) = mset ?rest"
      using less.hyps by blast
    have waves: "list_all (wave_ok tasks) (safe_waves tasks ?ready)"
        "mset (concat (safe_waves tasks ?ready)) = mset ?ready"
      using safe_waves_properties [OF known] by auto
    have set_waves: "set (concat (safe_waves tasks ?ready)) = set ?ready"
      using waves(2) by (rule mset_eq_setD)
    have "batches_ok tasks (set completed) (safe_waves tasks ?ready)"
      using waves(1) by (rule batches_ok_layer) (simp only: set_waves, auto simp: ready_layer_def)
    then have "batches_ok tasks (set completed) (safe_waves tasks ?ready @ bs)"
      using bs(2) by (simp add: batches_ok_append set_waves [simplified] Un_commute)
    moreover have "mset (concat (safe_waves tasks ?ready @ bs)) = mset remaining"
      using waves(2) bs(3) mset_layer [OF less.prems(1)] by simp
    moreover have "plan_batches tasks completed remaining = Inr (safe_waves tasks ?ready @ bs)"
      using False ready bs(1) by (simp add: plan_batches.simps)
    ultimately show ?thesis by blast
  qed
qed

section \<open>What a plan guarantees\<close>

lemma needs_agent_graph:
  assumes "distinct (map at_task_id tasks)" and "t \<in> set tasks"
  shows "needs (agent_graph tasks) (at_task_id t) = at_depends_on t"
proof -
  have "map_of (agent_graph tasks) (at_task_id t) = Some (at_depends_on t)"
    by (rule map_of_is_SomeI) (use assms in \<open>auto simp: agent_graph_def comp_def\<close>)
  then show ?thesis by (simp add: needs_def)
qed

text \<open>The dependencies as a relation: a task and what it depends on.\<close>

definition agent_depends :: "agent_task list \<Rightarrow> (string \<times> string) set" where
  "agent_depends tasks = {(at_task_id t, d) |t d. t \<in> set tasks \<and> d \<in> set (at_depends_on t)}"

lemma needs_rel_agent_graph:
  assumes "distinct (map at_task_id tasks)"
  shows "needs_rel (agent_graph tasks) = agent_depends tasks"
proof (intro set_eqI iffI)
  fix e assume "e \<in> needs_rel (agent_graph tasks)"
  then obtain x d where e: "e = (x, d)" "d \<in> set (needs (agent_graph tasks) x)"
    by (auto simp: needs_rel_def)
  then obtain t where "t \<in> set tasks" "x = at_task_id t" using needs_key [OF e(2)] by auto
  with e show "e \<in> agent_depends tasks"
    using needs_agent_graph [OF assms] by (auto simp: agent_depends_def)
next
  fix e assume "e \<in> agent_depends tasks"
  then show "e \<in> needs_rel (agent_graph tasks)"
    using needs_agent_graph [OF assms] by (auto simp: agent_depends_def needs_rel_def)
qed

definition one_workspace :: "agent_task list \<Rightarrow> bool" where
  "one_workspace tasks \<longleftrightarrow> (\<forall>t\<in>set tasks. \<forall>u\<in>set tasks. at_workspace_id t = at_workspace_id u)"

definition well_posed :: "agent_task list \<Rightarrow> bool" where
  "well_posed tasks \<longleftrightarrow>
     tasks \<noteq> [] \<and> one_workspace tasks \<and>
     distinct (map at_task_id tasks) \<and>
     (\<forall>t\<in>set tasks. set (at_depends_on t) \<subseteq> at_task_id ` set tasks) \<and>
     acyclic (agent_depends tasks)"

lemma well_posed_batches:
  assumes "well_posed tasks"
  obtains batches where "plan_batches tasks [] (map at_task_id tasks) = Inr batches"
    and "batches_ok tasks {} batches" and "mset (concat batches) = mset (map at_task_id tasks)"
proof -
  have "acyclic (needs_rel (agent_graph tasks))"
    using assms needs_rel_agent_graph by (simp add: well_posed_def)
  moreover have "\<forall>i\<in>set (map at_task_id tasks).
      set (needs (agent_graph tasks) i) \<subseteq> set [] \<union> set (map at_task_id tasks)"
    using assms needs_agent_graph by (auto simp: well_posed_def)
  ultimately have "\<exists>batches. plan_batches tasks [] (map at_task_id tasks) = Inr batches \<and>
      batches_ok tasks (set []) batches \<and> mset (concat batches) = mset (map at_task_id tasks)"
    using assms by (intro plan_batches_total) (auto simp: well_posed_def)
  then show ?thesis using that by auto
qed

lemma check_plan_tasks_Inr:
  "check_plan_tasks tasks = Inr workspace \<longleftrightarrow>
     well_posed tasks \<and> workspace = at_workspace_id (hd tasks)"
proof (cases "tasks \<noteq> [] \<and> distinct (map at_task_id tasks)")
  case True
  then have "find_cycle tasks \<longleftrightarrow> \<not> acyclic (agent_depends tasks)"
    by (simp add: find_cycle_def graph_cycle_iff needs_rel_agent_graph)
  moreover have "list_ex (\<lambda>t. at_workspace_id t \<noteq> at_workspace_id (hd tasks)) tasks \<longleftrightarrow>
      \<not> one_workspace tasks"
    using True hd_in_set [of tasks] unfolding list_ex_iff one_workspace_def by metis
  moreover have "list_ex (\<lambda>t. list_ex (\<lambda>d. d \<notin> at_task_id ` set tasks) (at_depends_on t)) tasks \<longleftrightarrow>
      \<not> (\<forall>t\<in>set tasks. set (at_depends_on t) \<subseteq> at_task_id ` set tasks)"
    unfolding list_ex_iff by blast
  ultimately show ?thesis using True unfolding check_plan_tasks_def well_posed_def by auto
next
  case False
  then show ?thesis unfolding check_plan_tasks_def well_posed_def by auto
qed

lemma build_plan_Inr:
  assumes "build_orchestration_plan tasks = Inr plan"
  shows "well_posed tasks" and "batches_ok tasks {} (op_batches plan)"
    and "mset (concat (op_batches plan)) = mset (map at_task_id tasks)"
    and "op_conflicts plan = concat (map (writer_conflict tasks) (later_pairs (writers_of tasks)))"
proof -
  obtain workspace bs where checked: "check_plan_tasks tasks = Inr workspace"
    and bs: "plan_batches tasks [] (map at_task_id tasks) = Inr bs"
    and plan: "plan = assemble_plan workspace tasks (filter (\<lambda>b. b \<noteq> []) bs)"
    using assms by (auto simp: build_orchestration_plan_def result_simps)
  from checked show posed: "well_posed tasks" by (simp add: check_plan_tasks_Inr)
  obtain batches where b: "bs = batches" "batches_ok tasks {} batches"
      "mset (concat batches) = mset (map at_task_id tasks)"
    using bs by (auto intro: well_posed_batches [OF posed])
  then show "batches_ok tasks {} (op_batches plan)"
    and "mset (concat (op_batches plan)) = mset (map at_task_id tasks)"
    by (simp_all add: plan assemble_plan_def batches_ok_filter)
  show "op_conflicts plan = concat (map (writer_conflict tasks) (later_pairs (writers_of tasks)))"
    by (simp add: plan assemble_plan_def)
qed

lemma build_plan_succeeds:
  "well_posed tasks \<Longrightarrow> \<exists>plan. build_orchestration_plan tasks = Inr plan"
  using check_plan_tasks_Inr
  by (auto simp: build_orchestration_plan_def result_simps elim!: well_posed_batches)

lemma later_pairs_in: "(x, y) \<in> set (later_pairs xs) \<Longrightarrow> x \<in> set xs \<and> y \<in> set xs"
  by (induction xs) auto

lemma later_pairs_distinct: "distinct xs \<Longrightarrow> (x, y) \<in> set (later_pairs xs) \<Longrightarrow> x \<noteq> y"
  by (induction xs) (auto dest: later_pairs_in)

lemma later_pairs_complete:
  "x \<in> set xs \<Longrightarrow> y \<in> set xs \<Longrightarrow> x \<noteq> y \<Longrightarrow> (x, y) \<in> set (later_pairs xs) \<or> (y, x) \<in> set (later_pairs xs)"
  by (induction xs) auto

lemma sorted_set_empty: "sorted_set xs = [] \<longleftrightarrow> (\<forall>x\<in>set xs. False)"
  using set_sorted_set [of xs] by (cases "sorted_set xs") (auto simp del: set_sorted_set)

lemma writer_conflict_empty:
  assumes "at_mode t = Writer" and "at_mode u = Writer"
  shows "writer_conflict tasks (t, u) = [] \<longleftrightarrow>
    \<not> (can_run_concurrently t u tasks \<and> writer_scope_conflicts t u)"
  using assms
  by (auto simp: writer_conflict_def writer_scope_conflicts_def path_overlap_def resource_overlap_def
    sorted_set_empty intersects_iff list_ex_iff)

lemma can_run_concurrently_iff:
  assumes "well_posed tasks"
  shows "can_run_concurrently t u tasks \<longleftrightarrow>
    (at_task_id t, at_task_id u) \<notin> (agent_depends tasks)\<^sup>+ \<and>
    (at_task_id u, at_task_id t) \<notin> (agent_depends tasks)\<^sup>+"
  using assms
  by (simp add: can_run_concurrently_def depends_transitively_def graph_search_iff well_posed_def
    needs_rel_agent_graph)

lemma no_conflicts_iff:
  assumes "distinct tasks"
  shows "concat (map (writer_conflict tasks) (later_pairs (writers_of tasks))) = [] \<longleftrightarrow>
    (\<forall>t\<in>set tasks. \<forall>u\<in>set tasks. t \<noteq> u \<longrightarrow> can_run_concurrently t u tasks \<longrightarrow>
      \<not> writer_scope_conflicts t u)"
proof
  assume none: "concat (map (writer_conflict tasks) (later_pairs (writers_of tasks))) = []"
  show "\<forall>t\<in>set tasks. \<forall>u\<in>set tasks. t \<noteq> u \<longrightarrow> can_run_concurrently t u tasks \<longrightarrow>
      \<not> writer_scope_conflicts t u"
  proof (intro ballI impI notI)
    fix t u
    assume tu: "t \<in> set tasks" "u \<in> set tasks" "t \<noteq> u" "can_run_concurrently t u tasks"
      "writer_scope_conflicts t u"
    then have w: "at_mode t = Writer" "at_mode u = Writer" by (simp_all add: writer_scope_conflicts_def)
    then have "(t, u) \<in> set (later_pairs (writers_of tasks)) \<or> (u, t) \<in> set (later_pairs (writers_of tasks))"
      using tu by (intro later_pairs_complete) (auto simp: writers_of_def)
    moreover have "can_run_concurrently u t tasks" "writer_scope_conflicts u t"
      using tu(4,5) by (auto simp: can_run_concurrently_def writer_scope_conflicts_sym)
    ultimately show False using none tu(4,5) w writer_conflict_empty by fastforce
  qed
next
  assume free: "\<forall>t\<in>set tasks. \<forall>u\<in>set tasks. t \<noteq> u \<longrightarrow> can_run_concurrently t u tasks \<longrightarrow>
      \<not> writer_scope_conflicts t u"
  have "writer_conflict tasks (t, u) = []" if pair: "(t, u) \<in> set (later_pairs (writers_of tasks))" for t u
  proof -
    have "t \<in> set (writers_of tasks)" "u \<in> set (writers_of tasks)" "t \<noteq> u"
      using later_pairs_in [OF pair] later_pairs_distinct [OF _ pair] assms
      by (auto simp: writers_of_def)
    then show ?thesis using free writer_conflict_empty by (auto simp: writers_of_def)
  qed
  then show "concat (map (writer_conflict tasks) (later_pairs (writers_of tasks))) = []" by auto
qed

lemma batches_ok_split:
  assumes "well_posed tasks" and "batches_ok tasks {} (pre @ b # post)"
    and "t \<in> set tasks" and "at_task_id t \<in> set b"
  shows "set (at_depends_on t) \<subseteq> set (concat pre)"
    and "u \<in> set tasks \<Longrightarrow> at_task_id u \<in> set b \<Longrightarrow> t \<noteq> u \<Longrightarrow> \<not> writer_scope_conflicts t u"
proof -
  have d: "distinct (map at_task_id tasks)" using assms(1) by (simp add: well_posed_def)
  have b: "wave_ok tasks b" "\<forall>i\<in>set b. set (needs (agent_graph tasks) i) \<subseteq> set (concat pre)"
    using assms(2) by (auto simp: batches_ok_append)
  show "set (at_depends_on t) \<subseteq> set (concat pre)"
    using b(2) assms(3,4) needs_agent_graph [OF d] by fastforce
  assume u: "u \<in> set tasks" "at_task_id u \<in> set b" "t \<noteq> u"
  have found: "kget at_task_id (at_task_id v) tasks = Some v" if "v \<in> set tasks" for v
    using d that by (simp add: kget_Some_iff kdistinct_def)
  have "at_task_id t \<noteq> at_task_id u"
    using d u assms(3) by (auto simp: distinct_map dest: inj_onD)
  then have "\<not> ids_conflict tasks (at_task_id t) (at_task_id u)"
    using b(1) assms(4) u(2) by (simp add: wave_ok_def conflict_free_def)
  then show "\<not> writer_scope_conflicts t u"
    by (simp add: ids_conflict_def found [OF assms(3)] found [OF u(1)])
qed

text \<open>
  C9: The planner accepts exactly the plans of one workspace with distinct task ids, no missing
  dependency and no dependency cycle; its loop then always ends with every task placed. The
  batches are a permutation of the tasks, none is empty, every dependency of a task lies in an
  earlier batch, and two writers of one batch share neither a path nor a resource. The plan is
  free of conflicts exactly when no two tasks that neither waits for are writers with a common
  path or resource.
\<close>

theorem orchestration_plan_exact:
  "((\<exists>plan. build_orchestration_plan tasks = Inr plan) \<longleftrightarrow>
      tasks \<noteq> [] \<and> (\<forall>t\<in>set tasks. \<forall>u\<in>set tasks. at_workspace_id t = at_workspace_id u) \<and>
      distinct (map at_task_id tasks) \<and>
      (\<forall>t\<in>set tasks. set (at_depends_on t) \<subseteq> at_task_id ` set tasks) \<and>
      acyclic {(at_task_id t, d) |t d. t \<in> set tasks \<and> d \<in> set (at_depends_on t)}) \<and>
   (\<forall>plan. build_orchestration_plan tasks = Inr plan \<longrightarrow>
      mset (concat (op_batches plan)) = mset (map at_task_id tasks) \<and> [] \<notin> set (op_batches plan) \<and>
      (\<forall>pre b post. op_batches plan = pre @ b # post \<longrightarrow>
        (\<forall>t\<in>set tasks. at_task_id t \<in> set b \<longrightarrow>
          set (at_depends_on t) \<subseteq> set (concat pre) \<and>
          (\<forall>u\<in>set tasks. at_task_id u \<in> set b \<longrightarrow> t \<noteq> u \<longrightarrow> \<not> writer_scope_conflicts t u))) \<and>
      (plan_executable plan \<longleftrightarrow>
        (\<forall>t\<in>set tasks. \<forall>u\<in>set tasks. t \<noteq> u \<longrightarrow>
          (at_task_id t, at_task_id u) \<notin> (agent_depends tasks)\<^sup>+ \<longrightarrow>
          (at_task_id u, at_task_id t) \<notin> (agent_depends tasks)\<^sup>+ \<longrightarrow>
          \<not> writer_scope_conflicts t u)))"
proof (intro conjI allI impI)
  have "(\<exists>plan. build_orchestration_plan tasks = Inr plan) \<longleftrightarrow> well_posed tasks"
    using build_plan_Inr(1) build_plan_succeeds by blast
  then show "(\<exists>plan. build_orchestration_plan tasks = Inr plan) \<longleftrightarrow>
      tasks \<noteq> [] \<and> (\<forall>t\<in>set tasks. \<forall>u\<in>set tasks. at_workspace_id t = at_workspace_id u) \<and>
      distinct (map at_task_id tasks) \<and>
      (\<forall>t\<in>set tasks. set (at_depends_on t) \<subseteq> at_task_id ` set tasks) \<and>
      acyclic {(at_task_id t, d) |t d. t \<in> set tasks \<and> d \<in> set (at_depends_on t)}"
    unfolding well_posed_def one_workspace_def agent_depends_def .
next
  fix plan assume built: "build_orchestration_plan tasks = Inr plan"
  note posed = build_plan_Inr(1) [OF built]
  show "mset (concat (op_batches plan)) = mset (map at_task_id tasks)"
    using built by (rule build_plan_Inr(3))
  show "[] \<notin> set (op_batches plan)"
    using batches_ok_filter [OF build_plan_Inr(2) [OF built]] by (metis (mono_tags) filter_id_conv)
  have "distinct tasks" using posed by (auto simp: well_posed_def distinct_map)
  from no_conflicts_iff [OF this]
  show "plan_executable plan \<longleftrightarrow>
      (\<forall>t\<in>set tasks. \<forall>u\<in>set tasks. t \<noteq> u \<longrightarrow>
        (at_task_id t, at_task_id u) \<notin> (agent_depends tasks)\<^sup>+ \<longrightarrow>
        (at_task_id u, at_task_id t) \<notin> (agent_depends tasks)\<^sup>+ \<longrightarrow>
        \<not> writer_scope_conflicts t u)"
    unfolding plan_executable_def build_plan_Inr(4) [OF built] can_run_concurrently_iff [OF posed]
    by blast
next
  fix plan pre b post
  assume "build_orchestration_plan tasks = Inr plan" and "op_batches plan = pre @ b # post"
  then have posed: "well_posed tasks" and ok: "batches_ok tasks {} (pre @ b # post)"
    using build_plan_Inr(1,2) by metis+
  show "\<forall>t\<in>set tasks. at_task_id t \<in> set b \<longrightarrow>
      set (at_depends_on t) \<subseteq> set (concat pre) \<and>
      (\<forall>u\<in>set tasks. at_task_id u \<in> set b \<longrightarrow> t \<noteq> u \<longrightarrow> \<not> writer_scope_conflicts t u)"
    using batches_ok_split [OF posed ok] by blast
qed

definition example_agent_task :: "string \<Rightarrow> string list \<Rightarrow> string list \<Rightarrow> agent_task" where
  "example_agent_task i deps paths =
     \<lparr>at_task_id = i, at_workspace_id = ''ws'', at_title = i, at_paths = paths, at_mode = Writer,
      at_depends_on = deps, at_resources = []\<rparr>"

definition example_agent_tasks :: "agent_task list" where
  "example_agent_tasks =
     [example_agent_task ''docs'' [''core''] [''docs''],
      example_agent_task ''core'' [] [''src''],
      example_agent_task ''fix'' [] [''src/a.py'']]"

text \<open>Two writers of the first layer overlap: they run in different batches, and the plan says so.\<close>

theorem orchestration_plan_exact_witness:
  "\<exists>plan. build_orchestration_plan example_agent_tasks = Inr plan \<and>
     op_batches plan = [[''core''], [''fix''], [''docs'']] \<and> \<not> plan_executable plan \<and>
     [] \<notin> set (op_batches plan)"
proof -
  have run: "case build_orchestration_plan example_agent_tasks of
      Inr plan \<Rightarrow> op_batches plan = [[''core''], [''fix''], [''docs'']] \<and> \<not> plan_executable plan
    | Inl _ \<Rightarrow> False"
    by code_simp
  then obtain plan where plan: "build_orchestration_plan example_agent_tasks = Inr plan"
    and batches: "op_batches plan = [[''core''], [''fix''], [''docs'']]" "\<not> plan_executable plan"
    by (auto split: sum.splits)
  have "[] \<notin> set (op_batches plan)"
    using orchestration_plan_exact [of example_agent_tasks, THEN conjunct2, rule_format, OF plan]
    by (elim conjE)
  with plan batches show ?thesis by blast
qed

end
