(* ===== verification/DispatchPlan.thy ===== *)
theory DispatchPlan
  imports DirectorText DependencyGraph "HOL-Library.Product_Lexorder" "HOL-Library.Multiset"
begin

text \<open>
  Task graphs of \<open>src/src/chatgpt_dev_mcp/director_dispatch.py\<close>: the validation of task specs, the
  topological order and the batches that \<open>DirectorDispatchController\<close> computes for a plan.
\<close>

section \<open>Task specs\<close>

text \<open>\<open>DispatchError\<close> holds the code and the message; the other errors are those of the functions
  called, and Python's own.\<close>

datatype dispatch_error =
    DispatchError string string
  | DispatchText director_error
  | DispatchTypeError
  | DispatchAttributeError
  | DispatchCallback string

definition dispatch_text :: "director_error + 'a \<Rightarrow> dispatch_error + 'a" where
  "dispatch_text r = mapError DispatchText r"

definition dispatch_id_re :: "string \<Rightarrow> bool" where
  "dispatch_id_re = id_format ''._-'' 79"

definition dispatch_identifier :: "string \<Rightarrow> pyval \<Rightarrow> dispatch_error + string" where
  "dispatch_identifier field_name value =
     (case value of
        PStr s \<Rightarrow> if dispatch_id_re s then Inr s
          else Inl (DispatchError ''DISPATCH_IDENTIFIER_INVALID'' (field_name @ '' is invalid''))
      | _ \<Rightarrow> Inl (DispatchError ''DISPATCH_IDENTIFIER_INVALID'' (field_name @ '' is invalid'')))"

text \<open>The items of a \<open>for\<close> loop over a value.\<close>

definition py_iterate :: "pyval \<Rightarrow> dispatch_error + pyval list" where
  "py_iterate value =
     (case value of
        PList xs \<Rightarrow> Inr xs
      | PStr s \<Rightarrow> Inr (map (\<lambda>c. PStr [c]) s)
      | PDict kvs \<Rightarrow> Inr (map (PStr \<circ> fst) kvs)
      | _ \<Rightarrow> Inl DispatchTypeError)"

definition spec_get :: "(string \<times> pyval) list \<Rightarrow> string \<Rightarrow> pyval \<Rightarrow> pyval" where
  "spec_get raw key other = (case map_of raw key of None \<Rightarrow> other | Some v \<Rightarrow> v)"

definition spec_items ::
  "(pyval \<Rightarrow> dispatch_error + string) \<Rightarrow> (string \<times> pyval) list \<Rightarrow> string \<Rightarrow>
     dispatch_error + string list" where
  "spec_items parse raw key = bindE (py_iterate (spec_get raw key (PList []))) (mapE parse)"

record task_spec =
  ts_id :: string
  ts_title :: string
  ts_kind :: string
  ts_depends_on :: "string list"
  ts_paths :: "string list"
  ts_resources :: "string list"
  ts_requires :: "string list"

definition spec_keys :: "string list" where
  "spec_keys = [''id'', ''title'', ''kind'', ''depends_on'', ''paths'', ''resources'', ''requires'']"

definition dispatch_kinds :: "string list" where
  "dispatch_kinds =
     [''implementation'', ''verification'', ''review'', ''security'', ''integration'', ''cleanup'']"

definition spec_title :: "pyval \<Rightarrow> dispatch_error + string" where
  "spec_title value =
     (case value of
        PStr s \<Rightarrow> if py_strip s = [] \<or> 240 < length s
          then Inl (DispatchError ''DISPATCH_TASK_INVALID'' ''task title is invalid'')
          else Inr (py_strip s)
      | _ \<Rightarrow> Inl (DispatchError ''DISPATCH_TASK_INVALID'' ''task title is invalid''))"

definition spec_kind :: "pyval \<Rightarrow> dispatch_error + string" where
  "spec_kind value =
     (case value of
        PStr s \<Rightarrow> if s \<in> set dispatch_kinds then Inr s
          else Inl (DispatchError ''DISPATCH_TASK_INVALID'' ''task kind is invalid'')
      | PList _ \<Rightarrow> Inl DispatchTypeError
      | PDict _ \<Rightarrow> Inl DispatchTypeError
      | _ \<Rightarrow> Inl (DispatchError ''DISPATCH_TASK_INVALID'' ''task kind is invalid''))"

definition parse_task_spec :: "string list \<Rightarrow> pyval \<Rightarrow> dispatch_error + task_spec" where
  "parse_task_spec seen value =
     (case value of
        PDict raw \<Rightarrow>
          if \<not> list_all (\<lambda>k. k \<in> set spec_keys) (map fst raw)
          then Inl (DispatchError ''DISPATCH_TASK_INVALID'' ''task spec contains unsupported fields'')
          else
            bindE (dispatch_identifier ''task id'' (spec_get raw ''id'' PNone)) (\<lambda>i.
            if i \<in> set seen
            then Inl (DispatchError ''DISPATCH_TASK_INVALID'' ''task ids must be unique'') else
            bindE (spec_title (spec_get raw ''title'' PNone)) (\<lambda>title.
            bindE (spec_kind (spec_get raw ''kind'' (PStr ''implementation''))) (\<lambda>kind.
            bindE (spec_items (dispatch_identifier ''dependency'') raw ''depends_on'') (\<lambda>dependencies.
            bindE (spec_items (\<lambda>v. dispatch_text (normalize_relative_path v)) raw ''paths'') (\<lambda>paths.
            bindE (spec_items (\<lambda>v. dispatch_text (normalize_resource_id v)) raw ''resources'') (\<lambda>resources.
            bindE (spec_items (dispatch_identifier ''requirement'') raw ''requires'') (\<lambda>requires.
            if \<not> (distinct dependencies \<and> distinct paths \<and> distinct resources \<and> distinct requires)
            then Inl (DispatchError ''DISPATCH_TASK_INVALID''
              ''task dependencies/paths/resources must be unique'')
            else Inr \<lparr>ts_id = i, ts_title = title, ts_kind = kind, ts_depends_on = dependencies,
              ts_paths = paths, ts_resources = resources, ts_requires = requires\<rparr>)))))))
      | _ \<Rightarrow> Inl (DispatchError ''DISPATCH_TASK_INVALID'' ''task spec contains unsupported fields''))"

fun parse_task_specs :: "string list \<Rightarrow> pyval list \<Rightarrow> dispatch_error + task_spec list" where
  "parse_task_specs seen [] = Inr []"
| "parse_task_specs seen (raw # raws) =
     bindE (parse_task_spec seen raw) (\<lambda>spec.
     bindE (parse_task_specs (ts_id spec # seen) raws) (\<lambda>specs. Inr (spec # specs)))"

definition validate_specs :: "pyval \<Rightarrow> dispatch_error + task_spec list" where
  "validate_specs value =
     (case value of
        PList raws \<Rightarrow>
          if \<not> (1 \<le> length raws \<and> length raws \<le> 64)
          then Inl (DispatchError ''DISPATCH_TASKS_INVALID''
            ''task plan must contain between one and sixty-four tasks'')
          else
            bindE (parse_task_specs [] raws) (\<lambda>specs.
            if list_ex (\<lambda>t. ts_id t \<in> set (ts_depends_on t) \<or>
                 list_ex (\<lambda>d. d \<notin> ts_id ` set specs) (ts_depends_on t)) specs
            then Inl (DispatchError ''DISPATCH_DEPENDENCY_INVALID'' ''dependency references are invalid'')
            else Inr specs)
      | _ \<Rightarrow> Inl (DispatchError ''DISPATCH_TASKS_INVALID''
          ''task plan must contain between one and sixty-four tasks''))"

section \<open>The topological order\<close>

text \<open>One round of the loop removes \<open>current\<close> from the dependencies of every task and makes the
  tasks ready that wait for nothing any more.\<close>

definition without_dependency :: "string \<Rightarrow> task_graph \<Rightarrow> task_graph" where
  "without_dependency current g = map (\<lambda>(k, ds). (k, removeAll current ds)) g"

definition freed_tasks :: "string \<Rightarrow> task_graph \<Rightarrow> string list \<Rightarrow> string list \<Rightarrow> string list" where
  "freed_tasks current g order ready =
     filter (\<lambda>k. current \<in> set (needs g k) \<and> removeAll current (needs g k) = [] \<and>
       k \<notin> set order \<and> k \<notin> set ready) (sort (map fst g))"

function kahn_order :: "task_graph \<Rightarrow> string list \<Rightarrow> string list \<Rightarrow> string list" where
  "kahn_order g order [] = order"
| "kahn_order g order (current # ready) =
     kahn_order (without_dependency current g) (order @ [current])
       (let freed = freed_tasks current g (order @ [current]) ready
        in if freed = [] then ready else sort (ready @ freed))"
  by pat_completeness auto

definition edge_count :: "task_graph \<Rightarrow> nat" where
  "edge_count g = sum_list (map (length \<circ> snd) g)"

lemma length_removeAll_le: "length (removeAll c ds) \<le> length ds"
  unfolding removeAll_filter_not_eq by (rule length_filter_le)

lemma without_dependency_edges: "edge_count (without_dependency c g) \<le> edge_count g"
  unfolding edge_count_def without_dependency_def
  by (induction g) (auto intro: add_mono length_removeAll_le)

lemma without_dependency_fewer:
  "c \<in> set (needs g k) \<Longrightarrow> edge_count (without_dependency c g) < edge_count g"
proof (induction g)
  case (Cons e g)
  obtain j ds where e: "e = (j, ds)" by force
  have count: "edge_count (without_dependency c (e # g)) =
      length (removeAll c ds) + edge_count (without_dependency c g)"
    "edge_count (e # g) = length ds + edge_count g"
    by (simp_all add: e edge_count_def without_dependency_def)
  show ?case
  proof (cases "j = k")
    case True
    then have "length (removeAll c ds) < length ds"
      using Cons.prems e by (intro length_removeAll_less) (simp add: needs_def)
    then show ?thesis unfolding count by (rule add_less_le_mono) (rule without_dependency_edges)
  next
    case False
    then have "c \<in> set (needs g k)" using Cons.prems e by (simp add: needs_def)
    with Cons.IH show ?thesis
      unfolding count by (intro add_le_less_mono length_removeAll_le)
  qed
qed (simp add: needs_def)

termination kahn_order
proof (relation "measures [\<lambda>(g, order, ready). edge_count g, \<lambda>(g, order, ready). length ready]")
  fix g :: task_graph and order ready :: "string list" and current
  let ?freed = "freed_tasks current g (order @ [current]) ready"
  show "((without_dependency current g, order @ [current],
      let freed = ?freed in if freed = [] then ready else sort (ready @ freed)),
      (g, order, current # ready)) \<in> measures [\<lambda>(g, order, ready). edge_count g,
        \<lambda>(g, order, ready). length ready]"
  proof (cases "?freed = []")
    case True
    then show ?thesis using without_dependency_edges [of current g] by (auto simp: le_less)
  next
    case False
    then obtain k where "k \<in> set ?freed" by (cases ?freed) auto
    then have "current \<in> set (needs g k)" by (simp add: freed_tasks_def)
    then show ?thesis using without_dependency_fewer by simp
  qed
qed simp

definition spec_graph :: "task_spec list \<Rightarrow> task_graph" where
  "spec_graph specs = map (\<lambda>t. (ts_id t, ts_depends_on t)) specs"

definition topological :: "task_spec list \<Rightarrow> dispatch_error + string list" where
  "topological specs =
     (let order = kahn_order (spec_graph specs) []
          (sort (map fst (filter (\<lambda>(k, ds). ds = []) (spec_graph specs))))
      in if length order \<noteq> length specs
         then Inl (DispatchError ''DISPATCH_DEPENDENCY_CYCLE'' ''task graph contains a dependency cycle'')
         else Inr order)"

section \<open>Batches\<close>

definition batch_members :: "(string \<times> nat) list \<Rightarrow> nat \<Rightarrow> string list" where
  "batch_members assigned b = map fst (filter (\<lambda>(i, c). c = b) assigned)"

definition resource_clash :: "task_spec list \<Rightarrow> task_spec \<Rightarrow> string list \<Rightarrow> bool" where
  "resource_clash specs item ids =
     list_ex (\<lambda>i. case kget ts_id i specs of None \<Rightarrow> False
       | Some other \<Rightarrow> intersects (ts_resources item) (ts_resources other)) ids"

text \<open>The \<open>while True\<close> loop. \<open>max_concurrency\<close> is at least one, so an empty batch takes the task.\<close>

function batch_slot ::
  "task_spec list \<Rightarrow> nat \<Rightarrow> (string \<times> nat) list \<Rightarrow> task_spec \<Rightarrow> nat \<Rightarrow> nat" where
  "batch_slot specs max_concurrency assigned item candidate =
     (if batch_members assigned candidate \<noteq> [] \<and>
         (max_concurrency \<le> length (batch_members assigned candidate) \<or>
          resource_clash specs item (batch_members assigned candidate))
      then batch_slot specs max_concurrency assigned item (Suc candidate)
      else candidate)"
  by pat_completeness auto

lemma batch_members_used: "batch_members assigned b \<noteq> [] \<Longrightarrow> b \<in> snd ` set assigned"
  by (force simp: batch_members_def filter_empty_conv)

termination batch_slot
proof (relation "measure (\<lambda>(specs, m, assigned, item, c). card {b \<in> snd ` set assigned. c \<le> b})")
  fix specs :: "task_spec list" and m :: nat and assigned :: "(string \<times> nat) list"
    and item :: task_spec and c :: nat
  assume "batch_members assigned c \<noteq> [] \<and> (m \<le> length (batch_members assigned c) \<or>
      resource_clash specs item (batch_members assigned c))"
  then have "c \<in> snd ` set assigned" using batch_members_used by blast
  then have "c \<in> {b \<in> snd ` set assigned. c \<le> b}" "c \<notin> {b \<in> snd ` set assigned. Suc c \<le> b}"
    by auto
  then have "{b \<in> snd ` set assigned. Suc c \<le> b} \<subset> {b \<in> snd ` set assigned. c \<le> b}"
    by (intro psubsetI subsetI) (blast intro: Suc_leD, blast)
  then have "card {b \<in> snd ` set assigned. Suc c \<le> b} < card {b \<in> snd ` set assigned. c \<le> b}"
    by (intro psubset_card_mono) auto
  then show "((specs, m, assigned, item, Suc c), (specs, m, assigned, item, c)) \<in>
      measure (\<lambda>(specs, m, assigned, item, c). card {b \<in> snd ` set assigned. c \<le> b})" by simp
qed simp

declare batch_slot.simps [simp del]

text \<open>The first batch after those of the dependencies, all of which are assigned before.\<close>

definition batch_start :: "(string \<times> nat) list \<Rightarrow> string list \<Rightarrow> nat" where
  "batch_start assigned dependencies =
     foldr max (map (\<lambda>d. case map_of assigned d of None \<Rightarrow> 0 | Some b \<Rightarrow> Suc b) dependencies) 0"

fun batch_map :: "task_spec list \<Rightarrow> nat \<Rightarrow> (string \<times> nat) list \<Rightarrow> string list \<Rightarrow> (string \<times> nat) list" where
  "batch_map specs max_concurrency assigned [] = assigned"
| "batch_map specs max_concurrency assigned (local_id # order) =
     (case kget ts_id local_id specs of
        None \<Rightarrow> batch_map specs max_concurrency assigned order
      | Some item \<Rightarrow>
          batch_map specs max_concurrency
            (assigned @ [(local_id, batch_slot specs max_concurrency assigned item
              (batch_start assigned (ts_depends_on item)))]) order)"

section \<open>The order respects the dependencies\<close>

fun deps_before :: "task_graph \<Rightarrow> string set \<Rightarrow> string list \<Rightarrow> bool" where
  "deps_before g before [] = True"
| "deps_before g before (t # ts) =
     (set (needs g t) \<subseteq> before \<and> deps_before g (insert t before) ts)"

lemma deps_before_append:
  "deps_before g before (xs @ ys) \<longleftrightarrow> deps_before g before xs \<and> deps_before g (before \<union> set xs) ys"
  by (induction xs arbitrary: before) auto

lemma needs_without_dependency: "needs (without_dependency c g) k = removeAll c (needs g k)"
  by (induction g) (auto simp: needs_def without_dependency_def)

lemma keys_without_dependency [simp]: "map fst (without_dependency c g) = map fst g"
  by (induction g) (auto simp: without_dependency_def)

text \<open>The invariant of the loop over the original graph \<open>g\<^sub>0\<close>.\<close>

definition kahn_inv :: "task_graph \<Rightarrow> task_graph \<Rightarrow> string list \<Rightarrow> string list \<Rightarrow> bool" where
  "kahn_inv g0 g order ready \<longleftrightarrow>
     map fst g = map fst g0 \<and> distinct (map fst g0) \<and>
     (\<forall>k. set (needs g k) = set (needs g0 k) - set order) \<and>
     distinct (order @ ready) \<and> set (order @ ready) \<subseteq> fst ` set g0 \<and>
     (\<forall>k\<in>set ready. needs g k = []) \<and> deps_before g0 {} order \<and>
     (\<forall>k\<in>fst ` set g0. needs g k = [] \<longrightarrow> k \<in> set (order @ ready))"

lemma freed_tasks_iff:
  "k \<in> set (freed_tasks c g order ready) \<longleftrightarrow>
     k \<in> fst ` set g \<and> c \<in> set (needs g k) \<and> removeAll c (needs g k) = [] \<and>
     k \<notin> set order \<and> k \<notin> set ready"
  by (simp add: freed_tasks_def)

lemma kahn_inv_step:
  assumes inv: "kahn_inv g0 g order (c # ready)"
  shows "kahn_inv g0 (without_dependency c g) (order @ [c])
    (let freed = freed_tasks c g (order @ [c]) ready in if freed = [] then ready else sort (ready @ freed))"
    (is "kahn_inv g0 ?g ?order ?ready")
proof -
  let ?freed = "freed_tasks c g (order @ [c]) ready"
  have keys: "map fst g = map fst g0" "distinct (map fst g0)" and dist: "distinct (order @ c # ready)"
    and left: "\<forall>k. set (needs g k) = set (needs g0 k) - set order"
    and sub: "set (order @ c # ready) \<subseteq> fst ` set g0"
    and zero: "\<forall>k\<in>set (c # ready). needs g k = []" and before: "deps_before g0 {} order"
    and all: "\<forall>k\<in>fst ` set g0. needs g k = [] \<longrightarrow> k \<in> set (order @ c # ready)"
    using inv unfolding kahn_inv_def by auto
  have key_set: "fst ` set g = fst ` set g0" using keys(1) by (metis set_map)
  have ready: "mset ?ready = mset ready + mset ?freed" "set ?ready = set ready \<union> set ?freed"
    by (auto simp: Let_def)
  have "distinct ?freed" using keys by (simp add: freed_tasks_def)
  then have "distinct (?order @ ready @ ?freed)"
    using dist by (auto simp: freed_tasks_iff)
  then have distinct: "distinct (?order @ ?ready)" by (auto simp: Let_def)
  have "set (needs g c) = {}" using zero by simp
  then have "set (needs g0 c) \<subseteq> set order" unfolding left [rule_format] by blast
  then have "deps_before g0 {} ?order" using before by (simp add: deps_before_append)
  moreover have "\<forall>k. set (needs ?g k) = set (needs g0 k) - set ?order"
    using left by (auto simp: needs_without_dependency)
  moreover have "set (?order @ ?ready) \<subseteq> fst ` set g0"
    using sub key_set by (auto simp: ready freed_tasks_iff)
  moreover have "\<forall>k\<in>set ?ready. needs ?g k = []"
    using zero by (auto simp: ready needs_without_dependency freed_tasks_iff)
  moreover have "\<forall>k\<in>fst ` set g0. needs ?g k = [] \<longrightarrow> k \<in> set (?order @ ?ready)"
  proof (intro ballI impI)
    fix k assume k: "k \<in> fst ` set g0" "needs ?g k = []"
    show "k \<in> set (?order @ ?ready)"
    proof (cases "c \<in> set (needs g k)")
      case True
      then show ?thesis
        using k key_set by (auto simp: ready freed_tasks_iff needs_without_dependency)
    next
      case False
      then have "needs g k = []" using k(2) by (simp add: needs_without_dependency)
      then show ?thesis using all k(1) by (auto simp: ready)
    qed
  qed
  ultimately show ?thesis using keys distinct unfolding kahn_inv_def by simp
qed

lemma kahn_order_correct:
  "kahn_inv g0 g order ready \<Longrightarrow>
     distinct (kahn_order g order ready) \<and> set (kahn_order g order ready) \<subseteq> fst ` set g0 \<and>
     deps_before g0 {} (kahn_order g order ready) \<and>
     (\<forall>k\<in>fst ` set g0. set (needs g0 k) \<subseteq> set (kahn_order g order ready) \<longrightarrow>
       k \<in> set (kahn_order g order ready))"
proof (induction g order ready rule: kahn_order.induct)
  case (1 g order)
  have "needs g k = []" if "set (needs g0 k) \<subseteq> set order" for k
    using 1 that unfolding kahn_inv_def by (metis Diff_eq_empty_iff set_empty)
  with 1 show ?case by (auto simp: kahn_inv_def)
next
  case (2 g order current ready)
  show ?case
    using 2(1) [OF kahn_inv_step [OF 2(2)]] by simp
qed

lemma kahn_inv_start:
  assumes "distinct (map fst g)"
  shows "kahn_inv g g [] (sort (map fst (filter (\<lambda>(k, ds). ds = []) g)))"
proof -
  have needs: "needs g k = ds" if "(k, ds) \<in> set g" for k ds
    using that assms by (simp add: needs_def)
  have "distinct (map fst (filter (\<lambda>(k, ds). ds = []) g))"
    using assms by (rule distinct_map_filter)
  then show ?thesis using assms needs by (auto simp: kahn_inv_def)
qed

definition spec_depends :: "task_spec list \<Rightarrow> (string \<times> string) set" where
  "spec_depends specs = {(ts_id t, d) |t d. t \<in> set specs \<and> d \<in> set (ts_depends_on t)}"

lemma keys_spec_graph [simp]: "map fst (spec_graph specs) = map ts_id specs"
  by (simp add: spec_graph_def)

lemma needs_spec_graph:
  assumes "distinct (map ts_id specs)" and "t \<in> set specs"
  shows "needs (spec_graph specs) (ts_id t) = ts_depends_on t"
proof -
  have "map_of (spec_graph specs) (ts_id t) = Some (ts_depends_on t)"
    by (rule map_of_is_SomeI) (use assms in \<open>auto simp: spec_graph_def comp_def\<close>)
  then show ?thesis by (simp add: needs_def)
qed

lemma needs_rel_spec_graph:
  assumes "distinct (map ts_id specs)"
  shows "needs_rel (spec_graph specs) = spec_depends specs"
proof (intro set_eqI iffI)
  fix e assume "e \<in> needs_rel (spec_graph specs)"
  then obtain x d where e: "e = (x, d)" "d \<in> set (needs (spec_graph specs) x)"
    by (auto simp: needs_rel_def)
  then obtain t where "t \<in> set specs" "x = ts_id t"
    using needs_key [OF e(2)] by (auto simp: spec_graph_def)
  with e show "e \<in> spec_depends specs"
    using needs_spec_graph [OF assms] by (auto simp: spec_depends_def)
next
  fix e assume "e \<in> spec_depends specs"
  then show "e \<in> needs_rel (spec_graph specs)"
    using needs_spec_graph [OF assms] by (auto simp: spec_depends_def needs_rel_def)
qed

definition specs_closed :: "task_spec list \<Rightarrow> bool" where
  "specs_closed specs \<longleftrightarrow>
     distinct (map ts_id specs) \<and> (\<forall>t\<in>set specs. set (ts_depends_on t) \<subseteq> ts_id ` set specs)"

lemma parse_task_spec_fresh: "parse_task_spec seen raw = Inr t \<Longrightarrow> ts_id t \<notin> set seen"
  by (auto simp: parse_task_spec_def result_simps split: pyval.splits if_splits)

lemma parse_task_specs_distinct:
  "parse_task_specs seen raws = Inr specs \<Longrightarrow>
     distinct (map ts_id specs) \<and> set (map ts_id specs) \<inter> set seen = {}"
proof (induction raws arbitrary: seen specs)
  case (Cons raw raws)
  then obtain t ts where "parse_task_spec seen raw = Inr t"
      and rest: "parse_task_specs (ts_id t # seen) raws = Inr ts" and "specs = t # ts"
    by (auto simp: result_simps)
  with Cons.IH [OF rest] show ?case using parse_task_spec_fresh by auto
qed simp

lemma validate_specs_closed: "validate_specs raw = Inr specs \<Longrightarrow> specs_closed specs"
  by (auto simp: validate_specs_def specs_closed_def list_ex_iff result_simps
    split: pyval.splits if_splits dest: parse_task_specs_distinct)

lemma topological_order:
  assumes "specs_closed specs" and "topological specs = Inr order"
  shows "distinct order" and "set order = ts_id ` set specs" and "deps_before (spec_graph specs) {} order"
proof -
  let ?g = "spec_graph specs"
  have d: "distinct (map ts_id specs)" using assms(1) by (simp add: specs_closed_def)
  have order: "order = kahn_order ?g [] (sort (map fst (filter (\<lambda>(k, ds). ds = []) ?g)))"
    and len: "length order = length specs"
    using assms(2) by (auto simp: topological_def Let_def split: if_splits)
  have "kahn_inv ?g ?g [] (sort (map fst (filter (\<lambda>(k, ds). ds = []) ?g)))"
    using d by (intro kahn_inv_start) simp
  note correct = kahn_order_correct [OF this, folded order]
  then show "distinct order" "deps_before ?g {} order" by auto
  have sub: "set order \<subseteq> ts_id ` set specs" using correct by (metis keys_spec_graph set_map)
  have "card (set order) = card (ts_id ` set specs)"
    using \<open>distinct order\<close> d len by (metis distinct_card length_map set_map)
  then show "set order = ts_id ` set specs" using sub by (intro card_subset_eq) auto
qed

text \<open>The order exists exactly when the dependencies have no cycle.\<close>

lemma topological_succeeds_iff:
  assumes "specs_closed specs"
  shows "(\<exists>order. topological specs = Inr order) \<longleftrightarrow> acyclic (spec_depends specs)"
proof
  let ?g = "spec_graph specs"
  have d: "distinct (map ts_id specs)" using assms by (simp add: specs_closed_def)
  {
    assume "\<exists>order. topological specs = Inr order"
    then obtain order where "topological specs = Inr order" ..
    note order = topological_order [OF assms this]
    have "all_finished ?g (rev xs)" if "deps_before ?g {} xs" "distinct xs" "set xs \<subseteq> fst ` set ?g" for xs
      using that by (induction xs rule: rev_induct) (auto simp: deps_before_append)
    then have "all_finished ?g (rev order)"
      using order by (metis keys_spec_graph set_map subset_refl)
    moreover have "fst ` set ?g \<subseteq> set (rev order)" using order(2) by (metis keys_spec_graph set_map set_rev subset_refl)
    ultimately show "acyclic (spec_depends specs)"
      using finished_acyclic needs_rel_spec_graph [OF d] by metis
  }
  assume acyclic: "acyclic (spec_depends specs)"
  define order where "order = kahn_order ?g [] (sort (map fst (filter (\<lambda>(k, ds). ds = []) ?g)))"
  have "kahn_inv ?g ?g [] (sort (map fst (filter (\<lambda>(k, ds). ds = []) ?g)))"
    using d by (intro kahn_inv_start) simp
  note correct = kahn_order_correct [OF this, folded order_def]
  have keys: "fst ` set ?g = ts_id ` set specs" by (metis keys_spec_graph set_map)
  have "set order = ts_id ` set specs"
  proof (rule ccontr)
    assume "set order \<noteq> ts_id ` set specs"
    then have "ts_id ` set specs - set order \<noteq> {}" using correct keys by auto
    then obtain k where k: "k \<in> ts_id ` set specs - set order"
        "set (needs ?g k) \<inter> (ts_id ` set specs - set order) = {}"
      using acyclic_ready [of ?g "ts_id ` set specs - set order"] acyclic needs_rel_spec_graph [OF d]
      by auto
    then obtain t where "t \<in> set specs" "k = ts_id t" by auto
    then have "set (needs ?g k) \<subseteq> ts_id ` set specs"
      using needs_spec_graph [OF d] assms by (auto simp: specs_closed_def)
    then have "set (needs ?g k) \<subseteq> set order" using k(2) by blast
    moreover have "k \<in> fst ` set ?g" using k(1) keys by simp
    moreover have "\<forall>k\<in>fst ` set ?g. set (needs ?g k) \<subseteq> set order \<longrightarrow> k \<in> set order"
      using correct by (elim conjE)
    ultimately have "k \<in> set order" by (metis (no_types))
    then show False using k(1) by simp
  qed
  then have "length order = length specs"
    using correct d by (metis distinct_card length_map set_map)
  then show "\<exists>order. topological specs = Inr order"
    by (simp add: topological_def Let_def order_def)
qed

section \<open>The batches keep tasks of one resource apart\<close>

definition share_resource :: "task_spec list \<Rightarrow> string \<Rightarrow> string \<Rightarrow> bool" where
  "share_resource specs i j =
     (case (kget ts_id i specs, kget ts_id j specs) of
        (Some t, Some u) \<Rightarrow> intersects (ts_resources t) (ts_resources u) | _ \<Rightarrow> False)"

interpretation batch: admission "share_resource specs" for specs
  by unfold_locales (auto simp: share_resource_def intersects_commute split: option.splits)

definition schedule_ok :: "task_spec list \<Rightarrow> nat \<Rightarrow> (string \<times> nat) list \<Rightarrow> bool" where
  "schedule_ok specs max_concurrency assigned \<longleftrightarrow>
     distinct (map fst assigned) \<and> set (map fst assigned) \<subseteq> ts_id ` set specs \<and>
     (\<forall>b. length (batch_members assigned b) \<le> max_concurrency \<and>
       conflict_free (share_resource specs) (set (batch_members assigned b))) \<and>
     (\<forall>t\<in>set specs. \<forall>b. (ts_id t, b) \<in> set assigned \<longrightarrow>
       (\<forall>d\<in>set (ts_depends_on t). \<exists>c. (d, c) \<in> set assigned \<and> c < b))"

lemma batch_slot_properties:
  "start \<le> batch_slot specs m assigned item start \<and>
   (let members = batch_members assigned (batch_slot specs m assigned item start)
    in members = [] \<or> length members < m \<and> \<not> resource_clash specs item members)"
proof (induction specs m assigned item start rule: batch_slot.induct)
  case (1 specs m assigned item c)
  show ?case
  proof (cases "batch_members assigned c \<noteq> [] \<and> (m \<le> length (batch_members assigned c) \<or>
      resource_clash specs item (batch_members assigned c))")
    case True
    with 1 have "Suc c \<le> batch_slot specs m assigned item (Suc c) \<and>
       (let members = batch_members assigned (batch_slot specs m assigned item (Suc c))
        in members = [] \<or> length members < m \<and> \<not> resource_clash specs item members)" by simp
    then show ?thesis using True by (simp add: batch_slot.simps [of specs m assigned item c])
  next
    case False
    then show ?thesis by (auto simp: batch_slot.simps [of specs m assigned item c] Let_def)
  qed
qed

lemma batch_start_after:
  assumes "d \<in> set ds" and "map_of assigned d = Some b"
  shows "b < batch_start assigned ds"
  using assms by (induction ds) (auto simp: batch_start_def less_max_iff_disj)

lemma batch_members_snoc:
  "batch_members (assigned @ [(i, b)]) c = batch_members assigned c @ (if b = c then [i] else [])"
  by (simp add: batch_members_def)

lemma schedule_okD:
  "schedule_ok specs m assigned \<Longrightarrow> t \<in> set specs \<Longrightarrow> (ts_id t, b) \<in> set assigned \<Longrightarrow>
     d \<in> set (ts_depends_on t) \<Longrightarrow> \<exists>c. (d, c) \<in> set assigned \<and> c < b"
  unfolding schedule_ok_def by simp

lemma schedule_step:
  assumes ok: "schedule_ok specs m assigned" and specs: "specs_closed specs" and m: "1 \<le> m"
    and item: "kget ts_id i specs = Some item" and new: "i \<notin> set (map fst assigned)"
    and deps: "set (ts_depends_on item) \<subseteq> set (map fst assigned)"
  shows "schedule_ok specs m (assigned @ [(i, batch_slot specs m assigned item
    (batch_start assigned (ts_depends_on item)))])" (is "schedule_ok specs m (assigned @ [(i, ?b)])")
proof -
  have i: "item \<in> set specs" "ts_id item = i" using kget_SomeD [OF item] by auto
  have d: "distinct (map fst assigned)" using ok by (simp add: schedule_ok_def)
  have slot: "batch_start assigned (ts_depends_on item) \<le> ?b"
    "batch_members assigned ?b = [] \<or> length (batch_members assigned ?b) < m \<and>
      \<not> resource_clash specs item (batch_members assigned ?b)"
    using batch_slot_properties [of "batch_start assigned (ts_depends_on item)" specs m assigned item]
    by (auto simp: Let_def)
  have room: "length (batch_members assigned ?b) < m" using slot(2) m by auto
  have "\<not> share_resource specs x i" if "x \<in> set (batch_members assigned ?b)" for x
    using slot(2) that item
    by (auto simp: resource_clash_def list_ex_iff share_resource_def intersects_commute split: option.splits)
  then have apart: "conflict_free (share_resource specs) (insert i (set (batch_members assigned ?b)))"
    using ok by (intro batch.admit) (auto simp: schedule_ok_def)
  have lower: "\<exists>c. (e, c) \<in> set assigned \<and> c < ?b" if "e \<in> set (ts_depends_on item)" for e
  proof -
    obtain c where c: "(e, c) \<in> set assigned" using deps \<open>e \<in> _\<close> by auto
    then have "c < batch_start assigned (ts_depends_on item)"
      using d \<open>e \<in> _\<close> by (intro batch_start_after) simp_all
    with slot(1) c show ?thesis by (meson less_le_trans)
  qed
  have same: "t = item" if "t \<in> set specs" "ts_id t = i" for t
    using that i specs by (auto simp: specs_closed_def distinct_map dest: inj_onD)
  have old: "\<exists>c. (e, c) \<in> set (assigned @ [(i, ?b)]) \<and> c < b"
    if te: "t \<in> set specs" "(ts_id t, b) \<in> set assigned" "e \<in> set (ts_depends_on t)" for t b e
  proof -
    obtain c where "(e, c) \<in> set assigned" "c < b" using schedule_okD [OF ok te] by blast
    then show ?thesis by (intro exI [of _ c]) simp
  qed
  have "length (batch_members (assigned @ [(i, ?b)]) c) \<le> m \<and>
      conflict_free (share_resource specs) (set (batch_members (assigned @ [(i, ?b)]) c))" for c
    using ok room apart by (auto simp: batch_members_snoc schedule_ok_def)
  moreover have "\<exists>c. (e, c) \<in> set (assigned @ [(i, ?b)]) \<and> c < b"
    if "t \<in> set specs" "(ts_id t, b) \<in> set (assigned @ [(i, ?b)])" "e \<in> set (ts_depends_on t)" for t b e
  proof (cases "(ts_id t, b) \<in> set assigned")
    case True
    then show ?thesis using old that by blast
  next
    case False
    then have "t = item" "b = ?b" using that same by auto
    then show ?thesis using lower [of e] that(3) by auto
  qed
  moreover have "i \<in> ts_id ` set specs" using i by auto
  then have "distinct (map fst (assigned @ [(i, ?b)]))"
      "set (map fst (assigned @ [(i, ?b)])) \<subseteq> ts_id ` set specs"
    using ok new by (auto simp: schedule_ok_def)
  ultimately show ?thesis
    unfolding schedule_ok_def by (intro conjI allI ballI impI) (assumption | blast)+
qed

lemma batch_map_schedule:
  "schedule_ok specs m assigned \<Longrightarrow> specs_closed specs \<Longrightarrow> 1 \<le> m \<Longrightarrow>
     deps_before (spec_graph specs) (set (map fst assigned)) order \<Longrightarrow>
     distinct (map fst assigned @ order) \<Longrightarrow> set order \<subseteq> ts_id ` set specs \<Longrightarrow>
     schedule_ok specs m (batch_map specs m assigned order) \<and>
     map fst (batch_map specs m assigned order) = map fst assigned @ order"
proof (induction order arbitrary: assigned)
  case (Cons i order)
  obtain item where item: "kget ts_id i specs = Some item"
    using Cons.prems(6) kget_None_iff [of ts_id i specs] by (cases "kget ts_id i specs") auto
  then have i: "item \<in> set specs" "ts_id item = i" using kget_SomeD [OF item] by auto
  have "needs (spec_graph specs) i = ts_depends_on item"
    using needs_spec_graph [of specs item] i Cons.prems(2) by (simp add: specs_closed_def)
  then have deps: "set (ts_depends_on item) \<subseteq> set (map fst assigned)" using Cons.prems(4) by simp
  let ?b = "batch_slot specs m assigned item (batch_start assigned (ts_depends_on item))"
  have "schedule_ok specs m (assigned @ [(i, ?b)])"
    using Cons.prems(1-3) item deps Cons.prems(5) by (intro schedule_step) auto
  from Cons.IH [OF this] show ?case using Cons.prems item by simp
qed simp

lemma planned_schedule:
  assumes "validate_specs raw = Inr specs" and "topological specs = Inr order" and "1 \<le> m"
  shows "schedule_ok specs m (batch_map specs m [] order)"
    and "map fst (batch_map specs m [] order) = order"
proof -
  have closed: "specs_closed specs" using assms(1) by (rule validate_specs_closed)
  note order = topological_order [OF closed assms(2)]
  have "schedule_ok specs m []" by (simp add: schedule_ok_def batch_members_def conflict_free_def)
  from batch_map_schedule [OF this closed assms(3), of order] order
  show "schedule_ok specs m (batch_map specs m [] order)"
    and "map fst (batch_map specs m [] order) = order" by auto
qed

end
