(* ===== verification/Dispatch.thy ===== *)
theory Dispatch
  imports TaskLedger DispatchPlan
begin

text \<open>
  \<open>DirectorDispatchController\<close> of \<open>src/src/chatgpt_dev_mcp/director_dispatch.py\<close> over the modelled
  \<open>TaskLedger\<close>: planning, claiming and reading. The parameters \<open>persist\<close>, \<open>on_change\<close>, \<open>allocate\<close>
  and \<open>compensate\<close> stand for the callbacks of the runtime; the fresh identifiers and the clock
  readings of a call are its arguments. The lock makes a call one step.
\<close>

section \<open>State\<close>

record planned_task =
  dt_local_id :: string
  dt_task_id :: string
  dt_title :: string
  dt_kind :: string
  dt_dependencies :: "string list"
  dt_allowed_paths :: "string list"
  dt_resources :: "string list"
  dt_requires :: "string list"
  dt_batch :: nat

record dispatch_plan =
  dp_plan_id :: string
  dp_request_id :: string
  dp_workspace_id :: string
  dp_working_tree_id :: string
  dp_base_revision :: string
  dp_max_concurrency :: nat
  dp_tasks :: "planned_task list"
  dp_created_at :: time

definition planned_task_as_dict :: "planned_task \<Rightarrow> pyval" where
  "planned_task_as_dict t =
     PDict [(''local_id'', PStr (dt_local_id t)), (''task_id'', PStr (dt_task_id t)),
       (''title'', PStr (dt_title t)), (''kind'', PStr (dt_kind t)),
       (''dependencies'', PList (map PStr (dt_dependencies t))),
       (''allowed_paths'', PList (map PStr (dt_allowed_paths t))),
       (''resources'', PList (map PStr (dt_resources t))),
       (''requires'', PList (map PStr (dt_requires t))), (''batch'', PInt (int (dt_batch t)))]"

definition integration_sequence :: "planned_task list \<Rightarrow> planned_task list" where
  "integration_sequence tasks = sort_key (\<lambda>t. (dt_batch t, dt_local_id t)) tasks"

definition dispatch_plan_as_dict :: "dispatch_plan \<Rightarrow> (string \<times> pyval) list" where
  "dispatch_plan_as_dict p =
     [(''plan_id'', PStr (dp_plan_id p)), (''request_id'', PStr (dp_request_id p)),
      (''workspace_id'', PStr (dp_workspace_id p)),
      (''working_tree_id'', PStr (dp_working_tree_id p)),
      (''base_revision'', PStr (dp_base_revision p)),
      (''max_concurrency'', PInt (int (dp_max_concurrency p))),
      (''tasks'', PList (map planned_task_as_dict (dp_tasks p))),
      (''integration_order'',
        PList (map (PStr \<circ> dt_task_id) (integration_sequence (dp_tasks p)))),
      (''hosted_chat_creation'', PBool False), (''created_at'', PFloat (dp_created_at p))]"

text \<open>What the callback \<open>on_change\<close> was told, and the claims whose allocation was compensated, are
  part of the state.\<close>

record dispatch_state =
  ds_ledger :: task_ledger
  ds_plans :: "dispatch_plan list"
  ds_task_plan :: "(string \<times> string) list"
  ds_changes :: "dispatch_plan list"
  ds_compensated :: "(string \<times> string) list"

type_synonym 'a dispatch_op = "(dispatch_state, dispatch_error, 'a) step"

definition in_ledger :: "'a ledger_op \<Rightarrow> 'a dispatch_op" where
  "in_ledger m s =
     (case m (ds_ledger s) of (r, l) \<Rightarrow> (dispatch_text r, s\<lparr>ds_ledger := l\<rparr>))"

definition controller_init :: "task_ledger \<Rightarrow> dispatch_state" where
  "controller_init l =
     \<lparr>ds_ledger = l, ds_plans = [], ds_task_plan = [], ds_changes = [], ds_compensated = []\<rparr>"

section \<open>Planning\<close>

definition commit_id_re :: "string \<Rightarrow> bool" where
  "commit_id_re s \<longleftrightarrow> length s = 40 \<and> list_all (\<lambda>c. is_digit_char c \<or> c \<in> set ''abcdef'') s"

definition plan_worktree :: "pyval \<Rightarrow> dispatch_error + string" where
  "plan_worktree value =
     (case value of
        PStr s \<Rightarrow> if s = [] \<or> 160 < length s
          then Inl (DispatchError ''DISPATCH_WORKTREE_INVALID'' ''working tree identity is required'')
          else Inr s
      | _ \<Rightarrow> Inl (DispatchError ''DISPATCH_WORKTREE_INVALID'' ''working tree identity is required''))"

definition plan_concurrency :: "pyval \<Rightarrow> dispatch_error + nat" where
  "plan_concurrency value =
     (case value of
        PInt n \<Rightarrow> if 1 \<le> n \<and> n \<le> 6 then Inr (nat n)
          else Inl (DispatchError ''DISPATCH_CONCURRENCY_INVALID''
            ''max concurrency must be between one and six'')
      | _ \<Rightarrow> Inl (DispatchError ''DISPATCH_CONCURRENCY_INVALID''
          ''max concurrency must be between one and six''))"

definition lookup_all :: "(string \<times> string) list \<Rightarrow> string list \<Rightarrow> string list" where
  "lookup_all task_ids ds = concat (map (\<lambda>d. case map_of task_ids d of None \<Rightarrow> [] | Some i \<Rightarrow> [i]) ds)"

definition child_enqueue ::
  "string \<Rightarrow> string \<Rightarrow> string \<Rightarrow> task_spec \<Rightarrow> string list \<Rightarrow> enqueue_request" where
  "child_enqueue child workspace_id base_revision item dependencies =
     \<lparr>eq_request_id = PStr child, eq_workspace_id = PStr workspace_id, eq_title = PStr (ts_title item),
      eq_working_tree_id = PStr [], eq_development_session_id = PStr [],
      eq_allowed_paths = map PStr (ts_paths item), eq_resources = map PStr (ts_resources item),
      eq_depends_on = map PStr dependencies, eq_base_revision = PStr base_revision,
      eq_context_pack_id = PStr []\<rparr>"

definition plan_task :: "task_spec \<Rightarrow> string \<Rightarrow> string list \<Rightarrow> nat \<Rightarrow> planned_task" where
  "plan_task item task_id dependencies b =
     \<lparr>dt_local_id = ts_id item, dt_task_id = task_id, dt_title = ts_title item, dt_kind = ts_kind item,
      dt_dependencies = dependencies, dt_allowed_paths = ts_paths item,
      dt_resources = ts_resources item, dt_requires = ts_requires item, dt_batch = b\<rparr>"

text \<open>The loop that enqueues the tasks in their order. \<open>stamps\<close> yields the clock reading and the
  fresh identifier of each \<open>enqueue\<close>; every id of the order is in the dictionary of the specs, and
  the dependencies of a task are enqueued before it.\<close>

fun enqueue_plan ::
  "task_callback \<Rightarrow> (nat \<Rightarrow> string \<times> string) \<Rightarrow> string \<Rightarrow> string \<Rightarrow> string \<Rightarrow> task_spec list \<Rightarrow>
     (string \<times> nat) list \<Rightarrow> planned_task list \<Rightarrow> string list \<Rightarrow> planned_task list dispatch_op" where
  "enqueue_plan persist stamps request workspace_id base_revision specs batches planned [] =
     retS planned"
| "enqueue_plan persist stamps request workspace_id base_revision specs batches planned
     (local_id # order) =
     (case (kget ts_id local_id specs, map_of batches local_id) of
        (Some item, Some b) \<Rightarrow>
          if 120 < length (request @ ''-'' @ local_id)
          then failS (DispatchError ''DISPATCH_IDENTIFIER_INVALID''
            ''request/task id combination is too long'')
          else
            let dependencies =
              lookup_all (map (\<lambda>t. (dt_local_id t, dt_task_id t)) planned) (ts_depends_on item)
            in bindS (in_ledger (task_enqueue persist (fst (stamps (length planned)))
                (snd (stamps (length planned)))
                (child_enqueue (request @ ''-'' @ local_id) workspace_id base_revision item
                  dependencies))) (\<lambda>receipt.
              enqueue_plan persist stamps request workspace_id base_revision specs batches
                (planned @ [plan_task item (tr_task_id receipt) dependencies b]) order)
      | _ \<Rightarrow> enqueue_plan persist stamps request workspace_id base_revision specs batches planned order)"

definition register_plan :: "(dispatch_plan \<Rightarrow> bool) option \<Rightarrow> dispatch_plan \<Rightarrow> dispatch_plan dispatch_op" where
  "register_plan on_change plan =
     bindS (updS (\<lambda>s. s\<lparr>ds_plans := kset dp_plan_id plan (ds_plans s),
       ds_task_plan :=
         foldl (\<lambda>d t. kset fst (dt_task_id t, dp_plan_id plan) d) (ds_task_plan s) (dp_tasks plan)\<rparr>)) (\<lambda>_.
     case on_change of
       None \<Rightarrow> retS plan
     | Some accepts \<Rightarrow>
         if accepts plan
         then bindS (updS (\<lambda>s. s\<lparr>ds_changes := ds_changes s @ [plan]\<rparr>)) (\<lambda>_. retS plan)
         else failS (DispatchCallback ''on_change''))"

definition plan_work ::
  "task_callback \<Rightarrow> (dispatch_plan \<Rightarrow> bool) option \<Rightarrow> (nat \<Rightarrow> string \<times> string) \<Rightarrow> string \<Rightarrow> time \<Rightarrow>
     pyval \<Rightarrow> string \<Rightarrow> pyval \<Rightarrow> string \<Rightarrow> pyval \<Rightarrow> pyval \<Rightarrow> dispatch_plan dispatch_op" where
  "plan_work persist on_change stamps uuid now request_id workspace_id working_tree_id base_revision
     tasks max_concurrency =
     checkS (dispatch_identifier ''request id'' request_id) (\<lambda>request.
     checkS (plan_worktree working_tree_id) (\<lambda>tree.
     checkS (if commit_id_re base_revision then Inr () else
       Inl (DispatchError ''DISPATCH_BASE_INVALID'' ''base revision must be a full commit id'')) (\<lambda>_.
     checkS (plan_concurrency max_concurrency) (\<lambda>concurrency.
     checkS (validate_specs tasks) (\<lambda>specs.
     checkS (topological specs) (\<lambda>order.
     bindS (enqueue_plan persist stamps request workspace_id base_revision specs
       (batch_map specs concurrency [] order) [] order) (\<lambda>planned.
     register_plan on_change
       \<lparr>dp_plan_id = ''plan-'' @ uuid, dp_request_id = request, dp_workspace_id = workspace_id,
        dp_working_tree_id = tree, dp_base_revision = base_revision,
        dp_max_concurrency = concurrency, dp_tasks = planned, dp_created_at = now\<rparr>)))))))"

section \<open>Claiming\<close>

definition active_status :: "task_status \<Rightarrow> bool" where
  "active_status s \<longleftrightarrow> s \<in> {TLeased, TRunning, TVerifying, TReviewReady}"

definition claimable_status :: "task_status \<Rightarrow> bool" where
  "claimable_status s \<longleftrightarrow> s \<in> {TQueued, TReady}"

text \<open>\<open>TaskLedger.get\<close> returns \<open>None\<close> for an unknown task; the controller then reads the status of
  \<open>None\<close>.\<close>

definition ledger_get :: "task_ledger \<Rightarrow> string \<Rightarrow> dispatch_error + task_receipt option" where
  "ledger_get l i = dispatch_text (fst (task_get (PStr i) l))"

definition ledger_receipt :: "task_ledger \<Rightarrow> string \<Rightarrow> dispatch_error + task_receipt" where
  "ledger_receipt l i =
     bindE (ledger_get l i) (\<lambda>found.
     case found of None \<Rightarrow> Inl DispatchAttributeError | Some r \<Rightarrow> Inr r)"

fun dependency_state_aux :: "task_ledger \<Rightarrow> string list \<Rightarrow> dispatch_error + bool \<times> string" where
  "dependency_state_aux l [] = Inr (True, ''ready'')"
| "dependency_state_aux l (d # ds) =
     bindE (ledger_receipt l d) (\<lambda>r.
     if tr_status r \<in> {TFailed, TCancelled, TBlocked, TStale} then Inr (False, ''dependency_failed'')
     else if tr_status r \<noteq> TSucceeded then Inr (False, ''dependency_wait'')
     else dependency_state_aux l ds)"

definition dependency_state :: "task_ledger \<Rightarrow> planned_task \<Rightarrow> dispatch_error + bool \<times> string" where
  "dependency_state l t = dependency_state_aux l (dt_dependencies t)"

definition active_conflict :: "planned_task \<Rightarrow> task_receipt list \<Rightarrow> bool" where
  "active_conflict candidate active =
     list_ex (\<lambda>r. intersects (dt_resources candidate) (tr_resources r)) active"

text \<open>The first task of the integration sequence that can be claimed, over the receipts that were
  read at the start of the call.\<close>

fun choose_task ::
  "task_ledger \<Rightarrow> (string \<times> task_receipt) list \<Rightarrow> task_receipt list \<Rightarrow> string list \<Rightarrow>
     planned_task list \<Rightarrow> dispatch_error + (planned_task \<times> task_receipt) option" where
  "choose_task l receipts active capabilities [] = Inr None"
| "choose_task l receipts active capabilities (t # ts) =
     (case map_of receipts (dt_task_id t) of
        None \<Rightarrow> choose_task l receipts active capabilities ts
      | Some r \<Rightarrow>
          if \<not> claimable_status (tr_status r) \<or> tr_owner_id r \<noteq> None
          then choose_task l receipts active capabilities ts
          else if \<not> set (dt_requires t) \<subseteq> set capabilities
          then choose_task l receipts active capabilities ts
          else
            bindE (dependency_state l t) (\<lambda>(ready, _).
            if \<not> ready \<or>
              active_conflict t (filter (\<lambda>a. tr_task_id a \<noteq> dt_task_id t) active)
            then choose_task l receipts active capabilities ts
            else Inr (Some (t, r))))"

type_synonym allocation = "(string \<times> pyval) list"

type_synonym allocator = "planned_task \<Rightarrow> string \<Rightarrow> dispatch_error + allocation"

type_synonym compensator = "planned_task \<Rightarrow> string \<Rightarrow> allocation \<Rightarrow> dispatch_error option"

definition allocated_text :: "allocation \<Rightarrow> string \<Rightarrow> dispatch_error + string" where
  "allocated_text allocation key =
     (case map_of allocation key of
        Some (PStr s) \<Rightarrow> if s \<noteq> [] then Inr s
          else Inl (DispatchError ''DISPATCH_SESSION_ALLOCATION_INVALID''
            ''claim allocator returned incomplete session or lease identity'')
      | _ \<Rightarrow> Inl (DispatchError ''DISPATCH_SESSION_ALLOCATION_INVALID''
          ''claim allocator returned incomplete session or lease identity''))"

text \<open>The keyword defaults of \<open>TaskLedger.transition\<close>.\<close>

definition plain_transition :: transition_request where
  "plain_transition =
     \<lparr>xq_owner_id = PNone, xq_lease_id = PStr [], xq_patch_hash = PStr [],
      xq_verification_receipt = PStr [], xq_security_audit_receipt = PStr [],
      xq_git_commit_receipt = PStr [], xq_git_push_receipt = PStr [], xq_detail = PStr [],
      xq_result_ref = PStr [], xq_result = PStr [], xq_integration_receipt = PStr []\<rparr>"

definition tree_reused :: "planned_task \<Rightarrow> string \<Rightarrow> task_receipt list \<Rightarrow> bool" where
  "tree_reused t tree others =
     list_ex (\<lambda>r. tr_task_id r \<noteq> dt_task_id t \<and> active_status (tr_status r) \<and>
       tr_working_tree_id r = tree) others"

definition bind_allocation ::
  "task_callback \<Rightarrow> string \<Rightarrow> dispatch_plan \<Rightarrow> planned_task \<Rightarrow> task_receipt \<Rightarrow> string \<Rightarrow>
     allocation \<Rightarrow> unit dispatch_op" where
  "bind_allocation persist now plan t receipt owner allocation =
     checkS (allocated_text allocation ''session_id'') (\<lambda>session.
     checkS (allocated_text allocation ''working_tree_id'') (\<lambda>tree.
     checkS (allocated_text allocation ''lease_id'') (\<lambda>lease.
     bindS (in_ledger (task_list (PStr (dp_workspace_id plan)))) (\<lambda>others.
     if tree_reused t tree others
     then failS (DispatchError ''DISPATCH_WORKTREE_REUSED''
       ''claim allocator returned a working tree already bound to another active task'')
     else
       bindS (in_ledger (task_bind_execution persist now (PStr (dt_task_id t)) (PStr tree) (PStr session)
         (PStr (dp_base_revision plan)) (Some (map PStr (dt_allowed_paths t)))
         (Some (map PStr (dt_resources t))))) (\<lambda>_.
       bindS (if tr_status receipt = TQueued
         then bindS (in_ledger (task_transition persist now (PStr (dt_task_id t)) ''ready''
           plain_transition)) (\<lambda>_. retS ())
         else retS ()) (\<lambda>_.
       bindS (in_ledger (task_transition persist now (PStr (dt_task_id t)) ''leased''
         (plain_transition\<lparr>xq_owner_id := PStr owner, xq_lease_id := PStr lease\<rparr>))) (\<lambda>_.
       retS ())))))))"

text \<open>\<open>try\<close> and \<open>except\<close>: the handler runs in the state in which the body raised.\<close>

definition tryS :: "('s, 'e, 'a) step \<Rightarrow> ('e \<Rightarrow> ('s, 'e, 'a) step) \<Rightarrow> ('s, 'e, 'a) step" where
  "tryS m handler s = (case m s of (Inl e, t) \<Rightarrow> handler e t | (Inr x, t) \<Rightarrow> (Inr x, t))"

definition compensate_claim ::
  "compensator option \<Rightarrow> planned_task \<Rightarrow> string \<Rightarrow> allocation \<Rightarrow> unit dispatch_op" where
  "compensate_claim compensate t owner allocation =
     (case compensate of
        None \<Rightarrow> retS ()
      | Some run \<Rightarrow>
          bindS (updS (\<lambda>s. s\<lparr>ds_compensated := ds_compensated s @ [(dt_task_id t, owner)]\<rparr>)) (\<lambda>_.
          case run t owner allocation of None \<Rightarrow> retS () | Some e \<Rightarrow> failS e))"

definition allocate_claim ::
  "task_callback \<Rightarrow> string \<Rightarrow> allocator option \<Rightarrow> compensator option \<Rightarrow> dispatch_plan \<Rightarrow>
     planned_task \<Rightarrow> task_receipt \<Rightarrow> string \<Rightarrow> allocation option dispatch_op" where
  "allocate_claim persist now allocate compensate plan t receipt owner =
     (case allocate of
        None \<Rightarrow> retS None
      | Some run \<Rightarrow>
          checkS (run t owner) (\<lambda>allocation.
          bindS (tryS (bind_allocation persist now plan t receipt owner allocation) (\<lambda>e.
            bindS (compensate_claim compensate t owner allocation) (\<lambda>_. failS e))) (\<lambda>_.
          retS (Some allocation))))"

definition start_claim ::
  "task_callback \<Rightarrow> string \<Rightarrow> compensator option \<Rightarrow> planned_task \<Rightarrow> string \<Rightarrow> allocation option \<Rightarrow>
     task_receipt dispatch_op" where
  "start_claim persist now compensate t owner allocation =
     tryS (in_ledger (task_start persist now (PStr (dt_task_id t)) (PStr owner))) (\<lambda>e.
       case allocation of
         None \<Rightarrow> failS e
       | Some a \<Rightarrow>
           bindS (tryS (bindS (in_ledger (task_rollback_claim persist now (PStr (dt_task_id t))
               (PStr ''allocator claim could not be started''))) (\<lambda>_. retS ())) (\<lambda>_. retS ())) (\<lambda>_.
           bindS (compensate_claim compensate t owner a) (\<lambda>_. failS e)))"

datatype claim_result =
    ClaimFull
  | ClaimWaits string string
  | ClaimGranted planned_task task_receipt "allocation option"

definition claim_owner_re :: "string \<Rightarrow> bool" where
  "claim_owner_re = id_format ''._:-'' 127"

definition claim_owner :: "pyval \<Rightarrow> dispatch_error + string" where
  "claim_owner value =
     (case value of
        PStr s \<Rightarrow> if claim_owner_re s then Inr s
          else Inl (DispatchError ''DISPATCH_OWNER_INVALID'' ''claim owner is invalid'')
      | _ \<Rightarrow> Inl (DispatchError ''DISPATCH_OWNER_INVALID'' ''claim owner is invalid''))"

definition claim_capabilities :: "pyval list \<Rightarrow> dispatch_error + string list" where
  "claim_capabilities values =
     bindE (mapE (dispatch_identifier ''capability'') values) (\<lambda>parsed.
     if \<not> distinct parsed
     then Inl (DispatchError ''DISPATCH_CAPABILITIES_INVALID'' ''worker capabilities must be unique'')
     else Inr parsed)"

text \<open>The receipts of the tasks of the plan: each one is read first, then the status of each.\<close>

definition plan_receipts :: "task_ledger \<Rightarrow> dispatch_plan \<Rightarrow> dispatch_error + (string \<times> task_receipt) list" where
  "plan_receipts l plan =
     bindE (mapE (\<lambda>i. bindE (ledger_get l i) (\<lambda>r. Inr (i, r))) (py_fromkeys (map dt_task_id (dp_tasks plan))))
       (\<lambda>found. mapE (\<lambda>(i, r). case r of None \<Rightarrow> Inl DispatchAttributeError | Some x \<Rightarrow> Inr (i, x)) found)"

definition active_receipts :: "(string \<times> task_receipt) list \<Rightarrow> task_receipt list" where
  "active_receipts receipts = filter (\<lambda>r. active_status (tr_status r)) (map snd receipts)"

text \<open>\<open>any\<close> over the planned tasks that are still to be claimed.\<close>

fun any_waiting ::
  "(planned_task \<Rightarrow> dispatch_error + bool) \<Rightarrow> (string \<times> task_receipt) list \<Rightarrow> planned_task list \<Rightarrow>
     dispatch_error + bool" where
  "any_waiting test receipts [] = Inr False"
| "any_waiting test receipts (t # ts) =
     (case map_of receipts (dt_task_id t) of
        None \<Rightarrow> any_waiting test receipts ts
      | Some r \<Rightarrow>
          if \<not> claimable_status (tr_status r) then any_waiting test receipts ts
          else bindE (test t) (\<lambda>b. if b then Inr True else any_waiting test receipts ts))"

definition claim_waits ::
  "task_ledger \<Rightarrow> dispatch_plan \<Rightarrow> (string \<times> task_receipt) list \<Rightarrow> string list \<Rightarrow>
     dispatch_error + claim_result" where
  "claim_waits l plan receipts capabilities =
     bindE (any_waiting (\<lambda>t. bindE (dependency_state l t) (\<lambda>(_, reason). Inr (reason = ''dependency_failed'')))
       receipts (dp_tasks plan)) (\<lambda>blocked.
     bindE (any_waiting (\<lambda>t. bindE (dependency_state l t) (\<lambda>(ready, _).
         Inr (ready \<and> \<not> set (dt_requires t) \<subseteq> set capabilities))) receipts (dp_tasks plan)) (\<lambda>capability_blocked.
     Inr (if blocked then ClaimWaits ''blocked'' ''dependency_failed''
       else if capability_blocked then ClaimWaits ''queued'' ''capability_unavailable''
       else ClaimWaits ''queued'' ''no_ready_unclaimed_task'')))"

definition claim_task ::
  "task_callback \<Rightarrow> string \<Rightarrow> allocator option \<Rightarrow> compensator option \<Rightarrow> string \<Rightarrow> pyval \<Rightarrow>
     pyval list \<Rightarrow> claim_result dispatch_op" where
  "claim_task persist now allocate compensate plan_id owner_id capabilities =
     checkS (claim_owner owner_id) (\<lambda>owner.
     checkS (claim_capabilities capabilities) (\<lambda>available.
     readS (\<lambda>s. case kget dp_plan_id plan_id (ds_plans s) of
       None \<Rightarrow> failS (DispatchError ''DISPATCH_PLAN_UNKNOWN'' ''dispatch plan is unknown'')
     | Some plan \<Rightarrow>
         checkS (plan_receipts (ds_ledger s) plan) (\<lambda>receipts.
         if dp_max_concurrency plan \<le> length (active_receipts receipts) then retS ClaimFull
         else
           checkS (choose_task (ds_ledger s) receipts (active_receipts receipts) available
             (integration_sequence (dp_tasks plan))) (\<lambda>choice.
           case choice of
             None \<Rightarrow> checkS (claim_waits (ds_ledger s) plan receipts available) retS
           | Some (t, receipt) \<Rightarrow>
               bindS (allocate_claim persist now allocate compensate plan t receipt owner) (\<lambda>allocation.
               bindS (start_claim persist now compensate t owner allocation) (\<lambda>claimed.
               retS (ClaimGranted t claimed allocation))))))))"

text \<open>The answer as a dictionary; the keys of the allocation come after the task and replace
  equal ones.\<close>

definition claim_task_fields :: "planned_task \<Rightarrow> task_receipt \<Rightarrow> pyval" where
  "claim_task_fields t claimed =
     PDict [(''task_id'', PStr (tr_task_id claimed)), (''title'', PStr (tr_title claimed)),
       (''kind'', PStr (dt_kind t)),
       (''owner_id'', case tr_owner_id claimed of None \<Rightarrow> PNone | Some o' \<Rightarrow> PStr o'),
       (''paths'', PList (map PStr (dt_allowed_paths t))),
       (''resources'', PList (map PStr (dt_resources t))),
       (''requires'', PList (map PStr (dt_requires t))),
       (''dependencies'', PList (map PStr (dt_dependencies t))),
       (''batch'', PInt (int (dt_batch t))),
       (''working_tree_id'', PStr (tr_working_tree_id claimed)),
       (''development_session_id'', PStr (tr_development_session_id claimed))]"

definition session_allocation :: "task_receipt \<Rightarrow> allocation option \<Rightarrow> string" where
  "session_allocation claimed allocation =
     (if allocation \<noteq> None then ''allocated''
      else if tr_development_session_id claimed \<noteq> [] then ''existing'' else ''pending_policy'')"

fun claim_as_dict :: "string \<Rightarrow> claim_result \<Rightarrow> (string \<times> pyval) list" where
  "claim_as_dict plan_id ClaimFull =
     [(''status'', PStr ''queued''), (''reason'', PStr ''max_concurrency''),
      (''plan_id'', PStr plan_id), (''task'', PNone)]"
| "claim_as_dict plan_id (ClaimWaits status reason) =
     [(''status'', PStr status), (''reason'', PStr reason), (''plan_id'', PStr plan_id),
      (''task'', PNone), (''external_execution'', PBool False)]"
| "claim_as_dict plan_id (ClaimGranted t claimed allocation) =
     kset fst (''external_execution'', PBool False)
       (foldl (\<lambda>d e. kset fst e d)
         [(''status'', PStr ''claimed''), (''plan_id'', PStr plan_id),
          (''task'', claim_task_fields t claimed),
          (''session_allocation'', PStr (session_allocation claimed allocation))]
         (case allocation of None \<Rightarrow> [] | Some a \<Rightarrow> a))"

section \<open>Reading\<close>

text \<open>Here too the receipt of an unknown task has no status.\<close>

definition status_item :: "task_ledger \<Rightarrow> planned_task \<Rightarrow> dispatch_error + pyval" where
  "status_item l t =
     bindE (ledger_get l (dt_task_id t)) (\<lambda>found.
     bindE (dependency_state l t) (\<lambda>(ready, reason).
     case found of
       None \<Rightarrow> Inl DispatchAttributeError
     | Some r \<Rightarrow>
         Inr (PDict [(''task_id'', PStr (dt_task_id t)), (''title'', PStr (dt_title t)),
           (''kind'', PStr (dt_kind t)), (''batch'', PInt (int (dt_batch t))),
           (''status'', PStr (task_status_name (tr_status r))),
           (''owner_id'', case tr_owner_id r of None \<Rightarrow> PNone | Some o' \<Rightarrow> PStr o'),
           (''ready'', PBool (ready \<and> claimable_status (tr_status r))),
           (''blocking_reason'', PStr (if ready then [] else reason)),
           (''development_session_id'', PStr (tr_development_session_id r)),
           (''requires'', PList (map PStr (dt_requires t)))])))"

definition dispatch_status :: "string \<Rightarrow> (string \<times> pyval) list dispatch_op" where
  "dispatch_status plan_id =
     readS (\<lambda>s. case kget dp_plan_id plan_id (ds_plans s) of
       None \<Rightarrow> failS (DispatchError ''DISPATCH_PLAN_UNKNOWN'' ''dispatch plan is unknown'')
     | Some plan \<Rightarrow>
         checkS (mapE (status_item (ds_ledger s)) (integration_sequence (dp_tasks plan))) (\<lambda>items.
         retS [(''plan_id'', PStr (dp_plan_id plan)), (''workspace_id'', PStr (dp_workspace_id plan)),
           (''max_concurrency'', PInt (int (dp_max_concurrency plan))), (''tasks'', PList items),
           (''integration_order'',
             PList (map (PStr \<circ> dt_task_id) (integration_sequence (dp_tasks plan)))),
           (''external_execution'', PBool False)]))"

definition list_plans :: "string \<Rightarrow> dispatch_plan list dispatch_op" where
  "list_plans workspace_id =
     readS (\<lambda>s. retS (sort_key dp_created_at
       (if workspace_id = [] then ds_plans s
        else filter (\<lambda>p. dp_workspace_id p = workspace_id) (ds_plans s))))"

section \<open>Operations that keep a part of the state\<close>

text \<open>
  A relation between states that is reflexive and transitive is kept by a composition when its
  parts keep it. The ledger instance says that only one receipt may change, the controller
  instance adds that no plan does.
\<close>

definition keeps :: "('s \<Rightarrow> 's \<Rightarrow> bool) \<Rightarrow> ('s, 'e, 'a) step \<Rightarrow> bool" where
  "keeps same m \<longleftrightarrow> (\<forall>s. same s (snd (m s)))"

locale frame_rule =
  fixes same :: "'s \<Rightarrow> 's \<Rightarrow> bool"
  assumes same_refl: "same s s" and same_trans: "same s t \<Longrightarrow> same t u \<Longrightarrow> same s u"
begin

lemma keeps_retS: "keeps same (retS x)"
  by (simp add: keeps_def retS_def same_refl)

lemma keeps_failS: "keeps same (failS e)"
  by (simp add: keeps_def failS_def same_refl)

lemma keeps_bindS:
  assumes "keeps same m" and "\<And>x. keeps same (f x)"
  shows "keeps same (bindS m f)"
  unfolding keeps_def
proof
  fix s
  obtain r t where m: "m s = (r, t)" by force
  then have st: "same s t" using assms(1) by (metis keeps_def snd_conv)
  show "same s (snd (bindS m f s))"
  proof (cases r)
    case (Inl e)
    then show ?thesis using m st by (simp add: bindS_def)
  next
    case (Inr x)
    then have "same t (snd (f x t))" using assms(2) by (simp add: keeps_def)
    then show ?thesis using m Inr st same_trans by (auto simp: bindS_def)
  qed
qed

lemma keeps_tryS:
  assumes "keeps same m" and "\<And>e. keeps same (h e)"
  shows "keeps same (tryS m h)"
  unfolding keeps_def
proof
  fix s
  obtain r t where m: "m s = (r, t)" by force
  then have st: "same s t" using assms(1) by (metis keeps_def snd_conv)
  show "same s (snd (tryS m h s))"
  proof (cases r)
    case (Inl e)
    then have "same t (snd (h e t))" using assms(2) by (simp add: keeps_def)
    then show ?thesis using m Inl st same_trans by (auto simp: tryS_def)
  next
    case (Inr x)
    then show ?thesis using m st by (simp add: tryS_def)
  qed
qed

lemma keeps_checkS: "(\<And>x. r = Inr x \<Longrightarrow> keeps same (f x)) \<Longrightarrow> keeps same (checkS r f)"
  by (cases r) (auto simp: keeps_def checkS_eq same_refl)

lemma keeps_readS: "(\<And>s. keeps same (f s)) \<Longrightarrow> keeps same (readS f)"
  by (simp add: keeps_def readS_def)

lemma keeps_updS: "(\<And>s. same s (f s)) \<Longrightarrow> keeps same (updS f)"
  by (simp add: keeps_def updS_def)

end

definition held :: "task_ledger \<Rightarrow> string \<Rightarrow> task_receipt option" where
  "held l i = kget tr_task_id i (tl_records l)"

definition ledger_kept :: "string \<Rightarrow> task_ledger \<Rightarrow> task_ledger \<Rightarrow> bool" where
  "ledger_kept x l l' \<longleftrightarrow> (\<forall>i. i \<noteq> x \<longrightarrow> held l' i = held l i)"

definition plans_kept :: "string \<Rightarrow> dispatch_state \<Rightarrow> dispatch_state \<Rightarrow> bool" where
  "plans_kept x s s' \<longleftrightarrow> ledger_kept x (ds_ledger s) (ds_ledger s') \<and>
     ds_plans s' = ds_plans s \<and> ds_task_plan s' = ds_task_plan s \<and> ds_changes s' = ds_changes s"

interpretation ledger_frame: frame_rule "ledger_kept x" for x
  by unfold_locales (auto simp: ledger_kept_def)

interpretation plan_frame: frame_rule "plans_kept x" for x
  by unfold_locales (auto simp: plans_kept_def ledger_kept_def)

lemma keeps_in_ledger: "keeps (ledger_kept x) m \<Longrightarrow> keeps (plans_kept x) (in_ledger m)"
proof -
  assume kept: "keeps (ledger_kept x) m"
  have "plans_kept x s (snd (in_ledger m s))" for s
  proof -
    obtain r l where m: "m (ds_ledger s) = (r, l)" by force
    have "ledger_kept x (ds_ledger s) (snd (m (ds_ledger s)))" using kept by (simp add: keeps_def)
    then show ?thesis by (simp add: in_ledger_def m plans_kept_def)
  qed
  then show ?thesis by (simp add: keeps_def)
qed

lemma keeps_task_commit: "tr_task_id r = x \<Longrightarrow> keeps (ledger_kept x) (task_commit persist r)"
  unfolding keeps_def task_commit_def task_notify_def task_store_def
  by (simp add: ledger_kept_def held_def bindS_def failS_def retS_def updS_def store_simps)

lemma keeps_task_lookup:
  assumes "\<And>c. tr_task_id c = x \<Longrightarrow> keeps (ledger_kept x) (f c)"
  shows "keeps (ledger_kept x) (bindS (task_lookup missing x) f)"
  unfolding keeps_def
proof
  fix l
  show "ledger_kept x l (snd (bindS (task_lookup missing x) f l))"
  proof (cases "kget tr_task_id x (tl_records l)")
    case None
    then show ?thesis
      by (simp add: task_lookup_def readS_def failS_def bindS_def ledger_frame.same_refl)
  next
    case (Some c)
    have "keeps (ledger_kept x) (f c)" by (rule assms) (rule kget_SomeD [OF Some, THEN conjunct2])
    then show ?thesis
      using Some by (simp add: task_lookup_def readS_def retS_def bindS_def keeps_def)
  qed
qed

lemma validate_identifier_same: "validate_identifier name (PStr i) = Inr j \<Longrightarrow> j = i"
  by (auto dest!: validate_identifier_Inr)

lemma keeps_task_bind_execution:
  "keeps (ledger_kept x) (task_bind_execution persist now (PStr x) tree session revision paths resources)"
  unfolding task_bind_execution_def
  by (intro ledger_frame.keeps_checkS)
    (auto dest!: validate_identifier_same intro!: keeps_task_lookup keeps_task_commit)

lemma keeps_task_transition: "keeps (ledger_kept x) (task_transition persist now (PStr x) status rq)"
  unfolding task_transition_def
  by (intro ledger_frame.keeps_checkS)
    (auto dest!: validate_identifier_same transition_locked_Inr(1) simp: same_task_def
      intro!: keeps_task_lookup keeps_task_commit ledger_frame.keeps_checkS)

lemma keeps_task_start: "keeps (ledger_kept x) (task_start persist now (PStr x) owner)"
  unfolding task_start_def
  by (intro ledger_frame.keeps_checkS)
    (auto dest!: validate_identifier_same transition_locked_Inr(1) simp: same_task_def
      intro!: keeps_task_lookup keeps_task_commit ledger_frame.keeps_checkS ledger_frame.keeps_retS
        ledger_frame.keeps_failS)

lemma keeps_task_rollback_claim: "keeps (ledger_kept x) (task_rollback_claim persist now (PStr x) detail)"
  unfolding task_rollback_claim_def
  by (intro ledger_frame.keeps_checkS)
    (auto dest!: validate_identifier_same
      intro!: keeps_task_lookup keeps_task_commit ledger_frame.keeps_failS)

lemma keeps_task_list: "keeps (ledger_kept x) (task_list w)"
  unfolding task_list_def
  by (intro ledger_frame.keeps_checkS ledger_frame.keeps_readS ledger_frame.keeps_retS)

lemmas frame_rules =
  plan_frame.keeps_retS plan_frame.keeps_failS plan_frame.keeps_bindS plan_frame.keeps_tryS
  plan_frame.keeps_checkS keeps_in_ledger

lemma keeps_bind_allocation:
  "keeps (plans_kept (dt_task_id t)) (bind_allocation persist now plan t receipt owner allocation)"
  unfolding bind_allocation_def
  by (auto intro!: frame_rules keeps_task_list keeps_task_bind_execution keeps_task_transition)

lemma keeps_compensate_claim: "keeps (plans_kept x) (compensate_claim compensate t owner allocation)"
  unfolding compensate_claim_def
  by (auto intro!: frame_rules plan_frame.keeps_updS simp: plans_kept_def ledger_kept_def
    split: option.split)

lemma keeps_allocate_claim:
  "keeps (plans_kept (dt_task_id t))
     (allocate_claim persist now allocate compensate plan t receipt owner)"
  unfolding allocate_claim_def
  by (auto intro!: frame_rules keeps_bind_allocation keeps_compensate_claim split: option.split)

lemma keeps_start_claim:
  "keeps (plans_kept (dt_task_id t)) (start_claim persist now compensate t owner allocation)"
  unfolding start_claim_def
  by (auto intro!: frame_rules keeps_task_start keeps_task_rollback_claim keeps_compensate_claim
    split: option.split)

section \<open>What a claim has checked\<close>

lemma ledger_get_Inr: "ledger_get l i = Inr found \<Longrightarrow> found = held l i"
  by (cases "validate_identifier ''task_id'' (PStr i)")
    (auto simp: ledger_get_def dispatch_text_def task_get_def held_def checkS_eq readS_def retS_def
      dest: validate_identifier_same)

lemma ledger_receipt_Inr: "ledger_receipt l i = Inr r \<Longrightarrow> held l i = Some r"
  by (auto simp: ledger_receipt_def result_simps dest!: ledger_get_Inr split: option.splits)

lemma dependency_state_ready:
  "dependency_state_aux l ds = Inr (True, reason) \<Longrightarrow>
     \<forall>d\<in>set ds. \<exists>r. held l d = Some r \<and> tr_status r = TSucceeded"
  by (induction ds) (auto simp: result_simps dest!: ledger_receipt_Inr split: if_splits)

lemma plan_receipts_Inr:
  assumes "plan_receipts l plan = Inr receipts"
  shows "map fst receipts = py_fromkeys (map dt_task_id (dp_tasks plan))"
    and "(i, r) \<in> set receipts \<Longrightarrow> held l i = Some r"
proof -
  let ?ids = "py_fromkeys (map dt_task_id (dp_tasks plan))"
  obtain found where found: "mapE (\<lambda>i. bindE (ledger_get l i) (\<lambda>r. Inr (i, r))) ?ids = Inr found"
    and rs: "mapE (\<lambda>(i, r). case r of None \<Rightarrow> Inl DispatchAttributeError | Some x \<Rightarrow> Inr (i, x)) found =
      Inr receipts"
    using assms by (auto simp: plan_receipts_def result_simps)
  have "map fst found = xs \<and> (\<forall>(i, r)\<in>set found. r = held l i)"
    if "mapE (\<lambda>i. bindE (ledger_get l i) (\<lambda>r. Inr (i, r))) xs = Inr found" for xs found
    using that by (induction xs arbitrary: found) (auto simp: result_simps dest!: ledger_get_Inr)
  note f = this [OF found]
  have r: "map fst receipts = map fst found \<and> (\<forall>(i, x)\<in>set receipts. (i, Some x) \<in> set found)"
    if "mapE (\<lambda>(i, r). case r of None \<Rightarrow> Inl DispatchAttributeError | Some x \<Rightarrow> Inr (i, x)) found =
      (Inr receipts :: dispatch_error + (string \<times> task_receipt) list)" for found receipts
    using that
    by (induction found arbitrary: receipts) (auto simp: result_simps split: option.splits)
  show "map fst receipts = ?ids" using r [OF rs] f by simp
  assume "(i, r) \<in> set receipts"
  then show "held l i = Some r" using r [OF rs] f by fastforce
qed

lemma choose_task_Some:
  "choose_task l receipts active available ts = Inr (Some (t, r)) \<Longrightarrow>
     t \<in> set ts \<and> map_of receipts (dt_task_id t) = Some r \<and> claimable_status (tr_status r) \<and>
     tr_owner_id r = None \<and> set (dt_requires t) \<subseteq> set available \<and>
     (\<forall>d\<in>set (dt_dependencies t). \<exists>x. held l d = Some x \<and> tr_status x = TSucceeded) \<and>
     \<not> active_conflict t (filter (\<lambda>a. tr_task_id a \<noteq> dt_task_id t) active)"
proof (induction ts)
  case (Cons u ts)
  show ?case
  proof (cases "choose_task l receipts active available ts = Inr (Some (t, r))")
    case True
    then show ?thesis using Cons.IH by simp
  next
    case False
    with Cons.prems obtain reason where "u = t" "map_of receipts (dt_task_id u) = Some r"
      "claimable_status (tr_status r)" "tr_owner_id r = None" "set (dt_requires u) \<subseteq> set available"
      "dependency_state l u = Inr (True, reason)"
      "\<not> active_conflict u (filter (\<lambda>a. tr_task_id a \<noteq> dt_task_id u) active)"
      by (auto simp: result_simps split: option.splits if_splits prod.splits)
    then show ?thesis using dependency_state_ready by (simp add: dependency_state_def)
  qed
qed simp

lemma start_transition:
  assumes "transition_locked now current s (no_update\<lparr>tu_owner_id := Some owner\<rparr>) = Inr u"
  shows "tr_task_id u = tr_task_id current \<and> tr_status u = s \<and> tr_owner_id u = Some owner"
proof -
  have "tr_owner_id u = (case tu_owner_id (no_update\<lparr>tu_owner_id := Some owner\<rparr>) of
      Some v \<Rightarrow> Some v | None \<Rightarrow> tr_owner_id current)"
    using assms by (simp only: transition_locked_def split: if_splits) auto
  then show ?thesis using transition_locked_Inr(1,2) [OF assms] by (simp add: same_task_def)
qed

lemma task_start_result:
  assumes "task_start persist now (PStr x) (PStr owner) l = (Inr c, l')"
  shows "held l' x = Some c \<and> tr_status c = TRunning \<and> tr_owner_id c = Some owner"
proof -
  have "ends (task_start persist now (PStr x) (PStr owner)) (\<lambda>r l'. \<forall>c. r = Inr c \<longrightarrow>
      held l' x = Some c \<and> tr_status c = TRunning \<and> tr_owner_id c = Some owner) l"
  proof (unfold task_start_def, (rule ends_checkS_I, simp)+)
    fix task owner'
    assume "validate_identifier ''task_id'' (PStr x) = Inr task"
      and "validate_identifier ''owner_id'' (PStr owner) = Inr owner'"
    then have names: "task = x" "owner' = owner" by (auto dest!: validate_identifier_same)
    show "ends (bindS (task_lookup ''task does not exist'' task) (\<lambda>current.
        if tr_status current = TRunning \<and> tr_owner_id current = Some owner' then retS current
        else if tr_status current \<notin> {TQueued, TReady, TLeased}
        then failS (LedgerConflict ''task is not startable'')
        else checkS (transition_locked now current TRunning (no_update\<lparr>tu_owner_id := Some owner'\<rparr>))
          (\<lambda>updated. task_commit persist updated)))
        (\<lambda>r l'. \<forall>c. r = Inr c \<longrightarrow>
          held l' x = Some c \<and> tr_status c = TRunning \<and> tr_owner_id c = Some owner) l"
    proof (cases "kget tr_task_id x (tl_records l)")
      case None
      then show ?thesis by (simp add: names task_lookup_def ends_simps)
    next
      case (Some current)
      have "tr_task_id current = x" using kget_SomeD [OF Some] by simp
      then show ?thesis using Some
        by (auto simp: names task_lookup_def ends_simps held_def store_simps
          dest!: start_transition split: sum.split)
    qed
  qed
  from endsD [OF this assms] show ?thesis by simp
qed

lemma tryS_Inr: "tryS m h s = (Inr x, t) \<longleftrightarrow> m s = (Inr x, t) \<or> (\<exists>e u. m s = (Inl e, u) \<and> h e u = (Inr x, t))"
  by (auto simp: tryS_def split: prod.splits sum.splits)

lemma bindS_failS: "bindS m (\<lambda>_. failS e) s \<noteq> (Inr x, t)"
  by (auto simp: bindS_def failS_def split: prod.splits sum.splits)

lemma start_claim_result:
  assumes "start_claim persist now compensate t owner allocation s = (Inr c, s')"
  shows "held (ds_ledger s') (dt_task_id t) = Some c \<and> tr_status c = TRunning \<and>
    tr_owner_id c = Some owner"
proof -
  have "bindS m (\<lambda>_. bindS n (\<lambda>_. failS e)) u \<noteq> (Inr c, s')" for m n :: "unit dispatch_op" and e u
    by (auto simp: bindS_def failS_def split: prod.splits sum.splits)
  then have "in_ledger (task_start persist now (PStr (dt_task_id t)) (PStr owner)) s = (Inr c, s')"
    using assms unfolding start_claim_def tryS_Inr by (auto simp: failS_def split: option.splits)
  then obtain l where "task_start persist now (PStr (dt_task_id t)) (PStr owner) (ds_ledger s) = (Inr c, l)"
    and "s' = s\<lparr>ds_ledger := l\<rparr>"
    by (auto simp: in_ledger_def dispatch_text_def result_simps split: prod.splits)
  then show ?thesis using task_start_result by simp
qed

definition grant_claim ::
  "task_callback \<Rightarrow> string \<Rightarrow> allocator option \<Rightarrow> compensator option \<Rightarrow> dispatch_plan \<Rightarrow>
     planned_task \<Rightarrow> task_receipt \<Rightarrow> string \<Rightarrow> claim_result dispatch_op" where
  "grant_claim persist now allocate compensate plan t receipt owner =
     bindS (allocate_claim persist now allocate compensate plan t receipt owner) (\<lambda>allocation.
     bindS (start_claim persist now compensate t owner allocation) (\<lambda>claimed.
     retS (ClaimGranted t claimed allocation)))"

lemma keeps_grant_claim:
  "keeps (plans_kept (dt_task_id t)) (grant_claim persist now allocate compensate plan t receipt owner)"
  unfolding grant_claim_def
  by (intro frame_rules keeps_allocate_claim keeps_start_claim)

lemma grant_claim_result:
  assumes "grant_claim persist now allocate compensate plan t receipt owner s =
    (Inr result, s')"
  shows "\<exists>c a. result = ClaimGranted t c a \<and> held (ds_ledger s') (dt_task_id t) = Some c \<and>
    tr_status c = TRunning \<and> tr_owner_id c = Some owner"
  using assms start_claim_result
  by (auto simp: grant_claim_def bindS_def retS_def split: prod.splits sum.splits)

text \<open>The two ways in which a claim ends: nothing happened, or a task was chosen.\<close>

lemma claim_task_cases:
  assumes "claim_task persist now allocate compensate plan_id owner_id capabilities s = (result, s')"
  obtains (refused) "s' = s" and "\<And>t c a. result \<noteq> Inr (ClaimGranted t c a)"
    | (chosen) plan owner available receipts t r
    where "kget dp_plan_id plan_id (ds_plans s) = Some plan" and "claim_owner owner_id = Inr owner"
      and "claim_capabilities capabilities = Inr available"
      and "plan_receipts (ds_ledger s) plan = Inr receipts"
      and "length (active_receipts receipts) < dp_max_concurrency plan"
      and "choose_task (ds_ledger s) receipts (active_receipts receipts) available
        (integration_sequence (dp_tasks plan)) = Inr (Some (t, r))"
      and "grant_claim persist now allocate compensate plan t r owner s = (result, s')"
proof -
  have waits: "claim_waits l plan receipts available \<noteq> Inr (ClaimGranted t c a)"
    for l plan receipts available t c a
    by (auto simp: claim_waits_def result_simps)
  show thesis
    using assms unfolding claim_task_def checkS_eq readS_def
    by (auto simp: retS_def failS_def waits grant_claim_def not_le
      split: sum.splits option.splits if_splits intro: refused chosen)
qed

definition active_tasks :: "task_ledger \<Rightarrow> dispatch_plan \<Rightarrow> string set" where
  "active_tasks l plan =
     {i \<in> dt_task_id ` set (dp_tasks plan). \<exists>r. held l i = Some r \<and> active_status (tr_status r)}"

lemma active_tasks_receipts:
  assumes "plan_receipts l plan = Inr receipts"
  shows "card (active_tasks l plan) \<le> length (active_receipts receipts)"
    and "i \<in> active_tasks l plan \<Longrightarrow> held l i = Some r \<Longrightarrow> r \<in> set (active_receipts receipts)"
proof -
  let ?active = "filter (\<lambda>e. active_status (tr_status (snd e))) receipts"
  have rs: "map fst receipts = py_fromkeys (map dt_task_id (dp_tasks plan))"
    using assms by (rule plan_receipts_Inr(1))
  have entry: "\<exists>r. (i, r) \<in> set receipts \<and> held l i = Some r" if "i \<in> dt_task_id ` set (dp_tasks plan)" for i
  proof -
    have "i \<in> set (map fst receipts)" using that by (simp add: rs)
    then obtain r where "(i, r) \<in> set receipts" by auto
    then show ?thesis using plan_receipts_Inr(2) [OF assms] by blast
  qed
  have "active_tasks l plan \<subseteq> fst ` set ?active"
    using entry by (force simp: active_tasks_def)
  then have "card (active_tasks l plan) \<le> card (set (map fst ?active))"
    by (intro card_mono) auto
  also have "\<dots> \<le> length ?active" using card_length [of "map fst ?active"] by simp
  also have "\<dots> = length (active_receipts receipts)"
    by (simp add: active_receipts_def filter_map comp_def)
  finally show "card (active_tasks l plan) \<le> length (active_receipts receipts)" .
  assume i: "i \<in> active_tasks l plan" and r: "held l i = Some r"
  then have "(i, r) \<in> set receipts" "active_status (tr_status r)"
    using entry [of i] by (auto simp: active_tasks_def)
  then show "r \<in> set (active_receipts receipts)" by (force simp: active_receipts_def)
qed

lemma active_tasks_kept:
  assumes "ledger_kept x l l'"
  shows "active_tasks l' plan \<subseteq> insert x (active_tasks l plan)"
  using assms by (auto simp: active_tasks_def ledger_kept_def)

lemma claim_capabilities_Inr: "claim_capabilities values = Inr available \<Longrightarrow> PStr ` set available \<subseteq> set values"
proof -
  have one: "dispatch_identifier f v = Inr i \<Longrightarrow> v = PStr i" for f v i
    by (auto simp: dispatch_identifier_def split: pyval.splits if_splits)
  assume "claim_capabilities values = Inr available"
  then have "mapE (dispatch_identifier ''capability'') values = Inr available"
    by (auto simp: claim_capabilities_def result_simps split: if_splits)
  then show ?thesis using one by (induction "values" arbitrary: available) (auto simp: result_simps image_subset_iff dest!: one)
qed

text \<open>
  C2: A granted claim respects the plan: before it fewer tasks of the plan were active than
  \<open>max_concurrency\<close>, the task was queued or ready and had no owner, everything it depends on had
  succeeded, no active task of the plan held one of its resources, and the worker has every
  capability it requires; after it the task runs for the claimant and the bound still holds. A
  claim that is answered but not granted changes nothing, and whatever happens, also when an
  allocator, a callback or the start fails, at most one receipt and no plan has changed.
\<close>

theorem claim_respects_plan:
  assumes "claim_task persist now allocate compensate plan_id owner_id capabilities s = (result, s')"
  shows "(\<forall>t claimed a. result = Inr (ClaimGranted t claimed a) \<longrightarrow>
      (\<exists>plan. kget dp_plan_id plan_id (ds_plans s) = Some plan \<and> t \<in> set (dp_tasks plan) \<and>
        card (active_tasks (ds_ledger s) plan) < dp_max_concurrency plan \<and>
        (\<exists>r. held (ds_ledger s) (dt_task_id t) = Some r \<and> tr_status r \<in> {TQueued, TReady} \<and>
          tr_owner_id r = None) \<and>
        (\<forall>d\<in>set (dt_dependencies t). \<exists>r. held (ds_ledger s) d = Some r \<and> tr_status r = TSucceeded) \<and>
        (\<forall>i\<in>active_tasks (ds_ledger s) plan. \<forall>r. held (ds_ledger s) i = Some r \<longrightarrow>
          set (dt_resources t) \<inter> set (tr_resources r) = {}) \<and>
        PStr ` set (dt_requires t) \<subseteq> set capabilities \<and>
        held (ds_ledger s') (dt_task_id t) = Some claimed \<and> tr_status claimed = TRunning \<and>
        map_option PStr (tr_owner_id claimed) = Some owner_id \<and>
        card (active_tasks (ds_ledger s') plan) \<le> dp_max_concurrency plan)) \<and>
    ((\<exists>w. result = Inr w) \<longrightarrow> (\<forall>t claimed a. result \<noteq> Inr (ClaimGranted t claimed a)) \<longrightarrow> s' = s) \<and>
    (\<exists>x. \<forall>i. i \<noteq> x \<longrightarrow> held (ds_ledger s') i = held (ds_ledger s) i) \<and> ds_plans s' = ds_plans s"
  using assms
proof (cases rule: claim_task_cases)
  case refused
  then show ?thesis by auto
next
  case (chosen plan owner available receipts t r)
  have kept: "plans_kept (dt_task_id t) s s'"
    using keeps_grant_claim chosen(7) by (metis keeps_def snd_conv)
  then have ledger: "ledger_kept (dt_task_id t) (ds_ledger s) (ds_ledger s')"
    by (simp add: plans_kept_def)
  note choice = choose_task_Some [OF chosen(6)]
  note active = active_tasks_receipts [OF chosen(4)]
  have r: "held (ds_ledger s) (dt_task_id t) = Some r"
    using choice plan_receipts_Inr(2) [OF chosen(4)] by (blast dest: map_of_SomeD)
  have fewer: "card (active_tasks (ds_ledger s) plan) < dp_max_concurrency plan"
    using active(1) chosen(5) by simp
  have "finite (active_tasks (ds_ledger s) plan)" by (simp add: active_tasks_def)
  then have "card (active_tasks (ds_ledger s') plan) \<le> Suc (card (active_tasks (ds_ledger s) plan))"
    using card_mono [OF _ active_tasks_kept [OF ledger, of plan]] card_insert_le_m1
    by (metis (no_types) card_insert_if finite_insert le_SucI)
  with fewer have bounded: "card (active_tasks (ds_ledger s') plan) \<le> dp_max_concurrency plan" by simp
  have apart: "set (dt_resources t) \<inter> set (tr_resources a) = {}"
    if "i \<in> active_tasks (ds_ledger s) plan" and a: "held (ds_ledger s) i = Some a" for i a
  proof -
    have "a \<in> set (active_receipts receipts)" using active(2) that by blast
    moreover have "tr_task_id a = i" using a kget_SomeD [of tr_task_id i] by (auto simp: held_def)
    moreover have "i \<noteq> dt_task_id t"
      using that r choice by (auto simp: active_tasks_def active_status_def claimable_status_def)
    ultimately show ?thesis
      using choice by (auto simp: active_conflict_def list_ex_iff intersects_iff)
  qed
  have owner: "owner_id = PStr owner"
    using chosen(2) by (auto simp: claim_owner_def split: pyval.splits if_splits)
  have grant: "\<exists>claimed a. w = ClaimGranted t claimed a \<and>
      held (ds_ledger s') (dt_task_id t) = Some claimed \<and> tr_status claimed = TRunning \<and>
      tr_owner_id claimed = Some owner" if "result = Inr w" for w
    using grant_claim_result chosen(7) that by blast
  have "t \<in> set (dp_tasks plan)" using choice by (simp add: integration_sequence_def)
  moreover have "PStr ` set (dt_requires t) \<subseteq> set capabilities"
    using choice claim_capabilities_Inr [OF chosen(3)] by blast
  moreover have "tr_status r \<in> {TQueued, TReady}" using choice by (simp add: claimable_status_def)
  ultimately have granted: "\<exists>plan. kget dp_plan_id plan_id (ds_plans s) = Some plan \<and>
        u \<in> set (dp_tasks plan) \<and>
        card (active_tasks (ds_ledger s) plan) < dp_max_concurrency plan \<and>
        (\<exists>r. held (ds_ledger s) (dt_task_id u) = Some r \<and> tr_status r \<in> {TQueued, TReady} \<and>
          tr_owner_id r = None) \<and>
        (\<forall>d\<in>set (dt_dependencies u). \<exists>r. held (ds_ledger s) d = Some r \<and> tr_status r = TSucceeded) \<and>
        (\<forall>i\<in>active_tasks (ds_ledger s) plan. \<forall>r. held (ds_ledger s) i = Some r \<longrightarrow>
          set (dt_resources u) \<inter> set (tr_resources r) = {}) \<and>
        PStr ` set (dt_requires u) \<subseteq> set capabilities \<and>
        held (ds_ledger s') (dt_task_id u) = Some claimed \<and> tr_status claimed = TRunning \<and>
        map_option PStr (tr_owner_id claimed) = Some owner_id \<and>
        card (active_tasks (ds_ledger s') plan) \<le> dp_max_concurrency plan"
    if "result = Inr (ClaimGranted u claimed a)" for u claimed a
    using grant [OF that] chosen(1) fewer r choice apart bounded owner
    by (intro exI [of _ plan]) auto
  have "ds_plans s' = ds_plans s" using kept by (simp add: plans_kept_def)
  moreover have "\<exists>x. \<forall>i. i \<noteq> x \<longrightarrow> held (ds_ledger s') i = held (ds_ledger s) i"
    using ledger by (auto simp: ledger_kept_def)
  moreover have "(\<exists>w. result = Inr w) \<longrightarrow> (\<forall>t claimed a. result \<noteq> Inr (ClaimGranted t claimed a)) \<longrightarrow> s' = s"
    using grant by blast
  ultimately show ?thesis using granted by blast
qed

section \<open>What a plan has scheduled\<close>

definition placed :: "task_spec list \<Rightarrow> (string \<times> nat) list \<Rightarrow> planned_task list \<Rightarrow> planned_task \<Rightarrow> bool" where
  "placed specs batches pre t \<longleftrightarrow>
     (\<exists>item b. kget ts_id (dt_local_id t) specs = Some item \<and> map_of batches (dt_local_id t) = Some b \<and>
        t = plan_task item (dt_task_id t)
          (lookup_all (map (\<lambda>t. (dt_local_id t, dt_task_id t)) pre) (ts_depends_on item)) b)"

fun all_placed ::
  "task_spec list \<Rightarrow> (string \<times> nat) list \<Rightarrow> planned_task list \<Rightarrow> planned_task list \<Rightarrow> bool" where
  "all_placed specs batches pre [] = True"
| "all_placed specs batches pre (t # ts) =
     (placed specs batches pre t \<and> all_placed specs batches (pre @ [t]) ts)"

lemma all_placed_split: "all_placed specs batches pre (ts @ t # us) \<Longrightarrow> placed specs batches (pre @ ts) t"
  by (induction ts arbitrary: pre) fastforce+

lemma enqueue_plan_result:
  "enqueue_plan persist stamps request ws base specs batches planned order s = (Inr tasks, s') \<Longrightarrow>
     set order \<subseteq> ts_id ` set specs \<Longrightarrow> set order \<subseteq> fst ` set batches \<Longrightarrow>
     \<exists>rest. tasks = planned @ rest \<and> map dt_local_id rest = order \<and>
       all_placed specs batches planned rest"
proof (induction order arbitrary: planned s)
  case Nil
  then show ?case by (simp add: retS_def)
next
  case (Cons i order)
  obtain item where item: "kget ts_id i specs = Some item"
    using Cons.prems(2) kget_None_iff [of ts_id i specs] by (cases "kget ts_id i specs") auto
  obtain b where b: "map_of batches i = Some b"
    using Cons.prems(3) by (cases "map_of batches i") (auto simp: map_of_eq_None_iff)
  have i: "ts_id item = i" using kget_SomeD [OF item] by simp
  define ds where "ds = lookup_all (map (\<lambda>t. (dt_local_id t, dt_task_id t)) planned) (ts_depends_on item)"
  have "\<exists>(receipt :: task_receipt) u. enqueue_plan persist stamps request ws base specs batches
       (planned @ [plan_task item (tr_task_id receipt) ds b]) order u = (Inr tasks, s')"
    using Cons.prems(1) item b
    by (auto simp: ds_def Let_def bindS_def failS_def split: if_splits prod.splits sum.splits)
  then obtain receipt :: task_receipt and u where
    "enqueue_plan persist stamps request ws base specs batches
       (planned @ [plan_task item (tr_task_id receipt) ds b]) order u = (Inr tasks, s')" by blast
  from Cons.IH [OF this] Cons.prems obtain rest
    where "tasks = (planned @ [plan_task item (tr_task_id receipt) ds b]) @ rest"
      "map dt_local_id rest = order"
      "all_placed specs batches (planned @ [plan_task item (tr_task_id receipt) ds b]) rest"
    by auto
  moreover have "placed specs batches planned (plan_task item (tr_task_id receipt) ds b)"
    unfolding placed_def using item b i
    by (intro exI [of _ item] exI [of _ b]) (simp add: plan_task_def ds_def)
  moreover have "dt_local_id (plan_task item (tr_task_id receipt) ds b) = i"
    by (simp add: plan_task_def i)
  ultimately show ?case
    by (intro exI [of _ "plan_task item (tr_task_id receipt) ds b # rest"]) simp
qed

lemma set_lookup_all:
  assumes "distinct (map dt_local_id ts)"
  shows "set (lookup_all (map (\<lambda>t. (dt_local_id t, dt_task_id t)) ts) ds) =
    {dt_task_id u |u. u \<in> set ts \<and> dt_local_id u \<in> set ds}"
proof -
  have found: "map_of (map (\<lambda>t. (dt_local_id t, dt_task_id t)) ts) d = Some i \<longleftrightarrow>
      (\<exists>u\<in>set ts. dt_local_id u = d \<and> dt_task_id u = i)" for d i
    using assms by (subst map_of_eq_Some_iff) (auto simp: comp_def)
  have "set (lookup_all (map (\<lambda>t. (dt_local_id t, dt_task_id t)) ts) ds) =
      {i. \<exists>d\<in>set ds. map_of (map (\<lambda>t. (dt_local_id t, dt_task_id t)) ts) d = Some i}"
    by (auto simp: lookup_all_def split: option.splits)
  then show ?thesis unfolding found by auto
qed

lemma deps_before_split:
  "deps_before g before (xs @ x # ys) \<Longrightarrow> set (needs g x) \<subseteq> before \<union> set xs"
  by (simp add: deps_before_append)

text \<open>A task of a plan against its spec, given the schedule of the local ids.\<close>

lemma all_placed_task:
  assumes placed: "all_placed specs batches [] tasks" and order: "map dt_local_id tasks = order"
    and dist: "distinct order" and before: "deps_before (spec_graph specs) {} order"
    and closed: "specs_closed specs" and t: "t \<in> set tasks"
  obtains item b where "item \<in> set specs" and "ts_id item = dt_local_id t"
    and "map_of batches (dt_local_id t) = Some b" and "dt_batch t = b"
    and "dt_resources t = ts_resources item" and "dt_allowed_paths t = ts_paths item"
    and "dt_requires t = ts_requires item"
    and "set (dt_dependencies t) =
      {dt_task_id u |u. u \<in> set tasks \<and> dt_local_id u \<in> set (ts_depends_on item)}"
proof -
  obtain pre post where split: "tasks = pre @ t # post" using t by (meson split_list)
  then have "placed specs batches pre t" using placed all_placed_split [of specs batches "[]" pre] by simp
  then obtain item b where item: "kget ts_id (dt_local_id t) specs = Some item"
    and b: "map_of batches (dt_local_id t) = Some b"
    and eq: "t = plan_task item (dt_task_id t)
      (lookup_all (map (\<lambda>t. (dt_local_id t, dt_task_id t)) pre) (ts_depends_on item)) b"
    unfolding placed_def by blast
  have i: "item \<in> set specs" "ts_id item = dt_local_id t" using kget_SomeD [OF item] by auto
  have local: "distinct (map dt_local_id tasks)" using order dist by simp
  have "needs (spec_graph specs) (dt_local_id t) = ts_depends_on item"
    using needs_spec_graph [of specs item] closed i by (simp add: specs_closed_def)
  then have deps: "set (ts_depends_on item) \<subseteq> dt_local_id ` set pre"
    using before deps_before_split [of "spec_graph specs" "{}" "map dt_local_id pre" "dt_local_id t"]
    by (simp add: order [symmetric] split)
  have "u \<in> set pre" if "u \<in> set tasks" "dt_local_id u \<in> set (ts_depends_on item)" for u
  proof -
    obtain v where "v \<in> set pre" "dt_local_id v = dt_local_id u" using deps \<open>dt_local_id u \<in> _\<close> by auto
    moreover have "inj_on dt_local_id (set tasks)" using local by (simp add: distinct_map)
    moreover have "v \<in> set tasks" using \<open>v \<in> set pre\<close> split by simp
    ultimately have "v = u" using that(1) by (auto dest: inj_onD)
    then show ?thesis using \<open>v \<in> set pre\<close> by simp
  qed
  moreover have "set (dt_dependencies t) =
      {dt_task_id u |u. u \<in> set pre \<and> dt_local_id u \<in> set (ts_depends_on item)}"
    using local set_lookup_all [of pre] by (subst eq) (simp add: plan_task_def split)
  ultimately have "set (dt_dependencies t) =
      {dt_task_id u |u. u \<in> set tasks \<and> dt_local_id u \<in> set (ts_depends_on item)}"
    using split by auto
  moreover have "dt_batch t = b" "dt_resources t = ts_resources item"
    "dt_allowed_paths t = ts_paths item" "dt_requires t = ts_requires item"
    by (subst eq, simp add: plan_task_def)+
  ultimately show ?thesis using that i b by blast
qed

lemma assigned_eq:
  assumes "distinct (map fst assigned)" and "map dt_local_id tasks = map fst assigned"
    and "\<And>t. t \<in> set tasks \<Longrightarrow> map_of assigned (dt_local_id t) = Some (dt_batch t)"
  shows "assigned = map (\<lambda>t. (dt_local_id t, dt_batch t)) tasks"
proof -
  have "assigned = map (\<lambda>k. (k, the (map_of assigned k))) (map fst assigned)"
    using assms(1) by (auto intro!: map_idI [symmetric] simp: comp_def)
  also have "\<dots> = map (\<lambda>t. (dt_local_id t, dt_batch t)) tasks"
    unfolding assms(2) [symmetric] using assms(3) by simp
  finally show ?thesis .
qed

lemma plan_work_Inr:
  assumes "plan_work persist on_change stamps uuid now request_id ws tree base tasks concurrency s =
    (Inr plan, s')"
  obtains specs order request s1
  where "validate_specs tasks = Inr specs" and "topological specs = Inr order"
    and "1 \<le> dp_max_concurrency plan" and "dp_max_concurrency plan \<le> 6"
    and "enqueue_plan persist stamps request ws base specs
      (batch_map specs (dp_max_concurrency plan) [] order) [] order s = (Inr (dp_tasks plan), s1)"
    and "kget dp_plan_id (dp_plan_id plan) (ds_plans s') = Some plan"
proof -
  have concurrency: "1 \<le> n \<and> n \<le> 6" if "plan_concurrency concurrency = Inr n" for n
    using that by (auto simp: plan_concurrency_def split: pyval.splits if_splits)
  have register: "q = plan \<and> kget dp_plan_id (dp_plan_id plan) (ds_plans s') = Some plan"
    if "register_plan on_change q u = (Inr plan, s')" for q u
    using that
    by (auto simp: register_plan_def bindS_def updS_def retS_def failS_def store_simps
      split: option.splits if_splits)
  show thesis
    using assms unfolding plan_work_def checkS_eq
    by (auto simp: bindS_def split: sum.splits prod.splits if_splits
      dest!: concurrency register intro: that)
qed

lemma plan_work_cyclic:
  assumes "validate_specs tasks = Inr specs" and "\<not> acyclic (spec_depends specs)"
  shows "\<exists>e. plan_work persist on_change stamps uuid now request_id ws tree base tasks concurrency s =
    (Inl e, s)"
proof -
  have "\<nexists>order. topological specs = Inr order"
    using topological_succeeds_iff [OF validate_specs_closed [OF assms(1)]] assms(2) by simp
  then obtain e where "topological specs = Inl e" by (cases "topological specs") auto
  then show ?thesis
    using assms(1) by (auto simp: plan_work_def checkS_eq split: sum.splits)
qed

text \<open>The batches of a plan, through the schedule of its specs.\<close>

lemma scheduled_tasks:
  assumes valid: "validate_specs raw = Inr specs" and topo: "topological specs = Inr order"
    and m: "1 \<le> m"
    and placed: "all_placed specs (batch_map specs m [] order) [] tasks"
    and ids: "map dt_local_id tasks = order"
  shows "mset (map dt_local_id tasks) = mset (map ts_id specs)"
    and "\<forall>t\<in>set tasks. \<exists>item\<in>set specs. ts_id item = dt_local_id t \<and>
      dt_resources t = ts_resources item \<and> dt_allowed_paths t = ts_paths item \<and>
      dt_requires t = ts_requires item \<and>
      set (dt_dependencies t) =
        {dt_task_id u |u. u \<in> set tasks \<and> dt_local_id u \<in> set (ts_depends_on item)} \<and>
      (\<forall>u\<in>set tasks. dt_local_id u \<in> set (ts_depends_on item) \<longrightarrow> dt_batch u < dt_batch t)"
    and "length (filter (\<lambda>t. dt_batch t = b) tasks) \<le> m"
    and "\<lbrakk>t \<in> set tasks; u \<in> set tasks; dt_local_id t \<noteq> dt_local_id u; dt_batch t = dt_batch u\<rbrakk> \<Longrightarrow>
      set (dt_resources t) \<inter> set (dt_resources u) = {}"
proof -
  let ?assigned = "batch_map specs m [] order"
  have closed: "specs_closed specs" using valid by (rule validate_specs_closed)
  note order = topological_order [OF closed topo]
  note schedule = planned_schedule [OF valid topo m]
  have dist: "distinct (map fst ?assigned)" using order(1) schedule(2) by simp
  note task = all_placed_task [OF placed ids order(1,3) closed]
  have "map_of ?assigned (dt_local_id t) = Some (dt_batch t)" if "t \<in> set tasks" for t
    using that by (rule task) simp
  then have assigned: "?assigned = map (\<lambda>t. (dt_local_id t, dt_batch t)) tasks"
    using dist ids schedule(2) by (intro assigned_eq) simp_all
  have members: "batch_members ?assigned b = map dt_local_id (filter (\<lambda>t. dt_batch t = b) tasks)" for b
    unfolding assigned batch_members_def by (simp add: filter_map comp_def)
  have "distinct (map ts_id specs)" using closed by (simp add: specs_closed_def)
  then show "mset (map dt_local_id tasks) = mset (map ts_id specs)"
    using order(1,2) ids by (metis set_eq_iff_mset_eq_distinct set_map)
  show "\<forall>t\<in>set tasks. \<exists>item\<in>set specs. ts_id item = dt_local_id t \<and>
      dt_resources t = ts_resources item \<and> dt_allowed_paths t = ts_paths item \<and>
      dt_requires t = ts_requires item \<and>
      set (dt_dependencies t) =
        {dt_task_id u |u. u \<in> set tasks \<and> dt_local_id u \<in> set (ts_depends_on item)} \<and>
      (\<forall>u\<in>set tasks. dt_local_id u \<in> set (ts_depends_on item) \<longrightarrow> dt_batch u < dt_batch t)"
  proof
    fix t assume t: "t \<in> set tasks"
    obtain item where item: "item \<in> set specs" "ts_id item = dt_local_id t"
      and fields: "dt_resources t = ts_resources item \<and> dt_allowed_paths t = ts_paths item \<and>
        dt_requires t = ts_requires item \<and> set (dt_dependencies t) =
          {dt_task_id u |u. u \<in> set tasks \<and> dt_local_id u \<in> set (ts_depends_on item)}"
      using t by (rule task) blast
    have "dt_batch u < dt_batch t" if u: "u \<in> set tasks" "dt_local_id u \<in> set (ts_depends_on item)" for u
    proof -
      have "(ts_id item, dt_batch t) \<in> set ?assigned" using t item by (auto simp: assigned)
      from schedule_okD [OF schedule(1) item(1) this u(2)]
      obtain c where "(dt_local_id u, c) \<in> set ?assigned" "c < dt_batch t" by blast
      moreover have "(dt_local_id u, dt_batch u) \<in> set ?assigned" using u(1) by (auto simp: assigned)
      ultimately show ?thesis using dist by (metis eq_key_imp_eq_value)
    qed
    then show "\<exists>item\<in>set specs. ts_id item = dt_local_id t \<and>
      dt_resources t = ts_resources item \<and> dt_allowed_paths t = ts_paths item \<and>
      dt_requires t = ts_requires item \<and>
      set (dt_dependencies t) =
        {dt_task_id u |u. u \<in> set tasks \<and> dt_local_id u \<in> set (ts_depends_on item)} \<and>
      (\<forall>u\<in>set tasks. dt_local_id u \<in> set (ts_depends_on item) \<longrightarrow> dt_batch u < dt_batch t)"
      using item fields by (intro bexI [of _ item]) simp_all
  qed
  have ok: "length (batch_members ?assigned c) \<le> m \<and>
      conflict_free (share_resource specs) (set (batch_members ?assigned c))" for c
    using schedule(1) by (simp add: schedule_ok_def)
  show "length (filter (\<lambda>t. dt_batch t = b) tasks) \<le> m" using ok [of b] by (simp add: members)
  assume tu: "t \<in> set tasks" "u \<in> set tasks" "dt_local_id t \<noteq> dt_local_id u" "dt_batch t = dt_batch u"
  obtain item where item: "item \<in> set specs" "ts_id item = dt_local_id t" "dt_resources t = ts_resources item"
    using tu(1) by (rule task) blast
  obtain item' where item': "item' \<in> set specs" "ts_id item' = dt_local_id u" "dt_resources u = ts_resources item'"
    using tu(2) by (rule task) blast
  have found: "kget ts_id (ts_id x) specs = Some x" if "x \<in> set specs" for x
    using closed that by (simp add: kget_Some_iff kdistinct_def specs_closed_def)
  have "\<not> share_resource specs (dt_local_id t) (dt_local_id u)"
    using ok [of "dt_batch t"] tu by (auto simp: members conflict_free_def)
  then show "set (dt_resources t) \<inter> set (dt_resources u) = {}"
    using found [OF item(1)] found [OF item'(1)] item item'
    by (simp add: share_resource_def intersects_iff)
qed

text \<open>
  C11: A plan that \<open>plan_work\<close> returns holds exactly the tasks of the validated specs, each with the
  paths, resources and requirements of its spec and with the receipts of its dependencies; every
  dependency is in an earlier batch, a batch has at most \<open>max_concurrency\<close> tasks, from one to six,
  and the tasks of a batch share no resource; the plan is registered. Specs whose dependencies
  have a cycle are refused without any effect.
\<close>

theorem dispatch_plan_schedule:
  assumes "plan_work persist on_change stamps uuid now request_id ws tree base raw concurrency s =
    (result, s')"
  shows "(\<forall>plan. result = Inr plan \<longrightarrow>
      (\<exists>specs. validate_specs raw = Inr specs \<and>
        mset (map dt_local_id (dp_tasks plan)) = mset (map ts_id specs) \<and>
        (\<forall>t\<in>set (dp_tasks plan). \<exists>item\<in>set specs. ts_id item = dt_local_id t \<and>
          dt_resources t = ts_resources item \<and> dt_allowed_paths t = ts_paths item \<and>
          dt_requires t = ts_requires item \<and>
          set (dt_dependencies t) =
            {dt_task_id u |u. u \<in> set (dp_tasks plan) \<and> dt_local_id u \<in> set (ts_depends_on item)} \<and>
          (\<forall>u\<in>set (dp_tasks plan). dt_local_id u \<in> set (ts_depends_on item) \<longrightarrow>
            dt_batch u < dt_batch t))) \<and>
      (\<forall>b. length (filter (\<lambda>t. dt_batch t = b) (dp_tasks plan)) \<le> dp_max_concurrency plan) \<and>
      (\<forall>t\<in>set (dp_tasks plan). \<forall>u\<in>set (dp_tasks plan). dt_local_id t \<noteq> dt_local_id u \<longrightarrow>
        dt_batch t = dt_batch u \<longrightarrow> set (dt_resources t) \<inter> set (dt_resources u) = {}) \<and>
      1 \<le> dp_max_concurrency plan \<and> dp_max_concurrency plan \<le> 6 \<and>
      kget dp_plan_id (dp_plan_id plan) (ds_plans s') = Some plan) \<and>
    (\<forall>specs. validate_specs raw = Inr specs \<longrightarrow>
      \<not> acyclic {(ts_id t, d) |t d. t \<in> set specs \<and> d \<in> set (ts_depends_on t)} \<longrightarrow>
      (\<exists>e. result = Inl e) \<and> s' = s)"
proof (rule conjI; intro allI impI)
  fix plan assume "result = Inr plan"
  with assms have "plan_work persist on_change stamps uuid now request_id ws tree base raw concurrency s =
    (Inr plan, s')" by simp
  then obtain specs order request s1
    where valid: "validate_specs raw = Inr specs" and topo: "topological specs = Inr order"
    and m: "1 \<le> dp_max_concurrency plan" "dp_max_concurrency plan \<le> 6"
    and run: "enqueue_plan persist stamps request ws base specs
      (batch_map specs (dp_max_concurrency plan) [] order) [] order s = (Inr (dp_tasks plan), s1)"
    and stored: "kget dp_plan_id (dp_plan_id plan) (ds_plans s') = Some plan"
    by (rule plan_work_Inr)
  have "set order \<subseteq> ts_id ` set specs"
    using topological_order(2) [OF validate_specs_closed [OF valid] topo] by simp
  moreover have "set order \<subseteq> fst ` set (batch_map specs (dp_max_concurrency plan) [] order)"
    using planned_schedule(2) [OF valid topo m(1)] by (metis set_map subset_refl)
  ultimately have ids: "map dt_local_id (dp_tasks plan) = order"
    and placed: "all_placed specs (batch_map specs (dp_max_concurrency plan) [] order) [] (dp_tasks plan)"
    using enqueue_plan_result [OF run] by auto
  note tasks = scheduled_tasks [OF valid topo m(1) placed ids]
  show "(\<exists>specs. validate_specs raw = Inr specs \<and>
        mset (map dt_local_id (dp_tasks plan)) = mset (map ts_id specs) \<and>
        (\<forall>t\<in>set (dp_tasks plan). \<exists>item\<in>set specs. ts_id item = dt_local_id t \<and>
          dt_resources t = ts_resources item \<and> dt_allowed_paths t = ts_paths item \<and>
          dt_requires t = ts_requires item \<and>
          set (dt_dependencies t) =
            {dt_task_id u |u. u \<in> set (dp_tasks plan) \<and> dt_local_id u \<in> set (ts_depends_on item)} \<and>
          (\<forall>u\<in>set (dp_tasks plan). dt_local_id u \<in> set (ts_depends_on item) \<longrightarrow>
            dt_batch u < dt_batch t))) \<and>
      (\<forall>b. length (filter (\<lambda>t. dt_batch t = b) (dp_tasks plan)) \<le> dp_max_concurrency plan) \<and>
      (\<forall>t\<in>set (dp_tasks plan). \<forall>u\<in>set (dp_tasks plan). dt_local_id t \<noteq> dt_local_id u \<longrightarrow>
        dt_batch t = dt_batch u \<longrightarrow> set (dt_resources t) \<inter> set (dt_resources u) = {}) \<and>
      1 \<le> dp_max_concurrency plan \<and> dp_max_concurrency plan \<le> 6 \<and>
      kget dp_plan_id (dp_plan_id plan) (ds_plans s') = Some plan"
    by (intro conjI exI [of _ specs] allI ballI impI valid m stored tasks(1,3)
      tasks(2) [THEN bspec] tasks(4))
next
  fix specs assume "validate_specs raw = Inr specs"
    and "\<not> acyclic {(ts_id t, d) |t d. t \<in> set specs \<and> d \<in> set (ts_depends_on t)}"
  then obtain e where "plan_work persist on_change stamps uuid now request_id ws tree base raw
      concurrency s = (Inl e, s)"
    using plan_work_cyclic unfolding spec_depends_def by meson
  with assms have "result = Inl e" "s' = s" by auto
  then show "(\<exists>e. result = Inl e) \<and> s' = s" by blast
qed

section \<open>A concrete plan\<close>

definition example_spec :: "string \<Rightarrow> string list \<Rightarrow> string list \<Rightarrow> pyval" where
  "example_spec i deps resources =
     PDict [(''id'', PStr i), (''title'', PStr i), (''depends_on'', PList (map PStr deps)),
       (''resources'', PList (map PStr resources))]"

definition example_specs :: pyval where
  "example_specs =
     PList [example_spec ''ship'' [''api'', ''db''] [], example_spec ''db'' [] [''schema''],
       example_spec ''api'' [] [''schema'']]"

definition example_base :: string where
  "example_base = ''0123456789abcdef0123456789abcdef01234567''"

definition example_stamps :: "nat \<Rightarrow> string \<times> string" where
  "example_stamps n = (''now'', [char_of (97 + n)])"

definition example_controller :: dispatch_state where
  "example_controller = controller_init \<lparr>tl_max_records = 4, tl_records = [], tl_notified = []\<rparr>"

definition example_planning :: "(dispatch_error + dispatch_plan) \<times> dispatch_state" where
  "example_planning =
     plan_work (\<lambda>_. True) None example_stamps ''p'' 0 (PStr ''req'') ''repo'' (PStr ''tree'')
       example_base example_specs (PInt 2) example_controller"

lemma example_planning_value:
  "case example_planning of
     (Inl _, _) \<Rightarrow> False
   | (Inr plan, s) \<Rightarrow>
       map (\<lambda>t. (dt_local_id t, dt_task_id t, dt_batch t)) (dp_tasks plan) =
         [(''api'', ''task-a'', 0), (''db'', ''task-b'', 1), (''ship'', ''task-c'', 2)] \<and>
       dp_plan_id plan = ''plan-p'' \<and> dp_max_concurrency plan = 2"
  by code_simp

theorem dispatch_plan_schedule_witness:
  "\<exists>plan s. example_planning = (Inr plan, s) \<and>
     map dt_batch (dp_tasks plan) = [0, 1, 2] \<and>
     length (filter (\<lambda>t. dt_batch t = 0) (dp_tasks plan)) \<le> 2 \<and>
     kget dp_plan_id ''plan-p'' (ds_plans s) = Some plan"
proof -
  obtain plan s where run: "example_planning = (Inr plan, s)"
    and batches: "map dt_batch (dp_tasks plan) = [0, 1, 2]"
    and plan: "dp_plan_id plan = ''plan-p''" "dp_max_concurrency plan = 2"
  proof -
    obtain r s where "example_planning = (r, s)" by force
    with example_planning_value that show thesis
      by (auto split: sum.splits)
  qed
  note schedule = dispatch_plan_schedule [OF run [unfolded example_planning_def], THEN conjunct1,
    rule_format, OF refl]
  from schedule plan have "length (filter (\<lambda>t. dt_batch t = 0) (dp_tasks plan)) \<le> 2" by (elim conjE) simp
  moreover from schedule plan have "kget dp_plan_id ''plan-p'' (ds_plans s) = Some plan" by (elim conjE) simp
  ultimately show ?thesis
    using run batches by (intro exI [of _ plan] exI [of _ s]) simp
qed

text \<open>Two tasks of one resource: while the first one runs, the second one waits.\<close>

definition example_receipt :: "string \<Rightarrow> task_receipt" where
  "example_receipt i = (example_task TQueued ''t0'')\<lparr>tr_task_id := i, tr_request_id := i, tr_owner_id := None\<rparr>"

definition example_planned :: "string \<Rightarrow> planned_task" where
  "example_planned i =
     \<lparr>dt_local_id = i, dt_task_id = i, dt_title = i, dt_kind = ''implementation'', dt_dependencies = [],
      dt_allowed_paths = [], dt_resources = [''schema''], dt_requires = [], dt_batch = 0\<rparr>"

definition example_dispatch :: dispatch_state where
  "example_dispatch =
     (controller_init \<lparr>tl_max_records = 4,
        tl_records = [(example_receipt ''a'')\<lparr>tr_resources := [''schema'']\<rparr>, example_receipt ''b''],
        tl_notified = []\<rparr>)
     \<lparr>ds_plans := [\<lparr>dp_plan_id = ''p'', dp_request_id = ''req'', dp_workspace_id = ''repo'',
        dp_working_tree_id = ''tree'', dp_base_revision = example_base, dp_max_concurrency = 2,
        dp_tasks = [example_planned ''a'', example_planned ''b''], dp_created_at = 0\<rparr>]\<rparr>"

definition example_claim :: "dispatch_state \<Rightarrow> (dispatch_error + claim_result) \<times> dispatch_state" where
  "example_claim s = claim_task (\<lambda>_. True) ''later'' None None ''p'' (PStr ''worker'') [] s"

lemma example_claim_value:
  "case example_claim example_dispatch of
     (Inr (ClaimGranted t claimed None), s) \<Rightarrow> dt_task_id t = ''a''
   | _ \<Rightarrow> False"
  by code_simp

theorem claim_respects_plan_witness:
  "\<exists>t claimed s. example_claim example_dispatch = (Inr (ClaimGranted t claimed None), s) \<and>
     dt_task_id t = ''a'' \<and> held (ds_ledger s) ''a'' = Some claimed \<and>
     tr_status claimed = TRunning \<and> tr_owner_id claimed = Some ''worker''"
proof -
  obtain r s where run: "example_claim example_dispatch = (r, s)" by force
  then obtain t claimed where r: "r = Inr (ClaimGranted t claimed None)" and t: "dt_task_id t = ''a''"
    using example_claim_value by (auto split: sum.splits claim_result.splits option.splits)
  note claim = claim_respects_plan [OF run [unfolded example_claim_def], THEN conjunct1, rule_format, OF r]
  then have "held (ds_ledger s) (dt_task_id t) = Some claimed" "tr_status claimed = TRunning"
    "map_option PStr (tr_owner_id claimed) = Some (PStr ''worker'')"
    by blast+
  then have "tr_owner_id claimed = Some ''worker''" by (cases "tr_owner_id claimed") simp_all
  with run r t \<open>held (ds_ledger s) (dt_task_id t) = Some claimed\<close> \<open>tr_status claimed = TRunning\<close>
  show ?thesis by (intro exI conjI) simp_all
qed

text \<open>
  A task that has succeeded may be evicted from a full ledger when another one is enqueued. The
  plan still names it, so every later claim and every status of the plan reads the status of
  \<open>None\<close>: here the second task, which could be claimed before, never can be again.
\<close>

definition half_done :: dispatch_state where
  "half_done = example_dispatch\<lparr>ds_ledger := \<lparr>tl_max_records = 2,
     tl_records = [(example_receipt ''a'')\<lparr>tr_status := TSucceeded\<rparr>, example_receipt ''b''],
     tl_notified = []\<rparr>\<rparr>"

definition after_enqueue :: dispatch_state where
  "after_enqueue =
     snd (in_ledger (task_enqueue (\<lambda>_. True) ''t1'' ''new'' (example_enqueue ''r9'' [])) half_done)"

lemma evicted_task_stops_claims:
  "(case fst (example_claim half_done) of Inr (ClaimGranted t _ _) \<Rightarrow> dt_task_id t = ''b'' | _ \<Rightarrow> False) \<and>
   fst (example_claim after_enqueue) = Inl DispatchAttributeError \<and>
   fst (dispatch_status ''p'' after_enqueue) = Inl DispatchAttributeError"
  by (intro conjI) code_simp+

end
