(* ===== verification/DevelopmentLoop.thy ===== *)
theory DevelopmentLoop
  imports PyJson
begin

text \<open>
  The bounded state machine of \<open>src/src/chatgpt_dev_mcp/development_loop.py\<close> and the resolution
  of its next action, \<open>DirectorNextAction.resolve\<close> of
  \<open>src/src/chatgpt_dev_mcp/director_dispatch.py\<close>. The parameters \<open>sha\<close> and \<open>float_text\<close> stand for
  the hexadecimal SHA-256 digest and for \<open>float.__repr__\<close>; an argument that the code checks
  dynamically is a \<open>pyval\<close>, whose numbers are finite.
\<close>

section \<open>Phases, budgets and events\<close>

datatype loop_error =
    LoopValueError string
  | InvalidLoopEvent string string

datatype loop_phase =
    LImplement | LFastVerify | LRemediate | LQA | LReview | LFullVerify | LReady | LBlocked | LFailed

fun loop_phase_name :: "loop_phase \<Rightarrow> string" where
  "loop_phase_name LImplement = ''IMPLEMENT''"
| "loop_phase_name LFastVerify = ''FAST_VERIFY''"
| "loop_phase_name LRemediate = ''REMEDIATE''"
| "loop_phase_name LQA = ''QA''"
| "loop_phase_name LReview = ''REVIEW''"
| "loop_phase_name LFullVerify = ''FULL_VERIFY''"
| "loop_phase_name LReady = ''READY''"
| "loop_phase_name LBlocked = ''BLOCKED''"
| "loop_phase_name LFailed = ''FAILED''"

definition loop_terminal_phases :: "loop_phase list" where
  "loop_terminal_phases = [LReady, LBlocked, LFailed]"

record loop_budgets =
  lb_max_iterations :: int
  lb_max_wall_seconds :: int
  lb_max_changed_files :: int
  lb_max_diff_bytes :: int
  lb_max_repeated_failure :: int
  lb_max_no_progress :: int

definition default_loop_budgets :: loop_budgets where
  "default_loop_budgets =
     \<lparr>lb_max_iterations = 32, lb_max_wall_seconds = 3600, lb_max_changed_files = 64,
      lb_max_diff_bytes = 2 * 1024 * 1024, lb_max_repeated_failure = 3, lb_max_no_progress = 3\<rparr>"

definition int_within :: "string \<Rightarrow> int \<Rightarrow> int \<Rightarrow> pyval \<Rightarrow> loop_error + int" where
  "int_within message least greatest value =
     (case value of
        PInt n \<Rightarrow> if least \<le> n \<and> n \<le> greatest then Inr n else Inl (LoopValueError message)
      | _ \<Rightarrow> Inl (LoopValueError message))"

definition make_loop_budgets ::
  "pyval \<Rightarrow> pyval \<Rightarrow> pyval \<Rightarrow> pyval \<Rightarrow> pyval \<Rightarrow> pyval \<Rightarrow> loop_error + loop_budgets" where
  "make_loop_budgets iterations wall files diff failure progress =
     bindE (int_within ''max_iterations is outside bounds'' 1 1000 iterations) (\<lambda>i.
     bindE (int_within ''max_wall_seconds is outside bounds'' 1 (24 * 60 * 60) wall) (\<lambda>w.
     bindE (int_within ''max_changed_files is outside bounds'' 1 10000 files) (\<lambda>c.
     bindE (int_within ''max_diff_bytes is outside bounds'' 1 (64 * 1024 * 1024) diff) (\<lambda>d.
     bindE (int_within ''max_repeated_failure is outside bounds'' 1 100 failure) (\<lambda>f.
     bindE (int_within ''max_no_progress is outside bounds'' 1 100 progress) (\<lambda>p.
     Inr \<lparr>lb_max_iterations = i, lb_max_wall_seconds = w, lb_max_changed_files = c,
       lb_max_diff_bytes = d, lb_max_repeated_failure = f, lb_max_no_progress = p\<rparr>))))))"

record loop_event =
  le_event_id :: string
  le_kind :: string
  le_at :: time
  le_failure_fingerprint :: string
  le_progress_token :: string
  le_changed_files :: int
  le_diff_bytes :: int

definition loop_text :: "string \<Rightarrow> nat \<Rightarrow> bool \<Rightarrow> pyval \<Rightarrow> loop_error + string" where
  "loop_text message greatest required value =
     (case value of
        PStr s \<Rightarrow> if (required \<and> s = []) \<or> greatest < length s then Inl (LoopValueError message)
          else Inr s
      | _ \<Rightarrow> Inl (LoopValueError message))"

definition loop_time :: "string \<Rightarrow> pyval \<Rightarrow> loop_error + time" where
  "loop_time message value =
     (case value of PInt n \<Rightarrow> Inr (of_int n) | PFloat q \<Rightarrow> Inr q | _ \<Rightarrow> Inl (LoopValueError message))"

definition make_loop_event ::
  "pyval \<Rightarrow> pyval \<Rightarrow> pyval \<Rightarrow> pyval \<Rightarrow> pyval \<Rightarrow> pyval \<Rightarrow> pyval \<Rightarrow> loop_error + loop_event" where
  "make_loop_event event_id kind at_time failure progress changed_files diff_bytes =
     bindE (loop_text ''event_id is invalid'' 128 True event_id) (\<lambda>i.
     bindE (loop_text ''event kind is invalid'' 80 True kind) (\<lambda>k.
     bindE (loop_time ''event time is invalid'' at_time) (\<lambda>t.
     bindE (loop_text ''failure_fingerprint is invalid'' 256 False failure) (\<lambda>f.
     bindE (loop_text ''progress_token is invalid'' 256 False progress) (\<lambda>p.
     bindE (int_within ''changed_files is invalid'' 0 100000 changed_files) (\<lambda>c.
     bindE (int_within ''diff_bytes is invalid'' 0 (256 * 1024 * 1024) diff_bytes) (\<lambda>d.
     Inr \<lparr>le_event_id = i, le_kind = k, le_at = t, le_failure_fingerprint = f,
       le_progress_token = p, le_changed_files = c, le_diff_bytes = d\<rparr>)))))))"

text \<open>The keys in the order of \<open>sort_keys\<close>; the first value is a float.\<close>

definition loop_event_fingerprint ::
  "(string \<Rightarrow> string) \<Rightarrow> (time \<Rightarrow> string) \<Rightarrow> loop_event \<Rightarrow> string" where
  "loop_event_fingerprint sha float_text e =
     sha (ensure_ascii (''{'' @ json_string ''at'' @ '':'' @ float_text (le_at e) @ '','' @
       json_fields
         [(''changed_files'', JInt (le_changed_files e)), (''diff_bytes'', JInt (le_diff_bytes e)),
          (''event_id'', JStr (le_event_id e)),
          (''failure_fingerprint'', JStr (le_failure_fingerprint e)),
          (''kind'', JStr (le_kind e)), (''progress_token'', JStr (le_progress_token e))] @ ''}''))"

section \<open>The state and its steps\<close>

record loop_entry =
  lh_event_id :: string
  lh_fingerprint :: string
  lh_from_phase :: loop_phase
  lh_to_phase :: loop_phase
  lh_reason :: string
  lh_at :: time

record loop_state =
  ls_loop_id :: string
  ls_owner_id :: string
  ls_task_id :: string
  ls_session_id :: string
  ls_worktree_id :: string
  ls_budgets :: loop_budgets
  ls_started_at :: time
  ls_phase :: loop_phase
  ls_history :: "loop_entry list"
  ls_repeated_failure_count :: int
  ls_last_failure_fingerprint :: string
  ls_no_progress_count :: int
  ls_last_progress_token :: string
  ls_stop_reason :: string

definition loop_create ::
  "pyval \<Rightarrow> pyval \<Rightarrow> pyval \<Rightarrow> pyval \<Rightarrow> pyval \<Rightarrow> loop_budgets option \<Rightarrow> pyval \<Rightarrow>
     loop_error + loop_state" where
  "loop_create loop_id owner_id task_id session_id worktree_id budgets started_at =
     bindE (loop_text ''loop_id is invalid'' 160 True loop_id) (\<lambda>l.
     bindE (loop_text ''owner_id is invalid'' 160 True owner_id) (\<lambda>owner.
     bindE (loop_text ''task_id is invalid'' 160 True task_id) (\<lambda>task.
     bindE (loop_text ''session_id is invalid'' 160 True session_id) (\<lambda>session.
     bindE (loop_text ''worktree_id is invalid'' 160 True worktree_id) (\<lambda>worktree.
     bindE (loop_time ''started_at is invalid'' started_at) (\<lambda>started.
     Inr \<lparr>ls_loop_id = l, ls_owner_id = owner, ls_task_id = task, ls_session_id = session,
       ls_worktree_id = worktree,
       ls_budgets = (case budgets of Some b \<Rightarrow> b | None \<Rightarrow> default_loop_budgets),
       ls_started_at = started, ls_phase = LImplement, ls_history = [],
       ls_repeated_failure_count = 0, ls_last_failure_fingerprint = [], ls_no_progress_count = 0,
       ls_last_progress_token = [], ls_stop_reason = []\<rparr>))))))"

definition loop_transitions :: "((loop_phase \<times> string) \<times> loop_phase) list" where
  "loop_transitions =
     [((LImplement, ''implementation_complete''), LFastVerify),
      ((LImplement, ''implementation_failed''), LRemediate),
      ((LFastVerify, ''verification_passed''), LQA),
      ((LFastVerify, ''verification_failed''), LRemediate),
      ((LRemediate, ''remediation_complete''), LFastVerify),
      ((LRemediate, ''remediation_failed''), LFailed),
      ((LQA, ''qa_passed''), LReview),
      ((LQA, ''qa_failed''), LRemediate),
      ((LReview, ''review_passed''), LFullVerify),
      ((LReview, ''review_blocking''), LRemediate),
      ((LReview, ''review_failed''), LRemediate),
      ((LFullVerify, ''verification_passed''), LReady),
      ((LFullVerify, ''verification_failed''), LRemediate),
      ((LReady, ''delivery_failed''), LRemediate)]"

text \<open>The counters that \<open>_append\<close> stores: repeated failures and steps without progress, each
  with the last value seen.\<close>

record loop_counters =
  lc_repeated_failure :: int
  lc_last_failure :: string
  lc_no_progress :: int
  lc_last_progress :: string

definition loop_base :: "loop_state \<Rightarrow> loop_counters" where
  "loop_base s =
     \<lparr>lc_repeated_failure = ls_repeated_failure_count s,
      lc_last_failure = ls_last_failure_fingerprint s,
      lc_no_progress = ls_no_progress_count s, lc_last_progress = ls_last_progress_token s\<rparr>"

definition loop_count :: "loop_state \<Rightarrow> loop_event \<Rightarrow> loop_counters" where
  "loop_count s e =
     \<lparr>lc_repeated_failure =
        (if le_failure_fingerprint e = [] then ls_repeated_failure_count s
         else if le_failure_fingerprint e = ls_last_failure_fingerprint s
         then ls_repeated_failure_count s + 1 else 1),
      lc_last_failure =
        (if le_failure_fingerprint e = [] then ls_last_failure_fingerprint s
         else le_failure_fingerprint e),
      lc_no_progress =
        (if le_progress_token e = [] then ls_no_progress_count s
         else if le_progress_token e = ls_last_progress_token s then ls_no_progress_count s + 1
         else 0),
      lc_last_progress =
        (if le_progress_token e = [] then ls_last_progress_token s else le_progress_token e)\<rparr>"

definition loop_append ::
  "(string \<Rightarrow> string) \<Rightarrow> (time \<Rightarrow> string) \<Rightarrow> loop_state \<Rightarrow> loop_event \<Rightarrow> loop_phase \<Rightarrow> string \<Rightarrow>
     string \<Rightarrow> loop_counters \<Rightarrow> loop_state" where
  "loop_append sha float_text s e to_phase reason stop_reason c =
     s\<lparr>ls_phase := to_phase,
       ls_history := ls_history s @
         [\<lparr>lh_event_id = le_event_id e, lh_fingerprint = loop_event_fingerprint sha float_text e,
           lh_from_phase = ls_phase s, lh_to_phase = to_phase, lh_reason = reason,
           lh_at = le_at e\<rparr>],
       ls_repeated_failure_count := lc_repeated_failure c,
       ls_last_failure_fingerprint := lc_last_failure c,
       ls_no_progress_count := lc_no_progress c,
       ls_last_progress_token := lc_last_progress c,
       ls_stop_reason := stop_reason\<rparr>"

definition upper_char :: "char \<Rightarrow> char" where
  "upper_char c = (if is_lower_char c then char_of (of_char c - (32::nat)) else c)"

definition py_upper :: "string \<Rightarrow> string" where
  "py_upper s = map upper_char s"

text \<open>The budget that an event exhausts first.\<close>

definition loop_budget_stop :: "loop_state \<Rightarrow> loop_event \<Rightarrow> (loop_phase \<times> string) option" where
  "loop_budget_stop s e =
     (if lb_max_iterations (ls_budgets s) < int (length (ls_history s)) + 1
      then Some (LFailed, ''ITERATION_BUDGET'')
      else if of_int (lb_max_wall_seconds (ls_budgets s)) < le_at e - ls_started_at s
      then Some (LBlocked, ''WALL_TIME_BUDGET'')
      else if lb_max_changed_files (ls_budgets s) < le_changed_files e
      then Some (LBlocked, ''CHANGED_FILE_BUDGET'')
      else if lb_max_diff_bytes (ls_budgets s) < le_diff_bytes e
      then Some (LBlocked, ''DIFF_BYTE_BUDGET'')
      else None)"

definition loop_limit_stop :: "loop_state \<Rightarrow> loop_counters \<Rightarrow> string option" where
  "loop_limit_stop s c =
     (if lb_max_repeated_failure (ls_budgets s) \<le> lc_repeated_failure c
      then Some ''REPEATED_FAILURE_LIMIT''
      else if lb_max_no_progress (ls_budgets s) \<le> lc_no_progress c
      then Some ''NO_PROGRESS_LIMIT''
      else None)"

definition loop_next :: "loop_state \<Rightarrow> loop_event \<Rightarrow> loop_error + loop_phase \<times> string" where
  "loop_next s e =
     (if le_kind e = ''blocked'' then Inr (LBlocked, ''EXPLICIT_BLOCK'')
      else if le_kind e = ''fatal'' then Inr (LFailed, ''FATAL_EVENT'')
      else case map_of loop_transitions (ls_phase s, le_kind e) of
          None \<Rightarrow> Inl (InvalidLoopEvent (le_kind e) (loop_phase_name (ls_phase s)))
        | Some next \<Rightarrow>
            Inr (next, if next \<in> {LBlocked, LFailed} then py_upper (le_kind e) else []))"

definition loop_accept ::
  "(string \<Rightarrow> string) \<Rightarrow> (time \<Rightarrow> string) \<Rightarrow> loop_state \<Rightarrow> loop_event \<Rightarrow> loop_error + loop_state" where
  "loop_accept sha float_text s e =
     (case loop_budget_stop s e of
        Some (to_phase, reason) \<Rightarrow>
          Inr (loop_append sha float_text s e to_phase reason reason (loop_base s))
      | None \<Rightarrow>
          (case loop_limit_stop s (loop_count s e) of
             Some reason \<Rightarrow>
               Inr (loop_append sha float_text s e LFailed reason reason (loop_count s e))
           | None \<Rightarrow>
               bindE (loop_next s e) (\<lambda>(to_phase, stop_reason).
               Inr (loop_append sha float_text s e to_phase (le_kind e) stop_reason
                 (loop_count s e)))))"

definition loop_advance ::
  "(string \<Rightarrow> string) \<Rightarrow> (time \<Rightarrow> string) \<Rightarrow> loop_state \<Rightarrow> loop_event \<Rightarrow> loop_error + loop_state" where
  "loop_advance sha float_text s e =
     (case find (\<lambda>h. lh_event_id h = le_event_id e) (ls_history s) of
        Some h \<Rightarrow>
          if lh_fingerprint h = loop_event_fingerprint sha float_text e then Inr s
          else Inl (LoopValueError ''event_id is already bound to different content'')
      | None \<Rightarrow>
          if ls_phase s \<in> set loop_terminal_phases \<and>
            \<not> (ls_phase s = LReady \<and> le_kind e = ''delivery_failed'')
          then Inl (LoopValueError ''loop is already terminal'')
          else if le_at e < ls_started_at s
          then Inl (LoopValueError ''event predates loop start'')
          else loop_accept sha float_text s e)"

definition apply_delivery_failure ::
  "(string \<Rightarrow> string) \<Rightarrow> (time \<Rightarrow> string) \<Rightarrow> loop_state \<Rightarrow> pyval \<Rightarrow> pyval \<Rightarrow>
     loop_error + loop_state" where
  "apply_delivery_failure sha float_text s evidence_ref at_time =
     (if ls_phase s \<notin> {LReady, LRemediate}
      then Inl (LoopValueError ''delivery failure can only reopen READY work'')
      else case evidence_ref of
        PStr ref \<Rightarrow>
          if ref = [] \<or> 256 < length ref \<or> has_nul ref
          then Inl (LoopValueError ''delivery evidence reference is invalid'')
          else
            bindE (make_loop_event (PStr (''delivery:'' @ take 32 (sha ref))) (PStr ''delivery_failed'')
              at_time (PStr (sha ref)) (PStr ref) (PInt 0) (PInt 0)) (\<lambda>e.
            if ls_phase s = LRemediate
            then if list_ex (\<lambda>h. lh_event_id h = le_event_id e \<and>
                     lh_fingerprint h = loop_event_fingerprint sha float_text e) (ls_history s)
              then Inr s
              else Inl (LoopValueError
                ''delivery failure cannot replace existing remediation evidence'')
            else loop_advance sha float_text s e)
      | _ \<Rightarrow> Inl (LoopValueError ''delivery evidence reference is invalid''))"

section \<open>The next action\<close>

fun phase_action :: "loop_phase \<Rightarrow> string" where
  "phase_action LImplement = ''implement''"
| "phase_action LFastVerify = ''verification_fast''"
| "phase_action LRemediate = ''remediate''"
| "phase_action LQA = ''browser_qa''"
| "phase_action LReview = ''independent_review''"
| "phase_action LFullVerify = ''verification_full''"
| "phase_action LReady = ''delivery''"
| "phase_action LBlocked = ''blocked''"
| "phase_action LFailed = ''blocked''"

record action_decision =
  ad_action :: string
  ad_status :: string
  ad_reason :: string
  ad_receipt_id :: string
  ad_loop_id :: string
  ad_task_id :: string
  ad_session_id :: string
  ad_worktree_id :: string
  ad_approval_required :: bool
  ad_external_execution :: bool

definition action_choice ::
  "loop_state \<Rightarrow> string \<Rightarrow> string \<Rightarrow> string \<Rightarrow> string \<Rightarrow> string \<Rightarrow> string \<times> string \<times> string" where
  "action_choice s owner task session worktree delivery_action =
     (if (owner, task, session, worktree) \<noteq>
        (ls_owner_id s, ls_task_id s, ls_session_id s, ls_worktree_id s)
      then (''blocked'', ''blocked'', ''identity_mismatch'')
      else let
          reason = (if ls_stop_reason s \<noteq> [] then ls_stop_reason s
                    else py_lower (loop_phase_name (ls_phase s)))
        in if ls_phase s \<in> {LBlocked, LFailed}
          then (phase_action (ls_phase s), ''blocked'', reason)
          else if ls_phase s = LReady \<and> delivery_action \<noteq> []
          then (delivery_action, ''ready'', ''delivery_ready'')
          else (phase_action (ls_phase s), ''ready'', reason))"

definition resolve_action ::
  "(string \<Rightarrow> string) \<Rightarrow> loop_state \<Rightarrow> string \<Rightarrow> string \<Rightarrow> string \<Rightarrow> string \<Rightarrow> string \<Rightarrow>
     action_decision" where
  "resolve_action sha s owner task session worktree delivery_action =
     (case action_choice s owner task session worktree delivery_action of
        (action, status, reason) \<Rightarrow>
          \<lparr>ad_action = action, ad_status = status, ad_reason = reason,
           ad_receipt_id = ''director-action:'' @ take 32 (sha (ensure_ascii (json_dumps (JObj
             [(''loop_id'', JStr (ls_loop_id s)),
              (''phase'', JStr (loop_phase_name (ls_phase s))), (''owner_id'', JStr owner),
              (''task_id'', JStr task), (''session_id'', JStr session),
              (''worktree_id'', JStr worktree), (''action'', JStr action),
              (''status'', JStr status), (''reason'', JStr reason),
              (''history'', JList (map (\<lambda>h. jstrs [lh_event_id h, lh_fingerprint h])
                (ls_history s)))])))),
           ad_loop_id = ls_loop_id s, ad_task_id = ls_task_id s, ad_session_id = ls_session_id s,
           ad_worktree_id = ls_worktree_id s, ad_approval_required = False,
           ad_external_execution = False\<rparr>)"

section \<open>Runs of a loop\<close>

definition loop_budgets_valid :: "loop_budgets \<Rightarrow> bool" where
  "loop_budgets_valid b \<longleftrightarrow>
     lb_max_iterations b \<in> {1..1000} \<and> lb_max_wall_seconds b \<in> {1..86400} \<and>
     lb_max_changed_files b \<in> {1..10000} \<and> lb_max_diff_bytes b \<in> {1..67108864} \<and>
     lb_max_repeated_failure b \<in> {1..100} \<and> lb_max_no_progress b \<in> {1..100}"

lemma int_within_Inr [result_simps]:
  "int_within message least greatest value = Inr n \<longleftrightarrow> value = PInt n \<and> n \<in> {least..greatest}"
  by (auto simp: int_within_def split: pyval.splits)

lemma make_loop_budgets_valid:
  "make_loop_budgets i w c d f p = Inr b \<Longrightarrow> loop_budgets_valid b"
  by (auto simp: make_loop_budgets_def loop_budgets_valid_def result_simps)

text \<open>The states that a loop can be in: created, and then moved by events and by failed
  deliveries.\<close>

inductive loop_history :: "(string \<Rightarrow> string) \<Rightarrow> (time \<Rightarrow> string) \<Rightarrow> loop_state \<Rightarrow> bool"
  for sha float_text where
  loop_created:
    "loop_create l ow ta se wo budgets st = Inr s \<Longrightarrow> loop_budgets_valid (ls_budgets s) \<Longrightarrow>
     loop_history sha float_text s"
| loop_advanced:
    "loop_history sha float_text s \<Longrightarrow> loop_advance sha float_text s e = Inr t \<Longrightarrow>
     loop_history sha float_text t"
| loop_delivery_failed:
    "loop_history sha float_text s \<Longrightarrow>
     apply_delivery_failure sha float_text s evidence at_time = Inr t \<Longrightarrow>
     loop_history sha float_text t"

definition loop_closed :: "loop_phase \<Rightarrow> bool" where
  "loop_closed p \<longleftrightarrow> p = LBlocked \<or> p = LFailed"

definition loop_edge :: "loop_phase \<Rightarrow> string \<Rightarrow> loop_phase \<Rightarrow> bool" where
  "loop_edge p reason q \<longleftrightarrow> \<not> loop_closed p \<and> (loop_closed q \<or> map_of loop_transitions (p, reason) = Some q)"

text \<open>A chain of history entries, each along an edge of the machine.\<close>

inductive loop_chain :: "loop_entry list \<Rightarrow> loop_phase \<Rightarrow> bool" where
  chain_start: "loop_chain [] LImplement"
| chain_step: "loop_chain hs p \<Longrightarrow> lh_from_phase h = p \<Longrightarrow> loop_edge p (lh_reason h) (lh_to_phase h) \<Longrightarrow>
    loop_chain (hs @ [h]) (lh_to_phase h)"

definition loop_inv :: "loop_state \<Rightarrow> bool" where
  "loop_inv s \<longleftrightarrow>
     loop_budgets_valid (ls_budgets s) \<and> loop_chain (ls_history s) (ls_phase s) \<and>
     distinct (map lh_event_id (ls_history s)) \<and>
     int (length (ls_history s)) \<le>
       lb_max_iterations (ls_budgets s) + (if ls_phase s = LFailed then 1 else 0) \<and>
     (\<forall>h\<in>set (ls_history s). ls_started_at s \<le> lh_at h \<and>
        (loop_closed (lh_to_phase h) \<or>
         lh_at h \<le> ls_started_at s + of_int (lb_max_wall_seconds (ls_budgets s))))"

text \<open>What one event does: nothing when it was delivered before, one more entry otherwise.\<close>

definition loop_moved ::
  "(string \<Rightarrow> string) \<Rightarrow> (time \<Rightarrow> string) \<Rightarrow> loop_state \<Rightarrow> loop_event \<Rightarrow> loop_state \<Rightarrow> bool" where
  "loop_moved sha float_text s e t \<longleftrightarrow>
     (\<exists>to_phase reason stop_reason c.
        t = loop_append sha float_text s e to_phase reason stop_reason c \<and>
        loop_edge (ls_phase s) reason to_phase \<and>
        le_event_id e \<notin> lh_event_id ` set (ls_history s) \<and> ls_started_at s \<le> le_at e \<and>
        (to_phase = LFailed \<or> int (length (ls_history s)) < lb_max_iterations (ls_budgets s)) \<and>
        (loop_closed to_phase \<or>
         le_at e \<le> ls_started_at s + of_int (lb_max_wall_seconds (ls_budgets s))))"

lemma loop_budget_stop_cases:
  "case loop_budget_stop s e of
     None \<Rightarrow> int (length (ls_history s)) < lb_max_iterations (ls_budgets s) \<and>
       le_at e \<le> ls_started_at s + of_int (lb_max_wall_seconds (ls_budgets s))
   | Some (p, _) \<Rightarrow> loop_closed p \<and>
       (p = LFailed \<or> int (length (ls_history s)) < lb_max_iterations (ls_budgets s))"
  by (auto simp: loop_budget_stop_def loop_closed_def)

lemma loop_next_edge:
  "loop_next s e = Inr (p, stop) \<Longrightarrow> \<not> loop_closed (ls_phase s) \<Longrightarrow> loop_edge (ls_phase s) (le_kind e) p"
  by (auto simp: loop_next_def loop_edge_def loop_closed_def split: if_splits option.splits)

lemma loop_movedI:
  assumes "loop_edge (ls_phase s) reason p"
    and "le_event_id e \<notin> lh_event_id ` set (ls_history s)" and "ls_started_at s \<le> le_at e"
    and "p = LFailed \<or> int (length (ls_history s)) < lb_max_iterations (ls_budgets s)"
    and "loop_closed p \<or> le_at e \<le> ls_started_at s + of_int (lb_max_wall_seconds (ls_budgets s))"
  shows "loop_moved sha float_text s e (loop_append sha float_text s e p reason stop c)"
  unfolding loop_moved_def using assms by blast

lemma loop_accept_moves:
  assumes acc: "loop_accept sha float_text s e = Inr t" and "\<not> loop_closed (ls_phase s)"
    and "le_event_id e \<notin> lh_event_id ` set (ls_history s)" and "ls_started_at s \<le> le_at e"
  shows "loop_moved sha float_text s e t"
proof (cases "loop_budget_stop s e")
  case (Some pr)
  then show ?thesis
    using assms loop_budget_stop_cases [of s e]
    by (cases pr) (auto simp: loop_accept_def loop_edge_def intro!: loop_movedI)
next
  case None
  note within = loop_budget_stop_cases [of s e, unfolded None option.case]
  show ?thesis
  proof (cases "loop_limit_stop s (loop_count s e)")
    case (Some reason)
    then show ?thesis
      using assms None by (auto simp: loop_accept_def loop_edge_def loop_closed_def intro!: loop_movedI)
  next
    case limit: None
    obtain p stop where "loop_next s e = Inr (p, stop)"
      and t: "t = loop_append sha float_text s e p (le_kind e) stop (loop_count s e)"
      using acc None limit by (auto simp: loop_accept_def result_simps)
    then have "loop_edge (ls_phase s) (le_kind e) p" using assms(2) by (blast intro: loop_next_edge)
    then show ?thesis unfolding t using assms(3,4) within by (intro loop_movedI) auto
  qed
qed

lemma loop_advance_moves:
  assumes adv: "loop_advance sha float_text s e = Inr t"
  shows "t = s \<or> loop_moved sha float_text s e t"
proof (cases "find (\<lambda>h. lh_event_id h = le_event_id e) (ls_history s)")
  case None
  then have new: "le_event_id e \<notin> lh_event_id ` set (ls_history s)"
    by (force simp: find_None_iff)
  have open_phase: "\<not> loop_closed (ls_phase s)" and start: "ls_started_at s \<le> le_at e"
    and "loop_accept sha float_text s e = Inr t"
    using adv None
    by (auto simp: loop_advance_def loop_terminal_phases_def loop_closed_def split: if_splits)
  then show ?thesis using loop_accept_moves new by blast
next
  case (Some h)
  then show ?thesis using adv by (auto simp: loop_advance_def split: if_splits)
qed

lemma apply_delivery_failure_moves:
  assumes "apply_delivery_failure sha float_text s evidence at_time = Inr t"
  shows "t = s \<or> (\<exists>e. loop_advance sha float_text s e = Inr t)"
  using assms by (auto simp: apply_delivery_failure_def result_simps split: if_splits pyval.splits)

lemma loop_moved_fields:
  assumes "loop_moved sha float_text s e t"
  shows "ls_budgets t = ls_budgets s" and "ls_started_at t = ls_started_at s"
    and "length (ls_history t) = Suc (length (ls_history s))"
  using assms by (auto simp: loop_moved_def loop_append_def)

lemma loop_moved_inv: "loop_moved sha float_text s e t \<Longrightarrow> loop_inv s \<Longrightarrow> loop_inv t"
proof -
  assume moved: "loop_moved sha float_text s e t" and inv: "loop_inv s"
  obtain p reason stop c where t: "t = loop_append sha float_text s e p reason stop c"
    and edge: "loop_edge (ls_phase s) reason p"
    and new: "le_event_id e \<notin> lh_event_id ` set (ls_history s)" "ls_started_at s \<le> le_at e"
    and room: "p = LFailed \<or> int (length (ls_history s)) < lb_max_iterations (ls_budgets s)"
    and wall: "loop_closed p \<or> le_at e \<le> ls_started_at s + of_int (lb_max_wall_seconds (ls_budgets s))"
    using moved unfolding loop_moved_def by blast
  have "ls_phase s \<noteq> LFailed" using edge by (auto simp: loop_edge_def loop_closed_def)
  with inv have len: "int (length (ls_history s)) \<le> lb_max_iterations (ls_budgets s)"
    by (simp add: loop_inv_def)
  have chain: "loop_chain (ls_history t) (ls_phase t)"
    using inv edge chain_step [of "ls_history s" "ls_phase s" "last (ls_history t)"]
    by (simp add: t loop_append_def loop_inv_def)
  show ?thesis
    using inv chain new room wall len by (auto simp: t loop_append_def loop_inv_def)
qed

lemma loop_created_inv:
  assumes "loop_create l ow ta se wo budgets st = Inr s" and "loop_budgets_valid (ls_budgets s)"
  shows "loop_inv s"
proof -
  have "ls_history s = []" "ls_phase s = LImplement"
    using assms(1) by (auto simp: loop_create_def result_simps)
  then show ?thesis using assms(2) by (auto simp: loop_inv_def loop_budgets_valid_def chain_start)
qed

lemma loop_history_inv: "loop_history sha float_text s \<Longrightarrow> loop_inv s"
proof (induction rule: loop_history.induct)
  case loop_created
  then show ?case by (rule loop_created_inv)
next
  case (loop_advanced s e t)
  then show ?case using loop_advance_moves loop_moved_inv by metis
next
  case (loop_delivery_failed s evidence at_time t)
  then show ?case using apply_delivery_failure_moves loop_advance_moves loop_moved_inv by metis
qed

subsection \<open>The gates of a ready loop\<close>

text \<open>The edges into a phase.\<close>

definition edges_into :: "loop_phase \<Rightarrow> ((loop_phase \<times> string) \<times> loop_phase) list" where
  "edges_into q = filter (\<lambda>entry. snd entry = q) loop_transitions"

lemma edges_into_gates:
  "edges_into LReady = [((LFullVerify, ''verification_passed''), LReady)]"
  "edges_into LFullVerify = [((LReview, ''review_passed''), LFullVerify)]"
  "edges_into LReview = [((LQA, ''qa_passed''), LReview)]"
  "edges_into LQA = [((LFastVerify, ''verification_passed''), LQA)]"
  by (simp_all add: edges_into_def loop_transitions_def)

lemma edge_into: "map_of loop_transitions k = Some q \<Longrightarrow> (k, q) \<in> set (edges_into q)"
  by (auto simp: edges_into_def dest: map_of_SomeD)

definition gate :: "loop_entry \<Rightarrow> loop_phase \<times> string" where
  "gate h = (lh_from_phase h, lh_reason h)"

lemma loop_chain_last:
  assumes chain: "loop_chain hs q" and q: "q \<noteq> LImplement" "\<not> loop_closed q"
    and only: "edges_into q = [(k, q)]"
  obtains gs h where "hs = gs @ [h]" and "loop_chain gs (fst k)" and "lh_to_phase h = q" and "gate h = k"
proof -
  from chain show thesis
  proof (cases rule: loop_chain.cases)
    case chain_start
    with q(1) show thesis by simp
  next
    case (chain_step gs p h)
    have "gate h = k"
      using chain_step(2,4,5) q(2) edge_into [of "gate h" q] only
      by (simp add: loop_edge_def gate_def)
    then show thesis using chain_step by (intro that [of gs h]) (auto simp: gate_def)
  qed
qed

definition gates_passed :: "loop_entry list \<Rightarrow> bool" where
  "gates_passed gates \<longleftrightarrow>
     map (\<lambda>h. (lh_from_phase h, lh_reason h)) gates =
       [(LFastVerify, ''verification_passed''), (LQA, ''qa_passed''), (LReview, ''review_passed''),
        (LFullVerify, ''verification_passed'')]"

lemma chain_through_gates:
  assumes "loop_chain hs LReady"
  obtains gs gates where "hs = gs @ gates" and "gates_passed gates"
    and "lh_to_phase (last gates) = LReady"
proof -
  obtain hf f where f: "hs = hf @ [f]" "loop_chain hf LFullVerify" "lh_to_phase f = LReady"
      "gate f = (LFullVerify, ''verification_passed'')"
    by (rule loop_chain_last [OF assms _ _ edges_into_gates(1)]) (simp_all add: loop_closed_def)
  obtain hr r where r: "hf = hr @ [r]" "loop_chain hr LReview" "gate r = (LReview, ''review_passed'')"
    by (rule loop_chain_last [OF f(2) _ _ edges_into_gates(2)]) (simp_all add: loop_closed_def)
  obtain hq q where q: "hr = hq @ [q]" "loop_chain hq LQA" "gate q = (LQA, ''qa_passed'')"
    by (rule loop_chain_last [OF r(2) _ _ edges_into_gates(3)]) (simp_all add: loop_closed_def)
  obtain gs v where v: "hq = gs @ [v]" "gate v = (LFastVerify, ''verification_passed'')"
    by (rule loop_chain_last [OF q(2) _ _ edges_into_gates(4)]) (simp_all add: loop_closed_def)
  have "gates_passed [v, q, r, f]"
    using f(4) r(3) q(3) v(2) by (simp add: gates_passed_def gate_def)
  moreover have "hs = gs @ [v, q, r, f]" using f(1) r(1) q(1) v(1) by simp
  ultimately show ?thesis using that f(3) by simp
qed

subsection \<open>The budgets of an open loop\<close>

text \<open>An event within the budgets that bound single events, and an entry that records it.\<close>

definition event_within :: "loop_state \<Rightarrow> loop_event \<Rightarrow> bool" where
  "event_within s e \<longleftrightarrow>
     ls_started_at s \<le> le_at e \<and> le_at e \<le> ls_started_at s + of_int (lb_max_wall_seconds (ls_budgets s)) \<and>
     le_changed_files e \<le> lb_max_changed_files (ls_budgets s) \<and>
     le_diff_bytes e \<le> lb_max_diff_bytes (ls_budgets s)"

definition entry_records ::
  "(string \<Rightarrow> string) \<Rightarrow> (time \<Rightarrow> string) \<Rightarrow> loop_event \<Rightarrow> loop_entry \<Rightarrow> bool" where
  "entry_records sha float_text e h \<longleftrightarrow>
     lh_event_id h = le_event_id e \<and> lh_reason h = le_kind e \<and> lh_at h = le_at e \<and>
     lh_fingerprint h = loop_event_fingerprint sha float_text e"

definition budgets_kept :: "(string \<Rightarrow> string) \<Rightarrow> (time \<Rightarrow> string) \<Rightarrow> loop_state \<Rightarrow> bool" where
  "budgets_kept sha float_text s \<longleftrightarrow>
     (\<forall>h\<in>set (ls_history s). loop_closed (lh_to_phase h) \<or>
        (\<exists>e. entry_records sha float_text e h \<and> event_within s e)) \<and>
     (loop_closed (ls_phase s) \<or>
        ls_repeated_failure_count s < lb_max_repeated_failure (ls_budgets s) \<and>
        ls_no_progress_count s < lb_max_no_progress (ls_budgets s))"

lemma budget_stop_None: "loop_budget_stop s e = None \<Longrightarrow> ls_started_at s \<le> le_at e \<Longrightarrow> event_within s e"
  by (auto simp: loop_budget_stop_def event_within_def split: if_splits)

lemma limit_stop_None:
  "loop_limit_stop s c = None \<Longrightarrow> lc_repeated_failure c < lb_max_repeated_failure (ls_budgets s) \<and>
     lc_no_progress c < lb_max_no_progress (ls_budgets s)"
  by (auto simp: loop_limit_stop_def split: if_splits)

lemma append_budgets_kept:
  assumes "budgets_kept sha float_text s"
    and "loop_closed p \<or> reason = le_kind e \<and> event_within s e \<and>
      lc_repeated_failure c < lb_max_repeated_failure (ls_budgets s) \<and>
      lc_no_progress c < lb_max_no_progress (ls_budgets s)"
  shows "budgets_kept sha float_text (loop_append sha float_text s e p reason stop c)"
  using assms
  by (auto simp: budgets_kept_def loop_append_def event_within_def entry_records_def)

lemma advance_budgets_kept:
  assumes "loop_advance sha float_text s e = Inr t" and kept: "budgets_kept sha float_text s"
  shows "budgets_kept sha float_text t"
proof -
  have "t = s \<or> loop_accept sha float_text s e = Inr t \<and> ls_started_at s \<le> le_at e"
    using assms(1) by (auto simp: loop_advance_def split: option.splits if_splits)
  then consider "t = s" | "loop_accept sha float_text s e = Inr t" "ls_started_at s \<le> le_at e" by blast
  then show ?thesis
  proof cases
    case 2
    show ?thesis
    proof (cases "loop_budget_stop s e")
      case (Some pr)
      then have "loop_closed (fst pr)" using loop_budget_stop_cases [of s e] by (cases pr) simp
      with 2(1) Some show ?thesis
        by (cases pr) (auto simp: loop_accept_def intro!: append_budgets_kept [OF kept])
    next
      case None
      note within = budget_stop_None [OF None 2(2)]
      show ?thesis
      proof (cases "loop_limit_stop s (loop_count s e)")
        case (Some reason)
        with 2(1) None show ?thesis
          by (auto simp: loop_accept_def loop_closed_def intro!: append_budgets_kept [OF kept])
      next
        case limit: None
        with 2(1) None within limit_stop_None [OF limit] show ?thesis
          by (auto simp: loop_accept_def result_simps intro!: append_budgets_kept [OF kept])
      qed
    qed
  qed (use kept in simp)
qed

lemma history_budgets_kept: "loop_history sha float_text s \<Longrightarrow> budgets_kept sha float_text s"
proof (induction rule: loop_history.induct)
  case (loop_created l ow ta se wo budgets st s)
  then have "ls_history s = []" "ls_repeated_failure_count s = 0" "ls_no_progress_count s = 0"
    by (auto simp: loop_create_def result_simps)
  with loop_created(2) show ?case by (simp add: budgets_kept_def loop_budgets_valid_def)
next
  case (loop_advanced s e t)
  then show ?case using advance_budgets_kept by blast
next
  case (loop_delivery_failed s evidence at_time t)
  then show ?case using apply_delivery_failure_moves advance_budgets_kept by blast
qed

lemma open_chain: "loop_chain hs q \<Longrightarrow> \<not> loop_closed q \<Longrightarrow> h \<in> set hs \<Longrightarrow> \<not> loop_closed (lh_to_phase h)"
  by (induction rule: loop_chain.induct) (auto simp: loop_edge_def)

text \<open>
  C10: A loop is READY only when its last four entries are the passed fast verification, the
  passed QA, the passed review and the passed full verification, in this order, and the loop
  kept all its budgets: at most \<open>max_iterations\<close> events were accepted; every entry records an event,
  under its identifier, kind, time and fingerprint, that came within the wall time and reported no
  more changed files and diff bytes than allowed; and neither the repeated failures nor the steps
  without progress have reached their limits.
\<close>

theorem ready_passed_every_gate:
  assumes "loop_history sha float_text s" and "ls_phase s = LReady"
  shows "\<exists>before gates. ls_history s = before @ gates \<and>
      map (\<lambda>h. (lh_from_phase h, lh_reason h)) gates =
        [(LFastVerify, ''verification_passed''), (LQA, ''qa_passed''), (LReview, ''review_passed''),
         (LFullVerify, ''verification_passed'')] \<and>
      int (length (ls_history s)) \<le> lb_max_iterations (ls_budgets s) \<and>
      (\<forall>h\<in>set (ls_history s). \<exists>e. lh_event_id h = le_event_id e \<and> lh_reason h = le_kind e \<and>
        lh_at h = le_at e \<and> lh_fingerprint h = loop_event_fingerprint sha float_text e \<and>
        ls_started_at s \<le> le_at e \<and>
        le_at e \<le> ls_started_at s + of_int (lb_max_wall_seconds (ls_budgets s)) \<and>
        le_changed_files e \<le> lb_max_changed_files (ls_budgets s) \<and>
        le_diff_bytes e \<le> lb_max_diff_bytes (ls_budgets s)) \<and>
      ls_repeated_failure_count s < lb_max_repeated_failure (ls_budgets s) \<and>
      ls_no_progress_count s < lb_max_no_progress (ls_budgets s)"
proof -
  have inv: "loop_inv s" using assms(1) by (rule loop_history_inv)
  then have chain: "loop_chain (ls_history s) LReady" using assms(2) by (simp add: loop_inv_def)
  obtain gs gates where split: "ls_history s = gs @ gates" and gates: "gates_passed gates"
      and "lh_to_phase (last gates) = LReady"
    by (rule chain_through_gates [OF chain])
  have len: "int (length (ls_history s)) \<le> lb_max_iterations (ls_budgets s)"
    using inv assms(2) by (simp add: loop_inv_def)
  have ready: "\<not> loop_closed LReady" by (simp add: loop_closed_def)
  note kept = history_budgets_kept [OF assms(1), unfolded budgets_kept_def]
  have events: "\<forall>h\<in>set (ls_history s). \<exists>e. lh_event_id h = le_event_id e \<and> lh_reason h = le_kind e \<and>
        lh_at h = le_at e \<and> lh_fingerprint h = loop_event_fingerprint sha float_text e \<and>
        ls_started_at s \<le> le_at e \<and>
        le_at e \<le> ls_started_at s + of_int (lb_max_wall_seconds (ls_budgets s)) \<and>
        le_changed_files e \<le> lb_max_changed_files (ls_budgets s) \<and>
        le_diff_bytes e \<le> lb_max_diff_bytes (ls_budgets s)"
    using kept open_chain [OF chain ready] unfolding entry_records_def event_within_def by blast
  have limits: "ls_repeated_failure_count s < lb_max_repeated_failure (ls_budgets s)"
    "ls_no_progress_count s < lb_max_no_progress (ls_budgets s)"
    using kept ready assms(2) by auto
  show ?thesis
    by (intro exI conjI) (rule split, rule gates [unfolded gates_passed_def], rule len, rule events, (rule limits)+)
qed

text \<open>A concrete loop: five events take it through every gate.\<close>

definition example_event :: "string \<Rightarrow> string \<Rightarrow> loop_event" where
  "example_event i kind =
     \<lparr>le_event_id = i, le_kind = kind, le_at = 1, le_failure_fingerprint = [],
      le_progress_token = [], le_changed_files = 1, le_diff_bytes = 10\<rparr>"

fun loop_run ::
  "(string \<Rightarrow> string) \<Rightarrow> (time \<Rightarrow> string) \<Rightarrow> loop_state \<Rightarrow> loop_event list \<Rightarrow>
     loop_error + loop_state" where
  "loop_run sha float_text s [] = Inr s"
| "loop_run sha float_text s (e # es) =
     bindE (loop_advance sha float_text s e) (\<lambda>t. loop_run sha float_text t es)"

definition example_loop :: "loop_budgets \<Rightarrow> loop_event list \<Rightarrow> loop_error + loop_state" where
  "example_loop budgets es =
     bindE (loop_create (PStr ''loop'') (PStr ''owner'') (PStr ''task'') (PStr ''session'')
       (PStr ''tree'') (Some budgets) (PInt 0)) (\<lambda>s. loop_run (\<lambda>x. x) (\<lambda>_. ''1.0'') s es)"

definition gate_events :: "loop_event list" where
  "gate_events =
     map2 example_event [''1'', ''2'', ''3'', ''4'', ''5'']
       [''implementation_complete'', ''verification_passed'', ''qa_passed'', ''review_passed'',
        ''verification_passed'']"

lemma loop_run_history:
  "loop_history sha float_text s \<Longrightarrow> loop_run sha float_text s es = Inr t \<Longrightarrow>
     loop_history sha float_text t"
  by (induction es arbitrary: s) (auto simp: result_simps intro: loop_advanced)

lemma example_loop_history:
  assumes "example_loop budgets es = Inr t" and "loop_budgets_valid budgets"
  shows "loop_history (\<lambda>x. x) (\<lambda>_. ''1.0'') t"
proof -
  obtain s where create: "loop_create (PStr ''loop'') (PStr ''owner'') (PStr ''task'') (PStr ''session'')
       (PStr ''tree'') (Some budgets) (PInt 0) = Inr s"
    and run: "loop_run (\<lambda>x. x) (\<lambda>_. ''1.0'') s es = Inr t"
    using assms(1) by (auto simp: example_loop_def result_simps)
  have "loop_budgets_valid (ls_budgets s)"
    using create assms(2) by (auto simp: loop_create_def result_simps)
  then show ?thesis using loop_run_history [OF loop_created [OF create]] run by blast
qed

lemma default_loop_budgets_valid: "loop_budgets_valid default_loop_budgets"
  by (simp add: loop_budgets_valid_def default_loop_budgets_def)

theorem ready_passed_every_gate_witness:
  "\<exists>s. example_loop default_loop_budgets gate_events = Inr s \<and> ls_phase s = LReady \<and>
     length (ls_history s) = 5 \<and>
     (\<exists>before gates. ls_history s = before @ gates \<and> length gates = 4)"
proof -
  have run: "case example_loop default_loop_budgets gate_events of
      Inr s \<Rightarrow> ls_phase s = LReady \<and> length (ls_history s) = 5 | Inl _ \<Rightarrow> False"
    by code_simp
  then obtain s where s: "example_loop default_loop_budgets gate_events = Inr s"
    and ready: "ls_phase s = LReady" "length (ls_history s) = 5"
    by (auto split: sum.splits)
  have "loop_history (\<lambda>x. x) (\<lambda>_. ''1.0'') s"
    using s default_loop_budgets_valid by (rule example_loop_history)
  from ready_passed_every_gate [OF this ready(1)] obtain before gates
    where split: "ls_history s = before @ gates"
    and gates: "map (\<lambda>h. (lh_from_phase h, lh_reason h)) gates =
        [(LFastVerify, ''verification_passed''), (LQA, ''qa_passed''), (LReview, ''review_passed''),
         (LFullVerify, ''verification_passed'')]"
    by (elim exE conjE) (rule that)
  from gates [THEN arg_cong [of _ _ length]] have "length gates = 4" by simp
  then show ?thesis using s ready split by (intro exI conjI)
qed

subsection \<open>Loops end\<close>

lemma find_new_entry:
  "i \<notin> lh_event_id ` set hs \<Longrightarrow> find (\<lambda>h. lh_event_id h = i) hs = None"
  by (force simp: find_None_iff)

lemma find_last_entry:
  "lh_event_id h \<notin> lh_event_id ` set hs \<Longrightarrow>
     find (\<lambda>g. lh_event_id g = lh_event_id h) (hs @ [h]) = Some h"
  by (induction hs) auto

lemma loop_advance_closed:
  "loop_closed (ls_phase s) \<Longrightarrow> le_event_id e \<notin> lh_event_id ` set (ls_history s) \<Longrightarrow>
     loop_advance sha float_text s e = Inl (LoopValueError ''loop is already terminal'')"
  by (auto simp: loop_advance_def loop_closed_def loop_terminal_phases_def find_new_entry)

text \<open>A fatal event ends an open loop, whatever its counters are.\<close>

lemma loop_advance_fatal:
  assumes "ls_phase s \<notin> set loop_terminal_phases" and "le_kind e = ''fatal''"
    and "le_event_id e \<notin> lh_event_id ` set (ls_history s)" and "ls_started_at s \<le> le_at e"
  shows "\<exists>t. loop_advance sha float_text s e = Inr t \<and> loop_closed (ls_phase t)"
proof -
  have "find (\<lambda>h. lh_event_id h = le_event_id e) (ls_history s) = None"
    using assms(3) by (rule find_new_entry)
  moreover have "loop_next s e = Inr (LFailed, ''FATAL_EVENT'')"
    using assms(2) by (simp add: loop_next_def)
  ultimately show ?thesis
    using assms(1,4) loop_budget_stop_cases [of s e]
    by (auto simp: loop_advance_def loop_accept_def loop_append_def loop_closed_def
      split: option.splits)
qed

text \<open>The replay of an accepted event changes nothing.\<close>

lemma loop_advance_replay:
  assumes "loop_advance sha float_text s e = Inr t"
  shows "loop_advance sha float_text t e = Inr t"
proof (cases "t = s")
  case False
  then have moved: "loop_moved sha float_text s e t" using loop_advance_moves [OF assms] by simp
  then obtain h where "ls_history t = ls_history s @ [h]" "lh_event_id h = le_event_id e"
    and "lh_fingerprint h = loop_event_fingerprint sha float_text e"
    and "lh_event_id h \<notin> lh_event_id ` set (ls_history s)"
    by (auto simp: loop_moved_def loop_append_def)
  then show ?thesis
    using find_last_entry [of h "ls_history s"] by (simp add: loop_advance_def)
qed (use assms in simp)

text \<open>The events that are left to a loop; every accepted event uses one.\<close>

definition loop_fuel :: "loop_state \<Rightarrow> nat" where
  "loop_fuel s = nat (lb_max_iterations (ls_budgets s) + 1 - int (length (ls_history s)))"

lemma loop_fuel_decreases:
  assumes "loop_history sha float_text s" and "loop_advance sha float_text s e = Inr t" and "t \<noteq> s"
  shows "loop_fuel t < loop_fuel s"
proof -
  have moved: "loop_moved sha float_text s e t" using loop_advance_moves [OF assms(2)] assms(3) by simp
  have "loop_inv t" using loop_moved_inv [OF moved loop_history_inv [OF assms(1)]] .
  then have "int (length (ls_history t)) \<le> lb_max_iterations (ls_budgets t) + 1"
    by (auto simp: loop_inv_def split: if_splits)
  then show ?thesis using loop_moved_fields [OF moved] by (simp add: loop_fuel_def)
qed

text \<open>
  C21: Loops end. A loop accepts at most one event more than \<open>max_iterations\<close>, and the one in
  excess fails it; once BLOCKED or FAILED it refuses every new event; while it is open, a fatal
  event ends it; the replay of an accepted event changes nothing; and the relation of one loop
  state to the next is well-founded, so no sequence of events moves a loop for ever.
\<close>

theorem loops_end:
  assumes "loop_history sha float_text s"
  shows "int (length (ls_history s)) \<le>
      lb_max_iterations (ls_budgets s) + (if ls_phase s = LFailed then 1 else 0) \<and>
    (ls_phase s \<in> {LBlocked, LFailed} \<longrightarrow>
      (\<forall>e. le_event_id e \<notin> lh_event_id ` set (ls_history s) \<longrightarrow>
        loop_advance sha float_text s e = Inl (LoopValueError ''loop is already terminal''))) \<and>
    (ls_phase s \<notin> {LReady, LBlocked, LFailed} \<longrightarrow>
      (\<forall>e. le_event_id e \<notin> lh_event_id ` set (ls_history s) \<longrightarrow> ls_started_at s \<le> le_at e \<longrightarrow>
        le_kind e = ''fatal'' \<longrightarrow>
        (\<exists>t. loop_advance sha float_text s e = Inr t \<and> ls_phase t \<in> {LBlocked, LFailed}))) \<and>
    (\<forall>e t. loop_advance sha float_text s e = Inr t \<longrightarrow> loop_advance sha float_text t e = Inr t) \<and>
    wf {(v, u). loop_history sha float_text u \<and> v \<noteq> u \<and>
      (\<exists>e. loop_advance sha float_text u e = Inr v)}"
proof (intro conjI impI allI)
  show "int (length (ls_history s)) \<le>
      lb_max_iterations (ls_budgets s) + (if ls_phase s = LFailed then 1 else 0)"
    using loop_history_inv [OF assms] by (simp add: loop_inv_def)
next
  fix e :: loop_event assume "ls_phase s \<in> {LBlocked, LFailed}" "le_event_id e \<notin> lh_event_id ` set (ls_history s)"
  then show "loop_advance sha float_text s e = Inl (LoopValueError ''loop is already terminal'')"
    by (intro loop_advance_closed) (auto simp: loop_closed_def)
next
  fix e :: loop_event assume "ls_phase s \<notin> {LReady, LBlocked, LFailed}"
    and "le_event_id e \<notin> lh_event_id ` set (ls_history s)" "ls_started_at s \<le> le_at e"
    and "le_kind e = ''fatal''"
  then show "\<exists>t. loop_advance sha float_text s e = Inr t \<and> ls_phase t \<in> {LBlocked, LFailed}"
    using loop_advance_fatal [of s e] by (auto simp: loop_terminal_phases_def loop_closed_def)
next
  fix e t assume "loop_advance sha float_text s e = Inr t"
  then show "loop_advance sha float_text t e = Inr t" by (rule loop_advance_replay)
next
  show "wf {(v, u). loop_history sha float_text u \<and> v \<noteq> u \<and>
      (\<exists>e. loop_advance sha float_text u e = Inr v)}"
    by (rule wf_subset [OF wf_measure [of loop_fuel]]) (auto intro: loop_fuel_decreases)
qed

text \<open>With a budget of one event the second one fails the loop, and a third is refused.\<close>

definition one_event_budgets :: loop_budgets where
  "one_event_budgets = default_loop_budgets\<lparr>lb_max_iterations := 1\<rparr>"

theorem loops_end_witness:
  "\<exists>s. example_loop one_event_budgets (take 2 gate_events) = Inr s \<and> ls_phase s = LFailed \<and>
     length (ls_history s) = 2 \<and>
     loop_advance (\<lambda>x. x) (\<lambda>_. ''1.0'') s (example_event ''3'' ''qa_passed'') =
       Inl (LoopValueError ''loop is already terminal'')"
proof -
  have run: "case example_loop one_event_budgets (take 2 gate_events) of
      Inr s \<Rightarrow> ls_phase s = LFailed \<and> map lh_event_id (ls_history s) = [''1'', ''2'']
    | Inl _ \<Rightarrow> False"
    by code_simp
  then obtain s where s: "example_loop one_event_budgets (take 2 gate_events) = Inr s"
    and failed: "ls_phase s = LFailed" and ids: "map lh_event_id (ls_history s) = [''1'', ''2'']"
    by (auto split: sum.splits)
  have "loop_budgets_valid one_event_budgets"
    by (simp add: loop_budgets_valid_def one_event_budgets_def default_loop_budgets_def)
  with s have "loop_history (\<lambda>x. x) (\<lambda>_. ''1.0'') s" by (rule example_loop_history)
  note ended = loops_end [OF this, THEN conjunct2, THEN conjunct1]
  have "le_event_id (example_event ''3'' ''qa_passed'') \<notin> lh_event_id ` set (ls_history s)"
    by (simp add: ids flip: set_map) (simp add: example_event_def)
  then have "loop_advance (\<lambda>x. x) (\<lambda>_. ''1.0'') s (example_event ''3'' ''qa_passed'') =
      Inl (LoopValueError ''loop is already terminal'')"
    using ended failed by simp
  moreover have "length (ls_history s) = 2" using ids [THEN arg_cong [of _ _ length]] by simp
  ultimately show ?thesis using s failed by blast
qed

subsection \<open>The next action\<close>

lemma phase_action_delivery [simp]: "phase_action p = ''delivery'' \<longleftrightarrow> p = LReady"
  by (cases p) simp_all

lemma phase_action_work: "ls_phase s \<notin> {LBlocked, LFailed} \<Longrightarrow> phase_action (ls_phase s) \<noteq> ''blocked''"
  by (cases "ls_phase s") simp_all

text \<open>Delivery is the next action only of a READY loop and only for the owner, the task, the
  session and the worktree that the loop is bound to.\<close>

lemma resolve_delivery_ready:
  "ad_action (resolve_action sha s owner task session worktree []) = ''delivery'' \<longleftrightarrow>
     ls_phase s = LReady \<and>
     (owner, task, session, worktree) =
       (ls_owner_id s, ls_task_id s, ls_session_id s, ls_worktree_id s)"
  by (cases "ls_phase s") (auto simp: resolve_action_def action_choice_def Let_def)

lemma resolve_blocked:
  "ad_status (resolve_action sha s owner task session worktree delivery) = ''blocked'' \<longleftrightarrow>
     ls_phase s \<in> {LBlocked, LFailed} \<or>
     (owner, task, session, worktree) \<noteq>
       (ls_owner_id s, ls_task_id s, ls_session_id s, ls_worktree_id s)"
  by (auto simp: resolve_action_def action_choice_def Let_def)

end
