(* ===== verification/Approvals.thy ===== *)
theory Approvals
  imports DirectorText
begin

text \<open>
  One-shot approvals, \<open>src/src/chatgpt_dev_mcp/approval.py\<close>, and risk classes with trusted grants,
  \<open>approval_policy.py\<close>. Both stores keep their dictionary in insertion order. The clock reading
  and the random token of a call are its arguments.
\<close>

section \<open>One-shot approvals\<close>

datatype approval_error = ApprovalError string string

definition manual_approval_ttl_seconds :: time where
  "manual_approval_ttl_seconds = 30 * 60"

record approval_record =
  ar_approval_id :: string
  ar_operation :: string
  ar_workspace_id :: string
  ar_fingerprint :: string
  ar_confirmation :: string
  ar_issued_at :: time
  ar_expires_at :: time
  ar_consumed_at :: "time option"

definition approval_as_dict :: "approval_record \<Rightarrow> (string \<times> pyval) list" where
  "approval_as_dict r =
     [(''approval_token'', PStr (ar_approval_id r)), (''operation'', PStr (ar_operation r)),
      (''workspace_id'', PStr (ar_workspace_id r)), (''fingerprint'', PStr (ar_fingerprint r)),
      (''confirmation'', PStr (ar_confirmation r)), (''issued_at'', PFloat (ar_issued_at r)),
      (''expires_at'', PFloat (ar_expires_at r)), (''one_shot'', PBool True)] @
     (case ar_consumed_at r of None \<Rightarrow> [] | Some t \<Rightarrow> [(''consumed_at'', PFloat t)])"

record approval_store =
  as_ttl_seconds :: time
  as_max_records :: nat
  as_records :: "approval_record list"

type_synonym 'a approval_op = "(approval_store, approval_error, 'a) step"

text \<open>The constructor; \<open>None\<close> where it raises a \<open>ValueError\<close>.\<close>

definition approval_store_init :: "time \<Rightarrow> int \<Rightarrow> approval_store option" where
  "approval_store_init ttl_seconds max_records =
     (if ttl_seconds \<le> 0 then None
      else Some \<lparr>as_ttl_seconds = ttl_seconds, as_max_records = nat (max 16 max_records), as_records = []\<rparr>)"

text \<open>Drop the oldest entries beyond a bound.\<close>

definition drop_oldest :: "('v \<Rightarrow> time) \<Rightarrow> ('v \<Rightarrow> string) \<Rightarrow> nat \<Rightarrow> 'v list \<Rightarrow> 'v list" where
  "drop_oldest issued key bound d =
     (if bound < length d
      then fold (\<lambda>v. kpop key (key v)) (take (length d - bound) (sort_key issued d)) d
      else d)"

definition approval_prune :: "time \<Rightarrow> approval_store \<Rightarrow> approval_store" where
  "approval_prune now s = s\<lparr>as_records := drop_oldest ar_issued_at ar_approval_id (as_max_records s)
     (filter (\<lambda>r. \<not> (ar_expires_at r < now \<or> ar_consumed_at r \<noteq> None)) (as_records s))\<rparr>"

definition approval_argument :: "string \<Rightarrow> nat \<Rightarrow> pyval \<Rightarrow> approval_error + string" where
  "approval_argument name limit value =
     (case value of
        PStr s \<Rightarrow> if py_strip s = [] \<or> limit < length s
                  then Inl (ApprovalError ''APPROVAL_ARGUMENT_INVALID'' (name @ '' is invalid''))
                  else Inr s
      | _ \<Rightarrow> Inl (ApprovalError ''APPROVAL_ARGUMENT_INVALID'' (name @ '' is invalid'')))"

definition approval_issue ::
  "time \<Rightarrow> string \<Rightarrow> pyval \<Rightarrow> pyval \<Rightarrow> pyval \<Rightarrow> pyval \<Rightarrow> approval_record approval_op" where
  "approval_issue now token operation workspace_id fingerprint confirmation =
     checkS (approval_argument ''operation'' 80 operation) (\<lambda>op.
     checkS (approval_argument ''workspace_id'' 128 workspace_id) (\<lambda>workspace.
     checkS (approval_argument ''fingerprint'' 256 fingerprint) (\<lambda>fp.
     checkS (approval_argument ''confirmation'' 400 confirmation) (\<lambda>conf.
     bindS (updS (approval_prune now)) (\<lambda>_.
     readS (\<lambda>s. let r = \<lparr>ar_approval_id = token, ar_operation = op, ar_workspace_id = workspace,
         ar_fingerprint = fp, ar_confirmation = conf, ar_issued_at = now,
         ar_expires_at = now + as_ttl_seconds s, ar_consumed_at = None\<rparr> in
       bindS (updS (\<lambda>s. s\<lparr>as_records := kset ar_approval_id r (as_records s)\<rparr>)) (\<lambda>_. retS r)))))))"

definition approval_consume ::
  "time \<Rightarrow> string \<Rightarrow> string \<Rightarrow> string \<Rightarrow> string \<Rightarrow> string \<Rightarrow> approval_record approval_op" where
  "approval_consume now approval_id confirmation operation workspace_id fingerprint =
     readS (\<lambda>s. case kget ar_approval_id approval_id (as_records s) of
       None \<Rightarrow> failS (ApprovalError ''APPROVAL_INVALID_OR_CONSUMED'' ''approval is unknown or already consumed'')
     | Some r \<Rightarrow>
         if ar_consumed_at r \<noteq> None
         then failS (ApprovalError ''APPROVAL_INVALID_OR_CONSUMED'' ''approval is unknown or already consumed'')
         else if ar_expires_at r < now
         then bindS (updS (\<lambda>s. s\<lparr>as_records := kpop ar_approval_id approval_id (as_records s)\<rparr>)) (\<lambda>_.
              failS (ApprovalError ''APPROVAL_EXPIRED'' ''approval has expired''))
         else if ar_operation r \<noteq> operation \<or> ar_workspace_id r \<noteq> workspace_id \<or>
           ar_fingerprint r \<noteq> fingerprint
         then failS (ApprovalError ''APPROVAL_BINDING_MISMATCH'' ''approval target has changed'')
         else if ar_confirmation r \<noteq> confirmation
         then failS (ApprovalError ''APPROVAL_CONFIRMATION_MISMATCH'' ''confirmation does not match'')
         else
           let r' = r\<lparr>ar_consumed_at := Some now\<rparr> in
           bindS (updS (\<lambda>s. s\<lparr>as_records := kset ar_approval_id r' (as_records s)\<rparr>)) (\<lambda>_. retS r'))"

definition approval_invalidate_all :: "approval_store \<Rightarrow> approval_store" where
  "approval_invalidate_all s = s\<lparr>as_records := []\<rparr>"

section \<open>Risk classes\<close>

datatype policy_error = PolicyError string string

datatype risk_class = R0 | R1 | R2 | R3

definition r0_operations :: "string list" where
  "r0_operations =
     [''workspace_status'', ''workspace_list'', ''workspace_profile'', ''workspace_project_policy_get'',
      ''director_health'', ''director_status_summary'', ''git_status'', ''git_diff'', ''read_file'',
      ''search_text'', ''security_audit'', ''git_stage_preflight'', ''git_stage_paths_preflight'',
      ''git_stage_hunks_preflight'']"

definition r1_operations :: "string list" where
  "r1_operations =
     [''run_task'', ''apply_patch'', ''patch_preflight'', ''workspace_resume_development_session'',
      ''director_writer_lease'', ''git_stage'', ''git_stage_paths'', ''git_stage_hunks'',
      ''git_verified_commit_preflight'', ''git_verified_commit'']"

definition r2_operations :: "string list" where
  "r2_operations =
     [''restart_dev_mcp_tunnel'', ''create_mcp_restart_shortcut'', ''install_dev_toolchain'',
      ''host_file_trash'']"

definition r3_operations :: "string list" where
  "r3_operations =
     [''workspace_integrate_development_session'', ''git_commit'', ''git_push'', ''github_workflow_apply'',
      ''git_workflow_apply'', ''arbitrary_command'', ''arbitrary_command_preflight'', ''credential_grant'',
      ''credential_read'', ''privileged_command'', ''destructive_filesystem'', ''host_file_delete'',
      ''destructive_git'']"

definition classify_risk :: "pyval \<Rightarrow> risk_class" where
  "classify_risk operation =
     (case operation of
        PStr s \<Rightarrow>
          if s = [] then R3
          else if s \<in> set r0_operations then R0
          else if s \<in> set r1_operations then R1
          else if s \<in> set r2_operations then R2
          else R3
      | _ \<Rightarrow> R3)"

record risk_decision =
  rd_operation :: string
  rd_risk_class :: risk_class
  rd_authorization_mode :: string
  rd_reason :: string

definition decide_risk :: "pyval \<Rightarrow> risk_decision" where
  "decide_risk operation =
     (let normalized = (case operation of PStr s \<Rightarrow> if s = [] then ''<invalid>'' else s | _ \<Rightarrow> ''<invalid>'');
          risk = classify_risk operation
      in case risk of
          R0 \<Rightarrow> \<lparr>rd_operation = normalized, rd_risk_class = risk, rd_authorization_mode = ''automatic'',
                 rd_reason = ''read-only operation''\<rparr>
        | R1 \<Rightarrow> \<lparr>rd_operation = normalized, rd_risk_class = risk, rd_authorization_mode = ''automatic'',
                 rd_reason = ''bounded safe-local development operation''\<rparr>
        | R2 \<Rightarrow> \<lparr>rd_operation = normalized, rd_risk_class = risk,
                 rd_authorization_mode = ''trusted_session_grant'',
                 rd_reason = ''registered bounded local maintenance operation''\<rparr>
        | R3 \<Rightarrow> \<lparr>rd_operation = normalized, rd_risk_class = risk, rd_authorization_mode = ''human_approval'',
                 rd_reason = (if normalized \<in> set r3_operations then ''explicit high-risk operation''
                              else ''unknown operation fails closed'')\<rparr>)"

section \<open>Trusted grants\<close>

record grant_binding =
  gb_workspace_id :: string
  gb_working_tree_id :: string
  gb_session_id :: string
  gb_task_id :: string
  gb_owner_id :: string

record trusted_grant =
  tg_grant_id :: string
  tg_binding :: grant_binding
  tg_operations :: "string list"
  tg_policy_digest :: string
  tg_issued_at :: time
  tg_expires_at :: time

definition grant_id_re :: "string \<Rightarrow> bool" where
  "grant_id_re = id_format ''._:-'' 159"

definition validate_binding :: "grant_binding \<Rightarrow> policy_error + unit" where
  "validate_binding b =
     (case find (\<lambda>(field, value). \<not> grant_id_re value)
        [(''workspace_id'', gb_workspace_id b), (''working_tree_id'', gb_working_tree_id b),
         (''session_id'', gb_session_id b), (''task_id'', gb_task_id b), (''owner_id'', gb_owner_id b)] of
        None \<Rightarrow> Inr ()
      | Some (field, _) \<Rightarrow> Inl (PolicyError ''TRUSTED_GRANT_BINDING_INVALID'' (field @ '' is invalid'')))"

definition validate_policy_digest :: "pyval \<Rightarrow> policy_error + string" where
  "validate_policy_digest value =
     (case value of
        PStr s \<Rightarrow> if hex64 s then Inr s
                  else Inl (PolicyError ''TRUSTED_GRANT_POLICY_INVALID'' ''policy digest is invalid'')
      | _ \<Rightarrow> Inl (PolicyError ''TRUSTED_GRANT_POLICY_INVALID'' ''policy digest is invalid''))"

record grant_store =
  gs_max_records :: nat
  gs_records :: "trusted_grant list"

type_synonym 'a grant_op = "(grant_store, policy_error, 'a) step"

definition grant_store_init :: "pyval \<Rightarrow> grant_store option" where
  "grant_store_init max_records =
     (case max_records of
        PInt n \<Rightarrow> if 16 \<le> n \<and> n \<le> 4096 then Some \<lparr>gs_max_records = nat n, gs_records = []\<rparr> else None
      | _ \<Rightarrow> None)"

definition grant_prune :: "time \<Rightarrow> grant_store \<Rightarrow> grant_store" where
  "grant_prune now s = s\<lparr>gs_records := drop_oldest tg_issued_at tg_grant_id (gs_max_records s)
     (filter (\<lambda>g. \<not> tg_expires_at g < now) (gs_records s))\<rparr>"

text \<open>A number that is not a boolean.\<close>

definition py_number :: "pyval \<Rightarrow> time option" where
  "py_number value = (case value of PInt n \<Rightarrow> Some (of_int n) | PFloat q \<Rightarrow> Some q | _ \<Rightarrow> None)"

definition grant_issue ::
  "time \<Rightarrow> string \<Rightarrow> grant_binding \<Rightarrow> pyval list \<Rightarrow> pyval \<Rightarrow> pyval \<Rightarrow> pyval \<Rightarrow> trusted_grant grant_op" where
  "grant_issue now token binding operations policy_digest ttl_seconds session_expires_at =
     checkS (validate_binding binding) (\<lambda>_.
     checkS (validate_policy_digest policy_digest) (\<lambda>digest.
     checkS (case py_number ttl_seconds of
         Some ttl \<Rightarrow> if 60 \<le> ttl \<and> ttl \<le> 7200 then Inr ttl
                     else Inl (PolicyError ''TRUSTED_GRANT_TTL_INVALID'' ''trusted grant TTL is outside bounds'')
       | None \<Rightarrow> Inl (PolicyError ''TRUSTED_GRANT_TTL_INVALID'' ''trusted grant TTL is outside bounds'')) (\<lambda>ttl.
     let parsed = py_fromkeys operations in
     if parsed = []
     then failS (PolicyError ''TRUSTED_GRANT_OPERATION_INVALID'' ''trusted grant requires at least one operation'')
     else
     checkS (mapE (\<lambda>operation. case operation of
         PStr s \<Rightarrow> if classify_risk operation = R2 then Inr s
           else Inl (PolicyError ''TRUSTED_GRANT_R3_DENIED''
             ''only R2 operations may be placed in a trusted grant; R3 remains human-approved'')
       | _ \<Rightarrow> Inl (PolicyError ''TRUSTED_GRANT_R3_DENIED''
             ''only R2 operations may be placed in a trusted grant; R3 remains human-approved'')) parsed) (\<lambda>ops.
     checkS (case py_number session_expires_at of
         Some t \<Rightarrow> if t \<le> now
           then Inl (PolicyError ''TRUSTED_GRANT_SESSION_EXPIRED'' ''development session is already expired'')
           else Inr t
       | None \<Rightarrow> Inl (PolicyError ''TRUSTED_GRANT_SESSION_EXPIRED'' ''development session is already expired''))
       (\<lambda>session_expiry.
     bindS (updS (grant_prune now)) (\<lambda>_.
     let g = \<lparr>tg_grant_id = ''grant:'' @ token, tg_binding = binding, tg_operations = ops,
           tg_policy_digest = digest, tg_issued_at = now, tg_expires_at = min (now + ttl) session_expiry\<rparr> in
     bindS (updS (\<lambda>s. s\<lparr>gs_records := kset tg_grant_id g (gs_records s)\<rparr>)) (\<lambda>_. retS g)))))))"

definition grant_validate ::
  "time \<Rightarrow> pyval \<Rightarrow> grant_binding \<Rightarrow> string \<Rightarrow> pyval \<Rightarrow> trusted_grant grant_op" where
  "grant_validate now grant_id binding operation policy_digest =
     checkS (validate_binding binding) (\<lambda>_.
     checkS (validate_policy_digest policy_digest) (\<lambda>digest.
     checkS (case grant_id of PStr s \<Rightarrow> Inr s
       | _ \<Rightarrow> Inl (PolicyError ''TRUSTED_GRANT_INVALID'' ''trusted grant is unknown'')) (\<lambda>key.
     readS (\<lambda>s. case kget tg_grant_id key (gs_records s) of
       None \<Rightarrow> failS (PolicyError ''TRUSTED_GRANT_INVALID'' ''trusted grant is unknown'')
     | Some g \<Rightarrow>
         if tg_expires_at g < now
         then bindS (updS (\<lambda>s. s\<lparr>gs_records := kpop tg_grant_id key (gs_records s)\<rparr>)) (\<lambda>_.
              failS (PolicyError ''TRUSTED_GRANT_EXPIRED'' ''trusted grant has expired''))
         else if tg_binding g \<noteq> binding
         then failS (PolicyError ''TRUSTED_GRANT_BINDING_MISMATCH'' ''trusted grant binding has changed'')
         else if tg_policy_digest g \<noteq> digest
         then failS (PolicyError ''TRUSTED_GRANT_POLICY_MISMATCH'' ''trusted grant policy has changed'')
         else if operation \<notin> set (tg_operations g) \<or> classify_risk (PStr operation) \<noteq> R2
         then failS (PolicyError ''TRUSTED_GRANT_OPERATION_DENIED''
           ''operation is not authorized by this trusted grant'')
         else retS g))))"

definition grant_invalidate_all :: "grant_store \<Rightarrow> grant_store" where
  "grant_invalidate_all s = s\<lparr>gs_records := []\<rparr>"

section \<open>Pruning\<close>

interpretation approval_dict: keyed_store ar_approval_id "kget ar_approval_id" "kset ar_approval_id"
    "kpop ar_approval_id" set "kdistinct ar_approval_id"
  by (rule keyed_list_store)

interpretation grant_dict: keyed_store tg_grant_id "kget tg_grant_id" "kset tg_grant_id"
    "kpop tg_grant_id" set "kdistinct tg_grant_id"
  by (rule keyed_list_store)

lemma fold_kpop: "fold (\<lambda>v. kpop key (key v)) vs d = filter (\<lambda>u. key u \<notin> key ` set vs) d"
  by (induction vs arbitrary: d) (auto simp: kpop_def intro!: filter_cong)

lemma drop_oldest_subset: "set (drop_oldest issued key bound d) \<subseteq> set d"
  by (auto simp: drop_oldest_def fold_kpop)

lemma drop_oldest_kdistinct: "kdistinct key d \<Longrightarrow> kdistinct key (drop_oldest issued key bound d)"
  by (simp add: drop_oldest_def fold_kpop kdistinct_filter)

lemma drop_oldest_kept:
  assumes "kdistinct key d"
  shows "set (drop_oldest issued key bound d) = set (drop (length d - bound) (sort_key issued d))"
proof (cases "bound < length d")
  case True
  let ?n = "length d - bound" and ?s = "sort_key issued d"
  have inj: "inj_on key (set d)" and dist: "distinct ?s"
    using assms by (simp_all add: kdistinct_def distinct_map)
  have split: "set ?s = set (take ?n ?s) \<union> set (drop ?n ?s)" "set (take ?n ?s) \<inter> set (drop ?n ?s) = {}"
    using dist by (metis append_take_drop_id set_append) (metis append_take_drop_id dist distinct_append)
  have "key u \<in> key ` set (take ?n ?s) \<longleftrightarrow> u \<in> set (take ?n ?s)" if "u \<in> set d" for u
    using that inj split(1) by (auto simp: inj_on_def)
  with True split show ?thesis by (auto simp: drop_oldest_def fold_kpop)
qed (simp add: drop_oldest_def)

lemma drop_oldest_length:
  assumes "kdistinct key d" shows "length (drop_oldest issued key bound d) \<le> bound"
proof -
  have "length (drop_oldest issued key bound d) = card (set (drop_oldest issued key bound d))"
    using drop_oldest_kdistinct [OF assms] by (simp add: kdistinct_def distinct_map distinct_card)
  also have "\<dots> \<le> length (drop (length d - bound) (sort_key issued d))"
    using card_length by (simp only: drop_oldest_kept [OF assms])
  also have "\<dots> \<le> bound" by simp
  finally show ?thesis .
qed

lemma drop_oldest_newest:
  assumes "kdistinct key d" "u \<in> set d" "u \<notin> set (drop_oldest issued key bound d)"
    "v \<in> set (drop_oldest issued key bound d)"
  shows "issued u \<le> issued v"
proof -
  let ?n = "length d - bound" and ?s = "sort_key issued d"
  have "u \<in> set ?s" "u \<notin> set (drop ?n ?s)" "v \<in> set (drop ?n ?s)"
    using assms by (simp_all add: drop_oldest_kept)
  then have "u \<in> set (take ?n ?s)" by (metis Un_iff append_take_drop_id set_append)
  moreover have "sorted (map issued (take ?n ?s) @ map issued (drop ?n ?s))"
    by (simp flip: map_append)
  ultimately show ?thesis using \<open>v \<in> set (drop ?n ?s)\<close> by (auto simp: sorted_append)
qed

section \<open>Histories of an approval store\<close>

text \<open>
  What the calls of a store achieved, latest first: an approval was issued, a call of
  \<open>consume\<close> with the given arguments succeeded, or everything was invalidated.
\<close>

datatype approval_event =
    Issued approval_record
  | Consumed time string string string string string
  | Invalidated

inductive approval_history :: "approval_event list \<Rightarrow> approval_store \<Rightarrow> bool" where
  approval_start: "approval_store_init ttl_seconds max_records = Some s \<Longrightarrow> approval_history [] s"
| approval_issued: "approval_history es s \<Longrightarrow>
     approval_issue now token operation workspace_id fingerprint confirmation s = (Inr r, t) \<Longrightarrow>
     approval_history (Issued r # es) t"
| approval_not_issued: "approval_history es s \<Longrightarrow>
     approval_issue now token operation workspace_id fingerprint confirmation s = (Inl e, t) \<Longrightarrow>
     approval_history es t"
| approval_consumed: "approval_history es s \<Longrightarrow>
     approval_consume now i confirmation operation workspace_id fingerprint s = (Inr r, t) \<Longrightarrow>
     approval_history (Consumed now i confirmation operation workspace_id fingerprint # es) t"
| approval_not_consumed: "approval_history es s \<Longrightarrow>
     approval_consume now i confirmation operation workspace_id fingerprint s = (Inl e, t) \<Longrightarrow>
     approval_history es t"
| approval_invalidated: "approval_history es s \<Longrightarrow>
     approval_history (Invalidated # es) (approval_invalidate_all s)"

text \<open>The abstract store: the approvals that a history leaves open.\<close>

fun outstanding :: "approval_event list \<Rightarrow> approval_record set" where
  "outstanding [] = {}"
| "outstanding (Issued r # es) = insert r (outstanding es)"
| "outstanding (Consumed now i confirmation operation workspace_id fingerprint # es) =
     {r \<in> outstanding es. ar_approval_id r \<noteq> i}"
| "outstanding (Invalidated # es) = {}"

fun authorized :: "approval_event list \<Rightarrow> approval_event \<Rightarrow> bool" where
  "authorized es (Consumed now i confirmation operation workspace_id fingerprint) \<longleftrightarrow>
     (\<exists>r\<in>outstanding es. ar_approval_id r = i \<and> ar_confirmation r = confirmation \<and>
        ar_operation r = operation \<and> ar_workspace_id r = workspace_id \<and>
        ar_fingerprint r = fingerprint \<and> now \<le> ar_expires_at r)"
| "authorized es (Issued r) = True"
| "authorized es Invalidated = True"

lemma outstanding_split:
  "r \<in> outstanding es \<Longrightarrow> \<exists>after before. es = after @ Issued r # before \<and> Invalidated \<notin> set after \<and>
     (\<forall>now i c o' w f. Consumed now i c o' w f \<in> set after \<longrightarrow> i \<noteq> ar_approval_id r)"
proof (induction es rule: outstanding.induct)
  case (2 r' es)
  then show ?case
  proof (cases "r = r'")
    case False
    with 2 obtain a b where "es = a @ Issued r # b" "Invalidated \<notin> set a"
      "\<forall>now i c o' w f. Consumed now i c o' w f \<in> set a \<longrightarrow> i \<noteq> ar_approval_id r" by auto
    then show ?thesis by - (rule exI [of _ "Issued r' # a"], rule exI [of _ b], auto)
  qed fastforce
next
  case (3 now i c p w f es)
  then obtain a b where "es = a @ Issued r # b" "Invalidated \<notin> set a"
    "\<forall>now i c o' w f. Consumed now i c o' w f \<in> set a \<longrightarrow> i \<noteq> ar_approval_id r" by auto
  moreover have "ar_approval_id r \<noteq> i" using 3 by simp
  ultimately show ?case by - (rule exI [of _ "Consumed now i c p w f # a"], rule exI [of _ b], auto)
qed auto

definition approval_inv :: "approval_event list \<Rightarrow> approval_store \<Rightarrow> bool" where
  "approval_inv es s \<longleftrightarrow> kdistinct ar_approval_id (as_records s) \<and>
     length (as_records s) \<le> Suc (as_max_records s) \<and>
     (\<forall>r\<in>set (as_records s). ar_consumed_at r = None \<longrightarrow> r \<in> outstanding es)"

lemma approval_inv_prune:
  "approval_inv es s \<Longrightarrow> approval_inv es (approval_prune now s) \<and>
     length (as_records (approval_prune now s)) \<le> as_max_records s"
  using drop_oldest_subset [of ar_issued_at ar_approval_id "as_max_records s"]
  by (fastforce simp: approval_inv_def approval_prune_def drop_oldest_kdistinct kdistinct_filter
      intro: drop_oldest_length le_SucI)

lemma approval_issue_ok:
  assumes "approval_issue now token operation workspace_id fingerprint confirmation s = (Inr r, t)"
  shows "t = (approval_prune now s)\<lparr>as_records := kset ar_approval_id r (as_records (approval_prune now s))\<rparr> \<and>
    ar_consumed_at r = None \<and> ar_expires_at r = now + as_ttl_seconds s"
  using assms
  by (auto simp: approval_issue_def checkS_eq bindS_def readS_def updS_def retS_def Let_def
      approval_prune_def split: sum.splits)

lemma approval_issue_error:
  assumes "approval_issue now token operation workspace_id fingerprint confirmation s = (Inl e, t)"
  shows "t = s"
  using assms
  by (auto simp: approval_issue_def checkS_eq bindS_def readS_def updS_def retS_def Let_def
      split: sum.splits)

lemma approval_consume_ok:
  assumes "approval_consume now i confirmation operation workspace_id fingerprint s = (Inr r, t)"
  obtains p where "kget ar_approval_id i (as_records s) = Some p" "ar_consumed_at p = None"
    "now \<le> ar_expires_at p" "ar_operation p = operation" "ar_workspace_id p = workspace_id"
    "ar_fingerprint p = fingerprint" "ar_confirmation p = confirmation"
    "r = p\<lparr>ar_consumed_at := Some now\<rparr>" "t = s\<lparr>as_records := kset ar_approval_id r (as_records s)\<rparr>"
  using assms
  by (auto simp: approval_consume_def readS_def bindS_def failS_def updS_def retS_def Let_def
      split: option.splits if_splits)

lemma approval_consume_error:
  assumes "approval_consume now i confirmation operation workspace_id fingerprint s = (Inl e, t)"
  shows "t = s \<or> t = s\<lparr>as_records := kpop ar_approval_id i (as_records s)\<rparr>"
  using assms
  by (auto simp: approval_consume_def readS_def bindS_def failS_def updS_def retS_def Let_def
      split: option.splits if_splits)

lemma approval_inv_store:
  assumes "approval_history es s" shows "approval_inv es s"
  using assms
proof (induction rule: approval_history.induct)
  case (approval_start ttl n s)
  then show ?case by (auto simp: approval_store_init_def approval_inv_def kdistinct_def split: if_splits)
next
  case (approval_issued es s now token operation workspace_id fingerprint confirmation r t)
  let ?p = "approval_prune now s"
  have p: "approval_inv es ?p" "length (as_records ?p) \<le> as_max_records ?p"
    using approval_inv_prune [OF approval_issued.IH] by (simp_all add: approval_prune_def)
  then have "length (kset ar_approval_id r (as_records ?p)) \<le> Suc (as_max_records ?p)"
    by (simp add: length_kset)
  with p(1) approval_issue_ok [OF approval_issued(2)] show ?case
    by (auto simp: approval_inv_def kdistinct_kset set_kset)
next
  case (approval_not_issued es s now token operation workspace_id fingerprint confirmation e t)
  with approval_issue_error [OF approval_not_issued(2)] show ?case by simp
next
  case (approval_consumed es s now i confirmation operation workspace_id fingerprint r t)
  obtain p where p: "kget ar_approval_id i (as_records s) = Some p" "r = p\<lparr>ar_consumed_at := Some now\<rparr>"
    "t = s\<lparr>as_records := kset ar_approval_id r (as_records s)\<rparr>"
    using approval_consume_ok [OF approval_consumed(2)] by metis
  then have r: "ar_approval_id r = i" "r \<noteq> p \<Longrightarrow> ar_consumed_at r \<noteq> None" "ar_consumed_at r = Some now"
    "i \<in> ar_approval_id ` set (as_records s)"
    by (auto dest: kget_SomeD)
  then show ?case
    using approval_consumed.IH by (auto simp: p(3) approval_inv_def kdistinct_kset set_kset length_kset)
next
  case (approval_not_consumed es s now i confirmation operation workspace_id fingerprint e t)
  with approval_consume_error [OF approval_not_consumed(2)] show ?case
    by (auto simp: approval_inv_def kdistinct_kpop set_kpop intro: order.trans [OF length_kpop_le])
next
  case (approval_invalidated es s)
  then show ?case by (simp add: approval_inv_def approval_invalidate_all_def kdistinct_def)
qed

lemma approval_history_authorized:
  "approval_history es s \<Longrightarrow> es = later @ e # earlier \<Longrightarrow> authorized earlier e"
proof (induction arbitrary: later rule: approval_history.induct)
  case (approval_issued es s now token operation workspace_id fingerprint confirmation r t)
  then show ?case by (cases later) auto
next
  case (approval_consumed es s now i confirmation operation workspace_id fingerprint r t)
  show ?case
  proof (cases later)
    case Nil
    obtain p where "kget ar_approval_id i (as_records s) = Some p" "ar_consumed_at p = None"
      "now \<le> ar_expires_at p" "ar_operation p = operation" "ar_workspace_id p = workspace_id"
      "ar_fingerprint p = fingerprint" "ar_confirmation p = confirmation"
      using approval_consume_ok [OF approval_consumed.hyps(2)] by metis
    with approval_inv_store [OF approval_consumed.hyps(1)] Nil approval_consumed.prems show ?thesis
      by (auto simp: approval_inv_def dest!: kget_SomeD intro!: bexI [of _ p])
  qed (use approval_consumed in auto)
next
  case (approval_invalidated es s)
  then show ?case by (cases later) auto
qed auto

section \<open>Histories of a grant store\<close>

text \<open>The grants a store has issued, each with the session expiry it was issued under.\<close>

inductive grant_history :: "(trusted_grant \<times> time) list \<Rightarrow> grant_store \<Rightarrow> bool" where
  grant_start: "grant_store_init max_records = Some s \<Longrightarrow> grant_history [] s"
| grant_issued: "grant_history es s \<Longrightarrow> py_number session_expires_at = Some session_expiry \<Longrightarrow>
     grant_issue now token binding operations policy_digest ttl_seconds session_expires_at s = (Inr g, t) \<Longrightarrow>
     grant_history ((g, session_expiry) # es) t"
| grant_not_issued: "grant_history es s \<Longrightarrow>
     grant_issue now token binding operations policy_digest ttl_seconds session_expires_at s = (Inl e, t) \<Longrightarrow>
     grant_history es t"
| grant_validated: "grant_history es s \<Longrightarrow>
     grant_validate now grant_id binding operation policy_digest s = (r, t) \<Longrightarrow> grant_history es t"
| grant_invalidated: "grant_history es s \<Longrightarrow> grant_history [] (grant_invalidate_all s)"

definition sound_grant :: "trusted_grant \<Rightarrow> time \<Rightarrow> bool" where
  "sound_grant g session_expiry \<longleftrightarrow>
     tg_operations g \<noteq> [] \<and> list_all (\<lambda>x. classify_risk (PStr x) = R2) (tg_operations g) \<and>
     tg_expires_at g \<le> tg_issued_at g + 7200 \<and> tg_expires_at g \<le> session_expiry \<and>
     tg_issued_at g < tg_expires_at g"

lemma grant_issue_ok:
  assumes "grant_issue now token binding operations policy_digest ttl_seconds session_expires_at s = (Inr g, t)"
    and "py_number session_expires_at = Some session_expiry"
  shows "sound_grant g session_expiry \<and>
    t = (grant_prune now s)\<lparr>gs_records := kset tg_grant_id g (gs_records (grant_prune now s))\<rparr>"
proof -
  let ?parse = "\<lambda>operation. case operation of
         PStr s \<Rightarrow> if classify_risk operation = R2 then Inr s
           else Inl (PolicyError ''TRUSTED_GRANT_R3_DENIED''
             ''only R2 operations may be placed in a trusted grant; R3 remains human-approved'')
       | _ \<Rightarrow> Inl (PolicyError ''TRUSTED_GRANT_R3_DENIED''
             ''only R2 operations may be placed in a trusted grant; R3 remains human-approved'')"
  from assms obtain ops ttl where ops: "mapE ?parse (py_fromkeys operations) = Inr ops"
    and ne: "py_fromkeys operations \<noteq> []" and ttl: "60 \<le> ttl" "ttl \<le> 7200" "now < session_expiry"
    and g: "tg_operations g = ops" "tg_issued_at g = now" "tg_expires_at g = min (now + ttl) session_expiry"
    and t: "t = (grant_prune now s)\<lparr>gs_records := kset tg_grant_id g (gs_records (grant_prune now s))\<rparr>"
    by (auto simp: grant_issue_def checkS_eq bindS_def updS_def retS_def failS_def Let_def
        split: sum.splits if_splits option.splits)
  have "ops \<noteq> []" using mapE_Inr_length [OF ops] ne by auto
  moreover have "classify_risk (PStr x) = R2" if x: "x \<in> set ops" for x
  proof -
    obtain v where "?parse v = Inr x" using mapE_Inr_set [OF ops x] by blast
    then show ?thesis by (cases v) (simp_all split: if_splits)
  qed
  ultimately show ?thesis using ttl g t by (auto simp: sound_grant_def list_all_iff)
qed

lemma grant_issue_error:
  assumes "grant_issue now token binding operations policy_digest ttl_seconds session_expires_at s = (Inl e, t)"
  shows "t = s"
  using assms
  by (auto simp: grant_issue_def checkS_eq bindS_def updS_def retS_def failS_def Let_def
      split: sum.splits if_splits option.splits)

lemma grant_validate_state:
  assumes "grant_validate now grant_id binding operation policy_digest s = (r, t)"
  shows "t = s \<or> (\<exists>key. t = s\<lparr>gs_records := kpop tg_grant_id key (gs_records s)\<rparr>)"
  using assms
  by (auto simp: grant_validate_def checkS_eq readS_def bindS_def updS_def retS_def failS_def
      split: sum.splits if_splits option.splits)

lemma validate_policy_digest_Inr: "validate_policy_digest v = Inr d \<longleftrightarrow> v = PStr d \<and> hex64 d"
  by (cases v) (auto simp: validate_policy_digest_def)

lemma grant_validate_ok:
  assumes "grant_validate now (PStr key) binding operation (PStr digest) s = (Inr g, t)"
  shows "kget tg_grant_id key (gs_records s) = Some g \<and> t = s \<and> now \<le> tg_expires_at g \<and>
    tg_binding g = binding \<and> tg_policy_digest g = digest \<and> operation \<in> set (tg_operations g)"
proof -
  have "validate_binding binding = Inr ()" and "validate_policy_digest (PStr digest) = Inr digest"
    using assms by (auto simp: grant_validate_def checkS_eq validate_policy_digest_Inr split: sum.splits)
  with assms show ?thesis
    by (auto simp: grant_validate_def checkS_eq readS_def bindS_def updS_def retS_def failS_def
        split: option.splits if_splits)
qed

definition grant_inv :: "(trusted_grant \<times> time) list \<Rightarrow> grant_store \<Rightarrow> bool" where
  "grant_inv es s \<longleftrightarrow> kdistinct tg_grant_id (gs_records s) \<and>
     length (gs_records s) \<le> Suc (gs_max_records s) \<and>
     (\<forall>g\<in>set (gs_records s). g \<in> fst ` set es) \<and> (\<forall>(g, session_expiry)\<in>set es. sound_grant g session_expiry)"

lemma grant_inv_prune:
  "grant_inv es s \<Longrightarrow> grant_inv es (grant_prune now s) \<and>
     length (gs_records (grant_prune now s)) \<le> gs_max_records s"
  using drop_oldest_subset [of tg_issued_at tg_grant_id "gs_max_records s"]
  by (fastforce simp: grant_inv_def grant_prune_def drop_oldest_kdistinct kdistinct_filter
      intro: drop_oldest_length le_SucI)

lemma grant_inv_store:
  assumes "grant_history es s" shows "grant_inv es s"
  using assms
proof (induction rule: grant_history.induct)
  case (grant_start n s)
  then show ?case
    by (auto simp: grant_store_init_def grant_inv_def kdistinct_def split: pyval.splits if_splits)
next
  case (grant_issued es s session_expires_at session_expiry now token binding operations policy_digest
      ttl_seconds g t)
  let ?p = "grant_prune now s"
  have p: "grant_inv es ?p" "length (gs_records ?p) \<le> gs_max_records ?p"
    using grant_inv_prune [OF grant_issued.IH] by (simp_all add: grant_prune_def)
  then have "length (kset tg_grant_id g (gs_records ?p)) \<le> Suc (gs_max_records ?p)"
    by (simp add: length_kset)
  with p(1) grant_issue_ok [OF grant_issued(3,2)] show ?case
    by (auto simp: grant_inv_def kdistinct_kset set_kset)
next
  case (grant_not_issued es s now token binding operations policy_digest ttl_seconds session_expires_at e t)
  with grant_issue_error [OF grant_not_issued(2)] show ?case by simp
next
  case (grant_validated es s now grant_id binding operation policy_digest r t)
  with grant_validate_state [OF grant_validated(2)] show ?case
    by (auto simp: grant_inv_def kdistinct_kpop set_kpop intro: order.trans [OF length_kpop_le])
next
  case (grant_invalidated es s)
  then show ?case by (simp add: grant_inv_def grant_invalidate_all_def kdistinct_def)
qed

section \<open>Properties\<close>

text \<open>
  C6: An approval is one-shot and means what was confirmed. In every history of a store, a call of
  \<open>consume\<close> that succeeded was preceded by the issue of an approval with that token and
  exactly that operation, workspace, fingerprint and confirmation, it came no later than the
  approval's expiry, and between the two nothing was invalidated and the token was not consumed.
\<close>

theorem approvals_one_shot:
  assumes "approval_history es s"
    and "es = later @ Consumed now i confirmation operation workspace_id fingerprint # earlier"
  shows "\<exists>since before r. earlier = since @ Issued r # before \<and>
    ar_approval_id r = i \<and> ar_confirmation r = confirmation \<and> ar_operation r = operation \<and>
    ar_workspace_id r = workspace_id \<and> ar_fingerprint r = fingerprint \<and> now \<le> ar_expires_at r \<and>
    Invalidated \<notin> set since \<and> (\<forall>t c p w f. Consumed t i c p w f \<notin> set since)"
proof -
  obtain r where r: "r \<in> outstanding earlier" "ar_approval_id r = i" "ar_confirmation r = confirmation"
    "ar_operation r = operation" "ar_workspace_id r = workspace_id" "ar_fingerprint r = fingerprint"
    "now \<le> ar_expires_at r"
    using approval_history_authorized [OF assms] by auto
  from outstanding_split [OF r(1)] r(2) obtain since before where
    "earlier = since @ Issued r # before" "Invalidated \<notin> set since"
    "\<forall>t c p w f. Consumed t i c p w f \<notin> set since"
    by blast
  with r show ?thesis by blast
qed

lemma approvals_one_shot_witness:
  "\<exists>since before r. [Issued \<lparr>ar_approval_id = ''tok'', ar_operation = ''git_push'', ar_workspace_id = ''repo'',
       ar_fingerprint = ''f'', ar_confirmation = ''yes'', ar_issued_at = 0, ar_expires_at = 60,
       ar_consumed_at = None\<rparr>] = since @ Issued r # before \<and> ar_fingerprint r = ''f'' \<and> 60 \<le> ar_expires_at r"
proof -
  let ?r = "\<lparr>ar_approval_id = ''tok'', ar_operation = ''git_push'', ar_workspace_id = ''repo'',
       ar_fingerprint = ''f'', ar_confirmation = ''yes'', ar_issued_at = 0, ar_expires_at = 60,
       ar_consumed_at = None\<rparr>"
  let ?s = "\<lparr>as_ttl_seconds = 60, as_max_records = 16, as_records = []\<rparr>"
  have "approval_history [] ?s"
    by (rule approval_start [of 60 0]) (simp add: approval_store_init_def)
  moreover have "approval_issue 0 ''tok'' (PStr ''git_push'') (PStr ''repo'') (PStr ''f'') (PStr ''yes'') ?s =
      (Inr ?r, ?s\<lparr>as_records := [?r]\<rparr>)"
    by code_simp
  ultimately have "approval_history [Issued ?r] (?s\<lparr>as_records := [?r]\<rparr>)" by (rule approval_issued)
  moreover have "approval_consume 60 ''tok'' ''yes'' ''git_push'' ''repo'' ''f'' (?s\<lparr>as_records := [?r]\<rparr>) =
      (Inr (?r\<lparr>ar_consumed_at := Some 60\<rparr>), ?s\<lparr>as_records := [?r\<lparr>ar_consumed_at := Some 60\<rparr>]\<rparr>)"
    by code_simp
  ultimately have "approval_history [Consumed 60 ''tok'' ''yes'' ''git_push'' ''repo'' ''f'', Issued ?r]
      (?s\<lparr>as_records := [?r\<lparr>ar_consumed_at := Some 60\<rparr>]\<rparr>)"
    by (rule approval_consumed)
  from approvals_one_shot [OF this, of "[]"] show ?thesis by fastforce
qed

text \<open>
  C32: A trusted grant authorises maintenance only. In every history of a store, a successful
  \<open>validate\<close> leaves the store as it is and returns a grant issued since the last invalidation, for
  the given binding, policy digest and operation; every operation of the grant is of class R2 and
  the call is at most two hours after the issue and within the expiry of the session.
\<close>

theorem validated_grants_bounded:
  assumes "grant_history es s"
    and "grant_validate now (PStr key) binding operation (PStr digest) s = (Inr g, t)"
  shows "t = s \<and> tg_grant_id g = key \<and> tg_binding g = binding \<and> tg_policy_digest g = digest \<and>
    operation \<in> set (tg_operations g) \<and> (\<forall>x\<in>set (tg_operations g). classify_risk (PStr x) = R2) \<and>
    now \<le> tg_issued_at g + 7200 \<and> (\<exists>session_expiry. (g, session_expiry) \<in> set es \<and> now \<le> session_expiry)"
proof -
  obtain "kget tg_grant_id key (gs_records s) = Some g" "t = s" "now \<le> tg_expires_at g"
    "tg_binding g = binding" "tg_policy_digest g = digest" "operation \<in> set (tg_operations g)"
    using grant_validate_ok [OF assms(2)] by auto
  with grant_inv_store [OF assms(1)] show ?thesis
    by (fastforce simp: grant_inv_def sound_grant_def list_all_iff dest!: kget_SomeD)
qed

definition example_binding :: grant_binding where
  "example_binding = \<lparr>gb_workspace_id = ''repo'', gb_working_tree_id = ''tree'', gb_session_id = ''s1'',
     gb_task_id = ''t1'', gb_owner_id = ''w1''\<rparr>"

definition example_grant :: trusted_grant where
  "example_grant = \<lparr>tg_grant_id = ''grant:tok'', tg_binding = example_binding, tg_operations = [''host_file_trash''],
     tg_policy_digest = replicate 64 CHR ''a'', tg_issued_at = 0, tg_expires_at = 100\<rparr>"

lemma validated_grants_bounded_witness:
  "tg_binding example_grant = example_binding \<and> classify_risk (PStr ''host_file_trash'') = R2"
proof -
  let ?s = "\<lparr>gs_max_records = 16, gs_records = []\<rparr>" and ?d = "replicate 64 CHR ''a''"
  have "grant_history [] ?s"
    by (rule grant_start [of "PInt 16"]) (simp add: grant_store_init_def)
  moreover have "py_number (PInt 100) = Some 100" by (simp add: py_number_def)
  moreover have "grant_issue 0 ''tok'' example_binding [PStr ''host_file_trash''] (PStr ?d) (PInt 600) (PInt 100) ?s =
      (Inr example_grant, ?s\<lparr>gs_records := [example_grant]\<rparr>)"
    by code_simp
  ultimately have "grant_history [(example_grant, 100)] (?s\<lparr>gs_records := [example_grant]\<rparr>)"
    by (rule grant_issued)
  moreover have "grant_validate 50 (PStr ''grant:tok'') example_binding ''host_file_trash'' (PStr ?d)
      (?s\<lparr>gs_records := [example_grant]\<rparr>) = (Inr example_grant, ?s\<lparr>gs_records := [example_grant]\<rparr>)"
    by code_simp
  ultimately have "tg_binding example_grant = example_binding \<and>
      ''host_file_trash'' \<in> set (tg_operations example_grant) \<and>
      (\<forall>x\<in>set (tg_operations example_grant). classify_risk (PStr x) = R2)"
    using validated_grants_bounded by blast
  then show ?thesis by blast
qed

text \<open>
  Both stores stay bounded, whatever is issued: at most one record above the limit, and when a
  store is pruned to its limit no record that is dropped is newer than one that is kept.
\<close>

theorem approval_stores_bounded:
  assumes "approval_history es s" and "grant_history gs g"
  shows "length (as_records s) \<le> Suc (as_max_records s) \<and> length (gs_records g) \<le> Suc (gs_max_records g) \<and>
    (\<forall>now. length (as_records (approval_prune now s)) \<le> as_max_records s \<and>
      (\<forall>r\<in>set (as_records s). \<forall>k\<in>set (as_records (approval_prune now s)).
        now \<le> ar_expires_at r \<and> ar_consumed_at r = None \<and> r \<notin> set (as_records (approval_prune now s)) \<longrightarrow>
        ar_issued_at r \<le> ar_issued_at k))"
proof -
  have a: "approval_inv es s" and "grant_inv gs g"
    using assms by (simp_all add: approval_inv_store grant_inv_store)
  moreover have "ar_issued_at r \<le> ar_issued_at k"
    if "r \<in> set (as_records s)" "k \<in> set (as_records (approval_prune now s))"
      "now \<le> ar_expires_at r" "ar_consumed_at r = None" "r \<notin> set (as_records (approval_prune now s))"
    for now r k
    using that a
    by (intro drop_oldest_newest [of ar_approval_id "filter (\<lambda>r. \<not> (ar_expires_at r < now \<or> ar_consumed_at r \<noteq> None))
          (as_records s)" _ _ "as_max_records s"])
      (auto simp: approval_prune_def approval_inv_def kdistinct_filter)
  ultimately show ?thesis using approval_inv_prune [OF a] by (auto simp: approval_inv_def grant_inv_def)
qed

lemma approval_stores_bounded_witness:
  "length (as_records \<lparr>as_ttl_seconds = 60, as_max_records = 16, as_records = []\<rparr>) \<le> 17"
proof -
  have "approval_history [] \<lparr>as_ttl_seconds = 60, as_max_records = 16, as_records = []\<rparr>"
    by (rule approval_start [of 60 0]) (simp add: approval_store_init_def)
  moreover have "grant_history [] \<lparr>gs_max_records = 16, gs_records = []\<rparr>"
    by (rule grant_start [of "PInt 16"]) (simp add: grant_store_init_def)
  ultimately show ?thesis by (drule_tac approval_stores_bounded) simp_all
qed

end
