(* ===== verification/ExecutionRouter.thy ===== *)
theory ExecutionRouter
  imports Prelude
begin

text \<open>
  Selection of an execution backend, \<open>src/src/chatgpt_dev_mcp/execution_router.py\<close>: a pure
  function of the request and of what is known about the availability of the backends.
\<close>

section \<open>Requests and decisions\<close>

datatype execution_mode = LocalMode | CloudMode | AutoMode

datatype execution_backend = LocalNative | ChatgptBuiltin

datatype workload_kind = Generic | LatencySensitive | ComputeHeavy | BulkAnalysis | PrivilegedLocal

record backend_availability =
  ba_local :: bool
  ba_managed_cloud :: bool
  ba_local_reason :: string
  ba_managed_cloud_reason :: string

definition chatgpt_builtin :: "backend_availability \<Rightarrow> bool" where
  "chatgpt_builtin a = ba_managed_cloud a"

definition chatgpt_builtin_reason :: "backend_availability \<Rightarrow> string" where
  "chatgpt_builtin_reason a = ba_managed_cloud_reason a"

record performance_route_evidence =
  pe_profile_id :: string
  pe_current :: bool
  pe_sufficient :: bool
  pe_managed_cloud_wins :: bool
  pe_reason :: string

record route_request =
  rr_mode :: execution_mode
  rr_workload :: workload_kind
  rr_requires_local_secrets :: bool
  rr_requires_authenticated_browser :: bool
  rr_requires_macos :: bool
  rr_performance :: "performance_route_evidence option"

record route_decision =
  rt_backend :: execution_backend
  rt_reason :: string
  rt_available :: bool
  rt_fallback :: bool

text \<open>\<open>reason or "unavailable"\<close>.\<close>

definition or_unavailable :: "string \<Rightarrow> string" where
  "or_unavailable reason = (if reason = [] then ''unavailable'' else reason)"

definition local_unavailable :: "backend_availability \<Rightarrow> route_decision" where
  "local_unavailable a =
     \<lparr>rt_backend = LocalNative, rt_reason = ''local_unavailable:'' @ or_unavailable (ba_local_reason a),
      rt_available = False, rt_fallback = False\<rparr>"

definition hard_local_requirement :: "route_request \<Rightarrow> string option" where
  "hard_local_requirement r =
     (if rr_requires_local_secrets r then Some ''requires_local_secrets''
      else if rr_requires_authenticated_browser r then Some ''requires_authenticated_browser''
      else if rr_requires_macos r then Some ''requires_macos''
      else if rr_workload r = PrivilegedLocal then Some ''privileged_local_workload''
      else None)"

text \<open>The automatic mode: the built-in backend, or the reason why the local one is preferred.\<close>

definition auto_choice :: "route_request \<Rightarrow> backend_availability \<Rightarrow> string option" where
  "auto_choice r a =
     (if rr_workload r = ComputeHeavy \<or> rr_workload r = BulkAnalysis
      then (case rr_performance r of
              None \<Rightarrow> Some ''auto_performance_profile_missing''
            | Some e \<Rightarrow>
                if \<not> pe_current e then Some ''auto_performance_profile_stale''
                else if \<not> pe_sufficient e then Some ''auto_performance_profile_insufficient''
                else if \<not> pe_managed_cloud_wins e then Some ''auto_chatgpt_builtin_threshold_not_met''
                else if chatgpt_builtin a then None
                else Some (''auto_chatgpt_builtin_unavailable:'' @ or_unavailable (chatgpt_builtin_reason a)))
      else Some ''auto_workload_not_offload_candidate'')"

definition route_to :: "execution_backend \<Rightarrow> string \<Rightarrow> bool \<Rightarrow> route_decision" where
  "route_to backend reason fallback =
     \<lparr>rt_backend = backend, rt_reason = reason, rt_available = True, rt_fallback = fallback\<rparr>"

definition choose_backend :: "route_request \<Rightarrow> backend_availability \<Rightarrow> route_decision" where
  "choose_backend r a =
     (case hard_local_requirement r of
        Some hard_local \<Rightarrow>
          if \<not> ba_local a then local_unavailable a
          else route_to LocalNative (''hard_local_requirement:'' @ hard_local) (rr_mode r = CloudMode)
      | None \<Rightarrow>
          (case rr_mode r of
             LocalMode \<Rightarrow>
               if \<not> ba_local a then local_unavailable a
               else route_to LocalNative ''explicit_local_mode'' False
           | CloudMode \<Rightarrow>
               if chatgpt_builtin a then route_to ChatgptBuiltin ''explicit_chatgpt_builtin_mode'' False
               else if ba_local a
               then route_to LocalNative
                 (''chatgpt_builtin_unavailable:'' @ or_unavailable (chatgpt_builtin_reason a)) True
               else local_unavailable a
           | AutoMode \<Rightarrow>
               (case auto_choice r a of
                  None \<Rightarrow> route_to ChatgptBuiltin ''auto_chatgpt_builtin_measured_win'' False
                | Some auto_reason \<Rightarrow>
                    if ba_local a then route_to LocalNative auto_reason False
                    else local_unavailable a)))"

section \<open>When work may leave the machine\<close>

definition needs_local :: "route_request \<Rightarrow> bool" where
  "needs_local r \<longleftrightarrow> rr_requires_local_secrets r \<or> rr_requires_authenticated_browser r \<or>
     rr_requires_macos r \<or> rr_workload r = PrivilegedLocal"

text \<open>A measurement that is current, sufficient and in favour of the built-in backend.\<close>

definition measured_win :: "route_request \<Rightarrow> bool" where
  "measured_win r \<longleftrightarrow> (rr_workload r = ComputeHeavy \<or> rr_workload r = BulkAnalysis) \<and>
     (case rr_performance r of None \<Rightarrow> False
      | Some e \<Rightarrow> pe_current e \<and> pe_sufficient e \<and> pe_managed_cloud_wins e)"

definition may_leave :: "route_request \<Rightarrow> backend_availability \<Rightarrow> bool" where
  "may_leave r a \<longleftrightarrow> ba_managed_cloud a \<and> \<not> needs_local r \<and>
     (rr_mode r = CloudMode \<or> rr_mode r = AutoMode \<and> measured_win r)"

lemma hard_local_requirement_None: "hard_local_requirement r = None \<longleftrightarrow> \<not> needs_local r"
  by (auto simp: hard_local_requirement_def needs_local_def)

lemma auto_choice_None: "auto_choice r a = None \<longleftrightarrow> ba_managed_cloud a \<and> measured_win r"
  by (auto simp: auto_choice_def measured_win_def chatgpt_builtin_def split: option.splits)

lemmas router_cases = choose_backend_def route_to_def local_unavailable_def may_leave_def
  chatgpt_builtin_def

text \<open>
  Routing is exactly the policy. Work leaves the machine if and only if the built-in backend is
  available, nothing in the request needs the local machine, and the mode asks for it or a current,
  sufficient measurement favours it; otherwise it is routed to the local backend, which is reported
  available exactly when it is; a fallback is reported exactly for an available local backend that
  serves a request for the cloud.
\<close>

theorem choose_backend_policy:
  "(rt_backend (choose_backend r a) = ChatgptBuiltin \<longleftrightarrow> may_leave r a) \<and>
   (rt_available (choose_backend r a) \<longleftrightarrow> may_leave r a \<or> ba_local a) \<and>
   (rt_fallback (choose_backend r a) \<longleftrightarrow> rr_mode r = CloudMode \<and> \<not> may_leave r a \<and> ba_local a)"
proof (cases "needs_local r")
  case True
  then obtain h where "hard_local_requirement r = Some h"
    using hard_local_requirement_None [of r] by auto
  with True show ?thesis by (simp add: router_cases)
next
  case False
  then have h: "hard_local_requirement r = None" by (simp add: hard_local_requirement_None)
  show ?thesis
  proof (cases "rr_mode r")
    case AutoMode
    with False h auto_choice_None [of r a] show ?thesis
      by (cases "auto_choice r a") (auto simp: router_cases)
  qed (use False h in \<open>simp_all add: router_cases\<close>)
qed

end
