(* ===== verification/ControlPlane.thy ===== *)
theory ControlPlane
  imports Prelude
begin

text \<open>
  The control plane of \<open>src/src/chatgpt_dev_mcp/control_plane\<close>: capability contracts
  (\<open>contracts.py\<close>), the runtime that dispatches them and its adapter (\<open>runtime.py\<close>), the local
  command line adapter (\<open>cli.py\<close>) and the recovery of an approved integration (\<open>recovery.py\<close>).
  Handlers and the challenge factory are supplied by the embedding program: they are
  operations on a state \<open>'s\<close> of their own that may raise an \<open>'x\<close>.
\<close>

section \<open>Contracts\<close>

definition control_plane_contract_revision :: string where
  "control_plane_contract_revision = ''control-plane-capabilities-v1''"

definition required_capabilities :: "string list" where
  "required_capabilities =
     [''control.session.status'', ''control.integration.preflight'', ''control.integration.apply'',
      ''control.integration.resume'', ''control.git.stage_paths'', ''control.git.commit_preflight'',
      ''control.doctor'']"

datatype 'x control_plane_error = ControlPlaneError string string | HandlerRaised 'x

text \<open>The operations of a binding are a dictionary: at most one capability per public name.\<close>

record adapter_binding =
  ab_adapter_id :: string
  ab_operations :: "(string \<times> string) list"
  ab_public_schema_revision :: string

definition binding_entry :: "pyval \<times> pyval \<Rightarrow> 'x control_plane_error + string \<times> string" where
  "binding_entry e = (case e of (public_name, capability_id) \<Rightarrow>
     (case public_name of
        PStr name \<Rightarrow>
          if py_strip name = []
          then Inl (ControlPlaneError ''CONTROL_PLANE_ADAPTER_INVALID'' ''public operation name is invalid'')
          else (case capability_id of
            PStr capability \<Rightarrow>
              if capability \<in> set required_capabilities then Inr (name, capability)
              else Inl (ControlPlaneError ''CONTROL_PLANE_ADAPTER_CAPABILITY_UNKNOWN''
                ''adapter references an unknown Control Plane capability'')
          | _ \<Rightarrow> Inl (ControlPlaneError ''CONTROL_PLANE_ADAPTER_CAPABILITY_UNKNOWN''
                ''adapter references an unknown Control Plane capability''))
      | _ \<Rightarrow> Inl (ControlPlaneError ''CONTROL_PLANE_ADAPTER_INVALID'' ''public operation name is invalid'')))"

definition make_adapter_binding ::
  "pyval \<Rightarrow> (pyval \<times> pyval) list \<Rightarrow> string \<Rightarrow> 'x control_plane_error + adapter_binding" where
  "make_adapter_binding adapter_id operations public_schema_revision =
     (case adapter_id of
        PStr s \<Rightarrow>
          if py_strip s = []
          then Inl (ControlPlaneError ''CONTROL_PLANE_ADAPTER_INVALID'' ''adapter id is required'')
          else bindE (mapE binding_entry operations) (\<lambda>ops.
            Inr \<lparr>ab_adapter_id = s, ab_operations = ops, ab_public_schema_revision = public_schema_revision\<rparr>)
      | _ \<Rightarrow> Inl (ControlPlaneError ''CONTROL_PLANE_ADAPTER_INVALID'' ''adapter id is required''))"

section \<open>Releases\<close>

text \<open>A resolved path is absolute: the list of its components below the root.\<close>

type_synonym resolved_path = "string list"

definition is_relative_to :: "resolved_path \<Rightarrow> resolved_path \<Rightarrow> bool" where
  "is_relative_to path parent = prefix parent path"

record control_plane_release =
  cr_release_id :: string
  cr_contract_revision :: string
  cr_install_root :: resolved_path
  cr_development_root :: resolved_path

text \<open>\<open>Path(p).expanduser().resolve()\<close> reads the file system: it is the parameter \<open>resolve\<close>.\<close>

definition make_release ::
  "(string \<Rightarrow> resolved_path) \<Rightarrow> pyval \<Rightarrow> pyval \<Rightarrow> string \<Rightarrow> string \<Rightarrow>
     'x control_plane_error + control_plane_release" where
  "make_release resolve release_id contract_revision install_root development_root =
     (case release_id of
        PStr rid \<Rightarrow>
          if py_strip rid = []
          then Inl (ControlPlaneError ''CONTROL_PLANE_RELEASE_INVALID'' ''release id is required'')
          else if contract_revision \<noteq> PStr control_plane_contract_revision
          then Inl (ControlPlaneError ''CONTROL_PLANE_CONTRACT_UNSUPPORTED''
            ''release contract revision is unsupported'')
          else
            let install = resolve install_root; development = resolve development_root in
            if install = development \<or> is_relative_to install development \<or> is_relative_to development install
            then Inl (ControlPlaneError ''CONTROL_PLANE_ROOTS_OVERLAP''
              ''Control Plane release and development roots must be disjoint'')
            else Inr \<lparr>cr_release_id = rid, cr_contract_revision = control_plane_contract_revision,
              cr_install_root = install, cr_development_root = development\<rparr>
      | _ \<Rightarrow> Inl (ControlPlaneError ''CONTROL_PLANE_RELEASE_INVALID'' ''release id is required''))"

section \<open>The runtime and its adapters\<close>

type_synonym params = "(string \<times> pyval) list"
type_synonym ('s, 'x) capability_handler = "params \<Rightarrow> ('s, 'x, params) step"

text \<open>A handler that is not callable is \<open>None\<close>.\<close>

record ('s, 'x) control_plane_runtime =
  rt_release :: control_plane_release
  rt_handlers :: "(string \<times> ('s, 'x) capability_handler option) list"

definition make_runtime ::
  "control_plane_release \<Rightarrow> (string \<times> ('s, 'x) capability_handler option) list \<Rightarrow>
     'x control_plane_error + ('s, 'x) control_plane_runtime" where
  "make_runtime release supplied =
     (if list_ex (\<lambda>c. map_of supplied c = None) required_capabilities
      then Inl (ControlPlaneError ''CONTROL_PLANE_HANDLER_MISSING'' ''required capability handler is missing'')
      else if list_ex (\<lambda>(c, _). c \<notin> set required_capabilities) supplied
      then Inl (ControlPlaneError ''CONTROL_PLANE_HANDLER_UNKNOWN'' ''unknown capability handler was supplied'')
      else if list_ex (\<lambda>c. case map_of supplied c of Some None \<Rightarrow> True | _ \<Rightarrow> False) required_capabilities
      then Inl (ControlPlaneError ''CONTROL_PLANE_HANDLER_INVALID'' ''capability handler must be callable'')
      else Inr \<lparr>rt_release = release, rt_handlers = supplied\<rparr>)"

text \<open>Run a handler; what it raises passes through the runtime.\<close>

definition run_handler ::
  "('s, 'x) capability_handler \<Rightarrow> params \<Rightarrow> ('s, 'x control_plane_error, params) step" where
  "run_handler h ps s = (case h ps s of (r, t) \<Rightarrow>
     ((case r of Inl x \<Rightarrow> Inl (HandlerRaised x) | Inr v \<Rightarrow> Inr v), t))"

definition runtime_call ::
  "('s, 'x) control_plane_runtime \<Rightarrow> string \<Rightarrow> params option \<Rightarrow> ('s, 'x control_plane_error, params) step" where
  "runtime_call runtime capability_id params =
     (if capability_id \<notin> set required_capabilities
      then failS (ControlPlaneError ''CONTROL_PLANE_CAPABILITY_UNKNOWN'' ''unknown Control Plane capability'')
      else case map_of (rt_handlers runtime) capability_id of
        Some (Some handler) \<Rightarrow> run_handler handler (case params of None \<Rightarrow> [] | Some ps \<Rightarrow> ps)
      | _ \<Rightarrow> failS (ControlPlaneError ''CONTROL_PLANE_HANDLER_MISSING'' ''capability handler is unavailable''))"

definition path_text :: "resolved_path \<Rightarrow> string" where
  "path_text p = ''/'' @ py_join ''/'' p"

definition runtime_diagnostics :: "('s, 'x) control_plane_runtime \<Rightarrow> params" where
  "runtime_diagnostics runtime =
     [(''release_id'', PStr (cr_release_id (rt_release runtime))),
      (''contract_revision'', PStr (cr_contract_revision (rt_release runtime))),
      (''install_root'', PStr (path_text (cr_install_root (rt_release runtime)))),
      (''development_root'', PStr (path_text (cr_development_root (rt_release runtime)))),
      (''capabilities'', PList (map PStr required_capabilities))]"

definition adapter_call ::
  "('s, 'x) control_plane_runtime \<Rightarrow> adapter_binding \<Rightarrow> string \<Rightarrow> params option \<Rightarrow>
     ('s, 'x control_plane_error, params) step" where
  "adapter_call runtime binding public_name params =
     (case map_of (ab_operations binding) public_name of
        None \<Rightarrow> failS (ControlPlaneError ''CONTROL_PLANE_ADAPTER_OPERATION_UNKNOWN''
          ''public operation is not mapped by this adapter'')
      | Some capability_id \<Rightarrow> runtime_call runtime capability_id params)"

definition adapter_diagnostics :: "('s, 'x) control_plane_runtime \<Rightarrow> adapter_binding \<Rightarrow> params" where
  "adapter_diagnostics runtime binding =
     [(''adapter_id'', PStr (ab_adapter_id binding)),
      (''public_schema_revision'', PStr (ab_public_schema_revision binding)),
      (''control_plane_release_id'', PStr (cr_release_id (rt_release runtime))),
      (''contract_revision'', PStr (cr_contract_revision (rt_release runtime)))]"

definition cli_capability_map :: "(string \<times> string) list" where
  "cli_capability_map =
     [(''session status'', ''control.session.status''),
      (''integration preflight'', ''control.integration.preflight''),
      (''integration apply'', ''control.integration.apply''),
      (''integration resume'', ''control.integration.resume''),
      (''git stage-paths'', ''control.git.stage_paths''),
      (''git commit-preflight'', ''control.git.commit_preflight''),
      (''doctor'', ''control.doctor'')]"

definition cli_call ::
  "('s, 'x) control_plane_runtime \<Rightarrow> string \<Rightarrow> params option \<Rightarrow> ('s, 'x control_plane_error, params) step" where
  "cli_call runtime command params =
     (case map_of cli_capability_map command of
        None \<Rightarrow> failS (ControlPlaneError ''CONTROL_PLANE_CLI_COMMAND_UNKNOWN''
          ''local CLI command is not mapped to a Control Plane capability'')
      | Some capability_id \<Rightarrow> runtime_call runtime capability_id params)"

section \<open>Recovery of an approved integration\<close>

record exact_integration_state =
  ei_workspace_id :: string
  ei_session_id :: string
  ei_canonical_revision :: string
  ei_patch_hash :: string
  ei_source_snapshot_id :: string
  ei_verification_receipt_id :: string
  ei_security_audit_receipt_id :: string

record durable_integration_intent =
  ii_intent_id :: string
  ii_exact_state :: exact_integration_state
  ii_control_plane_release_id :: string
  ii_schema_identity :: string

record durable_approval_decision =
  ad_decision_id :: string
  ad_intent_id :: string
  ad_state :: string
  ad_expires_at :: time
  ad_consumed :: bool

record resume_challenge =
  rc_challenge_id :: string
  rc_intent_id :: string
  rc_exact_state :: exact_integration_state

text \<open>The factory returns a challenge, or \<open>None\<close> for any other object.\<close>

type_synonym ('s, 'x) challenge_factory =
  "durable_integration_intent \<Rightarrow> exact_integration_state \<Rightarrow> ('s, 'x, resume_challenge option) step"

definition resume_integration ::
  "durable_integration_intent \<Rightarrow> durable_approval_decision \<Rightarrow> exact_integration_state \<Rightarrow> string \<Rightarrow> time \<Rightarrow>
     ('s, 'x) challenge_factory option \<Rightarrow> ('s, 'x control_plane_error, resume_challenge) step" where
  "resume_integration intent decision current_state release_id now issue_challenge s =
     (if ad_intent_id decision \<noteq> ii_intent_id intent
      then failS (ControlPlaneError ''CONTROL_PLANE_APPROVAL_INTENT_MISMATCH''
        ''approval decision does not belong to this integration intent'') s
      else if ad_state decision \<noteq> ''approved''
      then failS (ControlPlaneError ''CONTROL_PLANE_APPROVAL_NOT_APPROVED''
        ''integration intent does not have an approved durable decision'') s
      else if ad_consumed decision
      then failS (ControlPlaneError ''CONTROL_PLANE_APPROVAL_CONSUMED''
        ''durable approval decision has already been consumed'') s
      else if ad_expires_at decision < now
      then failS (ControlPlaneError ''CONTROL_PLANE_APPROVAL_EXPIRED''
        ''durable approval decision has expired'') s
      else if release_id \<noteq> ii_control_plane_release_id intent
      then failS (ControlPlaneError ''CONTROL_PLANE_RELEASE_MISMATCH''
        ''Control Plane release identity changed since preflight'') s
      else if current_state \<noteq> ii_exact_state intent
      then failS (ControlPlaneError ''CONTROL_PLANE_EXACT_STATE_DRIFT''
        ''integration exact-state evidence changed since approval'') s
      else case issue_challenge of
        None \<Rightarrow> failS (ControlPlaneError ''CONTROL_PLANE_CHALLENGE_ISSUE_FAILED''
          ''execution challenge factory is unavailable'') s
      | Some issue \<Rightarrow>
          (case issue intent current_state s of
             (Inl _, t) \<Rightarrow> failS (ControlPlaneError ''CONTROL_PLANE_CHALLENGE_ISSUE_FAILED''
               ''fresh execution challenge could not be issued'') t
           | (Inr None, t) \<Rightarrow> failS (ControlPlaneError ''CONTROL_PLANE_CHALLENGE_ISSUE_FAILED''
               ''challenge factory returned an invalid challenge'') t
           | (Inr (Some c), t) \<Rightarrow>
               if rc_intent_id c \<noteq> ii_intent_id intent \<or> rc_exact_state c \<noteq> current_state \<or>
                 rc_challenge_id c = []
               then failS (ControlPlaneError ''CONTROL_PLANE_CHALLENGE_ISSUE_FAILED''
                 ''challenge is not bound to the revalidated integration state'') t
               else retS c t))"

section \<open>Well-formed adapters\<close>

lemma make_runtime_handlers:
  "make_runtime release supplied = Inr runtime \<Longrightarrow> rt_handlers runtime = supplied"
  by (auto simp: make_runtime_def split: if_splits)

lemma make_runtime_handler:
  assumes "make_runtime release supplied = Inr runtime" and "c \<in> set required_capabilities"
  shows "\<exists>h. map_of supplied c = Some (Some h)"
proof -
  have "\<not> list_ex (\<lambda>c. map_of supplied c = None) required_capabilities"
    and "\<not> list_ex (\<lambda>c. case map_of supplied c of Some None \<Rightarrow> True | _ \<Rightarrow> False) required_capabilities"
    using assms(1) by (simp_all add: make_runtime_def del: map_of_eq_None_iff split: if_splits)
  then have "\<forall>c\<in>set required_capabilities. map_of supplied c \<noteq> None"
    and "\<forall>c\<in>set required_capabilities. \<not> (case map_of supplied c of Some None \<Rightarrow> True | _ \<Rightarrow> False)"
    by (simp_all only: list_ex_iff bex_simps not_False_eq_True)
  from this [THEN bspec, OF assms(2)]
  show ?thesis by (cases "map_of supplied c"; cases "the (map_of supplied c)") simp_all
qed

lemma runtime_call_runs:
  assumes "make_runtime release supplied = Inr runtime" and "c \<in> set required_capabilities"
  shows "\<exists>h. map_of supplied c = Some (Some h) \<and>
    runtime_call runtime c params s = run_handler h (case params of None \<Rightarrow> [] | Some ps \<Rightarrow> ps) s"
  using make_runtime_handler [OF assms] assms(2)
  by (auto simp: runtime_call_def make_runtime_handlers [OF assms(1)])

lemma binding_entry_Inr: "binding_entry e = Inr (name, c) \<Longrightarrow> c \<in> set required_capabilities"
  by (auto simp: binding_entry_def split: prod.splits pyval.splits if_splits)

lemma make_adapter_binding_known:
  assumes "make_adapter_binding adapter_id operations revision = (Inr b :: 'x control_plane_error + adapter_binding)"
    and "map_of (ab_operations b) name = Some c"
  shows "c \<in> set required_capabilities"
proof -
  have "mapE binding_entry operations = (Inr (ab_operations b) :: 'x control_plane_error + (string \<times> string) list)"
    using assms(1) by (auto simp: make_adapter_binding_def result_simps split: pyval.splits if_splits)
  from mapE_Inr_set [OF this map_of_SomeD [OF assms(2)]] show ?thesis by (blast dest: binding_entry_Inr)
qed

lemma cli_capability_known: "map_of cli_capability_map command = Some c \<Longrightarrow> c \<in> set required_capabilities"
proof -
  assume "map_of cli_capability_map command = Some c"
  then have "c \<in> set (map snd cli_capability_map)" by (force dest: map_of_SomeD)
  moreover have "list_all (\<lambda>c. c \<in> set required_capabilities) (map snd cli_capability_map)" by code_simp
  ultimately show ?thesis by (auto simp only: list_all_iff)
qed

text \<open>What a binding maps is what it was made from.\<close>

lemma binding_entries_lookup:
  "mapE binding_entry es = (Inr ops :: 'x control_plane_error + (string \<times> string) list) \<Longrightarrow>
     map_of es (PStr name) = map_option PStr (map_of ops name)"
proof (induction es arbitrary: ops)
  case (Cons e es)
  from Cons.prems obtain x rest where x: "binding_entry e = (Inr x :: 'x control_plane_error + string \<times> string)"
    and rest: "mapE binding_entry es = (Inr rest :: 'x control_plane_error + (string \<times> string) list)"
    and ops: "ops = x # rest"
    by (auto simp: result_simps)
  from x have e: "e = (PStr (fst x), PStr (snd x))"
    by (auto simp: binding_entry_def split: prod.splits pyval.splits if_splits)
  from Cons.IH [OF rest] show ?case by (cases x) (simp add: e ops)
qed simp

lemma make_adapter_binding_lookup:
  assumes "make_adapter_binding adapter_id operations revision = (Inr b :: 'x control_plane_error + adapter_binding)"
  shows "map_of operations (PStr name) = map_option PStr (map_of (ab_operations b) name)"
proof -
  have "mapE binding_entry operations = (Inr (ab_operations b) :: 'x control_plane_error + (string \<times> string) list)"
    using assms by (auto simp: make_adapter_binding_def result_simps split: pyval.splits if_splits)
  then show ?thesis by (rule binding_entries_lookup)
qed

text \<open>The capability that a command of the command line stands for, by its name: words become
  components, and a dash an underscore.\<close>

definition command_capability :: "string \<Rightarrow> string" where
  "command_capability command = ''control.'' @
     map (\<lambda>c. if c = CHR '' '' then CHR ''.'' else if c = CHR ''-'' then CHR ''_'' else c) command"

definition cli_commands :: "string list" where
  "cli_commands = [''session status'', ''integration preflight'', ''integration apply'',
     ''integration resume'', ''git stage-paths'', ''git commit-preflight'', ''doctor'']"

lemma cli_capability_lookup:
  "map_of cli_capability_map command =
     (if command \<in> set cli_commands then Some (command_capability command) else None)"
proof -
  have eq: "cli_capability_map = map (\<lambda>c. (c, command_capability c)) cli_commands" by code_simp
  have "map_of (map (\<lambda>c. (c, f c)) cs) command = (if command \<in> set cs then Some (f command) else None)"
    for f :: "string \<Rightarrow> string" and cs
    by (induction cs) auto
  then show ?thesis unfolding eq .
qed

text \<open>
  C33: Adapters reach the handler of the mapped capability. For a runtime and a binding that their
  constructors accepted, a call through the adapter runs the handler that was supplied for exactly the
  capability under which the public name was given to the constructor, with the parameters of
  the call, and a name that was not given is refused without running anything. A command of the
  command line runs the handler of the capability with the corresponding name, and any other text
  is refused. The errors for an unknown capability or a missing handler never occur.
\<close>

theorem adapters_reach_handlers:
  fixes b :: adapter_binding and runtime :: "('s, 'x) control_plane_runtime"
  assumes "make_runtime release supplied = Inr runtime"
    and "make_adapter_binding adapter_id operations revision = (Inr b :: 'x control_plane_error + adapter_binding)"
  shows "(case map_of operations (PStr name) of
      None \<Rightarrow> adapter_call runtime b name params s =
        (Inl (ControlPlaneError ''CONTROL_PLANE_ADAPTER_OPERATION_UNKNOWN''
          ''public operation is not mapped by this adapter''), s)
    | Some v \<Rightarrow> \<exists>c h. v = PStr c \<and> c \<in> set required_capabilities \<and> map_of supplied c = Some (Some h) \<and>
        adapter_call runtime b name params s = run_handler h (case params of None \<Rightarrow> [] | Some ps \<Rightarrow> ps) s) \<and>
   (if command \<in> set cli_commands
    then \<exists>h. map_of supplied (command_capability command) = Some (Some h) \<and>
      cli_call runtime command params s = run_handler h (case params of None \<Rightarrow> [] | Some ps \<Rightarrow> ps) s
    else cli_call runtime command params s =
      (Inl (ControlPlaneError ''CONTROL_PLANE_CLI_COMMAND_UNKNOWN''
        ''local CLI command is not mapped to a Control Plane capability''), s))"
proof (intro conjI)
  note lookup = make_adapter_binding_lookup [OF assms(2), of name]
  show "case map_of operations (PStr name) of
      None \<Rightarrow> adapter_call runtime b name params s =
        (Inl (ControlPlaneError ''CONTROL_PLANE_ADAPTER_OPERATION_UNKNOWN''
          ''public operation is not mapped by this adapter''), s)
    | Some v \<Rightarrow> \<exists>c h. v = PStr c \<and> c \<in> set required_capabilities \<and> map_of supplied c = Some (Some h) \<and>
        adapter_call runtime b name params s = run_handler h (case params of None \<Rightarrow> [] | Some ps \<Rightarrow> ps) s"
  proof (cases "map_of (ab_operations b) name")
    case (Some c)
    note known = make_adapter_binding_known [OF assms(2) Some]
    from runtime_call_runs [OF assms(1) known, of params s] known Some lookup
    show ?thesis by (auto simp: adapter_call_def)
  qed (use lookup in \<open>simp add: adapter_call_def failS_def\<close>)
  show "if command \<in> set cli_commands
    then \<exists>h. map_of supplied (command_capability command) = Some (Some h) \<and>
      cli_call runtime command params s = run_handler h (case params of None \<Rightarrow> [] | Some ps \<Rightarrow> ps) s
    else cli_call runtime command params s =
      (Inl (ControlPlaneError ''CONTROL_PLANE_CLI_COMMAND_UNKNOWN''
        ''local CLI command is not mapped to a Control Plane capability''), s)"
  proof (cases "command \<in> set cli_commands")
    case True
    then have c: "map_of cli_capability_map command = Some (command_capability command)"
      by (simp add: cli_capability_lookup)
    from runtime_call_runs [OF assms(1) cli_capability_known [OF c], of params s] c True
    show ?thesis by (simp add: cli_call_def)
  qed (simp add: cli_call_def cli_capability_lookup failS_def)
qed

definition example_release :: control_plane_release where
  "example_release = \<lparr>cr_release_id = ''r1'', cr_contract_revision = control_plane_contract_revision,
     cr_install_root = [''opt''], cr_development_root = [''home'']\<rparr>"

text \<open>A handler that counts its calls.\<close>

definition counting_handlers :: "(string \<times> (nat, string) capability_handler option) list" where
  "counting_handlers = map (\<lambda>c. (c, Some (\<lambda>_ n. (Inr [(''capability'', PStr c)], Suc n)))) required_capabilities"

lemma adapters_reach_handlers_witness:
  "\<exists>h. map_of counting_handlers ''control.session.status'' = Some (Some h) \<and>
     adapter_call \<lparr>rt_release = example_release, rt_handlers = counting_handlers\<rparr>
       \<lparr>ab_adapter_id = ''a'', ab_operations = [(''status'', ''control.session.status'')],
        ab_public_schema_revision = []\<rparr> ''status'' None 0 = run_handler h [] 0"
proof -
  let ?r = "\<lparr>rt_release = example_release, rt_handlers = counting_handlers\<rparr>"
  let ?b = "\<lparr>ab_adapter_id = ''a'', ab_operations = [(''status'', ''control.session.status'')],
        ab_public_schema_revision = []\<rparr>"
  have r: "make_runtime example_release counting_handlers = Inr ?r"
    by (simp add: make_runtime_def counting_handlers_def required_capabilities_def)
  have b: "make_adapter_binding (PStr ''a'') [(PStr ''status'', PStr ''control.session.status'')] [] =
      (Inr ?b :: string control_plane_error + adapter_binding)"
    by code_simp
  from adapters_reach_handlers [OF r b, of "''status''" None 0] show ?thesis by simp
qed

text \<open>
  C12: An approved integration resumes only on exactly the state it was approved for. The challenge
  factory runs if and only if the decision belongs to the intent, is approved, unconsumed and
  unexpired, and neither the release nor the exact state has changed; without that the call raises
  and changes nothing. A returned challenge is the factory's own, has an identifier and is bound
  to the intent and to the current state.
\<close>

theorem resume_integration_exact:
  fixes issue :: "('s, 'x) challenge_factory"
  shows "let outcome = resume_integration intent decision current_state release_id now (Some issue) s in
    if ad_intent_id decision = ii_intent_id intent \<and> ad_state decision = ''approved'' \<and>
      \<not> ad_consumed decision \<and> now \<le> ad_expires_at decision \<and>
      release_id = ii_control_plane_release_id intent \<and> current_state = ii_exact_state intent
    then snd outcome = snd (issue intent current_state s) \<and>
      (fst outcome = Inr c \<longleftrightarrow> fst (issue intent current_state s) = Inr (Some c) \<and>
        rc_intent_id c = ii_intent_id intent \<and> rc_exact_state c = ii_exact_state intent \<and>
        rc_challenge_id c \<noteq> [])
    else (\<exists>code message. outcome = (Inl (ControlPlaneError code message), s))"
proof -
  obtain r t where issued: "issue intent (ii_exact_state intent) s = (r, t)"
    by (cases "issue intent (ii_exact_state intent) s")
  consider x where "r = Inl x" | "r = Inr None" | d where "r = Inr (Some d)"
    by (cases r) (metis not_None_eq)+
  then show ?thesis
    by cases (auto simp: issued resume_integration_def failS_def retS_def Let_def)
qed

end
