(* ===== verification/PlanManifest.thy ===== *)
theory PlanManifest
  imports DirectorText PyJson
begin

text \<open>
  Plan manifests, \<open>src/src/chatgpt_dev_mcp/plan_manifest.py\<close>: the validation of a plan that arrives
  as a mapping of objects. SHA-256 is the parameter \<open>sha\<close>.
\<close>

section \<open>Bounded fields\<close>

text \<open>Membership in a set of a list or a dictionary raises a \<open>TypeError\<close>: they have no hash.\<close>

datatype plan_error = PlanManifestError string | UnhashableType

definition plan_statuses :: "string list" where
  "plan_statuses = [''draft'', ''active'', ''superseded'', ''completed'', ''cancelled'']"

definition plan_task_states :: "string list" where
  "plan_task_states =
     [''planned'', ''ready'', ''waiting_for_dependency'', ''waiting_for_conflict'', ''running'',
      ''verifying'', ''review_ready'', ''completed'', ''failed'', ''superseded'', ''cancelled'', ''unknown'']"

definition plan_id_re :: "string \<Rightarrow> bool" where
  "plan_id_re = id_format ''._:-'' 127"

definition plan_max_tasks :: nat where "plan_max_tasks = 256"
definition plan_max_items :: nat where "plan_max_items = 128"
definition plan_max_text :: nat where "plan_max_text = 400"

definition plan_text :: "string \<Rightarrow> nat \<Rightarrow> pyval \<Rightarrow> plan_error + string" where
  "plan_text name maximum value =
     (case value of
        PStr s \<Rightarrow>
          if py_strip s = [] \<or> s \<noteq> py_strip s
          then Inl (PlanManifestError (name @ '' must be non-empty normalized text''))
          else if maximum < length s \<or> has_nul s
          then Inl (PlanManifestError (name @ '' exceeds its safety bound''))
          else Inr s
      | _ \<Rightarrow> Inl (PlanManifestError (name @ '' must be non-empty normalized text'')))"

definition plan_identifier :: "string \<Rightarrow> pyval \<Rightarrow> plan_error + string" where
  "plan_identifier name value = bindE (plan_text name 128 value) (\<lambda>s.
     if \<not> plan_id_re s then Inl (PlanManifestError (name @ '' has an invalid format'')) else Inr s)"

definition plan_hash :: "string \<Rightarrow> pyval \<Rightarrow> plan_error + string" where
  "plan_hash name value =
     (case value of
        PStr s \<Rightarrow> if hex64 s then Inr s
                  else Inl (PlanManifestError (name @ '' must be a lowercase sha256 digest''))
      | _ \<Rightarrow> Inl (PlanManifestError (name @ '' must be a lowercase sha256 digest'')))"

definition plan_sequence :: "string \<Rightarrow> bool \<Rightarrow> pyval \<Rightarrow> plan_error + pyval list" where
  "plan_sequence name allow_empty value =
     (case value of
        PList vs \<Rightarrow>
          if plan_max_items < length vs then Inl (PlanManifestError (name @ '' must be a bounded sequence''))
          else if \<not> allow_empty \<and> vs = [] then Inl (PlanManifestError (name @ '' must not be empty''))
          else Inr vs
      | _ \<Rightarrow> Inl (PlanManifestError (name @ '' must be a bounded sequence'')))"

definition plan_path :: "string \<Rightarrow> pyval \<Rightarrow> plan_error + string" where
  "plan_path name value =
     mapError (\<lambda>_. PlanManifestError (name @ '' is invalid'')) (normalize_relative_path value)"

definition plan_resource :: "pyval \<Rightarrow> plan_error + string" where
  "plan_resource value =
     mapError (\<lambda>_. PlanManifestError ''resources contain an invalid resource'') (normalize_resource_id value)"

definition plan_workspace :: "pyval \<Rightarrow> plan_error + string" where
  "plan_workspace value =
     mapError (\<lambda>_. PlanManifestError ''workspace_id is invalid'') (validate_workspace_id value)"

definition plan_text_tuple :: "string \<Rightarrow> bool \<Rightarrow> pyval \<Rightarrow> plan_error + string list" where
  "plan_text_tuple name allow_empty value =
     bindE (plan_sequence name allow_empty value) (\<lambda>items.
     bindE (mapE (plan_text name plan_max_text) items) (\<lambda>parsed.
     if \<not> distinct parsed then Inl (PlanManifestError (name @ '' must be unique'')) else Inr parsed))"

section \<open>Identities\<close>

definition plan_logical_task_id :: "(string \<Rightarrow> string) \<Rightarrow> string \<Rightarrow> string \<Rightarrow> string" where
  "plan_logical_task_id sha plan_id plan_task_id =
     ''logical:'' @ take 32 (sha (plan_id @ [CHR 0x00] @ plan_task_id))"

text \<open>\<open>" ".join(value.casefold().split())\<close>.\<close>

definition folded_words :: "string \<Rightarrow> string" where
  "folded_words s = py_join '' '' (py_words (casefold s))"

definition plan_intent_fingerprint ::
  "(string \<Rightarrow> string) \<Rightarrow> pyval \<Rightarrow> pyval \<Rightarrow> pyval list \<Rightarrow> pyval list \<Rightarrow> pyval list \<Rightarrow> plan_error + string" where
  "plan_intent_fingerprint sha workspace_id title paths resources acceptance_criteria =
     bindE (plan_workspace workspace_id) (\<lambda>workspace.
     bindE (plan_text ''title'' 240 title) (\<lambda>title_text.
     bindE (mapE (plan_path ''path'') paths) (\<lambda>ps.
     bindE (mapE plan_resource resources) (\<lambda>rs.
     bindE (mapE (plan_text ''acceptance_criteria'' plan_max_text) acceptance_criteria) (\<lambda>cs.
     let criteria = sorted_set (map folded_words cs) in
     if criteria = [] then Inl (PlanManifestError ''acceptance_criteria must not be empty'')
     else Inr (sha (ensure_ascii (json_dumps (JObj
       [(''workspace_id'', JStr workspace), (''title'', JStr (folded_words title_text)),
        (''paths'', jstrs (sorted_set ps)), (''resources'', jstrs (sorted_set rs)),
        (''acceptance_criteria'', jstrs criteria)])))))))))"

section \<open>Plans\<close>

record plan_task_spec =
  pt_plan_task_id :: string
  pt_logical_task_id :: string
  pt_title :: string
  pt_intent_fingerprint :: string
  pt_paths :: "string list"
  pt_resources :: "string list"
  pt_dependencies :: "string list"
  pt_acceptance_criteria :: "string list"
  pt_delivery_requirements :: "string list"
  pt_state :: string

record plan_task_attempt =
  pa_attempt_id :: string
  pa_logical_task_id :: string
  pa_task_id :: string
  pa_owner_id :: string
  pa_session_id :: string
  pa_working_tree_id :: string
  pa_started_at :: string
  pa_finished_at :: string
  pa_outcome :: string
  pa_failure_fingerprint :: string

text \<open>The time stamps keep an absent value as the object that was given.\<close>

record plan_manifest =
  pm_plan_id :: string
  pm_revision :: int
  pm_workspace_id :: string
  pm_title :: string
  pm_status :: string
  pm_spec_path :: string
  pm_spec_hash :: string
  pm_tasks :: "plan_task_spec list"
  pm_plan_path :: string
  pm_plan_hash :: string
  pm_supersedes_plan_ids :: "string list"
  pm_created_at :: pyval
  pm_updated_at :: pyval

section \<open>Parsing\<close>

definition py_get :: "(string \<times> pyval) list \<Rightarrow> string \<Rightarrow> pyval \<Rightarrow> pyval" where
  "py_get d k absent = (case map_of d k of None \<Rightarrow> absent | Some v \<Rightarrow> v)"

fun py_truthy :: "pyval \<Rightarrow> bool" where
  "py_truthy PNone = False"
| "py_truthy (PBool b) = b"
| "py_truthy (PInt i) = (i \<noteq> 0)"
| "py_truthy (PFloat q) = (q \<noteq> 0)"
| "py_truthy (PStr s) = (s \<noteq> [])"
| "py_truthy (PList vs) = (vs \<noteq> [])"
| "py_truthy (PDict kvs) = (kvs \<noteq> [])"

text \<open>\<open>if value not in FROZENSET: raise\<close>.\<close>

definition plan_member :: "string \<Rightarrow> string list \<Rightarrow> pyval \<Rightarrow> plan_error + string" where
  "plan_member message allowed value =
     (case value of
        PStr s \<Rightarrow> if s \<in> set allowed then Inr s else Inl (PlanManifestError message)
      | PList _ \<Rightarrow> Inl UnhashableType
      | PDict _ \<Rightarrow> Inl UnhashableType
      | _ \<Rightarrow> Inl (PlanManifestError message))"

definition unique_items :: "string \<Rightarrow> string list \<Rightarrow> plan_error + string list" where
  "unique_items message xs = (if distinct xs then Inr xs else Inl (PlanManifestError message))"

definition parse_plan_task ::
  "(string \<Rightarrow> string) \<Rightarrow> string \<Rightarrow> string \<Rightarrow> pyval \<Rightarrow> plan_error + plan_task_spec" where
  "parse_plan_task sha plan_id workspace_id value =
     (case value of
        PDict d \<Rightarrow>
          bindE (plan_identifier ''plan_task_id'' (py_get d ''plan_task_id'' PNone)) (\<lambda>plan_task_id.
          bindE (plan_text ''task title'' 240 (py_get d ''title'' PNone)) (\<lambda>title.
          bindE (plan_sequence ''paths'' True (py_get d ''paths'' (PList []))) (\<lambda>path_values.
          bindE (mapE (plan_path ''paths'') path_values) (\<lambda>raw_paths.
          bindE (unique_items ''paths must be unique'' raw_paths) (\<lambda>paths.
          bindE (plan_sequence ''resources'' True (py_get d ''resources'' (PList []))) (\<lambda>resource_values.
          bindE (mapE plan_resource resource_values) (\<lambda>raw_resources.
          bindE (unique_items ''resources must be unique'' raw_resources) (\<lambda>resources.
          bindE (plan_sequence ''dependencies'' True (py_get d ''dependencies'' (PList []))) (\<lambda>dependency_values.
          bindE (mapE (plan_identifier ''dependency'') dependency_values) (\<lambda>dependencies.
          if \<not> distinct dependencies \<or> plan_task_id \<in> set dependencies
          then Inl (PlanManifestError ''dependencies must be unique and must not reference self'')
          else
          bindE (plan_text_tuple ''acceptance_criteria'' False
            (py_get d ''acceptance_criteria'' (PList []))) (\<lambda>acceptance_criteria.
          bindE (plan_text_tuple ''delivery_requirements'' False
            (py_get d ''delivery_requirements'' (PList []))) (\<lambda>delivery_requirements.
          bindE (plan_member ''state is invalid'' plan_task_states (py_get d ''state'' (PStr ''planned''))) (\<lambda>state.
          bindE (plan_intent_fingerprint sha (PStr workspace_id) (PStr title) (map PStr paths)
            (map PStr resources) (map PStr acceptance_criteria)) (\<lambda>fingerprint.
          Inr \<lparr>pt_plan_task_id = plan_task_id,
               pt_logical_task_id = plan_logical_task_id sha plan_id plan_task_id,
               pt_title = title, pt_intent_fingerprint = fingerprint, pt_paths = paths,
               pt_resources = resources, pt_dependencies = dependencies,
               pt_acceptance_criteria = acceptance_criteria,
               pt_delivery_requirements = delivery_requirements, pt_state = state\<rparr>))))))))))))))
      | _ \<Rightarrow> Inl (PlanManifestError ''tasks must contain mappings''))"

definition plan_revision :: "pyval \<Rightarrow> plan_error + int" where
  "plan_revision value =
     (case value of
        PInt n \<Rightarrow> if n \<le> 0 then Inl (PlanManifestError ''revision must be a positive integer'') else Inr n
      | _ \<Rightarrow> Inl (PlanManifestError ''revision must be a positive integer''))"

text \<open>A field that is validated only when it is truthy.\<close>

definition if_truthy :: "('a \<Rightarrow> pyval) \<Rightarrow> (pyval \<Rightarrow> plan_error + 'a) \<Rightarrow> pyval \<Rightarrow> plan_error + pyval" where
  "if_truthy inject parse value =
     (if py_truthy value then bindE (parse value) (\<lambda>x. Inr (inject x)) else Inr value)"

definition plan_optional :: "(pyval \<Rightarrow> plan_error + string) \<Rightarrow> pyval \<Rightarrow> plan_error + string" where
  "plan_optional parse value = (if py_truthy value then parse value else Inr [])"

definition check_dependencies :: "plan_task_spec list \<Rightarrow> plan_error + unit" where
  "check_dependencies tasks =
     (case concat (map (\<lambda>t. filter (\<lambda>d. d \<notin> set (map pt_plan_task_id tasks)) (pt_dependencies t)) tasks) of
        [] \<Rightarrow> Inr ()
      | d # _ \<Rightarrow> Inl (PlanManifestError (''unknown dependency: '' @ d)))"

definition plan_manifest_from_mapping :: "(string \<Rightarrow> string) \<Rightarrow> pyval \<Rightarrow> plan_error + plan_manifest" where
  "plan_manifest_from_mapping sha value =
     (case value of
        PDict d \<Rightarrow>
          bindE (plan_identifier ''plan_id'' (py_get d ''plan_id'' PNone)) (\<lambda>plan_id.
          bindE (plan_revision (py_get d ''revision'' PNone)) (\<lambda>revision.
          bindE (plan_workspace (py_get d ''workspace_id'' PNone)) (\<lambda>workspace_id.
          bindE (plan_text ''title'' 240 (py_get d ''title'' PNone)) (\<lambda>title.
          bindE (plan_member ''status is invalid'' plan_statuses (py_get d ''status'' PNone)) (\<lambda>status.
          bindE (plan_path ''spec_path'' (py_get d ''spec_path'' PNone)) (\<lambda>spec_path.
          bindE (plan_hash ''spec_hash'' (py_get d ''spec_hash'' PNone)) (\<lambda>spec_hash.
          let raw_plan_path = py_get d ''plan_path'' (PStr []); raw_plan_hash = py_get d ''plan_hash'' (PStr []) in
          if py_truthy raw_plan_path \<noteq> py_truthy raw_plan_hash
          then Inl (PlanManifestError ''plan_path and plan_hash must be supplied together'')
          else
          bindE (plan_optional (plan_path ''plan_path'') raw_plan_path) (\<lambda>path.
          bindE (plan_optional (plan_hash ''plan_hash'') raw_plan_hash) (\<lambda>hash.
          bindE (plan_sequence ''supersedes_plan_ids'' True (py_get d ''supersedes_plan_ids'' (PList []))) (\<lambda>supersedes_values.
          bindE (mapE (plan_identifier ''supersedes_plan_id'') supersedes_values) (\<lambda>supersedes.
          if \<not> distinct supersedes \<or> plan_id \<in> set supersedes
          then Inl (PlanManifestError ''supersedes_plan_ids must be unique and must not reference self'')
          else
          (case py_get d ''tasks'' PNone of
             PList raw_tasks \<Rightarrow>
               if raw_tasks = [] \<or> plan_max_tasks < length raw_tasks
               then Inl (PlanManifestError ''tasks must be a non-empty bounded sequence'')
               else
               bindE (mapE (parse_plan_task sha plan_id workspace_id) raw_tasks) (\<lambda>tasks.
               if \<not> distinct (map pt_plan_task_id tasks)
               then Inl (PlanManifestError ''duplicate plan_task_id'')
               else
               bindE (check_dependencies tasks) (\<lambda>_.
               bindE (if_truthy PStr (plan_text ''created_at'' 80) (py_get d ''created_at'' (PStr []))) (\<lambda>created_at.
               bindE (if_truthy PStr (plan_text ''updated_at'' 80) (py_get d ''updated_at'' (PStr []))) (\<lambda>updated_at.
               Inr \<lparr>pm_plan_id = plan_id, pm_revision = revision, pm_workspace_id = workspace_id,
                    pm_title = title, pm_status = status, pm_spec_path = spec_path, pm_spec_hash = spec_hash,
                    pm_tasks = tasks, pm_plan_path = path, pm_plan_hash = hash,
                    pm_supersedes_plan_ids = supersedes, pm_created_at = created_at,
                    pm_updated_at = updated_at\<rparr>))))
           | _ \<Rightarrow> Inl (PlanManifestError ''tasks must be a non-empty bounded sequence'')))))))))))))
      | _ \<Rightarrow> Inl (PlanManifestError ''manifest must be a mapping''))"

section \<open>Parsers that accept a string as it is\<close>

text \<open>
  Every field parser of the manifest validates: what it accepts is the string it returns. A
  value it has returned is accepted again.
\<close>

locale string_parser =
  fixes parse :: "pyval \<Rightarrow> plan_error + string"
  assumes parse_str: "parse v = Inr s \<Longrightarrow> v = PStr s"
begin

lemma reparse: "parse v = Inr s \<Longrightarrow> parse (PStr s) = Inr s"
  using parse_str by fastforce

lemma parse_strs: "mapE parse vs = Inr ss \<Longrightarrow> vs = map PStr ss"
  by (induction vs arbitrary: ss) (auto simp: result_simps dest: parse_str)

lemma reparse_list: "mapE parse vs = Inr ss \<Longrightarrow> mapE parse (map PStr ss) = Inr ss"
  using parse_strs by fastforce

lemma parsed_element: "mapE parse vs = Inr ss \<Longrightarrow> s \<in> set ss \<Longrightarrow> parse (PStr s) = Inr s"
  by (blast dest: mapE_Inr_set reparse)

lemma reparse_truthy: "if_truthy PStr parse v = Inr w \<Longrightarrow> if_truthy PStr parse w = Inr w"
  by (auto simp: if_truthy_def result_simps split: if_splits dest: parse_str)

lemma reparse_optional: "plan_optional parse v = Inr s \<Longrightarrow> plan_optional parse (PStr s) = Inr s"
  by (auto simp: plan_optional_def split: if_splits dest: parse_str)

lemma optional_nonempty:
  "plan_optional parse v = Inr s \<Longrightarrow> s \<noteq> [] \<longleftrightarrow> py_truthy v"
  by (auto simp: plan_optional_def split: if_splits dest!: parse_str)

end

definition normalized_text :: "nat \<Rightarrow> string \<Rightarrow> bool" where
  "normalized_text maximum s \<longleftrightarrow> py_strip s \<noteq> [] \<and> py_strip s = s \<and> length s \<le> maximum \<and> \<not> has_nul s"

lemma plan_text_Inr: "plan_text name maximum v = Inr s \<longleftrightarrow> v = PStr s \<and> normalized_text maximum s"
  by (cases v) (auto simp: plan_text_def normalized_text_def)

lemma plan_identifier_Inr:
  "plan_identifier name v = Inr s \<longleftrightarrow> v = PStr s \<and> normalized_text 128 s \<and> plan_id_re s"
  by (auto simp: plan_identifier_def result_simps plan_text_Inr)

lemma plan_hash_Inr: "plan_hash name v = Inr s \<longleftrightarrow> v = PStr s \<and> hex64 s"
  by (cases v) (auto simp: plan_hash_def)

lemma plan_path_Inr: "plan_path name v = Inr p \<longleftrightarrow> v = PStr p \<and> admissible_path p"
  by (simp add: plan_path_def result_simps normalize_relative_path_Inr)

lemma plan_member_Inr: "plan_member message allowed v = Inr s \<longleftrightarrow> v = PStr s \<and> s \<in> set allowed"
  by (cases v) (auto simp: plan_member_def)

lemma plan_sequence_Inr:
  "plan_sequence name allow_empty v = Inr vs \<longleftrightarrow>
     v = PList vs \<and> length vs \<le> plan_max_items \<and> (allow_empty \<or> vs \<noteq> [])"
  by (cases v) (auto simp: plan_sequence_def)

lemma unique_items_Inr: "unique_items message xs = Inr ys \<longleftrightarrow> ys = xs \<and> distinct xs"
  by (auto simp: unique_items_def)

interpretation text_parser: string_parser "plan_text name maximum" for name maximum
  by unfold_locales (simp add: plan_text_Inr)

interpretation identifier_parser: string_parser "plan_identifier name" for name
  by unfold_locales (simp add: plan_identifier_Inr)

interpretation hash_parser: string_parser "plan_hash name" for name
  by unfold_locales (simp add: plan_hash_Inr)

interpretation path_parser: string_parser "plan_path name" for name
  by unfold_locales (simp add: plan_path_Inr)

interpretation resource_parser: string_parser plan_resource
  by unfold_locales (auto simp: plan_resource_def result_simps dest: normalize_resource_id_Inr)

interpretation workspace_parser: string_parser plan_workspace
  by unfold_locales (auto simp: plan_workspace_def result_simps dest: validate_workspace_id_Inr)

interpretation member_parser: string_parser "plan_member message allowed" for message allowed
  by unfold_locales (simp add: plan_member_Inr)

section \<open>What a parsed plan satisfies\<close>

definition plan_strs :: "string list \<Rightarrow> pyval" where
  "plan_strs xs = PList (map PStr xs)"

text \<open>The mapping that describes a task, and the mapping that describes a plan.\<close>

definition plan_task_dict :: "plan_task_spec \<Rightarrow> pyval" where
  "plan_task_dict t = PDict
     [(''plan_task_id'', PStr (pt_plan_task_id t)), (''title'', PStr (pt_title t)),
      (''paths'', plan_strs (pt_paths t)), (''resources'', plan_strs (pt_resources t)),
      (''dependencies'', plan_strs (pt_dependencies t)),
      (''acceptance_criteria'', plan_strs (pt_acceptance_criteria t)),
      (''delivery_requirements'', plan_strs (pt_delivery_requirements t)),
      (''state'', PStr (pt_state t))]"

definition plan_manifest_dict :: "plan_manifest \<Rightarrow> pyval" where
  "plan_manifest_dict m = PDict
     [(''plan_id'', PStr (pm_plan_id m)), (''revision'', PInt (pm_revision m)),
      (''workspace_id'', PStr (pm_workspace_id m)), (''title'', PStr (pm_title m)),
      (''status'', PStr (pm_status m)), (''spec_path'', PStr (pm_spec_path m)),
      (''spec_hash'', PStr (pm_spec_hash m)), (''plan_path'', PStr (pm_plan_path m)),
      (''plan_hash'', PStr (pm_plan_hash m)),
      (''supersedes_plan_ids'', plan_strs (pm_supersedes_plan_ids m)),
      (''created_at'', pm_created_at m), (''updated_at'', pm_updated_at m),
      (''tasks'', PList (map plan_task_dict (pm_tasks m)))]"

definition short_unique :: "string list \<Rightarrow> bool" where
  "short_unique xs \<longleftrightarrow> length xs \<le> plan_max_items \<and> distinct xs"

definition plan_task_wf :: "(string \<Rightarrow> string) \<Rightarrow> string \<Rightarrow> string \<Rightarrow> plan_task_spec \<Rightarrow> bool" where
  "plan_task_wf sha plan_id workspace_id t \<longleftrightarrow>
     normalized_text 128 (pt_plan_task_id t) \<and> plan_id_re (pt_plan_task_id t) \<and>
     normalized_text 240 (pt_title t) \<and>
     short_unique (pt_paths t) \<and> (\<forall>p\<in>set (pt_paths t). admissible_path p) \<and>
     short_unique (pt_resources t) \<and> (\<forall>r\<in>set (pt_resources t). plan_resource (PStr r) = Inr r) \<and>
     short_unique (pt_dependencies t) \<and> pt_plan_task_id t \<notin> set (pt_dependencies t) \<and>
     (\<forall>d\<in>set (pt_dependencies t). normalized_text 128 d \<and> plan_id_re d) \<and>
     short_unique (pt_acceptance_criteria t) \<and> pt_acceptance_criteria t \<noteq> [] \<and>
     (\<forall>c\<in>set (pt_acceptance_criteria t). normalized_text plan_max_text c) \<and>
     short_unique (pt_delivery_requirements t) \<and> pt_delivery_requirements t \<noteq> [] \<and>
     (\<forall>c\<in>set (pt_delivery_requirements t). normalized_text plan_max_text c) \<and>
     pt_state t \<in> set plan_task_states \<and>
     pt_logical_task_id t = plan_logical_task_id sha plan_id (pt_plan_task_id t) \<and>
     plan_intent_fingerprint sha (PStr workspace_id) (PStr (pt_title t)) (map PStr (pt_paths t))
       (map PStr (pt_resources t)) (map PStr (pt_acceptance_criteria t)) = Inr (pt_intent_fingerprint t)"

definition plan_manifest_wf :: "(string \<Rightarrow> string) \<Rightarrow> plan_manifest \<Rightarrow> bool" where
  "plan_manifest_wf sha m \<longleftrightarrow>
     normalized_text 128 (pm_plan_id m) \<and> plan_id_re (pm_plan_id m) \<and> 0 < pm_revision m \<and>
     plan_workspace (PStr (pm_workspace_id m)) = Inr (pm_workspace_id m) \<and>
     normalized_text 240 (pm_title m) \<and> pm_status m \<in> set plan_statuses \<and>
     admissible_path (pm_spec_path m) \<and> hex64 (pm_spec_hash m) \<and>
     (pm_plan_path m = [] \<longleftrightarrow> pm_plan_hash m = []) \<and>
     (pm_plan_path m \<noteq> [] \<longrightarrow> admissible_path (pm_plan_path m) \<and> hex64 (pm_plan_hash m)) \<and>
     short_unique (pm_supersedes_plan_ids m) \<and> pm_plan_id m \<notin> set (pm_supersedes_plan_ids m) \<and>
     (\<forall>p\<in>set (pm_supersedes_plan_ids m). normalized_text 128 p \<and> plan_id_re p) \<and>
     pm_tasks m \<noteq> [] \<and> length (pm_tasks m) \<le> plan_max_tasks \<and>
     distinct (map pt_plan_task_id (pm_tasks m)) \<and>
     (\<forall>t\<in>set (pm_tasks m). plan_task_wf sha (pm_plan_id m) (pm_workspace_id m) t \<and>
        set (pt_dependencies t) \<subseteq> set (map pt_plan_task_id (pm_tasks m))) \<and>
     if_truthy PStr (plan_text ''created_at'' 80) (pm_created_at m) = Inr (pm_created_at m) \<and>
     if_truthy PStr (plan_text ''updated_at'' 80) (pm_updated_at m) = Inr (pm_updated_at m)"

lemmas plan_field_Inr = plan_text_Inr plan_identifier_Inr plan_hash_Inr plan_path_Inr plan_member_Inr
  plan_sequence_Inr unique_items_Inr

lemma mapE_strs_iff:
  assumes "\<And>v s. f v = Inr s \<longleftrightarrow> v = PStr s \<and> P s"
  shows "mapE f vs = Inr ss \<longleftrightarrow> vs = map PStr ss \<and> (\<forall>s\<in>set ss. P s)"
  by (induction vs arbitrary: ss) (auto simp: result_simps assms)

lemma plan_text_tuple_Inr:
  "plan_text_tuple name allow_empty v = Inr ss \<longleftrightarrow> v = plan_strs ss \<and> short_unique ss \<and>
     (allow_empty \<or> ss \<noteq> []) \<and> (\<forall>s\<in>set ss. normalized_text plan_max_text s)"
  by (auto simp: plan_text_tuple_def result_simps plan_sequence_Inr mapE_strs_iff [OF plan_text_Inr]
      plan_strs_def short_unique_def)

lemma plan_resource_Inr: "plan_resource v = Inr s \<longleftrightarrow> v = PStr s \<and> plan_resource (PStr s) = Inr s"
  using resource_parser.parse_str by blast

lemma parse_plan_task_Inr:
  "parse_plan_task sha plan_id workspace_id v = Inr t \<Longrightarrow> plan_task_wf sha plan_id workspace_id t"
  unfolding parse_plan_task_def
  by (cases v)
    (auto simp: result_simps plan_field_Inr plan_text_tuple_Inr mapE_strs_iff [OF plan_path_Inr]
      mapE_strs_iff [OF plan_identifier_Inr] mapE_strs_iff [OF plan_resource_Inr] plan_task_wf_def
      short_unique_def plan_strs_def split: if_splits)

lemma parse_plan_task_dict:
  assumes "plan_task_wf sha plan_id workspace_id t"
  shows "parse_plan_task sha plan_id workspace_id (plan_task_dict t) = Inr t"
proof -
  have "mapE (plan_path ''paths'') (map PStr (pt_paths t)) = Inr (pt_paths t)"
    "mapE plan_resource (map PStr (pt_resources t)) = Inr (pt_resources t)"
    "mapE (plan_identifier ''dependency'') (map PStr (pt_dependencies t)) = Inr (pt_dependencies t)"
    "plan_text_tuple ''acceptance_criteria'' False (plan_strs (pt_acceptance_criteria t)) =
       Inr (pt_acceptance_criteria t)"
    "plan_text_tuple ''delivery_requirements'' False (plan_strs (pt_delivery_requirements t)) =
       Inr (pt_delivery_requirements t)"
    "plan_identifier ''plan_task_id'' (PStr (pt_plan_task_id t)) = Inr (pt_plan_task_id t)"
    "plan_text ''task title'' 240 (PStr (pt_title t)) = Inr (pt_title t)"
    "plan_member ''state is invalid'' plan_task_states (PStr (pt_state t)) = Inr (pt_state t)"
    using assms
    by (simp_all add: plan_task_wf_def plan_field_Inr plan_text_tuple_Inr mapE_strs_iff [OF plan_path_Inr]
        mapE_strs_iff [OF plan_identifier_Inr] mapE_strs_iff [OF plan_resource_Inr])
  moreover have "plan_sequence ''paths'' True (plan_strs (pt_paths t)) = Inr (map PStr (pt_paths t))"
    "plan_sequence ''resources'' True (plan_strs (pt_resources t)) = Inr (map PStr (pt_resources t))"
    "plan_sequence ''dependencies'' True (plan_strs (pt_dependencies t)) = Inr (map PStr (pt_dependencies t))"
    using assms by (simp_all add: plan_task_wf_def plan_sequence_Inr plan_strs_def short_unique_def)
  ultimately show ?thesis
    using assms
    by (simp add: parse_plan_task_def plan_task_dict_def py_get_def unique_items_def plan_task_wf_def
        short_unique_def)
qed

lemma check_dependencies_Inr:
  "check_dependencies tasks = Inr () \<longleftrightarrow>
     (\<forall>t\<in>set tasks. set (pt_dependencies t) \<subseteq> set (map pt_plan_task_id tasks))"
proof -
  have "check_dependencies tasks = Inr () \<longleftrightarrow>
      concat (map (\<lambda>t. filter (\<lambda>d. d \<notin> set (map pt_plan_task_id tasks)) (pt_dependencies t)) tasks) = []"
    by (cases "concat (map (\<lambda>t. filter (\<lambda>d. d \<notin> set (map pt_plan_task_id tasks)) (pt_dependencies t)) tasks)")
      (simp_all only: check_dependencies_def list.case sum.distinct list.distinct simp_thms)
  then show ?thesis by (auto simp: filter_empty_conv subset_iff)
qed

lemma plan_optional_path: "plan_optional (plan_path name) v = Inr s \<Longrightarrow> s \<noteq> [] \<Longrightarrow> admissible_path s"
  by (auto simp: plan_optional_def plan_path_Inr split: if_splits)

lemma plan_optional_hash: "plan_optional (plan_hash name) v = Inr s \<Longrightarrow> s \<noteq> [] \<Longrightarrow> hex64 s"
  by (auto simp: plan_optional_def plan_hash_Inr split: if_splits)

lemma mapE_tasks_wf:
  "mapE (parse_plan_task sha plan_id workspace_id) vs = Inr ts \<Longrightarrow>
     length ts = length vs \<and> (\<forall>t\<in>set ts. plan_task_wf sha plan_id workspace_id t)"
  by (auto dest: mapE_Inr_length mapE_Inr_set parse_plan_task_Inr)

lemma plan_manifest_Inr:
  assumes "plan_manifest_from_mapping sha v = Inr m" shows "plan_manifest_wf sha m"
proof -
  obtain d where v: "v = PDict d"
    using assms by (cases v) (auto simp: plan_manifest_from_mapping_def)
  obtain raw_tasks where raw: "py_get d ''tasks'' PNone = PList raw_tasks"
    using assms by (cases "py_get d ''tasks'' PNone")
      (auto simp: v plan_manifest_from_mapping_def Let_def result_simps split: if_splits)
  from assms have
    "\<exists>v. plan_identifier ''plan_id'' v = Inr (pm_plan_id m)"
    "plan_revision (py_get d ''revision'' PNone) = Inr (pm_revision m)"
    "\<exists>v. plan_workspace v = Inr (pm_workspace_id m)"
    "\<exists>v. plan_text ''title'' 240 v = Inr (pm_title m)"
    "\<exists>v. plan_member ''status is invalid'' plan_statuses v = Inr (pm_status m)"
    "\<exists>v. plan_path ''spec_path'' v = Inr (pm_spec_path m)"
    "\<exists>v. plan_hash ''spec_hash'' v = Inr (pm_spec_hash m)"
    "py_truthy (py_get d ''plan_path'' (PStr [])) = py_truthy (py_get d ''plan_hash'' (PStr []))"
    "plan_optional (plan_path ''plan_path'') (py_get d ''plan_path'' (PStr [])) = Inr (pm_plan_path m)"
    "plan_optional (plan_hash ''plan_hash'') (py_get d ''plan_hash'' (PStr [])) = Inr (pm_plan_hash m)"
    "\<exists>vs. length vs \<le> plan_max_items \<and>
       mapE (plan_identifier ''supersedes_plan_id'') vs = Inr (pm_supersedes_plan_ids m)"
    "distinct (pm_supersedes_plan_ids m)" "pm_plan_id m \<notin> set (pm_supersedes_plan_ids m)"
    "raw_tasks \<noteq> []" "length raw_tasks \<le> plan_max_tasks"
    "mapE (parse_plan_task sha (pm_plan_id m) (pm_workspace_id m)) raw_tasks = Inr (pm_tasks m)"
    "distinct (map pt_plan_task_id (pm_tasks m))" "\<exists>u. check_dependencies (pm_tasks m) = Inr u"
    "\<exists>v. if_truthy PStr (plan_text ''created_at'' 80) v = Inr (pm_created_at m)"
    "\<exists>v. if_truthy PStr (plan_text ''updated_at'' 80) v = Inr (pm_updated_at m)"
    by (auto simp: v raw plan_manifest_from_mapping_def Let_def result_simps plan_sequence_Inr
        split: if_splits)
  note fields = this
  from fields(2) have revision: "0 < pm_revision m"
    by (auto simp: plan_revision_def split: pyval.splits if_splits)
  have plan_file: "pm_plan_path m = [] \<longleftrightarrow> pm_plan_hash m = []"
    using path_parser.optional_nonempty [OF fields(9)] hash_parser.optional_nonempty [OF fields(10)] fields(8)
    by blast
  have "pm_tasks m \<noteq> []" and "length (pm_tasks m) \<le> plan_max_tasks"
    and "\<forall>t\<in>set (pm_tasks m). plan_task_wf sha (pm_plan_id m) (pm_workspace_id m) t"
    using mapE_tasks_wf [OF fields(16)] fields(14,15) by auto
  moreover have "plan_workspace (PStr (pm_workspace_id m)) = Inr (pm_workspace_id m)"
    using fields(3) workspace_parser.reparse by blast
  ultimately show ?thesis
    using fields revision plan_file text_parser.reparse_truthy
    by (auto simp: plan_manifest_wf_def plan_field_Inr short_unique_def check_dependencies_Inr
        mapE_strs_iff [OF plan_identifier_Inr] plan_optional_path plan_optional_hash)
qed

lemma mapE_render: "(\<And>x. x \<in> set xs \<Longrightarrow> f (g x) = Inr x) \<Longrightarrow> mapE f (map g xs) = Inr xs"
  by (induction xs) auto

lemma plan_manifest_dict_Inr:
  assumes "plan_manifest_wf sha m"
  shows "plan_manifest_from_mapping sha (plan_manifest_dict m) = Inr m"
proof -
  have tasks: "mapE (parse_plan_task sha (pm_plan_id m) (pm_workspace_id m)) (map plan_task_dict (pm_tasks m)) =
      Inr (pm_tasks m)"
    using assms by (intro mapE_render parse_plan_task_dict) (simp add: plan_manifest_wf_def)
  have supersedes: "plan_sequence ''supersedes_plan_ids'' True (plan_strs (pm_supersedes_plan_ids m)) =
      Inr (map PStr (pm_supersedes_plan_ids m))"
    "mapE (plan_identifier ''supersedes_plan_id'') (map PStr (pm_supersedes_plan_ids m)) =
      Inr (pm_supersedes_plan_ids m)"
    using assms by (simp_all add: plan_manifest_wf_def plan_sequence_Inr plan_strs_def short_unique_def
        mapE_strs_iff [OF plan_identifier_Inr])
  have files: "plan_optional (plan_path ''plan_path'') (PStr (pm_plan_path m)) = Inr (pm_plan_path m)"
    "plan_optional (plan_hash ''plan_hash'') (PStr (pm_plan_hash m)) = Inr (pm_plan_hash m)"
    using assms by (auto simp: plan_manifest_wf_def plan_optional_def plan_path_Inr plan_hash_Inr)
  have dependencies: "check_dependencies (pm_tasks m) = Inr ()"
    using assms by (auto simp: plan_manifest_wf_def check_dependencies_Inr)
  have simple: "plan_identifier ''plan_id'' (PStr (pm_plan_id m)) = Inr (pm_plan_id m)"
    "plan_revision (PInt (pm_revision m)) = Inr (pm_revision m)"
    "plan_text ''title'' 240 (PStr (pm_title m)) = Inr (pm_title m)"
    "plan_member ''status is invalid'' plan_statuses (PStr (pm_status m)) = Inr (pm_status m)"
    "plan_path ''spec_path'' (PStr (pm_spec_path m)) = Inr (pm_spec_path m)"
    "plan_hash ''spec_hash'' (PStr (pm_spec_hash m)) = Inr (pm_spec_hash m)"
    using assms by (simp_all add: plan_manifest_wf_def plan_field_Inr plan_revision_def)
  show ?thesis
    using assms
    by (simp add: plan_manifest_from_mapping_def plan_manifest_dict_def py_get_def tasks supersedes files
        dependencies simple plan_manifest_wf_def short_unique_def)
qed

section \<open>Properties\<close>

text \<open>
  C13: Validation is exact and stable: the plans that \<open>plan_manifest_from_mapping\<close> returns are exactly
  the well-formed ones (bounded, unique and normalised fields, task identities and fingerprints
  computed from the content, dependencies between tasks of the plan), and a plan written back as
  a mapping parses to itself.
\<close>

theorem plan_manifest_roundtrip:
  "((\<exists>value. plan_manifest_from_mapping sha value = Inr m) \<longleftrightarrow> plan_manifest_wf sha m) \<and>
   (plan_manifest_from_mapping sha (plan_manifest_dict m) = Inr m \<longleftrightarrow> plan_manifest_wf sha m)"
  using plan_manifest_Inr plan_manifest_dict_Inr by blast

text \<open>A status that is a list leaves the parser as a \<open>TypeError\<close>, outside its declared error.\<close>

lemma unhashable_status_escapes:
  "plan_manifest_from_mapping sha (PDict
     [(''plan_id'', PStr ''p1''), (''revision'', PInt 1), (''workspace_id'', PStr ''repo''),
      (''title'', PStr ''Plan''), (''status'', PList [])]) = Inl UnhashableType"
proof -
  have "plan_identifier ''plan_id'' (PStr ''p1'') = Inr ''p1''"
    and "plan_workspace (PStr ''repo'') = Inr ''repo''" and "plan_text ''title'' 240 (PStr ''Plan'') = Inr ''Plan''"
    by code_simp+
  then show ?thesis by (simp add: plan_manifest_from_mapping_def py_get_def plan_revision_def plan_member_def)
qed

end
