(* ===== verification/JsonReader.thy ===== *)
theory JsonReader
  imports PyJson
begin

text \<open>
  \<open>json.loads(text)\<close>, the reader behind every column that the sources store as JSON text: white
  space between tokens, the strict string scanner with its escapes, numbers, lists and
  objects whose last duplicate key wins. A reader returns its value with the rest of the text, and
  \<open>None\<close> is the \<open>JSONDecodeError\<close>. The constants \<open>NaN\<close>, \<open>Infinity\<close> and \<open>-Infinity\<close> are not read,
  nor is an escape above \<open>u00ff\<close>, which the model's characters do not have. The main fact is that
  the reader recovers what \<open>json_text\<close> writes.
\<close>

section \<open>Tokens\<close>

definition skip_space :: "string \<Rightarrow> string" where
  "skip_space = dropWhile (\<lambda>c. c \<in> {CHR '' '', CHR 0x09, CHR 0x0A, CHR 0x0D})"

definition hex_value :: "char \<Rightarrow> nat option" where
  "hex_value c =
     (let n = of_char c :: nat in
      if is_digit_char c then Some (n - 48)
      else if c \<in> set ''abcdef'' then Some (n - 87)
      else if c \<in> set ''ABCDEF'' then Some (n - 55)
      else None)"

text \<open>The character of \<open>uXXXX\<close>.\<close>

definition unicode_escape :: "char \<Rightarrow> char \<Rightarrow> char \<Rightarrow> char \<Rightarrow> char option" where
  "unicode_escape a b c d =
     (case (hex_value a, hex_value b, hex_value c, hex_value d) of
        (Some i, Some j, Some k, Some l) \<Rightarrow> if i = 0 \<and> j = 0 then Some (char_of (16 * k + l)) else None
      | _ \<Rightarrow> None)"

definition simple_escape :: "char \<Rightarrow> char option" where
  "simple_escape c = map_of
     [(CHR 0x22, CHR 0x22), (CHR 0x5C, CHR 0x5C), (CHR ''/'', CHR ''/''), (CHR ''b'', CHR 0x08),
      (CHR ''f'', CHR 0x0C), (CHR ''n'', CHR 0x0A), (CHR ''r'', CHR 0x0D), (CHR ''t'', CHR 0x09)] c"

text \<open>The text after the opening quote.\<close>

fun scan_string :: "string \<Rightarrow> (string \<times> string) option" where
  "scan_string [] = None"
| "scan_string (c # s) =
     (if c = CHR 0x22 then Some ([], s)
      else if c = CHR 0x5C then
        (case s of
           [] \<Rightarrow> None
         | e # t \<Rightarrow>
             if e = CHR ''u'' then
               (case t of
                  h1 # h2 # h3 # h4 # u \<Rightarrow>
                    (case unicode_escape h1 h2 h3 h4 of
                       None \<Rightarrow> None
                     | Some x \<Rightarrow> map_option (apfst (Cons x)) (scan_string u))
                | _ \<Rightarrow> None)
             else
               (case simple_escape e of
                  None \<Rightarrow> None
                | Some x \<Rightarrow> map_option (apfst (Cons x)) (scan_string t)))
      else if (of_char c :: nat) < 32 then None
      else map_option (apfst (Cons c)) (scan_string s))"

definition digits_value :: "string \<Rightarrow> nat" where
  "digits_value = foldl (\<lambda>n c. 10 * n + (of_char c - 48)) 0"

definition span_digits :: "string \<Rightarrow> string \<times> string" where
  "span_digits s = (takeWhile (\<lambda>c. c \<in> set digit_chars) s, dropWhile (\<lambda>c. c \<in> set digit_chars) s)"

text \<open>\<open>(\.\d+)?\<close> and \<open>([eE][-+]?\d+)?\<close>: the part is absent when its digits are missing.\<close>

definition scan_fraction :: "string \<Rightarrow> string \<times> string" where
  "scan_fraction s =
     (case s of
        c # t \<Rightarrow>
          if c = CHR ''.'' then (case span_digits t of (ds, u) \<Rightarrow> if ds = [] then ([], s) else (ds, u))
          else ([], s)
      | [] \<Rightarrow> ([], s))"

definition scan_exponent :: "string \<Rightarrow> int option \<times> string" where
  "scan_exponent s =
     (case s of
        c # t \<Rightarrow>
          if c \<in> set ''eE'' then
            (let signed = (t \<noteq> [] \<and> hd t \<in> set ''+-''); v = (if signed then tl t else t) in
             case span_digits v of (ds, u) \<Rightarrow>
               if ds = [] then (None, s)
               else (Some (if signed \<and> hd t = CHR ''-'' then - int (digits_value ds) else int (digits_value ds)), u))
          else (None, s)
      | [] \<Rightarrow> (None, s))"

text \<open>\<open>(-?(?:0|[1-9]\d*))(\.\d+)?([eE][-+]?\d+)?\<close>: an integer without the last two parts.\<close>

definition scan_number :: "string \<Rightarrow> (pyval \<times> string) option" where
  "scan_number s =
     (let negative = (s \<noteq> [] \<and> hd s = CHR ''-''); t = (if negative then tl s else s) in
      case span_digits t of (ds, u) \<Rightarrow>
        if ds = [] then None
        else
          let ip = (if hd ds = CHR ''0'' then [hd ds] else ds); rest = drop (length ip) t in
          case scan_fraction rest of (fp, r1) \<Rightarrow>
          case scan_exponent r1 of (ex, r2) \<Rightarrow>
            if fp = [] \<and> ex = None
            then Some (PInt (if negative then - int (digits_value ip) else int (digits_value ip)), rest)
            else
              let m = of_nat (digits_value (ip @ fp)) * (10 :: rat) powi ((case ex of None \<Rightarrow> 0 | Some e \<Rightarrow> e) - int (length fp))
              in Some (PFloat (if negative then - m else m), r2))"

section \<open>Values\<close>

text \<open>The rest of the text after the given character.\<close>

definition closes :: "char \<Rightarrow> string \<Rightarrow> string option" where
  "closes c s = (case s of [] \<Rightarrow> None | d # t \<Rightarrow> if d = c then Some t else None)"

text \<open>\<open>dict(pairs)\<close>: a key keeps its first position and takes its last value.\<close>

fun json_put :: "'k \<Rightarrow> 'v \<Rightarrow> ('k \<times> 'v) list \<Rightarrow> ('k \<times> 'v) list" where
  "json_put k v [] = [(k, v)]"
| "json_put k v ((j, w) # d) = (if j = k then (k, v) # d else (j, w) # json_put k v d)"

definition dict_of_pairs :: "('k \<times> 'v) list \<Rightarrow> ('k \<times> 'v) list" where
  "dict_of_pairs = foldl (\<lambda>d (k, v). json_put k v d) []"

text \<open>Every call of a reader takes one unit of fuel.\<close>

fun read_value :: "nat \<Rightarrow> string \<Rightarrow> (pyval \<times> string) option"
  and read_items :: "nat \<Rightarrow> string \<Rightarrow> (pyval list \<times> string) option"
  and read_fields :: "nat \<Rightarrow> string \<Rightarrow> ((string \<times> pyval) list \<times> string) option" where
  "read_value 0 s = None"
| "read_value (Suc n) s =
     (case s of
        [] \<Rightarrow> None
      | c # t \<Rightarrow>
          if c = CHR 0x22 then map_option (apfst PStr) (scan_string t)
          else if c = CHR ''['' then
            (case closes CHR '']'' (skip_space t) of
               Some u \<Rightarrow> Some (PList [], u)
             | None \<Rightarrow> map_option (apfst PList) (read_items n (skip_space t)))
          else if c = CHR ''{'' then
            (case closes CHR ''}'' (skip_space t) of
               Some u \<Rightarrow> Some (PDict [], u)
             | None \<Rightarrow> map_option (apfst (\<lambda>kvs. PDict (dict_of_pairs kvs))) (read_fields n (skip_space t)))
          else if prefix ''null'' s then Some (PNone, drop 4 s)
          else if prefix ''true'' s then Some (PBool True, drop 4 s)
          else if prefix ''false'' s then Some (PBool False, drop 5 s)
          else scan_number s)"
| "read_items 0 s = None"
| "read_items (Suc n) s =
     (case read_value n s of
        None \<Rightarrow> None
      | Some (x, t) \<Rightarrow>
          (case (closes CHR '']'' (skip_space t), closes CHR '','' (skip_space t)) of
             (Some u, _) \<Rightarrow> Some ([x], u)
           | (None, Some u) \<Rightarrow> map_option (apfst (Cons x)) (read_items n (skip_space u))
           | (None, None) \<Rightarrow> None))"
| "read_fields 0 s = None"
| "read_fields (Suc n) s =
     (case closes CHR 0x22 s of
        None \<Rightarrow> None
      | Some s1 \<Rightarrow>
          (case scan_string s1 of
             None \<Rightarrow> None
           | Some (k, s2) \<Rightarrow>
               (case closes CHR '':'' (skip_space s2) of
                  None \<Rightarrow> None
                | Some s3 \<Rightarrow>
                    (case read_value n (skip_space s3) of
                       None \<Rightarrow> None
                     | Some (x, t) \<Rightarrow>
                         (case (closes CHR ''}'' (skip_space t), closes CHR '','' (skip_space t)) of
                            (Some u, _) \<Rightarrow> Some ([(k, x)], u)
                          | (None, Some u) \<Rightarrow> map_option (apfst (Cons (k, x))) (read_fields n (skip_space u))
                          | (None, None) \<Rightarrow> None)))))"

text \<open>A value never needs more fuel than twice the length of its text.\<close>

definition json_loads :: "string \<Rightarrow> pyval option" where
  "json_loads s =
     (case read_value (2 * length s + 1) (skip_space s) of
        Some (x, t) \<Rightarrow> if skip_space t = [] then Some x else None
      | None \<Rightarrow> None)"


declare read_value.simps [simp del] read_items.simps [simp del] read_fields.simps [simp del]

section \<open>What is written is read back\<close>

fun py_of_json :: "json \<Rightarrow> pyval" where
  "py_of_json JNull = PNone"
| "py_of_json (JBool b) = PBool b"
| "py_of_json (JInt i) = PInt i"
| "py_of_json (JStr s) = PStr s"
| "py_of_json (JList xs) = PList (map py_of_json xs)"
| "py_of_json (JObj kvs) = PDict (map (\<lambda>(k, v). (k, py_of_json v)) kvs)"

fun distinct_keys :: "json \<Rightarrow> bool" where
  "distinct_keys (JList xs) = (\<forall>x\<in>set xs. distinct_keys x)"
| "distinct_keys (JObj kvs) = (distinct (map fst kvs) \<and> (\<forall>(k, v)\<in>set kvs. distinct_keys v))"
| "distinct_keys _ = True"

lemma closes_Cons [simp]: "closes c (d # t) = (if d = c then Some t else None)"
  by (simp add: closes_def)

lemma hex_value_digit: "n < 16 \<Longrightarrow> hex_value (hex_digit n) = Some n"
proof -
  have "list_all (\<lambda>n. hex_value (hex_digit n) = Some n) [0..<16]" by code_simp
  then show "n < 16 \<Longrightarrow> hex_value (hex_digit n) = Some n" by (simp add: list_all_iff)
qed

lemma scan_escape_char: "scan_string (escape_char c @ s) = map_option (apfst (Cons c)) (scan_string s)"
proof -
  have hex: "hex_value CHR ''0'' = Some 0" by code_simp
  have "(of_char c :: nat) div 16 < 16" and "(of_char c :: nat) mod 16 < 16"
    using nat_of_char_less_256 [of c] by (auto simp del: nat_of_char_less_256)
  then have "unicode_escape CHR ''0'' CHR ''0'' (hex_digit (of_char c div 16)) (hex_digit (of_char c mod 16)) = Some c"
    by (simp add: unicode_escape_def hex hex_value_digit)
  then show ?thesis
    by (simp add: escape_char_def simple_escape_def)
qed

lemma scan_json_string: "scan_string (concat (map escape_char s) @ CHR 0x22 # u) = Some (s, u)"
  by (induction s) (simp_all add: scan_escape_char)

lemma digits_value_append: "digits_value (ds @ [d]) = 10 * digits_value ds + (of_char d - 48)"
  by (simp add: digits_value_def)

lemma of_char_decimal: "n < 10 \<Longrightarrow> (of_char (hex_digit n) :: nat) = 48 + n"
proof -
  have "list_all (\<lambda>n. (of_char (hex_digit n) :: nat) = 48 + n) [0..<10]" by code_simp
  then show "n < 10 \<Longrightarrow> (of_char (hex_digit n) :: nat) = 48 + n" by (simp add: list_all_iff)
qed

lemma digits_value_nat_digits: "digits_value (nat_digits n) = n"
proof (induction n rule: nat_digits.induct)
  case (1 n)
  show ?case
  proof (cases "n < 10")
    case True
    then show ?thesis by (simp add: nat_digits.simps [of n] digits_value_def of_char_decimal)
  next
    case False
    with 1 show ?thesis by (simp add: nat_digits.simps [of n] digits_value_append of_char_decimal)
  qed
qed

lemma nat_digits_hd_zero: "hd (nat_digits n) = CHR ''0'' \<Longrightarrow> n = 0"
proof (induction n rule: nat_digits.induct)
  case (1 n)
  show ?case
  proof (cases "n < 10")
    case True
    then show ?thesis
      using 1(2) of_char_decimal [of n] by (simp add: nat_digits.simps [of n])
  next
    case False
    with 1 have "n div 10 = 0"
      by (simp add: nat_digits.simps [of n] nat_digits_nonempty)
    with False show ?thesis by simp
  qed
qed

lemma scan_fraction_delim: "at_delim u \<Longrightarrow> scan_fraction u = ([], u)"
  by (auto simp: scan_fraction_def at_delim_def split: list.splits)

lemma scan_exponent_delim: "at_delim u \<Longrightarrow> scan_exponent u = (None, u)"
  by (auto simp: scan_exponent_def at_delim_def split: list.splits)

lemma span_nat_digits: "at_delim u \<Longrightarrow> span_digits (nat_digits n @ u) = (nat_digits n, u)"
  using takeWhile_digits [OF nat_digits_chars, of u n]
  by (simp add: span_digits_def) (metis append_eq_append_conv takeWhile_dropWhile_id)

lemma scan_int_digits:
  assumes "at_delim u"
  shows "scan_number (int_digits i @ u) = Some (PInt i, u)"
proof -
  have ip: "(if hd (nat_digits n) = CHR ''0'' then [hd (nat_digits n)] else nat_digits n) = nat_digits n" for n
    using nat_digits_hd_zero [of n] by (auto simp: nat_digits.simps [of 0])
  show ?thesis
  proof (cases "i < 0")
    case True
    then show ?thesis
      using assms
      by (simp add: scan_number_def int_digits_def span_nat_digits nat_digits_nonempty ip Let_def
          scan_fraction_delim scan_exponent_delim digits_value_nat_digits)
  next
    case False
    have "hd (nat_digits (nat i) @ u) \<noteq> CHR ''-''"
      using nat_digits_not_minus [of "nat i" u "tl (nat_digits (nat i) @ u)"] nat_digits_nonempty [of "nat i"]
      by (cases "nat_digits (nat i)") auto
    with False show ?thesis
      using assms
      by (simp add: scan_number_def int_digits_def span_nat_digits nat_digits_nonempty ip Let_def
          scan_fraction_delim scan_exponent_delim digits_value_nat_digits)
  qed
qed

definition plain_start :: "string \<Rightarrow> bool" where
  "plain_start s \<longleftrightarrow> (case s of [] \<Rightarrow> False
     | c # _ \<Rightarrow> c \<notin> {CHR '' '', CHR 0x09, CHR 0x0A, CHR 0x0D, CHR '']'', CHR ''}'', CHR '','', CHR '':''})"

lemma nat_digits_plain: "plain_start (nat_digits n @ u)"
  using nat_digits_chars [of n] nat_digits_nonempty [of n]
  by (cases "nat_digits n") (auto simp: plain_start_def digit_chars_def)

lemma json_text_plain: "plain_start (json_text x @ u)"
proof (cases x)
  case (JInt i)
  then show ?thesis
    using nat_digits_plain [of "nat i" u] by (auto simp: int_digits_def plain_start_def)
qed (simp_all add: plain_start_def json_string_def)

lemma skip_plain: "plain_start s \<Longrightarrow> skip_space s = s"
  by (cases s) (auto simp: plain_start_def skip_space_def)

lemma closes_plain: "plain_start s \<Longrightarrow> c \<in> {CHR '']'', CHR ''}'', CHR '','', CHR '':''} \<Longrightarrow> closes c s = None"
  by (cases s) (auto simp: plain_start_def)

lemma skip_delim [simp]:
  "skip_space (CHR '']'' # u) = CHR '']'' # u" "skip_space (CHR ''}'' # u) = CHR ''}'' # u"
  "skip_space (CHR '','' # u) = CHR '','' # u" "skip_space (CHR '':'' # u) = CHR '':'' # u"
  by (simp_all add: skip_space_def)

lemma at_delim_simps [simp]:
  "at_delim (CHR '']'' # u)" "at_delim (CHR ''}'' # u)" "at_delim (CHR '','' # u)" "at_delim []"
  by (simp_all add: at_delim_def)

lemma json_items_plain: "xs \<noteq> [] \<Longrightarrow> plain_start (json_items xs @ u)"
  by (cases xs rule: json_items.cases) (auto simp: json_text_plain)

lemma json_fields_quote: "kvs \<noteq> [] \<Longrightarrow> \<exists>t. json_fields kvs @ u = CHR 0x22 # t"
  by (cases kvs rule: json_fields.cases) (auto simp: json_string_def)

lemma json_fields_plain: "kvs \<noteq> [] \<Longrightarrow> plain_start (json_fields kvs @ u)"
  using json_fields_quote [of kvs u] by (auto simp: plain_start_def)

lemma json_put_new: "k \<notin> fst ` set d \<Longrightarrow> json_put k v d = d @ [(k, v)]"
  by (induction d) auto

lemma dict_of_distinct: "distinct (map fst kvs) \<Longrightarrow> dict_of_pairs kvs = kvs"
proof -
  have "distinct (map fst (d @ kvs)) \<Longrightarrow> foldl (\<lambda>d (k, v). json_put k v d) d kvs = d @ kvs" for d
    by (induction kvs arbitrary: d) (auto simp: json_put_new)
  from this [of "[]"] show "distinct (map fst kvs) \<Longrightarrow> dict_of_pairs kvs = kvs"
    by (simp add: dict_of_pairs_def)
qed

lemma keys_json_put: "fst ` set (json_put k v d) = insert k (fst ` set d)"
  by (induction k v d rule: json_put.induct) (simp_all add: insert_commute)

lemma distinct_json_put: "distinct (map fst d) \<Longrightarrow> distinct (map fst (json_put k v d))"
  by (induction d) (auto simp: keys_json_put)

lemma distinct_dict_of_pairs: "distinct (map fst (dict_of_pairs kvs))"
proof -
  have "distinct (map fst d) \<Longrightarrow> distinct (map fst (foldl (\<lambda>d (k, v). json_put k v d) d kvs))"
    for d :: "('a \<times> 'b) list"
    by (induction kvs arbitrary: d) (auto simp: distinct_json_put)
  from this [of "[]"] show ?thesis by (simp add: dict_of_pairs_def)
qed

lemma read_int: "at_delim u \<Longrightarrow> read_value (Suc n) (int_digits i @ u) = Some (PInt i, u)"
proof -
  assume u: "at_delim u"
  obtain c t where c: "int_digits i = c # t" and kind: "json_kind c = 2"
    using int_digits_kind [of i] by blast
  have "c = CHR ''-'' \<or> c \<in> set digit_chars"
    by (rule ccontr) (use kind in \<open>simp add: json_kind_def split: if_splits\<close>)
  then have "read_value (Suc n) (c # t @ u) = scan_number (c # t @ u)"
    by (auto simp: read_value.simps digit_chars_def)
  with u scan_int_digits [OF u, of i] c show ?thesis by simp
qed

lemma read_list:
  assumes "xs \<noteq> []" "read_items n (json_items xs @ CHR '']'' # u) = Some (vs, u)"
  shows "read_value (Suc n) (json_text (JList xs) @ u) = Some (PList vs, u)"
  using assms skip_plain [OF json_items_plain, OF assms(1)] closes_plain [OF json_items_plain, OF assms(1)]
  by (simp add: read_value.simps)

lemma read_object:
  assumes "kvs \<noteq> []" "read_fields n (json_fields kvs @ CHR ''}'' # u) = Some (d, u)" "distinct (map fst d)"
  shows "read_value (Suc n) (json_text (JObj kvs) @ u) = Some (PDict d, u)"
  using assms skip_plain [OF json_fields_plain, OF assms(1)] closes_plain [OF json_fields_plain, OF assms(1)]
  by (simp add: read_value.simps dict_of_distinct)

lemma read_json_text:
  "at_delim u \<Longrightarrow> 2 * length (json_text x) \<le> n \<Longrightarrow> distinct_keys x \<Longrightarrow>
     read_value n (json_text x @ u) = Some (py_of_json x, u)"
  "xs \<noteq> [] \<Longrightarrow> 2 * length (json_items xs) + 1 \<le> n \<Longrightarrow> (\<forall>x\<in>set xs. distinct_keys x) \<Longrightarrow>
     read_items n (json_items xs @ CHR '']'' # u) = Some (map py_of_json xs, u)"
  "kvs \<noteq> [] \<Longrightarrow> 2 * length (json_fields kvs) + 1 \<le> n \<Longrightarrow> (\<forall>(k, v)\<in>set kvs. distinct_keys v) \<Longrightarrow>
     read_fields n (json_fields kvs @ CHR ''}'' # u) = Some (map (\<lambda>(k, v). (k, py_of_json v)) kvs, u)"
proof (induction x and xs and kvs arbitrary: n u and n u and n u rule: json_text_json_items_json_fields.induct)
  case 1
  then show ?case by (cases n) (auto simp: read_value.simps)
next
  case (2 b)
  then show ?case by (cases n; cases b) (auto simp: read_value.simps)
next
  case (3 i)
  then obtain m where "n = Suc m"
    using nat_digits_nonempty by (cases n) (auto simp: int_digits_def split: if_splits)
  with 3 show ?case by (simp add: read_int)
next
  case (4 s)
  then show ?case
    by (cases n) (auto simp: read_value.simps json_string_def scan_json_string)
next
  case (5 xs)
  show ?case
  proof (cases "xs = []")
    case True
    with 5 show ?thesis by (cases n) (auto simp: read_value.simps)
  next
    case False
    from 5 obtain m where m: "n = Suc m" "2 * length (json_items xs) + 1 \<le> m" by (cases n) auto
    with 5 False show ?thesis by (simp only: py_of_json.simps m(1)) (rule read_list; simp)
  qed
next
  case (6 kvs)
  show ?case
  proof (cases "kvs = []")
    case True
    with 6 show ?thesis by (cases n) (auto simp: read_value.simps)
  next
    case False
    from 6 obtain m where m: "n = Suc m" "2 * length (json_fields kvs) + 1 \<le> m" by (cases n) auto
    have keys: "map fst (map (\<lambda>(k, v). (k, py_of_json v)) kvs) = map fst kvs" by auto
    from 6 m False show ?thesis
      by (simp only: py_of_json.simps m(1)) (rule read_object; simp add: keys del: map_map)
  qed
next
  case 7
  then show ?case by simp
next
  case (8 x)
  then show ?case by (cases n) (auto simp: read_items.simps)
next
  case (9 x y ys)
  from 9 obtain m where m: "n = Suc m" by (cases n) auto
  have "read_value m (json_text x @ CHR '','' # json_items (y # ys) @ CHR '']'' # u) =
      Some (py_of_json x, CHR '','' # json_items (y # ys) @ CHR '']'' # u)"
    using 9 m by simp
  moreover have "read_items m (json_items (y # ys) @ CHR '']'' # u) = Some (map py_of_json (y # ys), u)"
    using 9 m by simp
  ultimately show ?case
    using skip_plain [OF json_items_plain [of "y # ys" "CHR '']'' # u"]]
    by (simp add: m read_items.simps)
next
  case 10
  then show ?case by simp
next
  case (11 k v)
  from 11 obtain m where m: "n = Suc m" by (cases n) auto
  with 11 show ?case
    using skip_plain [OF json_text_plain [of v "CHR ''}'' # u"]]
    by (simp add: read_fields.simps json_string_def scan_json_string)
next
  case (12 k v e es)
  from 12 obtain m where m: "n = Suc m" by (cases n) auto
  have "read_value m (json_text v @ CHR '','' # json_fields (e # es) @ CHR ''}'' # u) =
      Some (py_of_json v, CHR '','' # json_fields (e # es) @ CHR ''}'' # u)"
    using 12 m by (simp add: json_string_def)
  moreover have "read_fields m (json_fields (e # es) @ CHR ''}'' # u) =
      Some (map (\<lambda>(k, v). (k, py_of_json v)) (e # es), u)"
    using 12 m by (simp add: json_string_def)
  ultimately show ?case
    using skip_plain [OF json_fields_plain [of "e # es" "CHR ''}'' # u"]]
      skip_plain [OF json_text_plain [of v "CHR '','' # json_fields (e # es) @ CHR ''}'' # u"]]
    by (simp add: m read_fields.simps json_string_def scan_json_string)
qed

theorem json_loads_text: "distinct_keys x \<Longrightarrow> json_loads (json_text x) = Some (py_of_json x)"
  using read_json_text(1) [of "[]" x "2 * length (json_text x) + 1"] skip_plain [OF json_text_plain [of x "[]"]]
  by (simp add: json_loads_def skip_space_def)

lemma json_loads_jstrs: "json_loads (json_dumps (jstrs xs)) = Some (PList (map PStr xs))"
  using json_loads_text [of "jstrs xs"] by (simp add: json_dumps_def jstrs_def comp_def)

lemma sort_key_map_values: "sort_key fst (map (\<lambda>(k, v). (k, f v)) d) = map (\<lambda>(k, v). (k, f v)) (sort_key fst d)"
proof -
  have ins: "insort_key fst (k, f v) (map (\<lambda>(k, v). (k, f v)) e) = map (\<lambda>(k, v). (k, f v)) (insort_key fst (k, v) e)"
    for k v e by (induction e) auto
  show ?thesis by (induction d) (auto simp: ins)
qed

lemma distinct_sort_key_fst: "distinct (map fst d) \<Longrightarrow> distinct (map fst (sort_key fst d))"
  by (simp add: distinct_map inj_on_def)

lemma json_loads_str_object:
  assumes "distinct (map fst d)"
  shows "json_loads (json_dumps (JObj (map (\<lambda>(k, v). (k, JStr v)) d))) =
    Some (PDict (map (\<lambda>(k, v). (k, PStr v)) (sort_key fst d)))"
proof -
  have "json_canon (JObj (map (\<lambda>(k, v). (k, JStr v)) d)) = JObj (map (\<lambda>(k, v). (k, JStr v)) (sort_key fst d))"
    using sort_key_map_values [of JStr d] by (simp add: comp_def case_prod_beta')
  then show ?thesis
    using json_loads_text [of "JObj (map (\<lambda>(k, v). (k, JStr v)) (sort_key fst d))"]
      distinct_sort_key_fst [OF assms]
    by (auto simp: json_dumps_def comp_def case_prod_beta')
qed

section \<open>Texts with escapes for all but ASCII\<close>

text \<open>
  In a text written by \<open>json_dumps\<close> the digits of an escape stand for a control character, so an
  escape of \<open>ensure_ascii\<close> is told from it by its third digit.
\<close>

fun escaped :: "string \<Rightarrow> bool" where
  "escaped [] = True"
| "escaped (c # s) =
     (if c = CHR 0x5C then
        (case s of
           [] \<Rightarrow> False
         | e # t \<Rightarrow>
             if e = CHR ''u'' then
               (case t of h1 # h2 # h3 # h4 # r \<Rightarrow> h3 \<in> set ''01'' \<and>
                    list_all (\<lambda>h. h \<noteq> CHR 0x5C \<and> (of_char h :: nat) < 127) [h1, h2, h3, h4] \<and> escaped r
                | _ \<Rightarrow> False)
             else (of_char e :: nat) < 127 \<and> escaped t)
      else escaped s)"

fun from_ascii :: "string \<Rightarrow> string" where
  "from_ascii [] = []"
| "from_ascii (c # s) =
     (if c = CHR 0x5C then
        (case s of
           [] \<Rightarrow> [c]
         | e # t \<Rightarrow>
             if e = CHR ''u'' then
               (case t of h1 # h2 # h3 # h4 # r \<Rightarrow>
                    if h3 \<in> set ''01'' then c # e # h1 # h2 # h3 # h4 # from_ascii r
                    else char_of (16 * the (hex_value h3) + the (hex_value h4)) # from_ascii r
                | _ \<Rightarrow> [])
             else c # e # from_ascii t)
      else c # from_ascii s)"

lemma ensure_ascii_simps [simp]:
  "ensure_ascii [] = []"
  "ensure_ascii (c # s) = ascii_char c @ ensure_ascii s"
  by (simp_all add: ensure_ascii_def)

lemma ascii_char_same: "(of_char c :: nat) < 127 \<Longrightarrow> ascii_char c = [c]"
  by (simp add: ascii_char_def)

lemma from_ascii_wide:
  assumes "\<not> (of_char c :: nat) < 127"
  shows "from_ascii (ascii_char c @ s) = c # from_ascii s"
proof -
  have range: "7 \<le> (of_char c :: nat) div 16" "(of_char c :: nat) div 16 < 16" "(of_char c :: nat) mod 16 < 16"
    using assms nat_of_char_less_256 [of c] by (auto simp del: nat_of_char_less_256)
  have "list_all (\<lambda>n. hex_digit n \<notin> set ''01'') [7..<16]" by code_simp
  then have "\<forall>n\<in>{7..<16}. hex_digit n \<notin> set ''01''" by (simp only: list_all_iff set_upt)
  then have "hex_digit (of_char c div 16) \<notin> set ''01''"
    by (rule bspec) (use range(1,2) in simp)
  with assms range show ?thesis
    by (simp add: ascii_char_def hex_value_digit)
qed

lemma from_ascii_ensure: "escaped s \<Longrightarrow> from_ascii (ensure_ascii s) = s"
proof (induction s rule: escaped.induct)
  case (2 c s)
  show ?case
  proof (cases "c = CHR 0x5C")
    case True
    with "2.prems" obtain e t where s: "s = e # t" and e: "(of_char e :: nat) < 127"
      by (cases s) (auto split: if_splits)
    show ?thesis
    proof (cases "e = CHR ''u''")
      case u: True
      with "2.prems" True s obtain h1 h2 h3 h4 r where t: "t = h1 # h2 # h3 # h4 # r"
        and h: "h3 \<in> set ''01''" "list_all (\<lambda>h. h \<noteq> CHR 0x5C \<and> (of_char h :: nat) < 127) [h1, h2, h3, h4]"
          "escaped r"
        by (auto split: list.splits)
      have "from_ascii (ensure_ascii r) = r"
        using "2.IH"(1) [OF True s u t] h(3) by blast
      with True u s t h show ?thesis by (auto simp: ascii_char_same)
    next
      case False
      with "2.prems" True s have "escaped t" by simp
      with "2.IH"(2) [OF True s False] False True s e show ?thesis
        by (simp add: ascii_char_same)
    qed
  next
    case False
    with 2 have ih: "from_ascii (ensure_ascii s) = s" by simp
    show ?thesis
    proof (cases "(of_char c :: nat) < 127")
      case True with False ih show ?thesis by (simp add: ascii_char_same)
    next
      case wide: False with ih show ?thesis by (simp add: from_ascii_wide)
    qed
  qed
qed simp

lemma escaped_append: "escaped s \<Longrightarrow> escaped t \<Longrightarrow> escaped (s @ t)"
proof (induction s rule: escaped.induct)
  case (2 c s)
  show ?case
  proof (cases "c = CHR 0x5C")
    case True
    with "2.prems" obtain e v where s: "s = e # v" by (cases s) auto
    show ?thesis
    proof (cases "e = CHR ''u''")
      case u: True
      with "2.prems"(1) True s obtain h1 h2 h3 h4 r where "v = h1 # h2 # h3 # h4 # r"
        by (auto split: list.splits)
      with "2.IH"(1) [OF True s u this] "2.prems" True s u show ?thesis by simp
    next
      case False
      with "2.IH"(2) [OF True s False] "2.prems" True s show ?thesis by simp
    qed
  qed (use 2 in simp)
qed simp

lemma escaped_plain: "CHR 0x5C \<notin> set s \<Longrightarrow> escaped s"
  by (induction s) auto

lemma escaped_Cons: "c \<noteq> CHR 0x5C \<Longrightarrow> escaped (c # s) = escaped s"
  by simp

lemma hex_digit_plain: "n < 16 \<Longrightarrow> hex_digit n \<noteq> CHR 0x5C \<and> (of_char (hex_digit n) :: nat) < 127"
proof -
  have "list_all (\<lambda>n. hex_digit n \<noteq> CHR 0x5C \<and> (of_char (hex_digit n) :: nat) < 127) [0..<16]" by code_simp
  then show "n < 16 \<Longrightarrow> hex_digit n \<noteq> CHR 0x5C \<and> (of_char (hex_digit n) :: nat) < 127"
    by (simp add: list_all_iff)
qed

lemma escaped_escape_char: "escaped (escape_char c)"
proof (cases "(of_char c :: nat) < 32")
  case True
  then have "(of_char c :: nat) div 16 < 2" "(of_char c :: nat) mod 16 < 16" by auto
  then have "hex_digit (of_char c div 16) \<in> set ''01''"
    by (auto simp: hex_digit_def less_2_cases_iff)
  with hex_digit_plain [of "of_char c div 16"] hex_digit_plain [of "of_char c mod 16"]
    \<open>(of_char c :: nat) div 16 < 2\<close>
  show ?thesis by (auto simp: escape_char_def)
qed (auto simp: escape_char_def)

lemma escaped_json_string: "escaped (json_string s)"
proof -
  have "escaped (concat (map escape_char s))"
    by (induction s) (auto intro: escaped_append escaped_escape_char)
  then show ?thesis by (auto simp: json_string_def intro!: escaped_append)
qed

lemma escaped_int_digits: "escaped (int_digits i)"
proof (rule escaped_plain)
  have "CHR 0x5C \<notin> set (nat_digits n)" for n
    using nat_digits_chars [of n] by (auto simp: digit_chars_def)
  then show "CHR 0x5C \<notin> set (int_digits i)" by (simp add: int_digits_def)
qed

lemma escaped_json_text:
  "escaped (json_text x)" "escaped (json_items xs)" "escaped (json_fields kvs)"
  by (induction x and xs and kvs rule: json_text_json_items_json_fields.induct)
    (auto intro!: escaped_append escaped_json_string escaped_int_digits)

theorem ascii_dumps_inj:
  assumes "ensure_ascii (json_dumps x) = ensure_ascii (json_dumps y)"
  shows "json_canon x = json_canon y"
  using assms from_ascii_ensure [OF escaped_json_text(1)] unfolding json_dumps_def
  by (metis json_text_inj)

end
