(* ===== verification/PlanLedger.thy ===== *)
theory PlanLedger
  imports PlanManifest JsonReader
begin

text \<open>
  The durable plan ledger, \<open>src/src/chatgpt_dev_mcp/plan_ledger.py\<close>, over the four tables of
  \<open>persistence._migration_v13\<close>. A table is the list of its rows, a JSON column is the stored text,
  and a write runs in a transaction: an error leaves the database as it was. SHA-256 is the
  parameter \<open>sha\<close>; \<open>real_text\<close> is SQLite's rendering of a REAL in a TEXT column.
\<close>

section \<open>Errors and fields\<close>

text \<open>
  \<open>StoreFailure\<close> is the \<open>PersistenceError\<close> into which \<open>_transaction\<close> turns an SQLite error and
  any exception that is not its own.
\<close>

datatype ledger_error = PlanLedgerError string | StoreCorrupt string | StoreFailure

definition ledger_id_re :: "string \<Rightarrow> bool" where
  "ledger_id_re = id_format ''._:/-'' 255"

definition max_json_bytes :: nat where "max_json_bytes = 128 * 1024"

definition ledger_identifier :: "string \<Rightarrow> bool \<Rightarrow> pyval \<Rightarrow> ledger_error + string" where
  "ledger_identifier name allow_empty value =
     (let invalid = Inl (PlanLedgerError (name @ '' is invalid'')) in
      if value = PNone \<and> allow_empty then Inr []
      else
        (case value of
           PStr s \<Rightarrow>
             if has_nul s \<or> 256 < length s then invalid
             else if s = [] then (if allow_empty then Inr [] else invalid)
             else if \<not> ledger_id_re s then invalid
             else Inr s
         | _ \<Rightarrow> invalid))"

definition ledger_text :: "string \<Rightarrow> nat \<Rightarrow> bool \<Rightarrow> pyval \<Rightarrow> ledger_error + string" where
  "ledger_text name maximum allow_empty value =
     (let invalid = Inl (PlanLedgerError (name @ '' is invalid'')) in
      if value = PNone \<and> allow_empty then Inr []
      else
        (case value of
           PStr s \<Rightarrow>
             if has_nul s \<or> maximum < utf8_size s then invalid
             else if \<not> allow_empty \<and> s = [] then invalid
             else if contains_secret_like_content s
             then Inl (PlanLedgerError (name @ '' contains non-persistable sensitive content''))
             else Inr s
         | _ \<Rightarrow> invalid))"

definition ledger_encode :: "string \<Rightarrow> json \<Rightarrow> ledger_error + string" where
  "ledger_encode name value =
     (let encoded = json_dumps value in
      if max_json_bytes < utf8_size encoded
      then Inl (PlanLedgerError (name @ '' exceeds its safety bound''))
      else if contains_secret_like_content encoded
      then Inl (PlanLedgerError (name @ '' contains non-persistable sensitive content''))
      else Inr encoded)"

definition decode_with :: "string \<Rightarrow> (pyval \<Rightarrow> 'a option) \<Rightarrow> string \<Rightarrow> ledger_error + 'a" where
  "decode_with name shape stored =
     (case json_loads stored of
        None \<Rightarrow> Inl (StoreCorrupt (''stored '' @ name @ '' JSON is invalid''))
      | Some v \<Rightarrow>
          (case shape v of
             None \<Rightarrow> Inl (StoreCorrupt (''stored '' @ name @ '' JSON has an invalid shape''))
           | Some x \<Rightarrow> Inr x))"

definition as_list :: "pyval \<Rightarrow> pyval list option" where
  "as_list v = (case v of PList vs \<Rightarrow> Some vs | _ \<Rightarrow> None)"

definition as_dict :: "pyval \<Rightarrow> (string \<times> pyval) list option" where
  "as_dict v = (case v of PDict d \<Rightarrow> Some d | _ \<Rightarrow> None)"

section \<open>The tables\<close>

record manifest_row =
  mr_plan_id :: string
  mr_revision :: int
  mr_workspace_id :: string
  mr_title :: string
  mr_status :: string
  mr_spec_path :: string
  mr_spec_hash :: string
  mr_plan_path :: string
  mr_plan_hash :: string
  mr_supersedes_json :: string
  mr_created_at :: string
  mr_updated_at :: string

record task_row =
  tr_plan_id :: string
  tr_plan_task_id :: string
  tr_logical_task_id :: string
  tr_title :: string
  tr_intent_fingerprint :: string
  tr_paths_json :: string
  tr_resources_json :: string
  tr_dependencies_json :: string
  tr_acceptance_json :: string
  tr_delivery_json :: string
  tr_state :: string
  tr_evidence_json :: string

record attempt_row =
  ar_attempt_id :: string
  ar_logical_task_id :: string
  ar_plan_id :: string
  ar_plan_task_id :: string
  ar_task_id :: string
  ar_owner_id :: string
  ar_session_id :: string
  ar_working_tree_id :: string
  ar_started_at :: string
  ar_finished_at :: string
  ar_outcome :: string
  ar_failure_fingerprint :: string

record supersession_row =
  sr_source :: string
  sr_replacement :: string
  sr_task_map_json :: string
  sr_created_at :: string

record plan_db =
  db_manifests :: "manifest_row list"
  db_tasks :: "task_row list"
  db_attempts :: "attempt_row list"
  db_supersessions :: "supersession_row list"

definition empty_plan_db :: plan_db where
  "empty_plan_db = \<lparr>db_manifests = [], db_tasks = [], db_attempts = [], db_supersessions = []\<rparr>"

definition task_key :: "task_row \<Rightarrow> string \<times> string" where
  "task_key r = (tr_plan_id r, tr_plan_task_id r)"

definition supersession_key :: "supersession_row \<Rightarrow> string \<times> string" where
  "supersession_key r = (sr_source r, sr_replacement r)"

definition plan_task_rows :: "plan_db \<Rightarrow> string \<Rightarrow> task_row list" where
  "plan_task_rows db p = filter (\<lambda>r. tr_plan_id r = p) (db_tasks db)"

text \<open>A value bound to a TEXT or an INTEGER column.\<close>

definition sql_integer :: "int \<Rightarrow> ledger_error + int" where
  "sql_integer i = (if - (2 ^ 63) \<le> i \<and> i < 2 ^ 63 then Inr i else Inl StoreFailure)"

definition sql_text :: "(rat \<Rightarrow> string) \<Rightarrow> pyval \<Rightarrow> ledger_error + string" where
  "sql_text real_text value =
     (case value of
        PStr s \<Rightarrow> Inr s
      | PInt i \<Rightarrow> bindE (sql_integer i) (\<lambda>n. Inr (int_digits n))
      | PBool b \<Rightarrow> Inr (if b then ''1'' else ''0'')
      | PFloat q \<Rightarrow> Inr (real_text q)
      | _ \<Rightarrow> Inl StoreFailure)"

text \<open>\<open>SqliteDirectorStore.run_write\<close> and \<open>run_read\<close>.\<close>

definition run_write :: "(plan_db \<Rightarrow> ledger_error + plan_db) \<Rightarrow> (plan_db, ledger_error, unit) step" where
  "run_write write db = (case write db of Inl e \<Rightarrow> (Inl e, db) | Inr db' \<Rightarrow> (Inr (), db'))"

definition run_read :: "(plan_db \<Rightarrow> ledger_error + 'a) \<Rightarrow> (plan_db, ledger_error, 'a) step" where
  "run_read read db = (read db, db)"

section \<open>Reading plans\<close>

definition task_row_dict :: "task_row \<Rightarrow> ledger_error + pyval" where
  "task_row_dict r =
     bindE (decode_with ''plan task paths'' as_list (tr_paths_json r)) (\<lambda>paths.
     bindE (decode_with ''plan task resources'' as_list (tr_resources_json r)) (\<lambda>resources.
     bindE (decode_with ''plan task dependencies'' as_list (tr_dependencies_json r)) (\<lambda>dependencies.
     bindE (decode_with ''plan task acceptance criteria'' as_list (tr_acceptance_json r)) (\<lambda>acceptance.
     bindE (decode_with ''plan task delivery requirements'' as_list (tr_delivery_json r)) (\<lambda>delivery.
     bindE (decode_with ''plan task evidence'' as_dict (tr_evidence_json r)) (\<lambda>_.
     Inr (PDict
       [(''plan_task_id'', PStr (tr_plan_task_id r)), (''title'', PStr (tr_title r)),
        (''paths'', PList paths), (''resources'', PList resources),
        (''dependencies'', PList dependencies), (''acceptance_criteria'', PList acceptance),
        (''delivery_requirements'', PList delivery), (''state'', PStr (tr_state r))])))))))"

definition check_task_row :: "task_row list \<Rightarrow> plan_task_spec \<Rightarrow> ledger_error + unit" where
  "check_task_row rows t =
     (case kget tr_plan_task_id (pt_plan_task_id t) rows of
        None \<Rightarrow> Inl (StoreCorrupt ''stored plan task identity is incomplete'')
      | Some r \<Rightarrow>
          if tr_logical_task_id r \<noteq> pt_logical_task_id t
          then Inl (StoreCorrupt ''stored logical task identity is inconsistent'')
          else if tr_intent_fingerprint r \<noteq> pt_intent_fingerprint t
          then Inl (StoreCorrupt ''stored plan task fingerprint is inconsistent'')
          else Inr ())"

definition manifest_from_rows ::
  "(string \<Rightarrow> string) \<Rightarrow> manifest_row \<Rightarrow> task_row list \<Rightarrow> ledger_error + plan_manifest" where
  "manifest_from_rows sha header rows =
     bindE (mapE task_row_dict rows) (\<lambda>tasks.
     bindE (decode_with ''superseded plan ids'' as_list (mr_supersedes_json header)) (\<lambda>supersedes.
     bindE (mapError (\<lambda>e. case e of
          PlanManifestError _ \<Rightarrow> StoreCorrupt ''stored plan manifest violates the domain contract''
        | UnhashableType \<Rightarrow> StoreFailure)
       (plan_manifest_from_mapping sha (PDict
         [(''plan_id'', PStr (mr_plan_id header)), (''revision'', PInt (mr_revision header)),
          (''workspace_id'', PStr (mr_workspace_id header)), (''title'', PStr (mr_title header)),
          (''status'', PStr (mr_status header)), (''spec_path'', PStr (mr_spec_path header)),
          (''spec_hash'', PStr (mr_spec_hash header)), (''plan_path'', PStr (mr_plan_path header)),
          (''plan_hash'', PStr (mr_plan_hash header)), (''supersedes_plan_ids'', PList supersedes),
          (''created_at'', PStr (mr_created_at header)), (''updated_at'', PStr (mr_updated_at header)),
          (''tasks'', PList tasks)]))) (\<lambda>m.
     bindE (mapE (check_task_row rows) (pm_tasks m)) (\<lambda>_. Inr m))))"

definition load_manifest ::
  "(string \<Rightarrow> string) \<Rightarrow> string \<Rightarrow> plan_db \<Rightarrow> ledger_error + plan_manifest option" where
  "load_manifest sha p db =
     (case kget mr_plan_id p (db_manifests db) of
        None \<Rightarrow> Inr None
      | Some header \<Rightarrow>
          (case sort_key tr_plan_task_id (plan_task_rows db p) of
             [] \<Rightarrow> Inl (StoreCorrupt ''stored plan has no task rows'')
           | rows \<Rightarrow> bindE (manifest_from_rows sha header rows) (\<lambda>m. Inr (Some m))))"

definition plans_get ::
  "(string \<Rightarrow> string) \<Rightarrow> pyval \<Rightarrow> (plan_db, ledger_error, plan_manifest option) step" where
  "plans_get sha plan_id =
     checkS (ledger_identifier ''plan_id'' False plan_id) (\<lambda>p. run_read (load_manifest sha p))"

definition ledger_active ::
  "(string \<Rightarrow> string) \<Rightarrow> pyval \<Rightarrow> (plan_db, ledger_error, plan_manifest list) step" where
  "ledger_active sha workspace_id =
     checkS (ledger_identifier ''workspace_id'' False workspace_id) (\<lambda>w.
     run_read (\<lambda>db. mapE (\<lambda>p. bindE (load_manifest sha p db) (\<lambda>m.
         case m of None \<Rightarrow> Inl (StoreCorrupt ''active plan disappeared during read'') | Some x \<Rightarrow> Inr x))
       (sort (map mr_plan_id (filter (\<lambda>h. mr_workspace_id h = w \<and> mr_status h = ''active'') (db_manifests db))))))"

definition ledger_task ::
  "(string \<Rightarrow> string) \<Rightarrow> pyval \<Rightarrow> pyval \<Rightarrow> (plan_db, ledger_error, plan_task_spec option) step" where
  "ledger_task sha plan_id plan_task_id = bindS (plans_get sha plan_id) (\<lambda>manifest.
     case manifest of
       None \<Rightarrow> retS None
     | Some m \<Rightarrow> checkS (ledger_identifier ''plan_task_id'' False plan_task_id) (\<lambda>t.
         retS (find (\<lambda>x. pt_plan_task_id x = t) (pm_tasks m))))"

section \<open>Activation\<close>

definition task_values :: "string \<Rightarrow> plan_task_spec \<Rightarrow> ledger_error + task_row" where
  "task_values p t =
     bindE (ledger_encode ''task paths'' (jstrs (pt_paths t))) (\<lambda>paths.
     bindE (ledger_encode ''task resources'' (jstrs (pt_resources t))) (\<lambda>resources.
     bindE (ledger_encode ''task dependencies'' (jstrs (pt_dependencies t))) (\<lambda>dependencies.
     bindE (ledger_encode ''task acceptance criteria'' (jstrs (pt_acceptance_criteria t))) (\<lambda>acceptance.
     bindE (ledger_encode ''task delivery requirements'' (jstrs (pt_delivery_requirements t))) (\<lambda>delivery.
     Inr \<lparr>tr_plan_id = p, tr_plan_task_id = pt_plan_task_id t, tr_logical_task_id = pt_logical_task_id t,
          tr_title = pt_title t, tr_intent_fingerprint = pt_intent_fingerprint t,
          tr_paths_json = paths, tr_resources_json = resources, tr_dependencies_json = dependencies,
          tr_acceptance_json = acceptance, tr_delivery_json = delivery, tr_state = pt_state t,
          tr_evidence_json = ''{}''\<rparr>)))))"

text \<open>
  \<open>INSERT ... ON CONFLICT(plan_id, plan_task_id) DO UPDATE\<close>: an updated row keeps its evidence, and
  \<open>logical_task_id\<close> is unique over the table.
\<close>

definition upsert_task :: "task_row \<Rightarrow> task_row list \<Rightarrow> ledger_error + task_row list" where
  "upsert_task r rows =
     (if list_ex (\<lambda>u. task_key u \<noteq> task_key r \<and> tr_logical_task_id u = tr_logical_task_id r) rows
      then Inl StoreFailure
      else Inr (kset task_key
        (case kget task_key (task_key r) rows of
           None \<Rightarrow> r
         | Some old \<Rightarrow> r\<lparr>tr_evidence_json := tr_evidence_json old\<rparr>) rows))"

fun store_tasks :: "string \<Rightarrow> plan_task_spec list \<Rightarrow> task_row list \<Rightarrow> ledger_error + task_row list" where
  "store_tasks p [] rows = Inr rows"
| "store_tasks p (t # ts) rows =
     bindE (task_values p t) (\<lambda>r. bindE (upsert_task r rows) (\<lambda>rows'. store_tasks p ts rows'))"

definition manifest_values :: "(rat \<Rightarrow> string) \<Rightarrow> plan_manifest \<Rightarrow> ledger_error + manifest_row" where
  "manifest_values real_text m =
     bindE (ledger_encode ''superseded plan ids'' (jstrs (pm_supersedes_plan_ids m))) (\<lambda>supersedes.
     bindE (sql_integer (pm_revision m)) (\<lambda>revision.
     bindE (sql_text real_text (pm_created_at m)) (\<lambda>created.
     bindE (sql_text real_text (pm_updated_at m)) (\<lambda>updated.
     Inr \<lparr>mr_plan_id = pm_plan_id m, mr_revision = revision, mr_workspace_id = pm_workspace_id m,
          mr_title = pm_title m, mr_status = pm_status m, mr_spec_path = pm_spec_path m,
          mr_spec_hash = pm_spec_hash m, mr_plan_path = pm_plan_path m, mr_plan_hash = pm_plan_hash m,
          mr_supersedes_json = supersedes, mr_created_at = created, mr_updated_at = updated\<rparr>))))"

definition activation_guard :: "plan_manifest \<Rightarrow> pyval \<Rightarrow> plan_db \<Rightarrow> ledger_error + unit" where
  "activation_guard m expected_revision db =
     (case kget mr_plan_id (pm_plan_id m) (db_manifests db) of
        None \<Rightarrow>
          if expected_revision \<noteq> PNone
          then Inl (PlanLedgerError ''expected revision does not match an unregistered plan'') else Inr ()
      | Some existing \<Rightarrow>
          if expected_revision \<noteq> PInt (mr_revision existing)
          then Inl (PlanLedgerError ''expected revision does not match current plan revision'')
          else if pm_revision m \<le> mr_revision existing
          then Inl (PlanLedgerError ''plan revision must advance monotonically'')
          else if mr_workspace_id existing \<noteq> pm_workspace_id m
          then Inl (PlanLedgerError ''plan workspace cannot change across revisions'')
          else if set (map tr_plan_task_id (plan_task_rows db (pm_plan_id m))) \<noteq>
            set (map pt_plan_task_id (pm_tasks m))
          then Inl (PlanLedgerError ''task set change requires the amendment control path'')
          else Inr ())"

definition activation_write ::
  "(rat \<Rightarrow> string) \<Rightarrow> plan_manifest \<Rightarrow> pyval \<Rightarrow> plan_db \<Rightarrow> ledger_error + plan_db" where
  "activation_write real_text m expected_revision db =
     bindE (activation_guard m expected_revision db) (\<lambda>_.
     bindE (manifest_values real_text m) (\<lambda>header.
     bindE (store_tasks (pm_plan_id m) (pm_tasks m) (db_tasks db)) (\<lambda>rows.
     Inr (db\<lparr>db_manifests := kset mr_plan_id header (db_manifests db), db_tasks := rows\<rparr>))))"

definition revision_argument :: "pyval \<Rightarrow> ledger_error + unit" where
  "revision_argument expected_revision =
     (case expected_revision of
        PNone \<Rightarrow> Inr ()
      | PInt n \<Rightarrow> if n \<le> 0 then Inl (PlanLedgerError ''expected revision is invalid'') else Inr ()
      | _ \<Rightarrow> Inl (PlanLedgerError ''expected revision is invalid''))"

definition ledger_activate ::
  "(string \<Rightarrow> string) \<Rightarrow> (rat \<Rightarrow> string) \<Rightarrow> plan_manifest \<Rightarrow> pyval \<Rightarrow>
   (plan_db, ledger_error, plan_manifest) step" where
  "ledger_activate sha real_text m expected_revision =
     checkS (revision_argument expected_revision) (\<lambda>_.
     bindS (run_write (activation_write real_text m expected_revision)) (\<lambda>_.
     bindS (plans_get sha (PStr (pm_plan_id m))) (\<lambda>loaded.
     case loaded of
       None \<Rightarrow> failS (StoreCorrupt ''activated plan is missing after commit'')
     | Some x \<Rightarrow> retS x)))"

section \<open>Task states\<close>

definition evidence_item :: "string \<times> pyval \<Rightarrow> ledger_error + string \<times> string" where
  "evidence_item kv =
     bindE (ledger_identifier ''evidence key'' False (PStr (fst kv))) (\<lambda>k.
     bindE (ledger_text ''evidence value'' 512 False (snd kv)) (\<lambda>v. Inr (k, v)))"

definition jdict :: "(string \<times> string) list \<Rightarrow> json" where
  "jdict d = JObj (map (\<lambda>(k, v). (k, JStr v)) d)"

definition state_write :: "string \<Rightarrow> string \<Rightarrow> string \<Rightarrow> string \<Rightarrow> plan_db \<Rightarrow> ledger_error + plan_db" where
  "state_write p t state evidence_json db =
     (case kget task_key (p, t) (db_tasks db) of
        None \<Rightarrow> Inl (PlanLedgerError ''plan task does not exist'')
      | Some _ \<Rightarrow> Inr (db\<lparr>db_tasks := map (\<lambda>r. if task_key r = (p, t)
          then r\<lparr>tr_state := state, tr_evidence_json := evidence_json\<rparr> else r) (db_tasks db)\<rparr>))"

definition ledger_set_task_state ::
  "pyval \<Rightarrow> pyval \<Rightarrow> string \<Rightarrow> pyval \<Rightarrow> (plan_db, ledger_error, unit) step" where
  "ledger_set_task_state plan_id plan_task_id state proof_of_state =
     checkS (ledger_identifier ''plan_id'' False plan_id) (\<lambda>p.
     checkS (ledger_identifier ''plan_task_id'' False plan_task_id) (\<lambda>t.
     if state \<notin> set plan_task_states then failS (PlanLedgerError ''task state is invalid'')
     else
       (case proof_of_state of
          PDict (kv # kvs) \<Rightarrow>
            checkS (mapE evidence_item (kv # kvs)) (\<lambda>parsed.
            checkS (ledger_encode ''task state evidence'' (jdict (dict_of_pairs parsed))) (\<lambda>evidence_json.
            run_write (state_write p t state evidence_json)))
        | _ \<Rightarrow> failS (PlanLedgerError ''task state evidence must be a non-empty mapping''))))"

section \<open>Attempts\<close>

definition attempt_values :: "plan_task_attempt \<Rightarrow> ledger_error + plan_task_attempt" where
  "attempt_values a =
     bindE (ledger_identifier ''attempt_id'' False (PStr (pa_attempt_id a))) (\<lambda>attempt_id.
     bindE (ledger_identifier ''logical_task_id'' False (PStr (pa_logical_task_id a))) (\<lambda>logical.
     bindE (ledger_identifier ''task_id'' True (PStr (pa_task_id a))) (\<lambda>task_id.
     bindE (ledger_identifier ''owner_id'' True (PStr (pa_owner_id a))) (\<lambda>owner.
     bindE (ledger_identifier ''session_id'' True (PStr (pa_session_id a))) (\<lambda>session.
     bindE (ledger_identifier ''working_tree_id'' True (PStr (pa_working_tree_id a))) (\<lambda>tree.
     bindE (ledger_text ''started_at'' 80 True (PStr (pa_started_at a))) (\<lambda>started.
     bindE (ledger_text ''finished_at'' 80 True (PStr (pa_finished_at a))) (\<lambda>finished.
     bindE (ledger_text ''outcome'' 128 True (PStr (pa_outcome a))) (\<lambda>outcome.
     bindE (ledger_text ''failure_fingerprint'' 256 True (PStr (pa_failure_fingerprint a))) (\<lambda>failure.
     Inr \<lparr>pa_attempt_id = attempt_id, pa_logical_task_id = logical, pa_task_id = task_id,
          pa_owner_id = owner, pa_session_id = session, pa_working_tree_id = tree,
          pa_started_at = started, pa_finished_at = finished, pa_outcome = outcome,
          pa_failure_fingerprint = failure\<rparr>))))))))))"

definition attempt_of_row :: "attempt_row \<Rightarrow> plan_task_attempt" where
  "attempt_of_row r =
     \<lparr>pa_attempt_id = ar_attempt_id r, pa_logical_task_id = ar_logical_task_id r,
      pa_task_id = ar_task_id r, pa_owner_id = ar_owner_id r, pa_session_id = ar_session_id r,
      pa_working_tree_id = ar_working_tree_id r, pa_started_at = ar_started_at r,
      pa_finished_at = ar_finished_at r, pa_outcome = ar_outcome r,
      pa_failure_fingerprint = ar_failure_fingerprint r\<rparr>"

definition attempt_insert :: "task_row \<Rightarrow> plan_task_attempt \<Rightarrow> attempt_row" where
  "attempt_insert t a =
     \<lparr>ar_attempt_id = pa_attempt_id a, ar_logical_task_id = pa_logical_task_id a,
      ar_plan_id = tr_plan_id t, ar_plan_task_id = tr_plan_task_id t, ar_task_id = pa_task_id a,
      ar_owner_id = pa_owner_id a, ar_session_id = pa_session_id a,
      ar_working_tree_id = pa_working_tree_id a, ar_started_at = pa_started_at a,
      ar_finished_at = pa_finished_at a, ar_outcome = pa_outcome a,
      ar_failure_fingerprint = pa_failure_fingerprint a\<rparr>"

definition attempt_write :: "plan_task_attempt \<Rightarrow> plan_db \<Rightarrow> ledger_error + plan_db" where
  "attempt_write a db =
     (case kget ar_attempt_id (pa_attempt_id a) (db_attempts db) of
        Some existing \<Rightarrow>
          if ar_logical_task_id existing \<noteq> pa_logical_task_id a
          then Inl (PlanLedgerError ''attempt identity is already bound to a different logical task'')
          else if attempt_of_row existing \<noteq> a
          then Inl (PlanLedgerError ''attempt identity is already bound to different attempt content'')
          else Inr db
      | None \<Rightarrow>
          (case kget tr_logical_task_id (pa_logical_task_id a) (db_tasks db) of
             None \<Rightarrow> Inl (PlanLedgerError ''logical task does not exist'')
           | Some t \<Rightarrow> Inr (db\<lparr>db_attempts := db_attempts db @ [attempt_insert t a]\<rparr>)))"

definition ledger_append_attempt :: "plan_task_attempt \<Rightarrow> (plan_db, ledger_error, unit) step" where
  "ledger_append_attempt attempt = checkS (attempt_values attempt) (\<lambda>a. run_write (attempt_write a))"

definition ledger_attempts :: "pyval \<Rightarrow> (plan_db, ledger_error, plan_task_attempt list) step" where
  "ledger_attempts logical_task_id =
     checkS (ledger_identifier ''logical_task_id'' False logical_task_id) (\<lambda>l.
     run_read (\<lambda>db. mapE (\<lambda>r. if ar_logical_task_id r \<noteq> l
         then Inl (StoreCorrupt ''stored attempt logical task identity is inconsistent'')
         else Inr (attempt_of_row r))
       (sort_key (\<lambda>r. (ar_started_at r, ar_attempt_id r))
         (filter (\<lambda>r. ar_logical_task_id r = l) (db_attempts db)))))"

section \<open>Supersession\<close>

definition task_map_item :: "string \<times> pyval \<Rightarrow> ledger_error + string \<times> string" where
  "task_map_item kv =
     bindE (ledger_identifier ''source plan_task_id'' False (PStr (fst kv))) (\<lambda>k.
     bindE (ledger_identifier ''replacement plan_task_id'' False (snd kv)) (\<lambda>v. Inr (k, v)))"

fun check_task_map :: "string list \<Rightarrow> string list \<Rightarrow> (string \<times> string) list \<Rightarrow> ledger_error + unit" where
  "check_task_map sources replacements [] = Inr ()"
| "check_task_map sources replacements ((s, r) # rest) =
     (if s \<notin> set sources then Inl (PlanLedgerError ''source task does not exist'')
      else if r \<notin> set replacements then Inl (PlanLedgerError ''replacement task does not exist'')
      else check_task_map sources replacements rest)"

text \<open>\<open>existing_map != parsed_map\<close> compares the entries, in any order.\<close>

definition same_task_map :: "(string \<times> pyval) list \<Rightarrow> (string \<times> string) list \<Rightarrow> bool" where
  "same_task_map stored parsed \<longleftrightarrow>
     length stored = length parsed \<and> (\<forall>(k, v)\<in>set parsed. map_of stored k = Some (PStr v))"

fun supersede_tasks :: "string \<Rightarrow> string \<Rightarrow> (string \<times> string) list \<Rightarrow> task_row list \<Rightarrow> ledger_error + task_row list" where
  "supersede_tasks source replacement [] rows = Inr rows"
| "supersede_tasks source replacement ((s, t) # rest) rows =
     bindE (ledger_encode ''supersession evidence''
       (jdict [(''replacement_plan_id'', replacement), (''replacement_plan_task_id'', t)])) (\<lambda>evidence_json.
     supersede_tasks source replacement rest (map (\<lambda>r. if task_key r = (source, s)
       then r\<lparr>tr_state := ''superseded'', tr_evidence_json := evidence_json\<rparr> else r) rows))"

definition supersede_write ::
  "string \<Rightarrow> string \<Rightarrow> string \<Rightarrow> (string \<times> string) list \<Rightarrow> string \<Rightarrow> plan_db \<Rightarrow> ledger_error + plan_db" where
  "supersede_write now source replacement task_map encoded_map db =
     (if kget mr_plan_id source (db_manifests db) = None
      then Inl (PlanLedgerError ''source plan does not exist'')
      else if kget mr_plan_id replacement (db_manifests db) = None
      then Inl (PlanLedgerError ''replacement plan does not exist'')
      else
        let sources = map tr_plan_task_id (plan_task_rows db source);
            replacements = map tr_plan_task_id (plan_task_rows db replacement) in
        bindE (check_task_map sources replacements task_map) (\<lambda>_.
        case kget supersession_key (source, replacement) (db_supersessions db) of
          Some existing \<Rightarrow>
            bindE (decode_with ''plan supersession task map'' as_dict (sr_task_map_json existing)) (\<lambda>stored.
            if \<not> same_task_map stored task_map
            then Inl (PlanLedgerError ''supersession already exists with a different task map'')
            else Inr db)
        | None \<Rightarrow>
            bindE (supersede_tasks source replacement task_map (db_tasks db)) (\<lambda>rows.
            Inr (db\<lparr>db_supersessions := db_supersessions db @
                  [\<lparr>sr_source = source, sr_replacement = replacement,
                    sr_task_map_json = encoded_map, sr_created_at = now\<rparr>],
                db_tasks := rows,
                db_manifests := (if set (map fst task_map) = set sources
                  then map (\<lambda>h. if mr_plan_id h = source then h\<lparr>mr_status := ''superseded''\<rparr> else h) (db_manifests db)
                  else db_manifests db)\<rparr>))))"

definition ledger_supersede ::
  "string \<Rightarrow> pyval \<Rightarrow> pyval \<Rightarrow> pyval \<Rightarrow> (plan_db, ledger_error, unit) step" where
  "ledger_supersede now source_plan_id replacement_plan_id task_map =
     checkS (ledger_identifier ''source plan_id'' False source_plan_id) (\<lambda>source.
     checkS (ledger_identifier ''replacement plan_id'' False replacement_plan_id) (\<lambda>replacement.
     if source = replacement then failS (PlanLedgerError ''replacement plan must differ from source plan'')
     else
       (case task_map of
          PDict kvs \<Rightarrow>
            if kvs = [] \<or> 128 < length kvs
            then failS (PlanLedgerError ''task_map must be a non-empty bounded mapping'')
            else
            checkS (mapE task_map_item kvs) (\<lambda>items.
            let parsed = dict_of_pairs items in
            if length parsed \<noteq> length kvs
            then failS (PlanLedgerError ''task_map contains duplicate source task ids'')
            else
            checkS (ledger_encode ''plan supersession task map'' (jdict parsed)) (\<lambda>encoded_map.
            run_write (supersede_write now source replacement parsed encoded_map)))
        | _ \<Rightarrow> failS (PlanLedgerError ''task_map must be a non-empty bounded mapping''))))"

section \<open>Stored rows\<close>

text \<open>The rows that hold a plan, and the plan that a database holds.\<close>

fun py_string :: "pyval \<Rightarrow> string" where
  "py_string (PStr s) = s"
| "py_string _ = []"

definition header_of :: "plan_manifest \<Rightarrow> manifest_row" where
  "header_of m =
     \<lparr>mr_plan_id = pm_plan_id m, mr_revision = pm_revision m, mr_workspace_id = pm_workspace_id m,
      mr_title = pm_title m, mr_status = pm_status m, mr_spec_path = pm_spec_path m,
      mr_spec_hash = pm_spec_hash m, mr_plan_path = pm_plan_path m, mr_plan_hash = pm_plan_hash m,
      mr_supersedes_json = json_dumps (jstrs (pm_supersedes_plan_ids m)),
      mr_created_at = py_string (pm_created_at m), mr_updated_at = py_string (pm_updated_at m)\<rparr>"

definition task_row_of :: "string \<Rightarrow> string \<Rightarrow> plan_task_spec \<Rightarrow> task_row" where
  "task_row_of p evidence_json t =
     \<lparr>tr_plan_id = p, tr_plan_task_id = pt_plan_task_id t, tr_logical_task_id = pt_logical_task_id t,
      tr_title = pt_title t, tr_intent_fingerprint = pt_intent_fingerprint t,
      tr_paths_json = json_dumps (jstrs (pt_paths t)),
      tr_resources_json = json_dumps (jstrs (pt_resources t)),
      tr_dependencies_json = json_dumps (jstrs (pt_dependencies t)),
      tr_acceptance_json = json_dumps (jstrs (pt_acceptance_criteria t)),
      tr_delivery_json = json_dumps (jstrs (pt_delivery_requirements t)),
      tr_state = pt_state t, tr_evidence_json = evidence_json\<rparr>"

definition dict_text :: "string \<Rightarrow> bool" where
  "dict_text s \<longleftrightarrow> (\<exists>d. json_loads s = Some (PDict d))"

definition text_stamps :: "plan_manifest \<Rightarrow> bool" where
  "text_stamps m \<longleftrightarrow> pm_created_at m = PStr (py_string (pm_created_at m)) \<and>
     pm_updated_at m = PStr (py_string (pm_updated_at m))"

lemma task_row_of_simps [simp]:
  "tr_plan_id (task_row_of p e t) = p" "tr_plan_task_id (task_row_of p e t) = pt_plan_task_id t"
  "tr_logical_task_id (task_row_of p e t) = pt_logical_task_id t"
  "tr_intent_fingerprint (task_row_of p e t) = pt_intent_fingerprint t"
  "tr_evidence_json (task_row_of p e t) = e" "task_key (task_row_of p e t) = (p, pt_plan_task_id t)"
  "(task_row_of p e t)\<lparr>tr_evidence_json := e'\<rparr> = task_row_of p e' t"
  "(task_row_of p e t)\<lparr>tr_state := s, tr_evidence_json := e'\<rparr> = task_row_of p e' (t\<lparr>pt_state := s\<rparr>)"
  by (simp_all add: task_row_of_def task_key_def)

lemma header_of_simps [simp]:
  "mr_plan_id (header_of m) = pm_plan_id m" "mr_revision (header_of m) = pm_revision m"
  "mr_workspace_id (header_of m) = pm_workspace_id m" "mr_status (header_of m) = pm_status m"
  by (simp_all add: header_of_def)

lemma ledger_encode_Inr: "ledger_encode name v = Inr s \<Longrightarrow> s = json_dumps v"
  by (auto simp: ledger_encode_def Let_def split: if_splits)

lemma decode_strs: "decode_with name as_list (json_dumps (jstrs xs)) = Inr (map PStr xs)"
  by (simp add: decode_with_def json_loads_jstrs as_list_def)

lemma decode_dict_text: "dict_text s \<Longrightarrow> \<exists>d. decode_with name as_dict s = Inr d"
  by (auto simp: dict_text_def decode_with_def as_dict_def)

lemma empty_dict_text: "dict_text ''{}''"
proof -
  have "json_loads ''{}'' = Some (PDict [])" by code_simp
  then show ?thesis by (simp add: dict_text_def)
qed

lemma jdict_text: "distinct (map fst d) \<Longrightarrow> dict_text (json_dumps (jdict d))"
  using json_loads_str_object [of d] by (auto simp: dict_text_def jdict_def)

lemma task_values_Inr: "task_values p t = Inr r \<Longrightarrow> r = task_row_of p ''{}'' t"
  by (auto simp: task_values_def task_row_of_def result_simps dest!: ledger_encode_Inr)

lemma manifest_values_Inr:
  assumes "manifest_values real_text m = Inr h" "text_stamps m"
  shows "h = header_of m"
proof -
  from assms(2) obtain c u where "pm_created_at m = PStr c" "pm_updated_at m = PStr u"
    by (auto simp: text_stamps_def)
  with assms(1) show ?thesis
    by (auto simp: manifest_values_def header_of_def result_simps sql_text_def sql_integer_def
        dest!: ledger_encode_Inr split: if_splits)
qed

lemma task_row_dict_of: "dict_text e \<Longrightarrow> task_row_dict (task_row_of p e t) = Inr (plan_task_dict t)"
  using decode_dict_text [of e "''plan task evidence''"]
  by (auto simp: task_row_dict_def task_row_of_def plan_task_dict_def decode_strs plan_strs_def)

lemma mapE_map_Inr: "(\<And>x. x \<in> set xs \<Longrightarrow> f (g x) = Inr (h x)) \<Longrightarrow> mapE f (map g xs) = Inr (map h xs)"
  by (induction xs) auto

lemma manifest_from_rows_of:
  assumes "plan_manifest_wf sha m" "text_stamps m" "\<And>i. dict_text (ev i)"
    and rows: "rows = map (\<lambda>t. task_row_of (pm_plan_id m) (ev (pt_plan_task_id t)) t) (pm_tasks m)"
  shows "manifest_from_rows sha (header_of m) rows = Inr m"
proof -
  have dicts: "mapE task_row_dict rows = Inr (map plan_task_dict (pm_tasks m))"
    unfolding rows using assms(3) by (intro mapE_map_Inr) (simp add: task_row_dict_of)
  have "distinct (map tr_plan_task_id rows)"
    using assms(1) by (simp add: rows comp_def plan_manifest_wf_def)
  then have row: "kget tr_plan_task_id (pt_plan_task_id t) rows =
      Some (task_row_of (pm_plan_id m) (ev (pt_plan_task_id t)) t)" if "t \<in> set (pm_tasks m)" for t
    using that by (subst kget_Some_iff) (auto simp: kdistinct_def rows)
  have "mapE (check_task_row rows) (pm_tasks m) = Inr (map (\<lambda>_. ()) (pm_tasks m))"
    by (rule mapE_all_Inr) (simp add: check_task_row_def row)
  moreover have "PDict
         [(''plan_id'', PStr (pm_plan_id m)), (''revision'', PInt (pm_revision m)),
          (''workspace_id'', PStr (pm_workspace_id m)), (''title'', PStr (pm_title m)),
          (''status'', PStr (pm_status m)), (''spec_path'', PStr (pm_spec_path m)),
          (''spec_hash'', PStr (pm_spec_hash m)), (''plan_path'', PStr (pm_plan_path m)),
          (''plan_hash'', PStr (pm_plan_hash m)),
          (''supersedes_plan_ids'', PList (map PStr (pm_supersedes_plan_ids m))),
          (''created_at'', PStr (py_string (pm_created_at m))),
          (''updated_at'', PStr (py_string (pm_updated_at m))),
          (''tasks'', PList (map plan_task_dict (pm_tasks m)))] = plan_manifest_dict m"
    using assms(2) by (simp add: plan_manifest_dict_def plan_strs_def text_stamps_def)
  ultimately show ?thesis
    using plan_manifest_dict_Inr [OF assms(1)]
    by (simp add: manifest_from_rows_def dicts decode_strs header_of_def)
qed

section \<open>The plans of a database\<close>

definition plan_stored :: "(string \<Rightarrow> string) \<Rightarrow> plan_db \<Rightarrow> plan_manifest \<Rightarrow> bool" where
  "plan_stored sha db m \<longleftrightarrow> plan_manifest_wf sha m \<and> text_stamps m \<and> sorted (map pt_plan_task_id (pm_tasks m)) \<and>
     kget mr_plan_id (pm_plan_id m) (db_manifests db) = Some (header_of m) \<and>
     (\<exists>ev. (\<forall>i. dict_text (ev i)) \<and> set (plan_task_rows db (pm_plan_id m)) =
        (\<lambda>t. task_row_of (pm_plan_id m) (ev (pt_plan_task_id t)) t) ` set (pm_tasks m))"

definition plan_book :: "(string \<Rightarrow> string) \<Rightarrow> plan_db \<Rightarrow> string \<Rightarrow> plan_manifest option" where
  "plan_book sha db p = (case load_manifest sha p db of Inr (Some m) \<Rightarrow> Some m | _ \<Rightarrow> None)"

lemma distinct_plan_rows:
  "kdistinct task_key (db_tasks db) \<Longrightarrow> distinct (map tr_plan_task_id (plan_task_rows db p))"
  by (auto simp: plan_task_rows_def kdistinct_def distinct_map inj_on_def task_key_def)

lemma sorted_plan_rows:
  assumes "kdistinct task_key (db_tasks db)" "sorted (map tr_plan_task_id rows)"
    "distinct (map tr_plan_task_id rows)" "set (plan_task_rows db p) = set rows"
  shows "sort_key tr_plan_task_id (plan_task_rows db p) = rows"
  by (rule map_sorted_distinct_set_unique [of tr_plan_task_id])
    (use assms distinct_plan_rows [OF assms(1), of p] in \<open>auto simp: distinct_map inj_on_def\<close>)

lemma load_stored:
  assumes "kdistinct task_key (db_tasks db)" "plan_stored sha db m"
  shows "load_manifest sha (pm_plan_id m) db = Inr (Some m)"
proof -
  from assms(2) obtain ev where ev: "\<forall>i. dict_text (ev i)"
    and set: "set (plan_task_rows db (pm_plan_id m)) =
      (\<lambda>t. task_row_of (pm_plan_id m) (ev (pt_plan_task_id t)) t) ` set (pm_tasks m)"
    by (auto simp: plan_stored_def)
  let ?rows = "map (\<lambda>t. task_row_of (pm_plan_id m) (ev (pt_plan_task_id t)) t) (pm_tasks m)"
  have wf: "plan_manifest_wf sha m" and header: "kget mr_plan_id (pm_plan_id m) (db_manifests db) = Some (header_of m)"
    and stamps: "text_stamps m" and sorted: "sorted (map pt_plan_task_id (pm_tasks m))"
    using assms(2) by (simp_all add: plan_stored_def)
  have "distinct (map pt_plan_task_id (pm_tasks m))" and nonempty: "pm_tasks m \<noteq> []"
    using wf by (simp_all add: plan_manifest_wf_def)
  then have "sort_key tr_plan_task_id (plan_task_rows db (pm_plan_id m)) = ?rows"
    using sorted set by (intro sorted_plan_rows [OF assms(1)]) (simp_all add: comp_def)
  moreover have "manifest_from_rows sha (header_of m) ?rows = Inr m"
    using ev by (intro manifest_from_rows_of [OF wf stamps]) auto
  ultimately show ?thesis
    using nonempty by (cases ?rows) (simp_all add: load_manifest_def header)
qed

section \<open>Well-formed tables\<close>

text \<open>Keys are unique, and every reference from one table to another is to a row that exists.\<close>

definition supersession_wf :: "string set \<Rightarrow> (string \<times> string) set \<Rightarrow> supersession_row \<Rightarrow> bool" where
  "supersession_wf plans tasks s \<longleftrightarrow> sr_source s \<noteq> sr_replacement s \<and> {sr_source s, sr_replacement s} \<subseteq> plans \<and>
     (\<exists>d. sr_task_map_json s = json_dumps (jdict d) \<and> distinct (map fst d) \<and>
        Pair (sr_source s) ` fst ` set d \<union> Pair (sr_replacement s) ` snd ` set d \<subseteq> tasks)"

lemma supersession_wf_mono:
  "supersession_wf plans tasks s \<Longrightarrow> plans \<subseteq> plans' \<Longrightarrow> tasks \<subseteq> tasks' \<Longrightarrow> supersession_wf plans' tasks' s"
  unfolding supersession_wf_def by (meson order_trans)

definition tables_wf :: "plan_db \<Rightarrow> bool" where
  "tables_wf db \<longleftrightarrow>
     kdistinct mr_plan_id (db_manifests db) \<and> kdistinct task_key (db_tasks db) \<and>
     kdistinct tr_logical_task_id (db_tasks db) \<and> kdistinct ar_attempt_id (db_attempts db) \<and>
     kdistinct supersession_key (db_supersessions db) \<and>
     tr_plan_id ` set (db_tasks db) \<subseteq> mr_plan_id ` set (db_manifests db) \<and>
     (\<lambda>a. ((ar_plan_id a, ar_plan_task_id a), ar_logical_task_id a)) ` set (db_attempts db) \<subseteq>
       (\<lambda>r. (task_key r, tr_logical_task_id r)) ` set (db_tasks db) \<and>
     (\<forall>s\<in>set (db_supersessions db).
        supersession_wf (mr_plan_id ` set (db_manifests db)) (task_key ` set (db_tasks db)) s)"

definition ledger_sound :: "(string \<Rightarrow> string) \<Rightarrow> plan_db \<Rightarrow> bool" where
  "ledger_sound sha db \<longleftrightarrow> tables_wf db \<and>
     (\<forall>h\<in>set (db_manifests db). \<exists>m. plan_stored sha db m \<and> header_of m = h)"

lemma empty_plan_db_sound: "ledger_sound sha empty_plan_db"
  by (simp add: ledger_sound_def tables_wf_def empty_plan_db_def kdistinct_def)

lemma sound_task_keys: "ledger_sound sha db \<Longrightarrow> kdistinct task_key (db_tasks db)"
  by (simp add: ledger_sound_def tables_wf_def)

lemma plan_book_stored: "ledger_sound sha db \<Longrightarrow> plan_stored sha db m \<Longrightarrow> plan_book sha db (pm_plan_id m) = Some m"
  using load_stored [OF sound_task_keys] by (simp add: plan_book_def)

lemma stored_of_header:
  assumes "ledger_sound sha db" "kget mr_plan_id p (db_manifests db) = Some h"
  obtains m where "plan_stored sha db m" "header_of m = h" "pm_plan_id m = p"
proof -
  have h: "h \<in> set (db_manifests db)" "mr_plan_id h = p" using kget_SomeD [OF assms(2)] by simp_all
  then obtain m where m: "plan_stored sha db m" "header_of m = h"
    using assms(1) by (auto simp: ledger_sound_def)
  then have "pm_plan_id m = p" using h(2) header_of_simps(1) [of m] by simp
  with m that show thesis by blast
qed

lemma plan_book_None: "kget mr_plan_id p (db_manifests db) = None \<Longrightarrow> plan_book sha db p = None"
  by (simp add: plan_book_def load_manifest_def)

lemma sound_load:
  assumes "ledger_sound sha db"
  shows "load_manifest sha p db = Inr (plan_book sha db p)"
proof (cases "kget mr_plan_id p (db_manifests db)")
  case None
  then show ?thesis by (simp add: plan_book_def load_manifest_def)
next
  case (Some h)
  obtain m where m: "plan_stored sha db m" "pm_plan_id m = p"
    using stored_of_header [OF assms Some] by metis
  then show ?thesis
    using load_stored [OF sound_task_keys [OF assms] m(1)] plan_book_stored [OF assms m(1)] by simp
qed

lemma plan_book_Some:
  assumes "ledger_sound sha db"
  shows "plan_book sha db p = Some m \<longleftrightarrow> plan_stored sha db m \<and> pm_plan_id m = p"
proof
  assume m: "plan_book sha db p = Some m"
  then obtain h where h: "kget mr_plan_id p (db_manifests db) = Some h"
    using plan_book_None [of p db sha] by (cases "kget mr_plan_id p (db_manifests db)") simp_all
  obtain m' where "plan_stored sha db m'" "pm_plan_id m' = p"
    using stored_of_header [OF assms h] by metis
  then show "plan_stored sha db m \<and> pm_plan_id m = p"
    using plan_book_stored [OF assms, of m'] m by simp
qed (use plan_book_stored [OF assms] in auto)

text \<open>Two ledgers hold the same plan where they agree on its header and its task rows.\<close>

lemma plan_stored_cong:
  assumes "kget mr_plan_id (pm_plan_id m) (db_manifests db') = kget mr_plan_id (pm_plan_id m) (db_manifests db)"
    "set (plan_task_rows db' (pm_plan_id m)) = set (plan_task_rows db (pm_plan_id m))"
  shows "plan_stored sha db' m = plan_stored sha db m"
  by (simp add: plan_stored_def assms)

section \<open>Task rows written by an activation\<close>

lemma upsert_task_Inr:
  assumes "upsert_task r rows = Inr rows'" "kdistinct task_key rows" "kdistinct tr_logical_task_id rows"
    and e: "e = (case kget task_key (task_key r) rows of None \<Rightarrow> tr_evidence_json r | Some old \<Rightarrow> tr_evidence_json old)"
  shows "rows' = kset task_key (r\<lparr>tr_evidence_json := e\<rparr>) rows" "kdistinct tr_logical_task_id rows'"
proof -
  have key: "task_key (r\<lparr>tr_evidence_json := e\<rparr>) = task_key r" by (simp add: task_key_def)
  have clash: "\<not> list_ex (\<lambda>u. task_key u \<noteq> task_key r \<and> tr_logical_task_id u = tr_logical_task_id r) rows"
    and rows': "rows' = kset task_key (r\<lparr>tr_evidence_json := e\<rparr>) rows"
    using assms(1) by (auto simp: upsert_task_def e split: if_splits option.splits)
  then show "rows' = kset task_key (r\<lparr>tr_evidence_json := e\<rparr>) rows" by simp
  have "distinct rows'" using kdistinct_kset [OF assms(2)] rows' by (simp add: kdistinct_def distinct_map)
  moreover have "inj_on tr_logical_task_id (set rows')"
    using clash assms(3)
    by (auto simp: rows' set_kset [OF assms(2)] key kdistinct_def distinct_map list_ex_iff inj_on_def)
  ultimately show "kdistinct tr_logical_task_id rows'" by (simp add: kdistinct_def distinct_map)
qed

definition kept_evidence :: "string \<Rightarrow> task_row list \<Rightarrow> string \<Rightarrow> string" where
  "kept_evidence p rows i = (case kget task_key (p, i) rows of None \<Rightarrow> ''{}'' | Some old \<Rightarrow> tr_evidence_json old)"

lemma store_tasks_Inr:
  assumes "store_tasks p ts rows = Inr rows'" "distinct (map pt_plan_task_id ts)"
    "kdistinct task_key rows" "kdistinct tr_logical_task_id rows"
  shows "kdistinct task_key rows' \<and> kdistinct tr_logical_task_id rows' \<and>
    set rows' = {r \<in> set rows. task_key r \<notin> (\<lambda>t. (p, pt_plan_task_id t)) ` set ts} \<union>
      (\<lambda>t. task_row_of p (kept_evidence p rows (pt_plan_task_id t)) t) ` set ts"
  using assms
proof (induction ts arbitrary: rows)
  case (Cons t ts)
  from Cons.prems(1) obtain r rows1 where r: "task_values p t = Inr r"
    and rows1: "upsert_task r rows = Inr rows1" and rest: "store_tasks p ts rows1 = Inr rows'"
    by (auto simp: result_simps)
  define v where "v = task_row_of p (kept_evidence p rows (pt_plan_task_id t)) t"
  have key: "task_key v = (p, pt_plan_task_id t)" by (simp add: v_def)
  note up = upsert_task_Inr [OF rows1 Cons.prems(3,4) refl]
  have eq: "rows1 = kset task_key v rows"
    using up(1) by (simp add: task_values_Inr [OF r] v_def kept_evidence_def cong: option.case_cong)
  have evs: "kept_evidence p rows1 (pt_plan_task_id u) = kept_evidence p rows (pt_plan_task_id u)"
    if "u \<in> set ts" for u
  proof -
    have "pt_plan_task_id u \<noteq> pt_plan_task_id t"
      using imageI [OF that, of pt_plan_task_id] Cons.prems(2) by auto
    then show ?thesis by (simp add: kept_evidence_def eq kget_kset key)
  qed
  have tail: "kdistinct task_key rows' \<and> kdistinct tr_logical_task_id rows' \<and>
      set rows' = {r \<in> set rows1. task_key r \<notin> (\<lambda>t. (p, pt_plan_task_id t)) ` set ts} \<union>
        (\<lambda>t. task_row_of p (kept_evidence p rows1 (pt_plan_task_id t)) t) ` set ts"
    using Cons.prems(2) kdistinct_kset [OF Cons.prems(3)] up(2)
    by (intro Cons.IH [OF rest]) (simp_all add: eq)
  have new: "(\<lambda>t. task_row_of p (kept_evidence p rows1 (pt_plan_task_id t)) t) ` set ts =
      (\<lambda>t. task_row_of p (kept_evidence p rows (pt_plan_task_id t)) t) ` set ts"
    by (rule image_cong) (simp_all add: evs)
  have old: "{r \<in> set rows1. task_key r \<notin> (\<lambda>t. (p, pt_plan_task_id t)) ` set ts} =
      insert v {r \<in> set rows. task_key r \<notin> (\<lambda>t. (p, pt_plan_task_id t)) ` set (t # ts)}"
    using Cons.prems(2) by (auto simp: eq set_kset [OF Cons.prems(3)] key)
  show ?case using tail unfolding new old by (auto simp: v_def)
qed auto

definition task_refs :: "plan_db \<Rightarrow> ((string \<times> string) \<times> string) set" where
  "task_refs db = (\<lambda>r. (task_key r, tr_logical_task_id r)) ` set (db_tasks db)"

lemma task_keys_refs: "task_key ` set (db_tasks db) = fst ` task_refs db"
  by (auto simp: task_refs_def image_image)

text \<open>A write that keeps the plans, the tasks and their logical identities keeps the references.\<close>

lemma tables_wf_mono:
  assumes wf: "tables_wf db" and same: "db_attempts db' = db_attempts db" "db_supersessions db' = db_supersessions db"
    and keys: "kdistinct mr_plan_id (db_manifests db')" "kdistinct task_key (db_tasks db')"
      "kdistinct tr_logical_task_id (db_tasks db')"
    and plans: "tr_plan_id ` set (db_tasks db') \<subseteq> mr_plan_id ` set (db_manifests db')"
      "mr_plan_id ` set (db_manifests db) \<subseteq> mr_plan_id ` set (db_manifests db')"
    and refs: "task_refs db \<subseteq> task_refs db'"
  shows "tables_wf db'"
proof -
  have more: "fst ` task_refs db \<subseteq> fst ` task_refs db'" using refs by (rule image_mono)
  have "\<forall>s\<in>set (db_supersessions db).
      supersession_wf (mr_plan_id ` set (db_manifests db)) (fst ` task_refs db) s"
    using wf by (simp add: tables_wf_def task_keys_refs)
  then have sup: "\<forall>s\<in>set (db_supersessions db).
      supersession_wf (mr_plan_id ` set (db_manifests db')) (fst ` task_refs db') s"
    by (intro ballI) (rule supersession_wf_mono [OF _ plans(2) more], rule bspec)
  have "(\<lambda>a. ((ar_plan_id a, ar_plan_task_id a), ar_logical_task_id a)) ` set (db_attempts db) \<subseteq> task_refs db'"
    by (rule order_trans [OF _ refs]) (use wf in \<open>simp add: tables_wf_def task_refs_def\<close>)
  with sup wf keys plans show ?thesis
    unfolding tables_wf_def task_keys_refs same by (simp add: task_refs_def)
qed

section \<open>Activation\<close>

definition sorted_plan :: "plan_manifest \<Rightarrow> plan_manifest" where
  "sorted_plan m = m\<lparr>pm_tasks := sort_key pt_plan_task_id (pm_tasks m)\<rparr>"

lemma header_of_sorted [simp]: "header_of (sorted_plan m) = header_of m" "pm_plan_id (sorted_plan m) = pm_plan_id m"
  by (simp_all add: sorted_plan_def header_of_def)

lemma sorted_plan_wf: "plan_manifest_wf sha m \<Longrightarrow> plan_manifest_wf sha (sorted_plan m)"
  by (simp add: plan_manifest_wf_def sorted_plan_def distinct_map inj_on_def)
    (metis length_0_conv length_sort)

lemma plan_rows_iff: "r \<in> set (plan_task_rows db p) \<longleftrightarrow> r \<in> set (db_tasks db) \<and> tr_plan_id r = p"
  by (auto simp: plan_task_rows_def)

lemma unregistered_rows:
  assumes "ledger_sound sha db" "kget mr_plan_id p (db_manifests db) = None"
  shows "plan_task_rows db p = []"
proof -
  have "p \<notin> tr_plan_id ` set (db_tasks db)"
    using assms by (auto simp: kget_None_iff ledger_sound_def tables_wf_def)
  then show ?thesis by (auto simp: plan_task_rows_def filter_empty_conv)
qed

text \<open>The rows of a registered plan, with the logical identities that the plan identifies.\<close>

lemma registered_row:
  assumes "ledger_sound sha db" "r \<in> set (db_tasks db)"
  shows "dict_text (tr_evidence_json r)"
    "tr_logical_task_id r = plan_logical_task_id sha (tr_plan_id r) (tr_plan_task_id r)"
proof -
  have row: "r \<in> set (plan_task_rows db (tr_plan_id r))" using assms(2) by (simp add: plan_rows_iff)
  then obtain h where "kget mr_plan_id (tr_plan_id r) (db_manifests db) = Some h"
    using unregistered_rows [OF assms(1), of "tr_plan_id r"]
    by (cases "kget mr_plan_id (tr_plan_id r) (db_manifests db)") auto
  from stored_of_header [OF assms(1) this]
  obtain m where m: "plan_stored sha db m" "pm_plan_id m = tr_plan_id r" by metis
  from m(1) obtain ev where ev: "\<forall>i. dict_text (ev i)" and wf: "plan_manifest_wf sha m"
    and set: "set (plan_task_rows db (pm_plan_id m)) =
      (\<lambda>t. task_row_of (pm_plan_id m) (ev (pt_plan_task_id t)) t) ` set (pm_tasks m)"
    by (auto simp: plan_stored_def)
  from row set m(2) obtain t where t: "t \<in> set (pm_tasks m)"
    and r: "r = task_row_of (pm_plan_id m) (ev (pt_plan_task_id t)) t" by auto
  have "pt_logical_task_id t = plan_logical_task_id sha (pm_plan_id m) (pt_plan_task_id t)"
    using wf t by (simp add: plan_manifest_wf_def plan_task_wf_def)
  with ev show "dict_text (tr_evidence_json r)"
    "tr_logical_task_id r = plan_logical_task_id sha (tr_plan_id r) (tr_plan_task_id r)"
    by (simp_all add: r)
qed

lemma kept_evidence_text: "ledger_sound sha db \<Longrightarrow> dict_text (kept_evidence p (db_tasks db) i)"
  using empty_dict_text
  by (auto simp: kept_evidence_def split: option.split dest!: kget_SomeD registered_row(1))

lemma activation_guard_rows:
  assumes "ledger_sound sha db" "activation_guard m expected db = Inr u"
  shows "tr_plan_task_id ` set (plan_task_rows db (pm_plan_id m)) \<subseteq> pt_plan_task_id ` set (pm_tasks m)"
  using assms(2) unregistered_rows [OF assms(1), of "pm_plan_id m"]
  by (auto simp: activation_guard_def split: option.splits if_splits)

lemma activation_sound:
  assumes sound: "ledger_sound sha db" and m: "plan_manifest_wf sha m" "text_stamps m"
    and act: "activation_write real_text m expected db = Inr db'"
  shows "ledger_sound sha db'" "plan_book sha db' = (plan_book sha db)(pm_plan_id m \<mapsto> sorted_plan m)"
proof -
  let ?p = "pm_plan_id m" and ?ev = "kept_evidence (pm_plan_id m) (db_tasks db)"
  let ?new = "(\<lambda>t. task_row_of ?p (?ev (pt_plan_task_id t)) t) ` set (pm_tasks m)"
  from act obtain u h rows where guard: "activation_guard m expected db = Inr u"
    and h: "manifest_values real_text m = Inr h"
    and store: "store_tasks ?p (pm_tasks m) (db_tasks db) = Inr rows"
    and "db' = db\<lparr>db_manifests := kset mr_plan_id h (db_manifests db), db_tasks := rows\<rparr>"
    by (auto simp: activation_write_def result_simps)
  then have db': "db' = db\<lparr>db_manifests := kset mr_plan_id (header_of m) (db_manifests db), db_tasks := rows\<rparr>"
    using manifest_values_Inr [OF h m(2)] by simp
  have ids: "distinct (map pt_plan_task_id (pm_tasks m))" using m(1) by (simp add: plan_manifest_wf_def)
  have wf: "tables_wf db" using sound by (simp add: ledger_sound_def)
  then have keys: "kdistinct mr_plan_id (db_manifests db)" "kdistinct task_key (db_tasks db)"
      "kdistinct tr_logical_task_id (db_tasks db)"
    by (simp_all add: tables_wf_def)
  note stored_rows = store_tasks_Inr [OF store ids keys(2,3)]
  have old_ids: "tr_plan_task_id r \<in> pt_plan_task_id ` set (pm_tasks m)"
    if "r \<in> set (db_tasks db)" "tr_plan_id r = ?p" for r
    using activation_guard_rows [OF sound guard] that by (auto simp: plan_rows_iff)
  have rows: "set rows = {r \<in> set (db_tasks db). tr_plan_id r \<noteq> ?p} \<union> ?new"
  proof -
    have "{r \<in> set (db_tasks db). task_key r \<notin> (\<lambda>t. (?p, pt_plan_task_id t)) ` set (pm_tasks m)} =
        {r \<in> set (db_tasks db). tr_plan_id r \<noteq> ?p}"
      using old_ids by (fastforce simp: task_key_def)
    with stored_rows show ?thesis by simp
  qed
  have own: "set (plan_task_rows db' ?p) = ?new"
    by (auto simp: plan_task_rows_def db' rows)
  have other: "set (plan_task_rows db' q) = set (plan_task_rows db q)" if "q \<noteq> ?p" for q
    using that by (auto simp: plan_task_rows_def db' rows)
  have header: "kget mr_plan_id q (db_manifests db') =
      (if q = ?p then Some (header_of m) else kget mr_plan_id q (db_manifests db))" for q
    by (simp add: db' kget_kset)
  have new: "plan_stored sha db' (sorted_plan m)"
  proof -
    have "set (plan_task_rows db' ?p) =
        (\<lambda>t. task_row_of ?p (?ev (pt_plan_task_id t)) t) ` set (pm_tasks (sorted_plan m))"
      by (simp add: own sorted_plan_def)
    moreover have "text_stamps (sorted_plan m)" using m(2) by (simp add: text_stamps_def sorted_plan_def)
    moreover have "sorted (map pt_plan_task_id (pm_tasks (sorted_plan m)))" by (simp add: sorted_plan_def)
    ultimately show ?thesis
      using sorted_plan_wf [OF m(1)] kept_evidence_text [OF sound, of ?p]
      by (auto simp: plan_stored_def header)
  qed
  have old: "plan_stored sha db' m' \<longleftrightarrow> plan_stored sha db m'" if "pm_plan_id m' \<noteq> ?p" for m'
    using that by (intro plan_stored_cong) (simp_all add: header other)
  have headers: "set (db_manifests db') = insert (header_of m) {h \<in> set (db_manifests db). mr_plan_id h \<noteq> ?p}"
    by (simp add: db' set_kset [OF keys(1)])
  have refs: "task_refs db \<subseteq> task_refs db'"
  proof
    fix x assume "x \<in> task_refs db"
    then obtain r where r: "r \<in> set (db_tasks db)" and x: "x = (task_key r, tr_logical_task_id r)"
      by (auto simp: task_refs_def)
    show "x \<in> task_refs db'"
    proof (cases "tr_plan_id r = ?p")
      case False
      with r x show ?thesis by (auto simp: task_refs_def db' rows)
    next
      case True
      with old_ids [OF r] obtain t where t: "t \<in> set (pm_tasks m)" "pt_plan_task_id t = tr_plan_task_id r" by auto
      then have "pt_logical_task_id t = tr_logical_task_id r"
        using m(1) registered_row(2) [OF sound r] True by (simp add: plan_manifest_wf_def plan_task_wf_def)
      then have "x = (task_key (task_row_of ?p (?ev (pt_plan_task_id t)) t),
          tr_logical_task_id (task_row_of ?p (?ev (pt_plan_task_id t)) t))"
        using t True by (simp add: x task_key_def)
      moreover have "task_row_of ?p (?ev (pt_plan_task_id t)) t \<in> set (db_tasks db')"
        using t(1) by (simp add: db' rows)
      ultimately show ?thesis unfolding task_refs_def by blast
    qed
  qed
  have plans: "tr_plan_id ` set (db_tasks db') \<subseteq> mr_plan_id ` set (db_manifests db')"
    using wf by (auto simp: db' rows set_kset [OF keys(1)] tables_wf_def)
  have more: "mr_plan_id ` set (db_manifests db) \<subseteq> mr_plan_id ` set (db_manifests db')"
    by (auto simp: headers)
  have "tables_wf db'"
    by (rule tables_wf_mono [OF wf _ _ _ _ _ plans more refs])
      (use stored_rows kdistinct_kset [OF keys(1)] in \<open>simp_all add: db'\<close>)
  moreover have "\<exists>m. plan_stored sha db' m \<and> header_of m = h" if h: "h \<in> set (db_manifests db')" for h
  proof (cases "mr_plan_id h = ?p")
    case True
    with h new show ?thesis by (auto simp: headers)
  next
    case False
    with h obtain m' where "plan_stored sha db m'" "header_of m' = h"
      using sound by (auto simp: headers ledger_sound_def)
    moreover from this False have "pm_plan_id m' \<noteq> ?p" by auto
    ultimately show ?thesis using old by blast
  qed
  ultimately show sound': "ledger_sound sha db'" by (simp add: ledger_sound_def)
  show "plan_book sha db' = (plan_book sha db)(?p \<mapsto> sorted_plan m)"
  proof
    fix q
    show "plan_book sha db' q = ((plan_book sha db)(?p \<mapsto> sorted_plan m)) q"
    proof (cases "q = ?p")
      case True
      then show ?thesis using plan_book_stored [OF sound' new] by simp
    next
      case False
      have "plan_book sha db' q = Some m' \<longleftrightarrow> plan_book sha db q = Some m'" for m'
        using False old by (auto simp: plan_book_Some [OF sound'] plan_book_Some [OF sound])
      then have "plan_book sha db' q = plan_book sha db q" by (metis not_None_eq)
      with False show ?thesis by simp
    qed
  qed
qed

section \<open>Task states and supersession\<close>

text \<open>
  Both writes mark tasks of one plan with a state and new evidence; \<open>e\<close> gives the evidence of the
  tasks that are marked.
\<close>

definition mark_row :: "string \<Rightarrow> string \<Rightarrow> (string \<Rightarrow> string option) \<Rightarrow> task_row \<Rightarrow> task_row" where
  "mark_row p state e r =
     (if tr_plan_id r = p
      then (case e (tr_plan_task_id r) of None \<Rightarrow> r | Some v \<Rightarrow> r\<lparr>tr_state := state, tr_evidence_json := v\<rparr>)
      else r)"

definition mark_header :: "string \<Rightarrow> bool \<Rightarrow> manifest_row \<Rightarrow> manifest_row" where
  "mark_header p whole h = (if whole \<and> mr_plan_id h = p then h\<lparr>mr_status := ''superseded''\<rparr> else h)"

definition mark_plan :: "string \<Rightarrow> string set \<Rightarrow> bool \<Rightarrow> plan_manifest \<Rightarrow> plan_manifest" where
  "mark_plan state ids whole m = m\<lparr>
     pm_tasks := map (\<lambda>t. if pt_plan_task_id t \<in> ids then t\<lparr>pt_state := state\<rparr> else t) (pm_tasks m),
     pm_status := (if whole then ''superseded'' else pm_status m)\<rparr>"

lemma mark_row_key [simp]:
  "task_key (mark_row p state e r) = task_key r" "tr_logical_task_id (mark_row p state e r) = tr_logical_task_id r"
  "tr_plan_id (mark_row p state e r) = tr_plan_id r"
  by (simp_all add: mark_row_def task_key_def split: option.split)

lemma mark_header_key [simp]: "mr_plan_id (mark_header p whole h) = mr_plan_id h"
  by (simp add: mark_header_def)

lemma kget_mark_header:
  "kget mr_plan_id q (map (mark_header p whole) d) = map_option (mark_header p whole) (kget mr_plan_id q d)"
  by (induction d) (auto simp: kget_Nil kget_Cons)

lemma mark_header_other: "kget mr_plan_id q d = Some h \<Longrightarrow> q \<noteq> p \<Longrightarrow> mark_header p whole h = h"
  using kget_SomeD [of mr_plan_id q d h] by (auto simp: mark_header_def)

lemma mark_plan_id [simp]: "pm_plan_id (mark_plan state ids whole m) = pm_plan_id m"
  by (simp add: mark_plan_def)

lemma mark_plan_wf:
  assumes "plan_manifest_wf sha m" "state \<in> set plan_task_states"
  shows "plan_manifest_wf sha (mark_plan state ids whole m)"
proof -
  have ids: "map pt_plan_task_id (pm_tasks (mark_plan state ids whole m)) = map pt_plan_task_id (pm_tasks m)"
    by (simp add: mark_plan_def)
  have tasks: "plan_task_wf sha (pm_plan_id m) (pm_workspace_id m) t \<and>
      set (pt_dependencies t) \<subseteq> set (map pt_plan_task_id (pm_tasks m))"
    if "t \<in> set (pm_tasks (mark_plan state ids whole m))" for t
  proof -
    from that obtain t0 where t0: "t0 \<in> set (pm_tasks m)" "t = t0 \<or> t = t0\<lparr>pt_state := state\<rparr>"
      by (auto simp: mark_plan_def split: if_splits)
    with assms(1) have "plan_task_wf sha (pm_plan_id m) (pm_workspace_id m) t0"
        "set (pt_dependencies t0) \<subseteq> set (map pt_plan_task_id (pm_tasks m))"
      unfolding plan_manifest_wf_def by blast+
    with t0(2) show ?thesis
      by (elim disjE) (simp_all add: plan_task_wf_def assms(2))
  qed
  have rest: "pm_plan_id (mark_plan state ids whole m) = pm_plan_id m"
    "pm_revision (mark_plan state ids whole m) = pm_revision m"
    "pm_workspace_id (mark_plan state ids whole m) = pm_workspace_id m"
    "pm_title (mark_plan state ids whole m) = pm_title m"
    "pm_spec_path (mark_plan state ids whole m) = pm_spec_path m"
    "pm_spec_hash (mark_plan state ids whole m) = pm_spec_hash m"
    "pm_plan_path (mark_plan state ids whole m) = pm_plan_path m"
    "pm_plan_hash (mark_plan state ids whole m) = pm_plan_hash m"
    "pm_supersedes_plan_ids (mark_plan state ids whole m) = pm_supersedes_plan_ids m"
    "pm_created_at (mark_plan state ids whole m) = pm_created_at m"
    "pm_updated_at (mark_plan state ids whole m) = pm_updated_at m"
    "length (pm_tasks (mark_plan state ids whole m)) = length (pm_tasks m)"
    "pm_tasks (mark_plan state ids whole m) = [] \<longleftrightarrow> pm_tasks m = []"
    by (simp_all add: mark_plan_def)
  have "pm_status (mark_plan state ids whole m) \<in> set plan_statuses"
    using assms(1) by (simp add: mark_plan_def plan_manifest_wf_def plan_statuses_def)
  then show ?thesis
    using assms(1) tasks unfolding plan_manifest_wf_def ids rest by blast
qed

lemma tasks_mark_plan: "pm_tasks (mark_plan state ids whole m) =
    map (\<lambda>t. if pt_plan_task_id t \<in> ids then t\<lparr>pt_state := state\<rparr> else t) (pm_tasks m)"
  by (simp add: mark_plan_def)

lemma plan_task_rows_mark:
  "db_tasks db' = map (mark_row p state e) (db_tasks db) \<Longrightarrow>
     plan_task_rows db' q = map (mark_row p state e) (plan_task_rows db q)"
  by (simp add: plan_task_rows_def filter_map comp_def)

lemma mark_task_row:
  "mark_row p state e (task_row_of p v t) =
     task_row_of p (case e (pt_plan_task_id t) of None \<Rightarrow> v | Some w \<Rightarrow> w)
       (if pt_plan_task_id t \<in> dom e then t\<lparr>pt_state := state\<rparr> else t)"
  by (auto simp: mark_row_def split: option.split)

lemma mark_stored:
  assumes "plan_stored sha db m" "state \<in> set plan_task_states" "\<And>i v. e i = Some v \<Longrightarrow> dict_text v"
    and p: "pm_plan_id m = p"
    and db': "db_tasks db' = map (mark_row p state e) (db_tasks db)"
      "db_manifests db' = map (mark_header p whole) (db_manifests db)"
  shows "plan_stored sha db' (mark_plan state (dom e) whole m)"
proof -
  from assms(1) obtain ev where ev: "\<forall>i. dict_text (ev i)" and m: "plan_manifest_wf sha m" "text_stamps m"
      "sorted (map pt_plan_task_id (pm_tasks m))"
    and header: "kget mr_plan_id p (db_manifests db) = Some (header_of m)"
    and set: "set (plan_task_rows db p) = (\<lambda>t. task_row_of p (ev (pt_plan_task_id t)) t) ` set (pm_tasks m)"
    by (auto simp: plan_stored_def p)
  define ev' where "ev' i = (case e i of None \<Rightarrow> ev i | Some w \<Rightarrow> w)" for i
  have "dict_text (ev' i)" for i using ev assms(3) by (simp add: ev'_def split: option.split)
  moreover have "set (plan_task_rows db' p) =
      (\<lambda>t. task_row_of p (ev' (pt_plan_task_id t)) t) ` set (pm_tasks (mark_plan state (dom e) whole m))"
  proof -
    let ?h = "\<lambda>t. if pt_plan_task_id t \<in> dom e then t\<lparr>pt_state := state\<rparr> else t"
    have "set (plan_task_rows db' p) = (\<lambda>t. task_row_of p (ev' (pt_plan_task_id t)) (?h t)) ` set (pm_tasks m)"
      by (simp add: plan_task_rows_mark [OF db'(1)] set image_image mark_task_row ev'_def)
    also have "\<dots> = (\<lambda>t. task_row_of p (ev' (pt_plan_task_id t)) t) ` ?h ` set (pm_tasks m)"
      unfolding image_image by (rule image_cong) simp_all
    also have "?h ` set (pm_tasks m) = set (pm_tasks (mark_plan state (dom e) whole m))"
      by (simp only: tasks_mark_plan list.set_map)
    finally show ?thesis .
  qed
  moreover have "mark_header p whole (header_of m) = header_of (mark_plan state (dom e) whole m)"
    by (simp add: mark_header_def mark_plan_def header_of_def p)
  moreover have "text_stamps (mark_plan state (dom e) whole m)"
    using m(2) by (simp add: text_stamps_def mark_plan_def)
  moreover have "map pt_plan_task_id (pm_tasks (mark_plan state (dom e) whole m)) = map pt_plan_task_id (pm_tasks m)"
    by (simp add: mark_plan_def)
  ultimately show ?thesis
    using mark_plan_wf [OF m(1) assms(2)] m(3) header
    unfolding plan_stored_def by (auto simp: p db' kget_mark_header)
qed

lemma mark_other:
  assumes "pm_plan_id m \<noteq> p" and db': "db_tasks db' = map (mark_row p state e) (db_tasks db)"
    "db_manifests db' = map (mark_header p whole) (db_manifests db)"
  shows "plan_stored sha db' m = plan_stored sha db m"
proof (rule plan_stored_cong)
  show "kget mr_plan_id (pm_plan_id m) (db_manifests db') = kget mr_plan_id (pm_plan_id m) (db_manifests db)"
    unfolding db' kget_mark_header
    by (rule option.map_ident_strong) (use assms(1) mark_header_other in \<open>auto elim!: option.set_cases\<close>)
  show "set (plan_task_rows db' (pm_plan_id m)) = set (plan_task_rows db (pm_plan_id m))"
    unfolding plan_task_rows_mark [OF db'(1)] using assms(1)
    by (subst map_idI) (auto simp: plan_rows_iff mark_row_def)
qed

lemma ledger_sound_cong:
  assumes "ledger_sound sha db" "tables_wf db'" "db_manifests db' = db_manifests db" "db_tasks db' = db_tasks db"
  shows "ledger_sound sha db'" "plan_book sha db' = plan_book sha db"
proof -
  have "plan_stored sha db' m = plan_stored sha db m" for m
    by (rule plan_stored_cong) (simp_all add: assms plan_task_rows_def)
  then show "ledger_sound sha db'" using assms by (simp add: ledger_sound_def)
  show "plan_book sha db' = plan_book sha db"
    by (rule ext) (simp only: plan_book_def load_manifest_def assms(3,4) plan_task_rows_def)
qed

lemma mark_tables:
  assumes "tables_wf db" "db' = db\<lparr>db_tasks := map (mark_row p state e) (db_tasks db),
    db_manifests := map (mark_header p whole) (db_manifests db)\<rparr>"
  shows "tables_wf db'"
proof -
  have manifests: "map mr_plan_id (db_manifests db') = map mr_plan_id (db_manifests db)"
    and tasks: "map task_key (db_tasks db') = map task_key (db_tasks db)"
    and logical: "map tr_logical_task_id (db_tasks db') = map tr_logical_task_id (db_tasks db)"
    and same: "db_attempts db' = db_attempts db" "db_supersessions db' = db_supersessions db"
    by (simp_all add: assms(2))
  have plans: "mr_plan_id ` set (db_manifests db') = mr_plan_id ` set (db_manifests db)"
    using arg_cong [OF manifests, of set] by simp
  have rows: "tr_plan_id ` set (db_tasks db') = tr_plan_id ` set (db_tasks db)"
    and refs: "task_refs db' = task_refs db"
    by (simp_all add: task_refs_def assms(2) image_image)
  have "tr_plan_id ` set (db_tasks db) \<subseteq> mr_plan_id ` set (db_manifests db)"
    and "kdistinct mr_plan_id (db_manifests db')" "kdistinct task_key (db_tasks db')"
      "kdistinct tr_logical_task_id (db_tasks db')"
    using assms(1) by (simp_all add: tables_wf_def kdistinct_def manifests tasks logical)
  then show ?thesis
    by (intro tables_wf_mono [OF assms(1) same]) (simp_all add: plans rows refs)
qed

lemma mark_sound:
  assumes sound: "ledger_sound sha db" and wf: "tables_wf db'"
    and state: "state \<in> set plan_task_states" and e: "\<And>i v. e i = Some v \<Longrightarrow> dict_text v"
    and tasks: "db_tasks db' = map (mark_row p state e) (db_tasks db)"
    and manifests: "db_manifests db' = map (mark_header p whole) (db_manifests db)"
  shows "ledger_sound sha db'"
    "plan_book sha db' = (plan_book sha db)(p := map_option (mark_plan state (dom e) whole) (plan_book sha db p))"
proof -
  have stored: "plan_stored sha db' (mark_plan state (dom e) whole m)"
    if "plan_stored sha db m" "pm_plan_id m = p" for m
    using mark_stored [OF that(1) state _ that(2) tasks manifests] e by blast
  note other = mark_other [OF _ tasks manifests]
  have "\<exists>m. plan_stored sha db' m \<and> header_of m = h" if "h \<in> set (db_manifests db')" for h
  proof -
    from that obtain h0 where h0: "h0 \<in> set (db_manifests db)" "h = mark_header p whole h0"
      by (auto simp: manifests)
    with sound obtain m where m: "plan_stored sha db m" "header_of m = h0" by (auto simp: ledger_sound_def)
    show ?thesis
    proof (cases "pm_plan_id m = p")
      case True
      then have "header_of (mark_plan state (dom e) whole m) = h"
        using m(2) h0(2) by (auto simp: mark_header_def mark_plan_def header_of_def)
      then show ?thesis using stored [OF m(1) True] by blast
    next
      case False
      then have "header_of m = h" using m(2) h0(2) by (auto simp: mark_header_def)
      then show ?thesis using other [OF False] m(1) by blast
    qed
  qed
  with wf show sound': "ledger_sound sha db'" by (simp add: ledger_sound_def)
  show "plan_book sha db' = (plan_book sha db)(p := map_option (mark_plan state (dom e) whole) (plan_book sha db p))"
  proof
    fix q
    show "plan_book sha db' q =
        ((plan_book sha db)(p := map_option (mark_plan state (dom e) whole) (plan_book sha db p))) q"
    proof (cases "q = p")
      case True
      show ?thesis
      proof (cases "plan_book sha db p")
        case None
        then have "kget mr_plan_id p (db_manifests db) = None"
          using stored_of_header [OF sound, of p] plan_book_stored [OF sound]
          by (cases "kget mr_plan_id p (db_manifests db)") (auto, metis option.distinct(1))
        then have "plan_book sha db' p = None"
          by (intro plan_book_None) (simp add: manifests kget_mark_header)
        with None True show ?thesis by simp
      next
        case (Some m)
        then have m: "plan_stored sha db m" "pm_plan_id m = p" by (simp_all add: plan_book_Some [OF sound])
        then have "plan_book sha db' p = Some (mark_plan state (dom e) whole m)"
          using stored [OF m] m(2) by (simp add: plan_book_Some [OF sound'])
        with Some True show ?thesis by simp
      qed
    next
      case False
      then have "plan_book sha db' q = Some m \<longleftrightarrow> plan_book sha db q = Some m" for m
        using other by (auto simp: plan_book_Some [OF sound'] plan_book_Some [OF sound])
      then have "plan_book sha db' q = plan_book sha db q" by (metis not_None_eq)
      with False show ?thesis by simp
    qed
  qed
qed

text \<open>One task marked by \<open>set_task_state\<close>.\<close>

lemma mark_header_open: "map (mark_header p False) d = d"
  by (rule map_idI) (simp add: mark_header_def)

lemma state_write_sound:
  assumes "ledger_sound sha db" "state_write p t state v db = Inr db'" "state \<in> set plan_task_states" "dict_text v"
  shows "ledger_sound sha db'"
    "plan_book sha db' = (plan_book sha db)(p := map_option (mark_plan state {t} False) (plan_book sha db p))"
    "tables_wf db'" "db_attempts db' = db_attempts db" "db_supersessions db' = db_supersessions db"
proof -
  have row: "(if task_key r = (p, t) then r\<lparr>tr_state := state, tr_evidence_json := v\<rparr> else r) =
      mark_row p state [t \<mapsto> v] r" for r
    by (simp add: mark_row_def task_key_def)
  have db': "db' = db\<lparr>db_tasks := map (mark_row p state [t \<mapsto> v]) (db_tasks db),
      db_manifests := map (mark_header p False) (db_manifests db)\<rparr>"
    using assms(2) by (auto simp: state_write_def row mark_header_open split: option.splits)
  show wf: "tables_wf db'"
    using assms(1) by (intro mark_tables [OF _ db']) (simp add: ledger_sound_def)
  have "dict_text w" if "[t \<mapsto> v] i = Some w" for i w using that assms(4) by (auto split: if_splits)
  note mark = mark_sound [where e = "[t \<mapsto> v]" and p = p and whole = False, OF assms(1) wf assms(3) this]
  show "ledger_sound sha db'" by (rule mark(1)) (simp_all add: db')
  show "plan_book sha db' = (plan_book sha db)(p := map_option (mark_plan state {t} False) (plan_book sha db p))"
    by (subst mark(2)) (simp_all add: db')
  show "db_attempts db' = db_attempts db" "db_supersessions db' = db_supersessions db"
    by (simp_all add: db')
qed

lemma attempt_write_sound:
  assumes "ledger_sound sha db" "attempt_write a db = Inr db'"
  shows "ledger_sound sha db'" "plan_book sha db' = plan_book sha db"
proof -
  have wf: "tables_wf db" using assms(1) by (simp add: ledger_sound_def)
  have "db_manifests db' = db_manifests db" "db_tasks db' = db_tasks db" "tables_wf db'"
  proof (atomize (full), cases "kget ar_attempt_id (pa_attempt_id a) (db_attempts db)")
    case (Some x)
    with assms(2) wf show "db_manifests db' = db_manifests db \<and> db_tasks db' = db_tasks db \<and> tables_wf db'"
      by (auto simp: attempt_write_def split: if_splits)
  next
    case None
    with assms(2) obtain t where t: "kget tr_logical_task_id (pa_logical_task_id a) (db_tasks db) = Some t"
      and db': "db' = db\<lparr>db_attempts := db_attempts db @ [attempt_insert t a]\<rparr>"
      by (auto simp: attempt_write_def split: option.splits)
    have row: "t \<in> set (db_tasks db)" "tr_logical_task_id t = pa_logical_task_id a" using kget_SomeD [OF t] by auto
    have key: "ar_attempt_id (attempt_insert t a) \<notin> ar_attempt_id ` set (db_attempts db)"
      using None by (simp add: kget_None_iff attempt_insert_def)
    have "((ar_plan_id (attempt_insert t a), ar_plan_task_id (attempt_insert t a)),
        ar_logical_task_id (attempt_insert t a)) = (task_key t, tr_logical_task_id t)"
      by (simp add: attempt_insert_def task_key_def row)
    then have "tables_wf db'"
      using wf key row(1) by (simp add: tables_wf_def db' kdistinct_def)
    then show "db_manifests db' = db_manifests db \<and> db_tasks db' = db_tasks db \<and> tables_wf db'"
      by (simp add: db')
  qed
  then show "ledger_sound sha db'" "plan_book sha db' = plan_book sha db"
    using ledger_sound_cong [OF assms(1), of db'] by simp_all
qed

lemma mark_row_twice: "mark_row p state e' (mark_row p state e r) = mark_row p state (e ++ e') r"
  by (cases "tr_plan_id r = p"; cases "e (tr_plan_task_id r)"; cases "e' (tr_plan_task_id r)")
    (simp_all add: mark_row_def map_add_def)

lemma supersede_tasks_Inr:
  "supersede_tasks source replacement task_map rows = Inr rows' \<Longrightarrow>
     \<exists>e. dom e = fst ` set task_map \<and> (\<forall>i v. e i = Some v \<longrightarrow> dict_text v) \<and>
       rows' = map (mark_row source ''superseded'' e) rows"
proof (induction source replacement task_map rows rule: supersede_tasks.induct)
  case (1 source replacement rows)
  have "map (mark_row source ''superseded'' Map.empty) rows = rows"
    by (rule map_idI) (simp add: mark_row_def)
  with 1 have "rows' = map (mark_row source ''superseded'' Map.empty) rows" by simp
  then show ?case by (intro exI [of _ Map.empty]) simp
next
  case (2 source replacement s t rest rows)
  let ?f = "\<lambda>v r. if task_key r = (source, s) then r\<lparr>tr_state := ''superseded'', tr_evidence_json := v\<rparr> else r"
  from "2.prems" obtain v where v: "ledger_encode ''supersession evidence''
       (jdict [(''replacement_plan_id'', replacement), (''replacement_plan_task_id'', t)]) = Inr v"
    and rest: "supersede_tasks source replacement rest (map (?f v) rows) = Inr rows'"
    by (auto simp: result_simps)
  have enc: "dict_text v"
    unfolding ledger_encode_Inr [OF v] by (rule jdict_text) simp
  have row: "?f v = mark_row source ''superseded'' [s \<mapsto> v]"
    by (rule ext) (simp add: mark_row_def task_key_def)
  from "2.IH" [OF rest] obtain e where e: "dom e = fst ` set rest" "\<forall>i v. e i = Some v \<longrightarrow> dict_text v"
    "rows' = map (mark_row source ''superseded'' e) (map (?f v) rows)" by blast
  have "rows' = map (mark_row source ''superseded'' ([s \<mapsto> v] ++ e)) rows"
    by (simp add: e(3) row mark_row_twice comp_def)
  moreover have "dom ([s \<mapsto> v] ++ e) = fst ` set ((s, t) # rest)" using e(1) by simp
  moreover have "\<forall>i w. ([s \<mapsto> v] ++ e) i = Some w \<longrightarrow> dict_text w"
    using e(2) enc by (auto simp: map_add_Some_iff split: if_splits)
  ultimately show ?case by blast
qed

lemma check_task_map_Inr:
  "check_task_map sources replacements d = Inr u \<longleftrightarrow> fst ` set d \<subseteq> set sources \<and> snd ` set d \<subseteq> set replacements"
  by (induction sources replacements d rule: check_task_map.induct) auto

lemma stored_task_ids:
  assumes "ledger_sound sha db" "plan_book sha db p = Some m"
  shows "tr_plan_task_id ` set (plan_task_rows db p) = pt_plan_task_id ` set (pm_tasks m)"
  using assms(2) by (auto simp: plan_book_Some [OF assms(1)] plan_stored_def image_image)

definition supersede_plan :: "string set \<Rightarrow> plan_manifest \<Rightarrow> plan_manifest" where
  "supersede_plan ids m = mark_plan ''superseded'' ids (ids = pt_plan_task_id ` set (pm_tasks m)) m"

lemma plan_book_header:
  assumes "ledger_sound sha db" "kget mr_plan_id p (db_manifests db) \<noteq> None"
  obtains m where "plan_book sha db p = Some m"
proof -
  from assms(2) obtain h where "kget mr_plan_id p (db_manifests db) = Some h" by blast
  from stored_of_header [OF assms(1) this] obtain m where "plan_stored sha db m" "pm_plan_id m = p" by metis
  with that show thesis using plan_book_stored [OF assms(1)] by blast
qed

lemma supersede_write_sound:
  assumes sound: "ledger_sound sha db"
    and done_write: "supersede_write now source replacement d (json_dumps (jdict d)) db = Inr db'"
    and d: "distinct (map fst d)" and differ: "source \<noteq> replacement"
  shows "ledger_sound sha db' \<and> prefix (db_supersessions db) (db_supersessions db') \<and>
    db_attempts db' = db_attempts db \<and> plan_book sha db' =
      (if kget supersession_key (source, replacement) (db_supersessions db) \<noteq> None then plan_book sha db
       else (plan_book sha db)(source := map_option (supersede_plan (fst ` set d)) (plan_book sha db source)))"
proof (cases "kget supersession_key (source, replacement) (db_supersessions db)")
  case (Some existing)
  with done_write have "db' = db"
    by (auto simp: supersede_write_def Let_def result_simps split: if_splits)
  with Some sound show ?thesis by simp
next
  case None
  let ?sources = "map tr_plan_task_id (plan_task_rows db source)"
  let ?whole = "set (map fst d) = set ?sources"
  let ?row = "\<lparr>sr_source = source, sr_replacement = replacement,
      sr_task_map_json = json_dumps (jdict d), sr_created_at = now\<rparr>"
  from done_write None obtain u rows where plans: "kget mr_plan_id source (db_manifests db) \<noteq> None"
      "kget mr_plan_id replacement (db_manifests db) \<noteq> None"
    and check: "check_task_map ?sources (map tr_plan_task_id (plan_task_rows db replacement)) d = Inr u"
    and rows: "supersede_tasks source replacement d (db_tasks db) = Inr rows"
    and db': "db' = db\<lparr>db_supersessions := db_supersessions db @ [?row], db_tasks := rows,
        db_manifests := (if ?whole then map (\<lambda>h. if mr_plan_id h = source then h\<lparr>mr_status := ''superseded''\<rparr> else h)
          (db_manifests db) else db_manifests db)\<rparr>"
    by (auto simp: supersede_write_def Let_def result_simps split: if_splits)
  from supersede_tasks_Inr [OF rows] obtain e where e: "dom e = fst ` set d"
      "\<forall>i v. e i = Some v \<longrightarrow> dict_text v" "rows = map (mark_row source ''superseded'' e) (db_tasks db)"
    by blast
  have headers: "(if ?whole then map (\<lambda>h. if mr_plan_id h = source then h\<lparr>mr_status := ''superseded''\<rparr> else h)
      (db_manifests db) else db_manifests db) = map (mark_header source ?whole) (db_manifests db)"
    by (cases ?whole) (simp_all add: mark_header_open, simp add: mark_header_def)
  define db1 where "db1 = db\<lparr>db_tasks := rows, db_manifests := map (mark_header source ?whole) (db_manifests db)\<rparr>"
  have db'1: "db' = db1\<lparr>db_supersessions := db_supersessions db @ [?row]\<rparr>"
    unfolding db' headers by (simp add: db1_def)
  have wf1: "tables_wf db1"
    by (rule mark_tables [of db]) (use sound in \<open>simp_all add: ledger_sound_def db1_def e(3)\<close>)
  have keys: "supersession_wf (mr_plan_id ` set (db_manifests db1)) (task_key ` set (db_tasks db1)) ?row"
  proof -
    have same: "mr_plan_id ` set (db_manifests db1) = mr_plan_id ` set (db_manifests db)"
      "task_key ` set (db_tasks db1) = task_key ` set (db_tasks db)"
      by (simp_all add: db1_def e(3) image_image)
    have plans': "{source, replacement} \<subseteq> mr_plan_id ` set (db_manifests db)"
      using plans by (auto simp: kget_None_iff)
    have rows: "Pair p ` tr_plan_task_id ` set (plan_task_rows db p) \<subseteq> task_key ` set (db_tasks db)" for p
      by (auto simp: plan_rows_iff task_key_def image_iff)
    have "fst ` set d \<subseteq> tr_plan_task_id ` set (plan_task_rows db source)"
      "snd ` set d \<subseteq> tr_plan_task_id ` set (plan_task_rows db replacement)"
      using check by (simp_all add: check_task_map_Inr)
    then have "Pair source ` fst ` set d \<subseteq> task_key ` set (db_tasks db)"
      "Pair replacement ` snd ` set d \<subseteq> task_key ` set (db_tasks db)"
      by (meson image_mono order_trans rows)+
    then have "Pair source ` fst ` set d \<union> Pair replacement ` snd ` set d \<subseteq> task_key ` set (db_tasks db)"
      by (rule Un_least)
    with plans' d differ show ?thesis
      unfolding supersession_wf_def same by (intro conjI exI [of _ d]) simp_all
  qed
  have "supersession_key ?row \<notin> supersession_key ` set (db_supersessions db)"
    using None by (simp add: kget_None_iff supersession_key_def)
  then have wf: "tables_wf db'"
    using wf1 keys by (simp add: tables_wf_def db'1 kdistinct_def db1_def)
  note mark = mark_sound [where e = e and p = source and whole = ?whole, OF sound wf1 _ _]
  have state: "''superseded'' \<in> set plan_task_states" by (simp add: plan_task_states_def)
  have sound1: "ledger_sound sha db1"
    by (rule mark(1) [OF state]) (use e in \<open>auto simp: db1_def\<close>)
  have book1: "plan_book sha db1 =
      (plan_book sha db)(source := map_option (mark_plan ''superseded'' (dom e) ?whole) (plan_book sha db source))"
    by (rule mark(2) [OF state]) (use e in \<open>auto simp: db1_def\<close>)
  obtain m where m: "plan_book sha db source = Some m" using plan_book_header [OF sound plans(1)] .
  have "mark_plan ''superseded'' (dom e) ?whole m = supersede_plan (fst ` set d) m"
    using stored_task_ids [OF sound m] by (simp add: supersede_plan_def e(1))
  then have "plan_book sha db1 =
      (plan_book sha db)(source := map_option (supersede_plan (fst ` set d)) (plan_book sha db source))"
    using book1 m by simp
  then show ?thesis
    using None ledger_sound_cong [OF sound1 wf] by (simp add: db'1 db1_def)
qed

end
