(* ===== verification/LedgerHistory.thy ===== *)
theory LedgerHistory
  imports PlanLedger
begin

text \<open>
  Sequences of calls of the plan ledger: what a call does to the plans that the ledger holds, what
  a history of calls keeps, an example ledger and the properties.
\<close>

section \<open>Calls and what they do to the plans\<close>

datatype plan_call =
    LActivate plan_manifest pyval
  | LSetState pyval pyval string pyval
  | LAttempt plan_task_attempt
  | LSupersede string pyval pyval pyval

definition plans_run_call ::
  "(string \<Rightarrow> string) \<Rightarrow> (rat \<Rightarrow> string) \<Rightarrow> plan_call \<Rightarrow> (plan_db, ledger_error, unit) step" where
  "plans_run_call sha real_text c =
     (case c of
        LActivate m expected \<Rightarrow> bindS (ledger_activate sha real_text m expected) (\<lambda>_. retS ())
      | LSetState p t state e \<Rightarrow> ledger_set_task_state p t state e
      | LAttempt a \<Rightarrow> ledger_append_attempt a
      | LSupersede now source replacement task_map \<Rightarrow> ledger_supersede now source replacement task_map)"

definition plans_run :: "(string \<Rightarrow> string) \<Rightarrow> (rat \<Rightarrow> string) \<Rightarrow> plan_call list \<Rightarrow> plan_db \<Rightarrow> plan_db" where
  "plans_run sha real_text cs db = foldl (\<lambda>d c. snd (plans_run_call sha real_text c d)) db cs"

text \<open>An activated manifest is one that \<open>plan_manifest_from_mapping\<close> returns, with text time stamps.\<close>

fun call_valid :: "(string \<Rightarrow> string) \<Rightarrow> plan_call \<Rightarrow> bool" where
  "call_valid sha (LActivate m _) = (plan_manifest_wf sha m \<and> text_stamps m)"
| "call_valid sha _ = True"

fun already_superseded :: "plan_call \<Rightarrow> plan_db \<Rightarrow> bool" where
  "already_superseded (LSupersede _ (PStr s) (PStr r) _) db =
     (kget supersession_key (s, r) (db_supersessions db) \<noteq> None)"
| "already_superseded _ db = False"

text \<open>The effect of a successful call on the plans.\<close>

fun call_effect :: "plan_call \<Rightarrow> (string \<Rightarrow> plan_manifest option) \<Rightarrow> string \<Rightarrow> plan_manifest option" where
  "call_effect (LActivate m _) plans = plans(pm_plan_id m \<mapsto> sorted_plan m)"
| "call_effect (LSetState (PStr p) (PStr t) state _) plans =
     plans(p := map_option (mark_plan state {t} False) (plans p))"
| "call_effect (LSupersede _ (PStr s) _ (PDict kvs)) plans =
     plans(s := map_option (supersede_plan (fst ` set kvs)) (plans s))"
| "call_effect _ plans = plans"

definition call_refines :: "(string \<Rightarrow> string) \<Rightarrow> plan_call \<Rightarrow> plan_db \<Rightarrow> plan_db \<Rightarrow> bool" where
  "call_refines sha c db db' \<longleftrightarrow> ledger_sound sha db' \<and>
     prefix (db_attempts db) (db_attempts db') \<and> prefix (db_supersessions db) (db_supersessions db') \<and>
     plan_book sha db' =
       (if already_superseded c db then plan_book sha db else call_effect c (plan_book sha db))"

lemma ledger_identifier_Inr: "ledger_identifier name False v = Inr s \<Longrightarrow> v = PStr s"
  by (auto simp: ledger_identifier_def Let_def split: pyval.splits if_splits)

lemma ledger_identifier_str: "ledger_identifier name b (PStr s) = Inr x \<Longrightarrow> x = s"
  by (auto simp: ledger_identifier_def Let_def split: if_splits)

lemma ledger_text_str: "ledger_text name n b (PStr s) = Inr x \<Longrightarrow> x = s"
  by (auto simp: ledger_text_def Let_def split: if_splits)

lemma plan_id_identifier:
  assumes "plan_manifest_wf sha m"
  shows "ledger_identifier name False (PStr (pm_plan_id m)) = Inr (pm_plan_id m)"
proof -
  have "plan_id_re (pm_plan_id m)" "length (pm_plan_id m) \<le> 128" "\<not> has_nul (pm_plan_id m)"
    using assms by (simp_all add: plan_manifest_wf_def normalized_text_def)
  moreover from this have "ledger_id_re (pm_plan_id m)" "pm_plan_id m \<noteq> []"
    by (auto simp: plan_id_re_def ledger_id_re_def id_format_def list_all_iff split: list.splits)
  ultimately show ?thesis by (simp add: ledger_identifier_def)
qed

lemma plans_get_sound:
  assumes "ledger_sound sha db"
  shows "plans_get sha p db = (case ledger_identifier ''plan_id'' False p of
      Inl e \<Rightarrow> (Inl e, db) | Inr s \<Rightarrow> (Inr (plan_book sha db s), db))"
  by (simp add: plans_get_def checkS_eq run_read_def sound_load [OF assms] split: sum.split)

text \<open>An activation returns what it has stored; a refused one changes nothing.\<close>

lemma ledger_activate_sound:
  assumes "ledger_sound sha db" "plan_manifest_wf sha m" "text_stamps m"
  shows "ledger_activate sha real_text m expected db =
    (case bindE (revision_argument expected) (\<lambda>_. activation_write real_text m expected db) of
       Inl e \<Rightarrow> (Inl e, db)
     | Inr db' \<Rightarrow> (Inr (sorted_plan m), db'))"
proof (cases "bindE (revision_argument expected) (\<lambda>_. activation_write real_text m expected db)")
  case (Inl e)
  then show ?thesis
    by (auto simp: ledger_activate_def checkS_eq bindS_def run_write_def split: sum.splits)
next
  case (Inr db')
  then obtain u where arg: "revision_argument expected = Inr u"
    and done_write: "activation_write real_text m expected db = Inr db'"
    by (auto simp: result_simps)
  note act = activation_sound [OF assms done_write]
  have "plans_get sha (PStr (pm_plan_id m)) db' = (Inr (Some (sorted_plan m)), db')"
    by (simp add: plans_get_sound [OF act(1)] plan_id_identifier [OF assms(2)] act(2))
  then show ?thesis
    by (simp add: Inr ledger_activate_def checkS_eq arg bindS_def run_write_def done_write retS_def)
qed

lemma activation_write_tables:
  "activation_write real_text m expected db = Inr db' \<Longrightarrow>
     db_attempts db' = db_attempts db \<and> db_supersessions db' = db_supersessions db"
  by (auto simp: activation_write_def result_simps)

lemma run_write_eq: "run_write w db = (r, db') \<longleftrightarrow>
    (case w db of Inl e \<Rightarrow> r = Inl e \<and> db' = db | Inr d \<Rightarrow> r = Inr () \<and> db' = d)"
  by (auto simp: run_write_def split: sum.split)

lemma set_task_state_sound:
  assumes "ledger_sound sha db" "ledger_set_task_state p t state e db = (r, db')"
  shows "(case r of Inl _ \<Rightarrow> db' = db | Inr _ \<Rightarrow> call_refines sha (LSetState p t state e) db db')"
proof (cases r)
  case (Inl x)
  with assms(2) show ?thesis
    by (auto simp: ledger_set_task_state_def checkS_eq failS_def run_write_eq split: sum.splits pyval.splits
        list.splits if_splits)
next
  case (Inr y)
  from assms(2) obtain p' t' kvs items v where args: "ledger_identifier ''plan_id'' False p = Inr p'"
      "ledger_identifier ''plan_task_id'' False t = Inr t'" "state \<in> set plan_task_states"
    and v: "ledger_encode ''task state evidence'' (jdict (dict_of_pairs items)) = Inr v"
    and w: "state_write p' t' state v db = Inr db'"
    by (auto simp: Inr ledger_set_task_state_def checkS_eq failS_def run_write_eq split: sum.splits pyval.splits
        list.splits if_splits)
  have strs: "p = PStr p'" "t = PStr t'" using args ledger_identifier_Inr by blast+
  have "dict_text v"
    unfolding ledger_encode_Inr [OF v] by (rule jdict_text) (rule distinct_dict_of_pairs)
  note sound = state_write_sound [OF assms(1) w args(3) this]
  show ?thesis using sound by (simp add: Inr call_refines_def strs)
qed

lemma attempt_values_Inr: "attempt_values a = Inr b \<Longrightarrow> b = a"
  by (auto simp: attempt_values_def result_simps dest!: ledger_identifier_str ledger_text_str)

lemma append_attempt_eq:
  "ledger_append_attempt a = checkS (attempt_values a) (\<lambda>_. run_write (attempt_write a))"
  by (rule ext) (auto simp: ledger_append_attempt_def checkS_eq split: sum.split dest: attempt_values_Inr)

lemma append_attempt_sound:
  assumes "ledger_sound sha db" "ledger_append_attempt a db = (r, db')"
  shows "(case r of Inl _ \<Rightarrow> db' = db | Inr _ \<Rightarrow> call_refines sha (LAttempt a) db db')"
proof (cases r)
  case (Inl x)
  with assms(2) show ?thesis
    by (auto simp: append_attempt_eq checkS_eq run_write_eq split: sum.splits)
next
  case (Inr y)
  with assms(2) have w: "attempt_write a db = Inr db'"
    by (auto simp: append_attempt_eq checkS_eq run_write_eq split: sum.splits)
  then have "prefix (db_attempts db) (db_attempts db')" "db_supersessions db' = db_supersessions db"
    by (auto simp: attempt_write_def split: option.splits if_splits)
  with attempt_write_sound [OF assms(1) w] show ?thesis by (simp add: Inr call_refines_def)
qed

lemma keys_dict_of_pairs: "fst ` set (dict_of_pairs kvs) = fst ` set kvs"
proof -
  have "fst ` set (foldl (\<lambda>d (k, v). json_put k v d) d kvs) = fst ` set d \<union> fst ` set kvs" for d
    by (induction kvs arbitrary: d) (simp_all add: split_beta keys_json_put)
  from this [of "[]"] show ?thesis by (simp add: dict_of_pairs_def)
qed

lemma task_map_keys: "mapE task_map_item kvs = Inr items \<Longrightarrow> map fst items = map fst kvs"
  by (induction kvs arbitrary: items)
    (auto simp: result_simps task_map_item_def dest!: ledger_identifier_str)

lemma supersede_sound:
  assumes "ledger_sound sha db" "ledger_supersede now source replacement task_map db = (r, db')"
  shows "(case r of Inl _ \<Rightarrow> db' = db
    | Inr _ \<Rightarrow> call_refines sha (LSupersede now source replacement task_map) db db')"
proof (cases r)
  case (Inl x)
  with assms(2) show ?thesis
    by (auto simp: ledger_supersede_def checkS_eq failS_def run_write_eq Let_def split: sum.splits pyval.splits
        if_splits)
next
  case (Inr y)
  from assms(2) obtain s t kvs items v where args: "ledger_identifier ''source plan_id'' False source = Inr s"
      "ledger_identifier ''replacement plan_id'' False replacement = Inr t" "s \<noteq> t"
    and kvs: "task_map = PDict kvs" and items: "mapE task_map_item kvs = Inr items"
    and v: "ledger_encode ''plan supersession task map'' (jdict (dict_of_pairs items)) = Inr v"
    and w: "supersede_write now s t (dict_of_pairs items) v db = Inr db'"
    by (auto simp: Inr ledger_supersede_def checkS_eq failS_def run_write_eq Let_def split: sum.splits pyval.splits
        if_splits)
  have strs: "source = PStr s" "replacement = PStr t" using args ledger_identifier_Inr by blast+
  have ids: "fst ` set (dict_of_pairs items) = fst ` set kvs"
    using arg_cong [OF task_map_keys [OF items], of set] by (simp add: keys_dict_of_pairs)
  show ?thesis
    using supersede_write_sound [OF assms(1) w [unfolded ledger_encode_Inr [OF v]] distinct_dict_of_pairs args(3)]
    by (simp add: Inr call_refines_def strs kvs ids)
qed

lemma run_call_sound:
  assumes "ledger_sound sha db" "call_valid sha c" "plans_run_call sha real_text c db = (r, db')"
  shows "(case r of Inl _ \<Rightarrow> db' = db | Inr _ \<Rightarrow> call_refines sha c db db')"
proof (cases c)
  case (LActivate m expected)
  with assms(2) have m: "plan_manifest_wf sha m" "text_stamps m" by simp_all
  note act = ledger_activate_sound [OF assms(1) m, of real_text expected]
  show ?thesis
  proof (cases "bindE (revision_argument expected) (\<lambda>_. activation_write real_text m expected db)")
    case (Inl e)
    with assms(3) act show ?thesis
      by (auto simp: LActivate plans_run_call_def bindS_def)
  next
    case (Inr d)
    then have w: "activation_write real_text m expected db = Inr d" by (auto simp: result_simps)
    from Inr assms(3) act have "r = Inr ()" "db' = d"
      by (auto simp: LActivate plans_run_call_def bindS_def retS_def)
    then show ?thesis
      using activation_sound [OF assms(1) m w] activation_write_tables [OF w]
      by (simp add: call_refines_def LActivate)
  qed
next
  case (LSetState p t state e)
  then show ?thesis
    using assms(3) by (simp only: plans_run_call_def plan_call.case) (rule set_task_state_sound [OF assms(1)])
next
  case (LAttempt a)
  then show ?thesis
    using assms(3) by (simp only: plans_run_call_def plan_call.case) (rule append_attempt_sound [OF assms(1)])
next
  case (LSupersede now source replacement task_map)
  then show ?thesis
    using assms(3) by (simp only: plans_run_call_def plan_call.case) (rule supersede_sound [OF assms(1)])
qed

section \<open>Histories\<close>

text \<open>What a revision fixes: everything of a plan except its status and the states of its tasks.\<close>

definition plan_content :: "plan_manifest \<Rightarrow> plan_manifest" where
  "plan_content m = m\<lparr>pm_status := [], pm_tasks := map (\<lambda>t. t\<lparr>pt_state := []\<rparr>) (pm_tasks m)\<rparr>"

definition plan_follows :: "plan_manifest \<Rightarrow> plan_manifest \<Rightarrow> bool" where
  "plan_follows m m' \<longleftrightarrow> pm_revision m \<le> pm_revision m' \<and> pm_workspace_id m' = pm_workspace_id m \<and>
     map pt_plan_task_id (pm_tasks m') = map pt_plan_task_id (pm_tasks m) \<and>
     (pm_revision m' = pm_revision m \<longrightarrow> plan_content m' = plan_content m)"

lemma plan_follows_refl: "plan_follows m m"
  by (simp add: plan_follows_def)

lemma plan_follows_trans: "plan_follows m m' \<Longrightarrow> plan_follows m' m'' \<Longrightarrow> plan_follows m m''"
  unfolding plan_follows_def by (metis order.antisym order_trans)

lemma mark_plan_follows: "plan_follows m (mark_plan state ids whole m)"
  by (simp add: plan_follows_def plan_content_def mark_plan_def comp_def)

lemma activation_follows:
  assumes sound: "ledger_sound sha db" and m: "plan_manifest_wf sha m"
    and act: "activation_write real_text m expected db = Inr db'"
    and old: "plan_book sha db (pm_plan_id m) = Some m0"
  shows "plan_follows m0 (sorted_plan m)"
proof -
  from old have m0: "plan_stored sha db m0" "pm_plan_id m0 = pm_plan_id m"
    by (simp_all add: plan_book_Some [OF sound])
  then have header: "kget mr_plan_id (pm_plan_id m) (db_manifests db) = Some (header_of m0)"
    by (simp add: plan_stored_def)
  from act obtain u where "activation_guard m expected db = Inr u"
    by (auto simp: activation_write_def result_simps)
  then have guard: "pm_revision m0 < pm_revision m" "pm_workspace_id m0 = pm_workspace_id m"
      "tr_plan_task_id ` set (plan_task_rows db (pm_plan_id m)) = pt_plan_task_id ` set (pm_tasks m)"
    by (auto simp: activation_guard_def header split: if_splits)
  have "set (map pt_plan_task_id (pm_tasks (sorted_plan m))) = set (map pt_plan_task_id (pm_tasks m0))"
    using guard(3) stored_task_ids [OF sound old] by (simp add: sorted_plan_def)
  moreover have "sorted (map pt_plan_task_id (pm_tasks (sorted_plan m)))" by (simp add: sorted_plan_def)
  moreover have "sorted (map pt_plan_task_id (pm_tasks m0))" using m0(1) by (simp add: plan_stored_def)
  moreover have "distinct (map pt_plan_task_id (pm_tasks (sorted_plan m)))"
    using sorted_plan_wf [OF m] by (simp add: plan_manifest_wf_def)
  moreover have "distinct (map pt_plan_task_id (pm_tasks m0))"
    using m0(1) by (simp add: plan_stored_def plan_manifest_wf_def)
  ultimately have "map pt_plan_task_id (pm_tasks (sorted_plan m)) = map pt_plan_task_id (pm_tasks m0)"
    by (intro sorted_distinct_set_unique)
  with guard(1,2) show ?thesis by (simp add: plan_follows_def sorted_plan_def)
qed

lemma run_call_history:
  assumes "ledger_sound sha db" "call_valid sha c" "plans_run_call sha real_text c db = (r, db')"
  shows "ledger_sound sha db' \<and> prefix (db_attempts db) (db_attempts db') \<and>
    prefix (db_supersessions db) (db_supersessions db') \<and>
    (\<forall>p m. plan_book sha db p = Some m \<longrightarrow> (\<exists>m'. plan_book sha db' p = Some m' \<and> plan_follows m m'))"
proof (cases r)
  case (Inl e)
  with run_call_sound [OF assms] assms(1) show ?thesis by (auto intro: plan_follows_refl)
next
  case (Inr y)
  with run_call_sound [OF assms] have step: "call_refines sha c db db'" by simp
  have "\<exists>m'. plan_book sha db' p = Some m' \<and> plan_follows m m'" if m: "plan_book sha db p = Some m" for p m
  proof (cases "already_superseded c db")
    case True
    with step m show ?thesis by (auto simp: call_refines_def intro: plan_follows_refl)
  next
    case False
    with step have book: "plan_book sha db' = call_effect c (plan_book sha db)" by (simp add: call_refines_def)
    have refl: "\<exists>m'. Some m = Some m' \<and> plan_follows m m'" by (simp add: plan_follows_refl)
    show ?thesis
    proof (cases c)
      case (LActivate n expected)
      show ?thesis
      proof (cases "p = pm_plan_id n")
        case True
        from assms(2) LActivate have n: "plan_manifest_wf sha n" "text_stamps n" by simp_all
        from assms(3) Inr have "isOk (bindE (revision_argument expected) (\<lambda>_. activation_write real_text n expected db))"
          by (auto simp: LActivate plans_run_call_def bindS_def ledger_activate_sound [OF assms(1) n]
              split: sum.splits)
        then obtain d where "activation_write real_text n expected db = Inr d"
          by (cases "revision_argument expected"; cases "activation_write real_text n expected db") auto
        from activation_follows [OF assms(1) n(1) this] m True have "plan_follows m (sorted_plan n)" by simp
        with True show ?thesis by (simp add: book LActivate)
      next
        case False
        with m refl show ?thesis by (simp add: book LActivate)
      qed
    next
      case (LSetState q t state e)
      with m refl show ?thesis
        by (cases q; cases t) (auto simp: book mark_plan_follows intro: plan_follows_refl)
    next
      case (LAttempt a)
      with m refl show ?thesis by (simp add: book)
    next
      case (LSupersede now s t d)
      with m refl show ?thesis
        by (cases s; cases d) (auto simp: book supersede_plan_def mark_plan_follows intro: plan_follows_refl)
    qed
  qed
  with step show ?thesis by (simp add: call_refines_def)
qed

lemma plans_run_history:
  assumes "ledger_sound sha db" "list_all (call_valid sha) cs"
  shows "ledger_sound sha (plans_run sha real_text cs db) \<and>
    prefix (db_attempts db) (db_attempts (plans_run sha real_text cs db)) \<and>
    prefix (db_supersessions db) (db_supersessions (plans_run sha real_text cs db)) \<and>
    (\<forall>p m. plan_book sha db p = Some m \<longrightarrow>
      (\<exists>m'. plan_book sha (plans_run sha real_text cs db) p = Some m' \<and> plan_follows m m'))"
  using assms
proof (induction cs arbitrary: db)
  case Nil
  then show ?case by (auto simp: plans_run_def intro: plan_follows_refl)
next
  case (Cons c cs)
  obtain r d where d: "plans_run_call sha real_text c db = (r, d)" by (cases "plans_run_call sha real_text c db")
  have run: "plans_run sha real_text (c # cs) db = plans_run sha real_text cs d"
    by (simp add: plans_run_def d)
  have step: "ledger_sound sha d" "prefix (db_attempts db) (db_attempts d)"
    "prefix (db_supersessions db) (db_supersessions d)"
    "\<forall>p m. plan_book sha db p = Some m \<longrightarrow> (\<exists>m'. plan_book sha d p = Some m' \<and> plan_follows m m')"
    using run_call_history [OF Cons.prems(1) _ d] Cons.prems(2) by simp_all
  have rest: "ledger_sound sha (plans_run sha real_text cs d)"
    "prefix (db_attempts d) (db_attempts (plans_run sha real_text cs d))"
    "prefix (db_supersessions d) (db_supersessions (plans_run sha real_text cs d))"
    "\<forall>p m. plan_book sha d p = Some m \<longrightarrow>
      (\<exists>m'. plan_book sha (plans_run sha real_text cs d) p = Some m' \<and> plan_follows m m')"
    using Cons.IH [OF step(1)] Cons.prems(2) by simp_all
  show ?case
    unfolding run
    using rest step(2-4) by (meson plan_follows_trans prefix_order.trans)
qed

lemma plans_get_errors:
  assumes "ledger_sound sha db" "fst (plans_get sha p db) = Inl e" shows "\<exists>x. e = PlanLedgerError x"
  using assms(2)
  by (auto simp: plans_get_sound [OF assms(1)] ledger_identifier_def Let_def split: sum.splits pyval.splits if_splits)

lemma ledger_active_sound:
  assumes sound: "ledger_sound sha db" and w: "ledger_identifier ''workspace_id'' False v = Inr w"
  obtains ms where "ledger_active sha v db = (Inr ms, db)" "sorted (map pm_plan_id ms)" "distinct (map pm_plan_id ms)"
    "set ms = {m. plan_book sha db (pm_plan_id m) = Some m \<and> pm_workspace_id m = w \<and> pm_status m = ''active''}"
proof -
  let ?hs = "filter (\<lambda>h. mr_workspace_id h = w \<and> mr_status h = ''active'') (db_manifests db)"
  let ?ids = "sort (map mr_plan_id ?hs)"
  let ?get = "\<lambda>p. the (plan_book sha db p)"
  have keys: "kdistinct mr_plan_id (db_manifests db)" using sound by (simp add: ledger_sound_def tables_wf_def)
  have header: "plan_book sha db (mr_plan_id h) = Some m \<Longrightarrow> h \<in> set (db_manifests db) \<Longrightarrow> h = header_of m" for h m
    using kget_Some_iff [OF keys, of "mr_plan_id h" h] by (auto simp: plan_book_Some [OF sound] plan_stored_def)
  have stored: "\<exists>m. plan_book sha db p = Some m \<and> pm_plan_id m = p \<and> pm_workspace_id m = w \<and> pm_status m = ''active''"
    if "p \<in> set ?ids" for p
  proof -
    from that obtain h where h: "h \<in> set (db_manifests db)" "mr_plan_id h = p" "mr_workspace_id h = w" "mr_status h = ''active''"
      by auto
    then have "kget mr_plan_id p (db_manifests db) \<noteq> None" by (auto simp: kget_None_iff)
    then obtain m where m: "plan_book sha db p = Some m" by (rule plan_book_header [OF sound])
    with h header [of h m] have "h = header_of m" by simp
    with m h show ?thesis by auto
  qed
  have "mapE (\<lambda>p. bindE (load_manifest sha p db) (\<lambda>m. case m of
      None \<Rightarrow> Inl (StoreCorrupt ''active plan disappeared during read'') | Some x \<Rightarrow> Inr x)) ?ids = Inr (map ?get ?ids)"
    by (rule mapE_all_Inr) (use stored in \<open>fastforce simp: sound_load [OF sound]\<close>)
  then have "ledger_active sha v db = (Inr (map ?get ?ids), db)"
    by (simp add: ledger_active_def checkS_eq w run_read_def)
  moreover have ids: "map pm_plan_id (map ?get ?ids) = ?ids"
    unfolding map_map by (rule map_idI) (use stored in fastforce)
  then have "sorted (map pm_plan_id (map ?get ?ids))" by simp
  moreover have "distinct (map pm_plan_id (map ?get ?ids))"
    using keys unfolding ids by (simp add: kdistinct_def distinct_map_filter)
  moreover have "set (map ?get ?ids) =
      {m. plan_book sha db (pm_plan_id m) = Some m \<and> pm_workspace_id m = w \<and> pm_status m = ''active''}"
  proof (intro set_eqI iffI)
    fix m assume "m \<in> set (map ?get ?ids)"
    then obtain p where "p \<in> set ?ids" "m = ?get p" by auto
    with stored [of p] show "m \<in> {m. plan_book sha db (pm_plan_id m) = Some m \<and> pm_workspace_id m = w \<and> pm_status m = ''active''}"
      by auto
  next
    fix m assume m: "m \<in> {m. plan_book sha db (pm_plan_id m) = Some m \<and> pm_workspace_id m = w \<and> pm_status m = ''active''}"
    then have "kget mr_plan_id (pm_plan_id m) (db_manifests db) = Some (header_of m)"
      by (simp add: plan_book_Some [OF sound] plan_stored_def)
    then have "header_of m \<in> set ?hs" using m by (auto dest: kget_SomeD)
    then have "mr_plan_id (header_of m) \<in> set ?ids" by (simp only: set_sort list.set_map) (rule imageI)
    then have "?get (pm_plan_id m) \<in> set (map ?get ?ids)" by simp
    with m show "m \<in> set (map ?get ?ids)" by simp
  qed
  ultimately show thesis by (rule that)
qed

lemma filter_unique_key:
  "distinct (map key xs) \<Longrightarrow> x \<in> set xs \<Longrightarrow> filter (\<lambda>y. key y = key x) xs = [x]"
  by (induction xs) (auto simp: filter_empty_conv intro: rev_image_eqI)

section \<open>An example ledger\<close>

text \<open>A digest with readable output, for examples.\<close>

definition example_digest :: "string \<Rightarrow> string" where
  "example_digest s = map (\<lambda>c. if c = CHR 0x00 then CHR ''-'' else c) s"

definition example_plan_task :: "string \<Rightarrow> string \<Rightarrow> plan_task_spec" where
  "example_plan_task p t =
     \<lparr>pt_plan_task_id = t, pt_logical_task_id = plan_logical_task_id example_digest p t, pt_title = ''Build'',
      pt_intent_fingerprint =
        (case plan_intent_fingerprint example_digest (PStr ''repo'') (PStr ''Build'') [] [] [PStr ''ok''] of
           Inr f \<Rightarrow> f | Inl _ \<Rightarrow> []),
      pt_paths = [], pt_resources = [], pt_dependencies = [], pt_acceptance_criteria = [''ok''],
      pt_delivery_requirements = [''ok''], pt_state = ''planned''\<rparr>"

definition example_plan :: "string \<Rightarrow> string list \<Rightarrow> plan_manifest" where
  "example_plan p ts =
     \<lparr>pm_plan_id = p, pm_revision = 1, pm_workspace_id = ''repo'', pm_title = ''Plan'',
      pm_status = ''active'', pm_spec_path = ''spec.md'', pm_spec_hash = replicate 64 CHR ''a'',
      pm_tasks = map (example_plan_task p) ts, pm_plan_path = [], pm_plan_hash = [],
      pm_supersedes_plan_ids = [], pm_created_at = PStr [], pm_updated_at = PStr []\<rparr>"

lemma example_plan_wf:
  "plan_manifest_wf example_digest (example_plan ''p1'' [''b'', ''a''])"
  "plan_manifest_wf example_digest (example_plan ''p2'' [''c''])"
  "plan_manifest_wf example_digest (example_plan ''p3'' [''d''])"
  by code_simp+

lemma ledger_encode_short:
  "length (json_dumps v) \<le> 100 \<Longrightarrow> \<not> contains_secret_like_content (json_dumps v) \<Longrightarrow>
     ledger_encode name v = Inr (json_dumps v)"
  using utf8_size_bounds(2) [of "json_dumps v"] by (simp add: ledger_encode_def max_json_bytes_def)

lemma example_encodings:
  "ledger_encode name (jstrs []) = Inr (json_dumps (jstrs []))"
  "ledger_encode name (jstrs [''ok'']) = Inr (json_dumps (jstrs [''ok'']))"
  by (rule ledger_encode_short; code_simp)+

lemma example_plan_task_simps [simp]:
  "pt_plan_task_id (example_plan_task p t) = t"
  "pt_logical_task_id (example_plan_task p t) = ''logical:'' @ take 32 (example_digest (p @ CHR 0x00 # t))"
  by (simp_all add: example_plan_task_def plan_logical_task_id_def)

lemma example_values: "task_values p (example_plan_task p t) = Inr (task_row_of p ''{}'' (example_plan_task p t))"
  by (simp add: task_values_def example_plan_task_def example_encodings task_row_of_def)

lemma example_header: "manifest_values (\<lambda>_. []) (example_plan p ts) = Inr (header_of (example_plan p ts))"
  by (simp add: manifest_values_def sql_integer_def sql_text_def example_plan_def example_encodings header_of_def)

lemma example_plan_simps [simp]:
  "pm_plan_id (example_plan p ts) = p" "pm_tasks (example_plan p ts) = map (example_plan_task p) ts"
  "pm_workspace_id (example_plan p ts) = ''repo''" "pm_revision (example_plan p ts) = 1"
  "pm_status (example_plan p ts) = ''active''" "text_stamps (example_plan p ts)"
  by (simp_all add: example_plan_def text_stamps_def)

definition example_db :: plan_db where
  "example_db =
     \<lparr>db_manifests = map (\<lambda>(p, ts). header_of (example_plan p ts)) [(''p1'', [''b'', ''a'']), (''p2'', [''c'']), (''p3'', [''d''])],
      db_tasks = map (\<lambda>(p, t). task_row_of p ''{}'' (example_plan_task p t)) [(''p1'', ''b''), (''p1'', ''a''), (''p2'', ''c''), (''p3'', ''d'')],
      db_attempts = [], db_supersessions = []\<rparr>"

definition example_one :: plan_db where
  "example_one = example_db\<lparr>db_manifests := take 1 (db_manifests example_db), db_tasks := take 2 (db_tasks example_db)\<rparr>"

definition example_two :: plan_db where
  "example_two = example_db\<lparr>db_manifests := take 2 (db_manifests example_db), db_tasks := take 3 (db_tasks example_db)\<rparr>"

definition example_activations :: "plan_call list" where
  "example_activations = [LActivate (example_plan ''p1'' [''b'', ''a'']) PNone,
     LActivate (example_plan ''p2'' [''c'']) PNone, LActivate (example_plan ''p3'' [''d'']) PNone]"

lemma example_writes:
  "activation_write (\<lambda>_. []) (example_plan ''p1'' [''b'', ''a'']) PNone empty_plan_db =
     Inr example_one"
  "activation_write (\<lambda>_. []) (example_plan ''p2'' [''c'']) PNone
     example_one =
     Inr example_two"
  "activation_write (\<lambda>_. []) (example_plan ''p3'' [''d'']) PNone
     example_two =
     Inr example_db"
  by (simp_all add: activation_write_def activation_guard_def empty_plan_db_def kget_Nil kget_Cons example_db_def
      example_one_def example_two_def
      example_header example_values upsert_task_def kset_def example_digest_def)


lemma activation_call:
  assumes "ledger_sound sha db" "plan_manifest_wf sha m" "text_stamps m" "activation_write real_text m PNone db = Inr db'"
  shows "plans_run_call sha real_text (LActivate m PNone) db = (Inr (), db')"
  by (simp add: plans_run_call_def bindS_def ledger_activate_sound [OF assms(1-3)] revision_argument_def assms(4) retS_def)

lemma example_stored:
  "ledger_sound example_digest example_db" "plans_run example_digest (\<lambda>_. []) example_activations empty_plan_db = example_db"
  "plan_book example_digest example_db ''p1'' = Some (sorted_plan (example_plan ''p1'' [''b'', ''a'']))"
  "plans_run_call example_digest (\<lambda>_. []) (LActivate (example_plan ''p2'' [''c'']) PNone)
     example_one =
     (Inr (), example_two)"
  "ledger_sound example_digest
     example_one"
proof -
  note act = activation_sound [OF _ _ example_plan_simps(6)]
  note one = act [OF empty_plan_db_sound example_plan_wf(1) example_writes(1)]
  note two = act [OF one(1) example_plan_wf(2) example_writes(2)]
  note three = act [OF two(1) example_plan_wf(3) example_writes(3)]
  note calls = activation_call [OF empty_plan_db_sound example_plan_wf(1) example_plan_simps(6) example_writes(1)]
    activation_call [OF one(1) example_plan_wf(2) example_plan_simps(6) example_writes(2)]
    activation_call [OF two(1) example_plan_wf(3) example_plan_simps(6) example_writes(3)]
  show "ledger_sound example_digest example_db" by (rule three(1))
  show "plans_run example_digest (\<lambda>_. []) example_activations empty_plan_db = example_db"
    by (simp add: plans_run_def example_activations_def calls)
  show "plan_book example_digest example_db ''p1'' = Some (sorted_plan (example_plan ''p1'' [''b'', ''a'']))"
    by (simp add: three(2) two(2) one(2))
  show "plans_run_call example_digest (\<lambda>_. []) (LActivate (example_plan ''p2'' [''c'']) PNone)
     example_one =
     (Inr (), example_two)"
    by (rule calls(2))
  show "ledger_sound example_digest
     example_one"
    by (rule one(1))
qed

section \<open>Properties\<close>

text \<open>
  C5: The ledger implements the plans it stores. On a sound database, a call that activates no
  manifest but a validated one leaves a sound
  database, in which \<open>get\<close> returns for every plan what the call's effect on the plans gives: an
  activation the manifest with its tasks in order, \<open>set_task_state\<close> the new state of one
  task, \<open>supersede\<close> the mapped tasks and, when all are mapped, the plan as superseded, an attempt or
  a repeated supersession no change. When such a call is refused, the database is as it was. An
  activation of a manifest that was not validated can be refused after its rows were written:
  \<open>unvalidated_activation_strands_plan\<close>.
\<close>

theorem plan_ledger_refinement:
  assumes "ledger_sound sha db" "call_valid sha c" "plans_run_call sha real_text c db = (r, db')"
  shows "ledger_sound sha db' \<and> (isOk r \<or> db' = db) \<and>
    plan_book sha db' =
      (if isOk r \<and> \<not> already_superseded c db then call_effect c (plan_book sha db) else plan_book sha db) \<and>
    (\<forall>p. plans_get sha p db' = (case ledger_identifier ''plan_id'' False p of
       Inl e \<Rightarrow> (Inl e, db') | Inr s \<Rightarrow> (Inr (plan_book sha db' s), db')))"
proof -
  have "ledger_sound sha db'"
    using run_call_history [OF assms] by simp
  then show ?thesis
    using run_call_sound [OF assms] plans_get_sound by (cases r) (auto simp: call_refines_def)
qed

lemma plan_ledger_refinement_witness:
  "ledger_sound example_digest example_two \<and>
   plan_book example_digest example_two =
     (plan_book example_digest example_one)(''p2'' \<mapsto> sorted_plan (example_plan ''p2'' [''c'']))"
proof -
  have valid: "call_valid example_digest (LActivate (example_plan ''p2'' [''c'']) PNone)"
    using example_plan_wf(2) by simp
  show ?thesis
    using plan_ledger_refinement [OF example_stored(5) valid example_stored(4)] by simp
qed

text \<open>
  C14: From a sound database and by calls that activate no manifest but validated ones, a plan of the
  ledger stays, its revision never goes back, its workspace and its tasks never change, and its
  content changes only with a later revision: within a revision only the status and the states of
  the tasks move. Attempts and supersessions are only added, never changed or removed. An
  activation of a manifest that was not validated can strand a plan, as
  \<open>unvalidated_activation_strands_plan\<close> shows.
\<close>

theorem plan_histories_advance:
  assumes "ledger_sound sha db" "list_all (call_valid sha) cs" "plan_book sha db p = Some m"
  shows "\<exists>m'. plan_book sha (plans_run sha real_text cs db) p = Some m' \<and>
    pm_revision m \<le> pm_revision m' \<and> pm_workspace_id m' = pm_workspace_id m \<and>
    map pt_plan_task_id (pm_tasks m') = map pt_plan_task_id (pm_tasks m) \<and>
    (pm_revision m < pm_revision m' \<or> plan_content m' = plan_content m) \<and>
    prefix (db_attempts db) (db_attempts (plans_run sha real_text cs db)) \<and>
    prefix (db_supersessions db) (db_supersessions (plans_run sha real_text cs db))"
  using plans_run_history [OF assms(1,2), of real_text] assms(3)
  unfolding plan_follows_def by (metis order_le_imp_less_or_eq)

lemma plan_histories_advance_witness:
  "\<exists>m'. plan_book example_digest
      (plans_run example_digest (\<lambda>_. []) [LSetState (PStr ''p1'') (PStr ''a'') ''running'' (PDict [(''n'', PStr ''x'')])]
        example_db) ''p1'' = Some m' \<and> 1 \<le> pm_revision m' \<and> pm_workspace_id m' = ''repo''"
proof -
  have "list_all (call_valid example_digest)
      [LSetState (PStr ''p1'') (PStr ''a'') ''running'' (PDict [(''n'', PStr ''x'')])]" by simp
  from plan_histories_advance [OF example_stored(1) this example_stored(3), of "\<lambda>_. []"]
  show ?thesis by (auto simp: sorted_plan_def)
qed

text \<open>
  C19: In a ledger that was built from an empty database by calls whose activated manifests are
  validated, keys are unique and every reference between tables holds, no read ever reports a corrupt store (an error of \<open>get\<close>,
  \<open>task\<close> or \<open>active\<close> is an invalid argument), and \<open>active\<close> returns exactly the active plans of
  the workspace, each once, in the order of their ids.
\<close>

theorem reachable_ledger_reads:
  assumes "list_all (call_valid sha) cs" and db: "db = plans_run sha real_text cs empty_plan_db"
  shows "tables_wf db \<and>
    (\<forall>p e. fst (plans_get sha p db) = Inl e \<longrightarrow> (\<exists>x. e = PlanLedgerError x)) \<and>
    (\<forall>p t e. fst (ledger_task sha p t db) = Inl e \<longrightarrow> (\<exists>x. e = PlanLedgerError x)) \<and>
    (\<forall>v. case fst (ledger_active sha v db) of
       Inl e \<Rightarrow> \<exists>x. e = PlanLedgerError x
     | Inr ms \<Rightarrow> sorted (map pm_plan_id ms) \<and> distinct (map pm_plan_id ms) \<and>
         set ms = {m. plan_book sha db (pm_plan_id m) = Some m \<and> PStr (pm_workspace_id m) = v \<and>
           pm_status m = ''active''})"
proof -
  have sound: "ledger_sound sha db"
    using plans_run_history [OF empty_plan_db_sound assms(1), of real_text] by (simp add: db)
  have ids: "ledger_identifier name b v = Inl e \<Longrightarrow> \<exists>x. e = PlanLedgerError x" for name b v e
    by (auto simp: ledger_identifier_def Let_def split: pyval.splits if_splits)
  have "\<exists>x. e = PlanLedgerError x" if "fst (ledger_task sha p t db) = Inl e" for p t e
    using that ids
    by (auto simp: ledger_task_def bindS_def plans_get_sound [OF sound] checkS_eq retS_def
        split: sum.splits option.splits)
  moreover have "case fst (ledger_active sha v db) of
       Inl e \<Rightarrow> \<exists>x. e = PlanLedgerError x
     | Inr ms \<Rightarrow> sorted (map pm_plan_id ms) \<and> distinct (map pm_plan_id ms) \<and>
         set ms = {m. plan_book sha db (pm_plan_id m) = Some m \<and> PStr (pm_workspace_id m) = v \<and>
           pm_status m = ''active''}" for v
  proof (cases "ledger_identifier ''workspace_id'' False v")
    case (Inl e)
    then show ?thesis using ids by (simp add: ledger_active_def checkS_eq)
  next
    case (Inr w)
    obtain ms where "ledger_active sha v db = (Inr ms, db)" "sorted (map pm_plan_id ms)" "distinct (map pm_plan_id ms)"
      "set ms = {m. plan_book sha db (pm_plan_id m) = Some m \<and> pm_workspace_id m = w \<and> pm_status m = ''active''}"
      by (rule ledger_active_sound [OF sound Inr])
    with ledger_identifier_Inr [OF Inr] show ?thesis by simp
  qed
  ultimately show ?thesis
    using sound plans_get_errors [OF sound] by (simp add: ledger_sound_def)
qed

lemma reachable_ledger_reads_witness:
  "tables_wf example_db \<and> (case fst (ledger_active example_digest (PStr ''repo'') example_db) of
     Inl e \<Rightarrow> \<exists>x. e = PlanLedgerError x
   | Inr ms \<Rightarrow> sorted (map pm_plan_id ms) \<and> distinct (map pm_plan_id ms) \<and>
       set ms = {m. plan_book example_digest example_db (pm_plan_id m) = Some m \<and>
         PStr (pm_workspace_id m) = PStr ''repo'' \<and> pm_status m = ''active''})"
proof -
  have "list_all (call_valid example_digest) example_activations"
    using example_plan_wf by (simp add: example_activations_def)
  from reachable_ledger_reads [OF this example_stored(2) [symmetric]]
  show ?thesis by blast
qed

text \<open>
  C20: An attempt is recorded exactly once: after a successful \<open>append_attempt\<close> the attempts of its
  logical task, ordered by start and identity, hold it once and as it was given, appending it again changes
  nothing, and any other attempt under its identity is refused without a change.
\<close>

theorem attempts_recorded_once:
  assumes "tables_wf db" "ledger_append_attempt a db = (Inr u, db')"
  shows "(\<exists>ats. ledger_attempts (PStr (pa_logical_task_id a)) db' = (Inr ats, db') \<and>
      filter (\<lambda>x. pa_attempt_id x = pa_attempt_id a) ats = [a] \<and>
      sorted (map (\<lambda>x. (pa_started_at x, pa_attempt_id x)) ats)) \<and>
    ledger_append_attempt a db' = (Inr (), db') \<and>
    (\<forall>b. b = a \<or> pa_attempt_id b \<noteq> pa_attempt_id a \<or>
       (\<exists>e. ledger_append_attempt b db' = (Inl e, db')))"
proof -
  from assms(2) have parsed: "attempt_values a = Inr a" and w: "attempt_write a db = Inr db'"
    by (auto simp: append_attempt_eq checkS_eq run_write_eq split: sum.splits dest: attempt_values_Inr)
  have "\<exists>x. kget ar_attempt_id (pa_attempt_id a) (db_attempts db') = Some x \<and> attempt_of_row x = a"
    using w
    by (auto simp: attempt_write_def kget_append kget_Cons attempt_insert_def attempt_of_row_def
        split: option.splits if_splits)
  then obtain x where x: "kget ar_attempt_id (pa_attempt_id a) (db_attempts db') = Some x" "attempt_of_row x = a"
    by blast
  have again: "attempt_write a db' = Inr db'"
    using x by (auto simp: attempt_write_def attempt_of_row_def)
  have other: "\<exists>e. ledger_append_attempt b db' = (Inl e, db')"
    if "b \<noteq> a" "pa_attempt_id b = pa_attempt_id a" for b
    using that x by (auto simp: append_attempt_eq checkS_eq run_write_def attempt_write_def split: sum.split)
  have keys: "kdistinct ar_attempt_id (db_attempts db')"
    using assms(1) w
    by (auto simp: tables_wf_def attempt_write_def kdistinct_def kget_None_iff attempt_insert_def
        split: option.splits if_splits)
  let ?rows = "sort_key (\<lambda>r. (ar_started_at r, ar_attempt_id r))
    (filter (\<lambda>r. ar_logical_task_id r = pa_logical_task_id a) (db_attempts db'))"
  have "ledger_identifier ''logical_task_id'' False (PStr (pa_logical_task_id a)) = Inr (pa_logical_task_id a)"
    using parsed by (auto simp: attempt_values_def result_simps dest: ledger_identifier_str)
  moreover have "mapE (\<lambda>r. if ar_logical_task_id r \<noteq> pa_logical_task_id a
      then Inl (StoreCorrupt ''stored attempt logical task identity is inconsistent'')
      else Inr (attempt_of_row r)) ?rows = Inr (map attempt_of_row ?rows)"
    by (rule mapE_all_Inr) simp
  ultimately have reads: "ledger_attempts (PStr (pa_logical_task_id a)) db' = (Inr (map attempt_of_row ?rows), db')"
    by (simp add: ledger_attempts_def checkS_eq run_read_def)
  have "ar_logical_task_id x = pa_logical_task_id a"
    using arg_cong [OF x(2), of pa_logical_task_id] by (simp add: attempt_of_row_def)
  then have "x \<in> set ?rows" using kget_SomeD [OF x(1)] by simp
  moreover have "distinct (map ar_attempt_id ?rows)"
    using keys by (simp add: kdistinct_def distinct_map inj_on_def)
  ultimately have "filter (\<lambda>r. ar_attempt_id r = pa_attempt_id a) ?rows = [x]"
    using kget_SomeD [OF x(1)] filter_unique_key [of ar_attempt_id ?rows x] by simp
  then have "filter (\<lambda>y. pa_attempt_id y = pa_attempt_id a) (map attempt_of_row ?rows) = [a]"
    using x(2) by (simp add: filter_map comp_def attempt_of_row_def [of r for r])
  moreover have "sorted (map (\<lambda>x. (pa_started_at x, pa_attempt_id x)) (map attempt_of_row ?rows))"
    by (simp add: comp_def attempt_of_row_def)
  ultimately show ?thesis
    using reads again other parsed by (auto simp: append_attempt_eq checkS_eq run_write_def)
qed

definition example_attempt :: plan_task_attempt where
  "example_attempt =
     \<lparr>pa_attempt_id = ''try-1'', pa_logical_task_id = ''logical:p1-a'', pa_task_id = [], pa_owner_id = ''owner'',
      pa_session_id = [], pa_working_tree_id = [], pa_started_at = ''10:00'', pa_finished_at = [],
      pa_outcome = [], pa_failure_fingerprint = []\<rparr>"

lemma example_append:
  "ledger_append_attempt example_attempt example_db = (Inr (), example_db\<lparr>db_attempts :=
     [attempt_insert (task_row_of ''p1'' ''{}'' (example_plan_task ''p1'' ''a'')) example_attempt]\<rparr>)"
proof -
  have "attempt_values example_attempt = Inr example_attempt" by code_simp
  moreover have "attempt_write example_attempt example_db = Inr (example_db\<lparr>db_attempts :=
     [attempt_insert (task_row_of ''p1'' ''{}'' (example_plan_task ''p1'' ''a'')) example_attempt]\<rparr>)"
    by (simp add: attempt_write_def example_db_def kget_Nil kget_Cons example_attempt_def example_digest_def)
  ultimately show ?thesis by (simp add: append_attempt_eq checkS_eq run_write_def)
qed

lemma attempts_recorded_once_witness:
  "\<exists>ats. fst (ledger_attempts (PStr ''logical:p1-a'') (snd (ledger_append_attempt example_attempt example_db))) = Inr ats \<and>
     filter (\<lambda>x. pa_attempt_id x = ''try-1'') ats = [example_attempt]"
proof -
  have "tables_wf example_db" using example_stored(1) by (simp add: ledger_sound_def)
  from attempts_recorded_once [OF this example_append] show ?thesis
    by (auto simp: example_append) (auto simp: example_attempt_def)
qed

section \<open>Findings\<close>

text \<open>
  An activation commits before anything validates the manifest: a manifest without tasks, which only the parser
  would refuse, is stored, the call then reports a corrupt store, and so does every read of the
  plan and of the workspace's active plans; the guard on the task set refuses every repair.
\<close>

lemma unvalidated_activation_strands_plan:
  assumes db: "db = \<lparr>db_manifests = [header_of (example_plan ''p9'' [])], db_tasks = [], db_attempts = [],
    db_supersessions = []\<rparr>"
    and m: "pm_plan_id m = ''p9''" "pm_tasks m \<noteq> []"
  shows "ledger_activate sha (\<lambda>_. []) (example_plan ''p9'' []) PNone empty_plan_db =
      (Inl (StoreCorrupt ''stored plan has no task rows''), db)"
    "ledger_active sha (PStr ''repo'') db = (Inl (StoreCorrupt ''stored plan has no task rows''), db)"
    "\<exists>e. ledger_activate sha real_text m expected db = (Inl e, db)"
proof -
  have ids: "ledger_identifier ''plan_id'' False (PStr ''p9'') = Inr ''p9''"
    "ledger_identifier ''workspace_id'' False (PStr ''repo'') = Inr ''repo''" by code_simp+
  have load: "load_manifest sha ''p9'' db = Inl (StoreCorrupt ''stored plan has no task rows'')"
    by (simp add: load_manifest_def db kget_Cons plan_task_rows_def)
  have "activation_write (\<lambda>_. []) (example_plan ''p9'' []) PNone empty_plan_db = Inr db"
    by (simp add: activation_write_def activation_guard_def empty_plan_db_def kget_Nil example_header kset_def db)
  then show "ledger_activate sha (\<lambda>_. []) (example_plan ''p9'' []) PNone empty_plan_db =
      (Inl (StoreCorrupt ''stored plan has no task rows''), db)"
    by (simp add: ledger_activate_def revision_argument_def checkS_eq bindS_def run_write_def run_read_def
        plans_get_def ids load)
  show "ledger_active sha (PStr ''repo'') db = (Inl (StoreCorrupt ''stored plan has no task rows''), db)"
    using load by (simp add: ledger_active_def checkS_eq ids run_read_def db)
  have "\<exists>e. activation_guard m expected db = Inl e"
    using m by (auto simp: activation_guard_def db kget_Nil kget_Cons plan_task_rows_def)
  then show "\<exists>e. ledger_activate sha real_text m expected db = (Inl e, db)"
    by (auto simp: ledger_activate_def checkS_eq bindS_def run_write_def activation_write_def split: sum.split)
qed

text \<open>
  A plan whose tasks are superseded in two parts, by two replacement plans, keeps its status: all its
  tasks are superseded and the plan is still active.
\<close>

lemma supersession_in_parts_leaves_plan_active:
  assumes "ids \<union> ids' = pt_plan_task_id ` set (pm_tasks m)" "ids \<noteq> ids \<union> ids'" "ids' \<noteq> ids \<union> ids'"
    and m': "m' = supersede_plan ids' (supersede_plan ids m)"
  shows "(\<forall>t\<in>set (pm_tasks m'). pt_state t = ''superseded'') \<and> pm_status m' = pm_status m"
proof -
  have "map pt_plan_task_id (pm_tasks (mark_plan state is w m)) = map pt_plan_task_id (pm_tasks m)" for state "is" w
    by (simp add: mark_plan_def)
  from arg_cong [OF this, of set]
  have same: "pt_plan_task_id ` set (pm_tasks (mark_plan state is w m)) = pt_plan_task_id ` set (pm_tasks m)"
    for state "is" w by simp
  have "supersede_plan ids m = mark_plan ''superseded'' ids False m"
    using assms(1,2) by (simp add: supersede_plan_def)
  moreover have "supersede_plan ids' (mark_plan ''superseded'' ids False m) =
      mark_plan ''superseded'' ids' False (mark_plan ''superseded'' ids False m)"
    using assms(1,3) same by (simp add: supersede_plan_def)
  ultimately show ?thesis
    using assms(1) by (auto simp: m' mark_plan_def)
qed

end
