(* ===== verification/RequestLifecycle.thy ===== *)
theory RequestLifecycle
  imports PlanManifest
begin

text \<open>
  The registry of transport requests, \<open>src/src/chatgpt_dev_mcp/request_lifecycle.py\<close>. Records are
  objects the registry owns: an operation that changes one writes the new value back under
  its key. A call reads the clock once. The event identifiers and what an event sink raises
  depend on the number of the event.
\<close>

section \<open>Requests\<close>

datatype request_state =
    SNew | SAccepted | SRunning | SCompleting | SCompleted | SFailed | SCancelled | STimedOut
  | SDisconnected | SOutcomeUnknown | SRecovering

fun request_state_value :: "request_state \<Rightarrow> string" where
  "request_state_value SNew = ''NEW''"
| "request_state_value SAccepted = ''ACCEPTED''"
| "request_state_value SRunning = ''RUNNING''"
| "request_state_value SCompleting = ''COMPLETING''"
| "request_state_value SCompleted = ''COMPLETED''"
| "request_state_value SFailed = ''FAILED''"
| "request_state_value SCancelled = ''CANCELLED''"
| "request_state_value STimedOut = ''TIMED_OUT''"
| "request_state_value SDisconnected = ''DISCONNECTED''"
| "request_state_value SOutcomeUnknown = ''OUTCOME_UNKNOWN''"
| "request_state_value SRecovering = ''RECOVERING''"

datatype side_effect_class = ReadOnly | LocalReversible | LocalWrite | ExternalWrite | OutcomeAmbiguousCapable

fun side_effect_value :: "side_effect_class \<Rightarrow> string" where
  "side_effect_value ReadOnly = ''READ_ONLY''"
| "side_effect_value LocalReversible = ''LOCAL_REVERSIBLE''"
| "side_effect_value LocalWrite = ''LOCAL_WRITE''"
| "side_effect_value ExternalWrite = ''EXTERNAL_WRITE''"
| "side_effect_value OutcomeAmbiguousCapable = ''OUTCOME_AMBIGUOUS_CAPABLE''"

definition terminal_states :: "request_state list" where
  "terminal_states = [SCompleted, SFailed, SCancelled, STimedOut, SDisconnected, SOutcomeUnknown]"

record request_key =
  rk_child_instance_id :: string
  rk_transport_generation :: int
  rk_request_id :: pyval

record request_record =
  lr_key :: request_key
  lr_tool_name :: string
  lr_side_effect_class :: side_effect_class
  lr_started_at :: time
  lr_last_heartbeat :: time
  lr_state :: request_state
  lr_workspace_id :: "string option"
  lr_working_tree_id :: "string option"
  lr_development_session_id :: "string option"
  lr_process_session_id :: "string option"
  lr_operation_key :: "string option"
  lr_side_effect_started :: bool
  lr_terminal_reason :: "string option"
  lr_retry_count :: nat
  lr_terminal_at :: "time option"
  lr_duration_ms :: "time option"
  lr_metadata :: "(string \<times> string) list"

datatype lifecycle_error =
    LifecycleError string
  | RequestConflict string request_record
  | RequestKeyError pyval
  | RequestValueError string

definition request_terminal :: "request_record \<Rightarrow> bool" where
  "request_terminal r \<longleftrightarrow> lr_state r \<in> set terminal_states"

definition opt_str :: "string option \<Rightarrow> pyval" where
  "opt_str v = (case v of None \<Rightarrow> PNone | Some s \<Rightarrow> PStr s)"

definition opt_time :: "time option \<Rightarrow> pyval" where
  "opt_time v = (case v of None \<Rightarrow> PNone | Some t \<Rightarrow> PFloat t)"

definition request_as_dict :: "request_record \<Rightarrow> (string \<times> pyval) list" where
  "request_as_dict r =
     [(''request_id'', rk_request_id (lr_key r)), (''tool_name'', PStr (lr_tool_name r)),
      (''transport_generation'', PInt (rk_transport_generation (lr_key r))),
      (''state'', PStr (request_state_value (lr_state r))),
      (''side_effect_class'', PStr (side_effect_value (lr_side_effect_class r))),
      (''side_effect_started'', PBool (lr_side_effect_started r)),
      (''process_session_id'', opt_str (lr_process_session_id r)),
      (''operation_key'', opt_str (lr_operation_key r)),
      (''terminal_reason'', opt_str (lr_terminal_reason r)),
      (''retry_count'', PInt (int (lr_retry_count r))),
      (''workspace_id'', opt_str (lr_workspace_id r)),
      (''working_tree_id'', opt_str (lr_working_tree_id r)),
      (''development_session_id'', opt_str (lr_development_session_id r)),
      (''duration_ms'', opt_time (lr_duration_ms r))]"

record recovery_activity =
  ra_integration_in_progress :: bool
  ra_external_execution_in_progress :: bool

text \<open>The caller's classification of capabilities; \<open>None\<close> where it raises.\<close>

definition external_activity :: "(string \<Rightarrow> bool option) \<Rightarrow> request_record \<Rightarrow> bool" where
  "external_activity external_capability r =
     (if lr_tool_name r = ''git_push'' then True
      else if lr_tool_name r \<noteq> ''capability_execute'' then False
      else case map_of (lr_metadata r) ''capability_id'' of
        None \<Rightarrow> True
      | Some c \<Rightarrow> c = [] \<or> (case external_capability c of None \<Rightarrow> True | Some b \<Rightarrow> b))"

definition recovery_activity_evidence ::
  "request_record list \<Rightarrow> string \<Rightarrow> (string \<Rightarrow> bool option) \<Rightarrow> lifecycle_error + recovery_activity" where
  "recovery_activity_evidence records development_session_id external_capability =
     (if development_session_id = []
      then Inl (RequestValueError ''development_session_id must be non-empty text'')
      else let live = filter (\<lambda>r. \<not> request_terminal r) records in
        Inr \<lparr>ra_integration_in_progress = list_ex (\<lambda>r.
               lr_tool_name r = ''workspace_integrate_development_session'' \<and>
               lr_development_session_id r = Some development_session_id) live,
             ra_external_execution_in_progress = list_ex (external_activity external_capability) live\<rparr>)"

definition valid_request_id :: "pyval \<Rightarrow> bool" where
  "valid_request_id request_id = (case request_id of PStr _ \<Rightarrow> True | PInt _ \<Rightarrow> True | _ \<Rightarrow> False)"

definition safe_retry_decision :: "side_effect_class \<Rightarrow> bool \<Rightarrow> pyval \<Rightarrow> bool" where
  "safe_retry_decision side_effect side_effect_started attempts \<longleftrightarrow>
     side_effect = ReadOnly \<and> \<not> side_effect_started \<and> attempts = PInt 0"

section \<open>The registry\<close>

record request_registry =
  rg_child_instance_id :: string
  rg_heartbeat_timeout_seconds :: time
  rg_terminal_ttl_seconds :: time
  rg_max_entries :: nat
  rg_generation :: int
  rg_records :: "request_record list"
  rg_events :: "(string \<times> pyval) list list"
  rg_max_events :: nat
  rg_event_sink :: "(nat \<Rightarrow> (string \<times> pyval) list \<Rightarrow> string option) option"
  rg_event_sink_error :: "string option"
  rg_reconciled_count :: nat
  rg_stale_request_count :: nat
  rg_outcome_unknown_count :: nat
  rg_last_reconciliation_at :: "time option"
  rg_last_recovery_reason :: "string option"
  rg_emitted :: nat
  rg_event_token :: "nat \<Rightarrow> string"

type_synonym 'a request_op = "(request_registry, lifecycle_error, 'a) step"

definition positive_int :: "string \<Rightarrow> pyval \<Rightarrow> lifecycle_error + int" where
  "positive_int name value =
     (case value of
        PInt n \<Rightarrow> if n < 1 then Inl (RequestValueError (name @ '' must be a positive integer'')) else Inr n
      | _ \<Rightarrow> Inl (RequestValueError (name @ '' must be a positive integer'')))"

definition bounded_int :: "string \<Rightarrow> int \<Rightarrow> pyval \<Rightarrow> lifecycle_error + nat" where
  "bounded_int message maximum value =
     (case value of
        PInt n \<Rightarrow> if 1 \<le> n \<and> n \<le> maximum then Inr (nat n) else Inl (RequestValueError message)
      | _ \<Rightarrow> Inl (RequestValueError message))"

definition registry_init ::
  "string option \<Rightarrow> string \<Rightarrow> pyval \<Rightarrow> time \<Rightarrow> time \<Rightarrow> pyval \<Rightarrow> pyval \<Rightarrow>
     (nat \<Rightarrow> (string \<times> pyval) list \<Rightarrow> string option) option \<Rightarrow> (nat \<Rightarrow> string) \<Rightarrow>
     lifecycle_error + request_registry" where
  "registry_init child_instance_id token transport_generation heartbeat_timeout terminal_ttl
     max_entries max_events event_sink event_token =
     bindE (positive_int ''transport_generation'' transport_generation) (\<lambda>generation.
     if heartbeat_timeout \<le> 0 \<or> terminal_ttl \<le> 0
     then Inl (RequestValueError ''lifecycle TTLs must be positive'')
     else
     bindE (bounded_int ''max_entries must be between 1 and 8192'' 8192 max_entries) (\<lambda>entries.
     bindE (bounded_int ''max_events must be between 1 and 1024'' 1024 max_events) (\<lambda>events.
     let child = (case child_instance_id of None \<Rightarrow> token | Some c \<Rightarrow> if c = [] then token else c) in
     if child = [] then Inl (RequestValueError ''child_instance_id must be a non-empty string'')
     else Inr \<lparr>rg_child_instance_id = child, rg_heartbeat_timeout_seconds = heartbeat_timeout,
       rg_terminal_ttl_seconds = terminal_ttl, rg_max_entries = entries, rg_generation = generation,
       rg_records = [], rg_events = [], rg_max_events = events, rg_event_sink = event_sink,
       rg_event_sink_error = None, rg_reconciled_count = 0, rg_stale_request_count = 0,
       rg_outcome_unknown_count = 0, rg_last_reconciliation_at = None,
       rg_last_recovery_reason = None, rg_emitted = 0, rg_event_token = event_token\<rparr>)))"

text \<open>\<open>generation\<close> is \<open>PNone\<close> for the current one.\<close>

definition make_request_key :: "pyval \<Rightarrow> pyval \<Rightarrow> request_key request_op" where
  "make_request_key request_id generation = readS (\<lambda>g.
     if \<not> valid_request_id request_id
     then failS (RequestValueError ''request_id must be a non-boolean string or integer'')
     else checkS (positive_int ''generation'' (if generation = PNone then PInt (rg_generation g) else generation))
       (\<lambda>n. retS \<lparr>rk_child_instance_id = rg_child_instance_id g, rk_transport_generation = n,
          rk_request_id = request_id\<rparr>))"

definition event_metadata_keys :: "string list" where
  "event_metadata_keys =
     [''logical_connection_id'', ''server_schema_revision'', ''server_schema_hash'', ''request_accepted'',
      ''result'', ''tool_failure_code'', ''integration_intent_id'', ''integration_preflight_id'',
      ''integration_patch_hash'', ''canonical_revision_before'', ''integration_receipt_id'']"

text \<open>\<open>payload[key] = value\<close> and \<open>payload.update(...)\<close>.\<close>

definition dict_put :: "string \<times> 'v \<Rightarrow> (string \<times> 'v) list \<Rightarrow> (string \<times> 'v) list" where
  "dict_put e d = kset fst e d"

definition scalar :: "pyval \<Rightarrow> bool" where
  "scalar v = (case v of PList _ \<Rightarrow> False | PDict _ \<Rightarrow> False | _ \<Rightarrow> True)"

definition event_payload ::
  "string \<Rightarrow> request_record option \<Rightarrow> (string \<times> pyval) list \<Rightarrow> request_registry \<Rightarrow> (string \<times> pyval) list" where
  "event_payload event record details g =
     (let base = [(''event_id'', PStr (''request-event:'' @ rg_event_token g (rg_emitted g))),
                  (''child_instance_id'', PStr (rg_child_instance_id g)), (''event'', PStr event),
                  (''transport_generation'', PInt (case record of None \<Rightarrow> rg_generation g
                     | Some r \<Rightarrow> rk_transport_generation (lr_key r)))];
          described = (case record of None \<Rightarrow> base | Some r \<Rightarrow>
            fold dict_put
              ([(''request_id'', rk_request_id (lr_key r)), (''tool_name'', PStr (lr_tool_name r)),
                (''state'', PStr (request_state_value (lr_state r))),
                (''side_effect_class'', PStr (side_effect_value (lr_side_effect_class r))),
                (''side_effect_started'', PBool (lr_side_effect_started r)),
                (''retry_count'', PInt (int (lr_retry_count r))),
                (''workspace_id'', opt_str (lr_workspace_id r)),
                (''working_tree_id'', opt_str (lr_working_tree_id r)),
                (''development_session_id'', opt_str (lr_development_session_id r)),
                (''duration_ms'', opt_time (lr_duration_ms r))] @
               concat (map (\<lambda>k. case map_of (lr_metadata r) k of None \<Rightarrow> [] | Some v \<Rightarrow> [(k, PStr v)])
                 event_metadata_keys)) base)
      in fold dict_put (filter (\<lambda>(_, v). scalar v) details) described)"

text \<open>A bounded deque keeps its newest entries; what the sink raises is remembered, not raised.\<close>

definition emit_event :: "string \<Rightarrow> request_record option \<Rightarrow> (string \<times> pyval) list \<Rightarrow> unit request_op" where
  "emit_event event record details = updS (\<lambda>g.
     let payload = event_payload event record details g; events = rg_events g @ [payload] in
     g\<lparr>rg_events := drop (length events - rg_max_events g) events,
       rg_event_sink_error := (case rg_event_sink g of
           None \<Rightarrow> rg_event_sink_error g
         | Some sink \<Rightarrow> (case sink (rg_emitted g) payload of
             None \<Rightarrow> rg_event_sink_error g | Some raised \<Rightarrow> Some raised)),
       rg_emitted := Suc (rg_emitted g)\<rparr>)"

definition put_record :: "request_record \<Rightarrow> unit request_op" where
  "put_record r = updS (\<lambda>g. g\<lparr>rg_records := kset lr_key r (rg_records g)\<rparr>)"

definition get_locked :: "pyval \<Rightarrow> pyval \<Rightarrow> request_record request_op" where
  "get_locked request_id generation =
     bindS (make_request_key request_id generation) (\<lambda>k. readS (\<lambda>g.
       case kget lr_key k (rg_records g) of
         None \<Rightarrow> failS (RequestKeyError request_id)
       | Some r \<Rightarrow> retS r))"

text \<open>Values of \<open>annotate\<close> are given by their \<open>str\<close>; \<open>None\<close> stays \<open>None\<close>.\<close>

definition annotate_field :: "string \<times> string option \<Rightarrow> (string \<times> string) list \<Rightarrow> (string \<times> string) list" where
  "annotate_field field metadata =
     (case field of (key, value) \<Rightarrow>
       (case value of
          None \<Rightarrow> metadata
        | Some v \<Rightarrow>
            if key \<notin> set event_metadata_keys then metadata
            else if key \<in> {''logical_connection_id'', ''server_schema_revision'', ''server_schema_hash'',
                ''request_accepted''} \<and> key \<in> fst ` set metadata then metadata
            else if utf8_size v \<le> 512 then dict_put (key, v) metadata
            else metadata))"

definition request_annotate ::
  "pyval \<Rightarrow> pyval \<Rightarrow> (string \<times> string option) list \<Rightarrow> request_record request_op" where
  "request_annotate request_id generation details =
     bindS (get_locked request_id generation) (\<lambda>r.
     let r' = r\<lparr>lr_metadata := fold annotate_field details (lr_metadata r)\<rparr> in
     bindS (put_record r') (\<lambda>_. retS r'))"

definition request_emit ::
  "pyval \<Rightarrow> string \<Rightarrow> pyval \<Rightarrow> (string \<times> pyval) list \<Rightarrow> request_record request_op" where
  "request_emit request_id event generation details =
     bindS (get_locked request_id generation) (\<lambda>r.
     bindS (emit_event event (Some r) details) (\<lambda>_. retS r))"

section \<open>Transitions\<close>

fun request_successors :: "request_state \<Rightarrow> request_state list" where
  "request_successors SNew = [SAccepted]"
| "request_successors SAccepted =
     [SRunning, SCompleted, SFailed, SCancelled, STimedOut, SDisconnected, SOutcomeUnknown, SRecovering]"
| "request_successors SRunning =
     [SCompleting, SCompleted, SFailed, SCancelled, STimedOut, SDisconnected, SOutcomeUnknown, SRecovering]"
| "request_successors SCompleting =
     [SCompleted, SFailed, SCancelled, STimedOut, SDisconnected, SOutcomeUnknown]"
| "request_successors SRecovering =
     [SRunning, SCompleted, SFailed, SCancelled, STimedOut, SDisconnected, SOutcomeUnknown]"
| "request_successors _ = []"

definition or_else :: "string option \<Rightarrow> string option \<Rightarrow> string option" where
  "or_else reason previous = (case reason of None \<Rightarrow> previous | Some s \<Rightarrow> if s = [] then previous else Some s)"

text \<open>The fields that a terminal transition sets.\<close>

definition ended_record :: "time \<Rightarrow> request_state \<Rightarrow> string option \<Rightarrow> request_record \<Rightarrow> request_record" where
  "ended_record now st reason r =
     r\<lparr>lr_state := st, lr_last_heartbeat := now, lr_terminal_at := Some now,
       lr_duration_ms := Some (max 0 ((now - lr_started_at r) * 1000)),
       lr_terminal_reason := or_else reason (lr_terminal_reason r)\<rparr>"

definition request_transition ::
  "time \<Rightarrow> request_record \<Rightarrow> request_state \<Rightarrow> string option \<Rightarrow> request_record request_op" where
  "request_transition now r st reason =
     (if request_terminal r
      then if st \<in> set terminal_states then retS r
           else failS (LifecycleError (''terminal request cannot transition to '' @ request_state_value st))
      else if st \<notin> set (request_successors (lr_state r))
      then failS (LifecycleError (''invalid transition '' @ request_state_value (lr_state r) @ '' -> '' @
        request_state_value st))
      else if st \<in> set terminal_states
      then
        let r' = ended_record now st reason r in
        bindS (put_record r') (\<lambda>_.
        bindS (updS (\<lambda>g. if st = SOutcomeUnknown
          then g\<lparr>rg_outcome_unknown_count := Suc (rg_outcome_unknown_count g)\<rparr> else g)) (\<lambda>_.
        bindS (emit_event ''REQUEST_TERMINAL'' (Some r') [(''reason'', opt_str (lr_terminal_reason r'))]) (\<lambda>_.
        retS r')))
      else
        let r' = r\<lparr>lr_state := st, lr_last_heartbeat := now\<rparr> in
        bindS (put_record r') (\<lambda>_. retS r'))"

definition request_stale :: "request_registry \<Rightarrow> time \<Rightarrow> request_record \<Rightarrow> bool" where
  "request_stale g now r \<longleftrightarrow> rg_heartbeat_timeout_seconds g \<le> now - lr_last_heartbeat r"

definition count_reconciled :: "unit request_op" where
  "count_reconciled = updS (\<lambda>g. g\<lparr>rg_reconciled_count := Suc (rg_reconciled_count g)\<rparr>)"

definition count_stale :: "unit request_op" where
  "count_stale = updS (\<lambda>g. g\<lparr>rg_stale_request_count := Suc (rg_stale_request_count g)\<rparr>)"

definition set_recovery_reason :: "string \<Rightarrow> unit request_op" where
  "set_recovery_reason reason = updS (\<lambda>g. g\<lparr>rg_last_recovery_reason := Some reason\<rparr>)"

text \<open>Take a record out of the registry.\<close>

definition evict_record :: "string \<Rightarrow> request_record \<Rightarrow> unit request_op" where
  "evict_record reason r =
     bindS (updS (\<lambda>g. g\<lparr>rg_records := kpop lr_key (lr_key r) (rg_records g)\<rparr>)) (\<lambda>_.
     bindS count_reconciled (\<lambda>_.
     emit_event ''REQUEST_REAPED_STALE'' (Some r) [(''reason'', PStr reason)]))"

fun prune_expired :: "time \<Rightarrow> request_record list \<Rightarrow> nat request_op" where
  "prune_expired now [] = retS 0"
| "prune_expired now (r # rs) = readS (\<lambda>g.
     if request_terminal r \<and> rg_terminal_ttl_seconds g \<le> now - lr_last_heartbeat r
     then bindS (evict_record ''terminal_ttl'' r) (\<lambda>_.
          bindS (prune_expired now rs) (\<lambda>n. retS (Suc n)))
     else prune_expired now rs)"

lemma evict_length:
  "r \<in> set (rg_records g) \<Longrightarrow> length (rg_records (snd (evict_record reason r g))) < length (rg_records g)"
  by (simp add: evict_record_def bindS_def updS_def count_reconciled_def emit_event_def Let_def
      length_kpop_less)

text \<open>The capacity loop: never a live record, and the oldest terminal one first.\<close>

function prune_capacity :: "request_registry \<Rightarrow> nat \<times> request_registry" where
  "prune_capacity g =
     (if rg_max_entries g < length (rg_records g)
      then case find request_terminal (rg_records g) of
          None \<Rightarrow> (0, g)
        | Some r \<Rightarrow> (case prune_capacity (snd (evict_record ''capacity'' r g)) of (n, h) \<Rightarrow> (Suc n, h))
      else (0, g))"
  by pat_completeness auto

termination
  by (relation "measure (length \<circ> rg_records)") (auto simp: find_Some_iff intro!: evict_length)

declare prune_capacity.simps [simp del]

definition prune_locked :: "time \<Rightarrow> nat request_op" where
  "prune_locked now = readS (\<lambda>g.
     bindS (prune_expired now (rg_records g)) (\<lambda>expired.
     bindS (\<lambda>h. case prune_capacity h of (n, h') \<Rightarrow> (Inr n, h')) (\<lambda>evicted.
     retS (expired + evicted))))"

definition reap_stale_read :: "request_record \<Rightarrow> time \<Rightarrow> bool request_op" where
  "reap_stale_read r now = readS (\<lambda>g.
     if \<not> request_stale g now r then retS False
     else if lr_side_effect_class r = ReadOnly \<and> \<not> lr_side_effect_started r \<and> lr_process_session_id r = None
     then
       bindS (request_transition now r SDisconnected (Some ''stale_read_only_request'')) (\<lambda>r'.
       bindS count_reconciled (\<lambda>_.
       bindS count_stale (\<lambda>_.
       bindS (set_recovery_reason ''stale_read_only_request'') (\<lambda>_.
       bindS (emit_event ''REQUEST_REAPED_STALE'' (Some r') [(''reason'', PStr ''stale_read_only_request'')]) (\<lambda>_.
       retS True)))))
     else retS False)"

section \<open>Operations\<close>

text \<open>The record that holds the identifier gives it up, or the call is refused.\<close>

definition release_id :: "time \<Rightarrow> string \<Rightarrow> side_effect_class \<Rightarrow> request_record \<Rightarrow> unit request_op" where
  "release_id now tool_name side_effect existing =
     bindS (reap_stale_read existing now) (\<lambda>reaped.
     if reaped then retS ()
     else if request_terminal existing \<and>
       (lr_state existing = SCompleted \<or>
        lr_side_effect_class existing = ReadOnly \<and> side_effect = ReadOnly \<and>
          \<not> lr_side_effect_started existing)
     then emit_event ''REQUEST_REUSED_TERMINAL_ID'' (Some existing)
       [(''reason'', PStr ''completed_or_safe_read_only_id_reuse'')]
     else if request_terminal existing \<and> lr_tool_name existing \<noteq> tool_name then retS ()
     else failS (RequestConflict
       (if request_terminal existing then ''request_id_reuse'' else ''request_already_active'') existing))"

text \<open>No live request of the current generation may hold the operation key.\<close>

fun claim_operation :: "time \<Rightarrow> string \<Rightarrow> request_record list \<Rightarrow> unit request_op" where
  "claim_operation now operation_key [] = retS ()"
| "claim_operation now operation_key (active # rs) = readS (\<lambda>g.
     if rk_transport_generation (lr_key active) \<noteq> rg_generation g \<or>
       lr_operation_key active \<noteq> Some operation_key \<or> request_terminal active
     then claim_operation now operation_key rs
     else bindS (reap_stale_read active now) (\<lambda>reaped.
       if reaped then claim_operation now operation_key rs
       else failS (RequestConflict ''operation_already_started'' active)))"

record accept_request =
  aq_tool_name :: pyval
  aq_side_effect_class :: side_effect_class
  aq_operation_key :: "string option"
  aq_workspace_id :: "string option"
  aq_working_tree_id :: "string option"
  aq_development_session_id :: "string option"
  aq_metadata :: "(string \<times> string) list"

definition new_request_record :: "time \<Rightarrow> request_key \<Rightarrow> string \<Rightarrow> accept_request \<Rightarrow> request_record" where
  "new_request_record now k tool_name q =
     \<lparr>lr_key = k, lr_tool_name = tool_name, lr_side_effect_class = aq_side_effect_class q,
      lr_started_at = now, lr_last_heartbeat = now, lr_state = SNew,
      lr_workspace_id = aq_workspace_id q, lr_working_tree_id = aq_working_tree_id q,
      lr_development_session_id = aq_development_session_id q, lr_process_session_id = None,
      lr_operation_key = aq_operation_key q, lr_side_effect_started = False, lr_terminal_reason = None,
      lr_retry_count = 0, lr_terminal_at = None, lr_duration_ms = None, lr_metadata = aq_metadata q\<rparr>"

definition free_identifier :: "time \<Rightarrow> string \<Rightarrow> side_effect_class \<Rightarrow> request_key \<Rightarrow> unit request_op" where
  "free_identifier now tool_name side_effect k = readS (\<lambda>g.
     case kget lr_key k (rg_records g) of
       None \<Rightarrow> retS ()
     | Some existing \<Rightarrow> release_id now tool_name side_effect existing)"

definition claim_slot :: "time \<Rightarrow> string option \<Rightarrow> unit request_op" where
  "claim_slot now operation_key =
     (case operation_key of
        None \<Rightarrow> retS ()
      | Some o' \<Rightarrow> if o' = [] then retS () else readS (\<lambda>g. claim_operation now o' (rg_records g)))"

definition admit_request :: "time \<Rightarrow> request_key \<Rightarrow> string \<Rightarrow> accept_request \<Rightarrow> request_record request_op" where
  "admit_request now k tool_name q =
     (let r = new_request_record now k tool_name q in
      bindS (put_record r) (\<lambda>_.
      bindS (request_transition now r SAccepted None) (\<lambda>r'.
      bindS (emit_event ''REQUEST_ACCEPTED'' (Some r') []) (\<lambda>_.
      bindS (prune_locked now) (\<lambda>_.
      retS r')))))"

definition request_accept :: "time \<Rightarrow> pyval \<Rightarrow> accept_request \<Rightarrow> request_record request_op" where
  "request_accept now request_id q =
     checkS (case aq_tool_name q of
         PStr s \<Rightarrow> if s = [] then Inl (RequestValueError ''tool_name must be a non-empty string'') else Inr s
       | _ \<Rightarrow> Inl (RequestValueError ''tool_name must be a non-empty string'')) (\<lambda>tool_name.
     bindS (prune_locked now) (\<lambda>_.
     bindS (make_request_key request_id PNone) (\<lambda>k.
     bindS (free_identifier now tool_name (aq_side_effect_class q) k) (\<lambda>_.
     bindS (claim_slot now (aq_operation_key q)) (\<lambda>_.
     admit_request now k tool_name q)))))"

definition request_get :: "pyval \<Rightarrow> pyval \<Rightarrow> request_record request_op" where
  "request_get request_id generation = get_locked request_id generation"

definition request_start :: "time \<Rightarrow> pyval \<Rightarrow> pyval \<Rightarrow> request_record request_op" where
  "request_start now request_id generation =
     bindS (get_locked request_id generation) (\<lambda>r.
     let r' = r\<lparr>lr_last_heartbeat := now\<rparr> in
     bindS (put_record r') (\<lambda>_. request_transition now r' SRunning None))"

definition request_heartbeat :: "time \<Rightarrow> pyval \<Rightarrow> pyval \<Rightarrow> request_record request_op" where
  "request_heartbeat now request_id generation =
     bindS (get_locked request_id generation) (\<lambda>r.
     if request_terminal r then retS r
     else let r' = r\<lparr>lr_last_heartbeat := now\<rparr> in bindS (put_record r') (\<lambda>_. retS r'))"

definition request_mark_completing :: "time \<Rightarrow> pyval \<Rightarrow> pyval \<Rightarrow> request_record request_op" where
  "request_mark_completing now request_id generation =
     bindS (get_locked request_id generation) (\<lambda>r.
     if request_terminal r then retS r else request_transition now r SCompleting None)"

definition request_mark_side_effect_started :: "time \<Rightarrow> pyval \<Rightarrow> pyval \<Rightarrow> request_record request_op" where
  "request_mark_side_effect_started now request_id generation =
     bindS (get_locked request_id generation) (\<lambda>r.
     let r' = r\<lparr>lr_side_effect_started := True, lr_last_heartbeat := now\<rparr> in
     bindS (put_record r') (\<lambda>_.
     bindS (emit_event ''REQUEST_SIDE_EFFECT_STARTED'' (Some r') []) (\<lambda>_. retS r')))"

definition request_mark_retry :: "time \<Rightarrow> pyval \<Rightarrow> pyval \<Rightarrow> string \<Rightarrow> request_record request_op" where
  "request_mark_retry now request_id generation reason =
     bindS (get_locked request_id generation) (\<lambda>r.
     if request_terminal r then retS r
     else
       let r' = r\<lparr>lr_retry_count := Suc (lr_retry_count r), lr_last_heartbeat := now\<rparr> in
       bindS (put_record r') (\<lambda>_.
       bindS (emit_event ''REQUEST_RETRY_SCHEDULED'' (Some r') [(''reason'', PStr reason)]) (\<lambda>_. retS r')))"

definition set_event_sink ::
  "(nat \<Rightarrow> (string \<times> pyval) list \<Rightarrow> string option) option \<Rightarrow> unit request_op" where
  "set_event_sink sink = updS (\<lambda>g. g\<lparr>rg_event_sink := sink\<rparr>)"

definition request_attach_process :: "time \<Rightarrow> pyval \<Rightarrow> pyval \<Rightarrow> pyval \<Rightarrow> request_record request_op" where
  "request_attach_process now request_id process_session_id generation =
     checkS (case process_session_id of
         PStr s \<Rightarrow> if s = [] then Inl (RequestValueError ''process_session_id must be a non-empty string'') else Inr s
       | _ \<Rightarrow> Inl (RequestValueError ''process_session_id must be a non-empty string'')) (\<lambda>p.
     bindS (get_locked request_id generation) (\<lambda>r.
     let r' = r\<lparr>lr_process_session_id := Some p, lr_last_heartbeat := now\<rparr> in
     bindS (put_record r') (\<lambda>_. retS r')))"

definition request_finish ::
  "time \<Rightarrow> pyval \<Rightarrow> request_state \<Rightarrow> pyval \<Rightarrow> string option \<Rightarrow> request_record request_op" where
  "request_finish now request_id st generation reason =
     (if st \<notin> set terminal_states then failS (RequestValueError ''state must be terminal'')
      else bindS (get_locked request_id generation) (\<lambda>r. request_transition now r st reason))"

definition request_complete :: "time \<Rightarrow> pyval \<Rightarrow> pyval \<Rightarrow> request_record request_op" where
  "request_complete now request_id generation =
     request_finish now request_id SCompleted generation (Some ''completed'')"

definition request_fail :: "time \<Rightarrow> pyval \<Rightarrow> pyval \<Rightarrow> string \<Rightarrow> request_record request_op" where
  "request_fail now request_id generation reason =
     request_finish now request_id SFailed generation (Some reason)"

definition request_cancel :: "time \<Rightarrow> pyval \<Rightarrow> pyval \<Rightarrow> string \<Rightarrow> request_record request_op" where
  "request_cancel now request_id generation reason =
     request_finish now request_id SCancelled generation (Some reason)"

definition request_timeout :: "time \<Rightarrow> pyval \<Rightarrow> pyval \<Rightarrow> string \<Rightarrow> request_record request_op" where
  "request_timeout now request_id generation reason =
     request_finish now request_id STimedOut generation (Some reason)"

text \<open>Where a request ends that loses its transport.\<close>

definition lost_state :: "request_record \<Rightarrow> request_state" where
  "lost_state r = (if lr_side_effect_started r then SOutcomeUnknown else SDisconnected)"

definition request_disconnect :: "time \<Rightarrow> pyval \<Rightarrow> pyval \<Rightarrow> string \<Rightarrow> request_record request_op" where
  "request_disconnect now request_id generation reason =
     bindS (get_locked request_id generation) (\<lambda>r. request_transition now r (lost_state r) (Some reason))"

definition request_complete_key :: "time \<Rightarrow> request_key \<Rightarrow> request_record option request_op" where
  "request_complete_key now k = readS (\<lambda>g.
     if rk_child_instance_id k \<noteq> rg_child_instance_id g \<or> rk_transport_generation k \<noteq> rg_generation g
     then bindS (set_recovery_reason ''stale_transport_generation'') (\<lambda>_.
          bindS (emit_event ''STALE_RESPONSE_REJECTED'' None [(''request_id'', rk_request_id k)]) (\<lambda>_. retS None))
     else case kget lr_key k (rg_records g) of
         None \<Rightarrow> retS None
       | Some r \<Rightarrow> bindS (request_transition now r SCompleted (Some ''completed'')) (\<lambda>r'. retS (Some r')))"

fun retire_records :: "time \<Rightarrow> string \<Rightarrow> request_record list \<Rightarrow> nat request_op" where
  "retire_records now reason [] = retS 0"
| "retire_records now reason (r # rs) = readS (\<lambda>g.
     if rk_transport_generation (lr_key r) \<noteq> rg_generation g \<or> request_terminal r
     then retire_records now reason rs
     else bindS (request_transition now r (lost_state r) (Some reason)) (\<lambda>_.
          bindS (retire_records now reason rs) (\<lambda>n. retS (Suc n))))"

definition retire_generation :: "time \<Rightarrow> string \<Rightarrow> nat request_op" where
  "retire_generation now reason = readS (\<lambda>g.
     bindS (retire_records now reason (rg_records g)) (\<lambda>retired.
     bindS (updS (\<lambda>g. g\<lparr>rg_generation := rg_generation g + 1\<rparr>)) (\<lambda>_.
     bindS (set_recovery_reason reason) (\<lambda>_.
     bindS (emit_event ''TRANSPORT_GENERATION_REPLACED'' None [(''reason'', PStr reason)]) (\<lambda>_.
     bindS (prune_locked now) (\<lambda>_. retS retired))))))"

text \<open>\<open>None\<close> is a probe that raises: the process counts as alive.\<close>

definition process_alive :: "(string \<Rightarrow> bool option) \<Rightarrow> string \<Rightarrow> bool" where
  "process_alive probe p = (case probe p of None \<Rightarrow> True | Some b \<Rightarrow> b)"

text \<open>\<open>record.process_session_id and process_probe is not None\<close>: the probe and the process to ask for.\<close>

definition bound_process :: "(string \<Rightarrow> bool option) option \<Rightarrow> request_record \<Rightarrow> ((string \<Rightarrow> bool option) \<times> string) option" where
  "bound_process process_probe r =
     (case (process_probe, lr_process_session_id r) of
        (Some probe, Some p) \<Rightarrow> if p = [] then None else Some (probe, p)
      | _ \<Rightarrow> None)"

text \<open>One record of the reconciliation loop: whether it was reaped and whether it counts as active.\<close>

definition reconcile_record ::
  "time \<Rightarrow> (string \<Rightarrow> bool option) option \<Rightarrow> request_record \<Rightarrow> (nat \<times> nat) request_op" where
  "reconcile_record now process_probe r = readS (\<lambda>g.
     if request_terminal r then retS (0, 0)
     else if \<not> request_stale g now r then retS (0, 1)
     else case bound_process process_probe r of
         Some (probe, p) \<Rightarrow>
           if process_alive probe p then retS (0, 1)
           else
             bindS (request_transition now r (if lr_side_effect_started r then SOutcomeUnknown else STimedOut)
               (Some ''process_exited'')) (\<lambda>r'.
             bindS count_reconciled (\<lambda>_.
             bindS count_stale (\<lambda>_.
             bindS (emit_event ''PROCESS_BINDING_RECONCILED'' (Some r') [(''reason'', PStr ''process_exited'')]) (\<lambda>_.
             retS (1, 0)))))
       | None \<Rightarrow>
           bindS (reap_stale_read r now) (\<lambda>reaped.
           if reaped then retS (1, 0)
           else if lr_side_effect_started r
           then
             bindS (request_transition now r SOutcomeUnknown (Some ''stale_side_effect'')) (\<lambda>_.
             bindS count_reconciled (\<lambda>_.
             bindS count_stale (\<lambda>_. retS (1, 0))))
           else retS (0, 1)))"

fun reconcile_records ::
  "time \<Rightarrow> (string \<Rightarrow> bool option) option \<Rightarrow> request_record list \<Rightarrow> (nat \<times> nat) request_op" where
  "reconcile_records now process_probe [] = retS (0, 0)"
| "reconcile_records now process_probe (r # rs) =
     bindS (reconcile_record now process_probe r) (\<lambda>(reaped, active).
     bindS (reconcile_records now process_probe rs) (\<lambda>(more_reaped, more_active).
     retS (reaped + more_reaped, active + more_active)))"

definition request_reconcile ::
  "time \<Rightarrow> (string \<Rightarrow> bool option) option \<Rightarrow> (string \<times> nat) list request_op" where
  "request_reconcile now process_probe =
     bindS (updS (\<lambda>g. g\<lparr>rg_last_reconciliation_at := Some now\<rparr>)) (\<lambda>_.
     bindS (prune_locked now) (\<lambda>pruned.
     readS (\<lambda>g.
     bindS (reconcile_records now process_probe (rg_records g)) (\<lambda>(reaped, active).
     bindS (prune_locked now) (\<lambda>_.
     readS (\<lambda>g.
     retS [(''reconciled'', pruned + reaped), (''active'', active),
           (''terminal'', length (filter request_terminal (rg_records g)))]))))))"

definition active_records :: "request_registry \<Rightarrow> request_record list" where
  "active_records g = filter (\<lambda>r. \<not> request_terminal r) (rg_records g)"

definition process_sessions :: "request_record list \<Rightarrow> string list" where
  "process_sessions rs = remdups (concat (map (\<lambda>r. case lr_process_session_id r of
     None \<Rightarrow> [] | Some p \<Rightarrow> if p = [] then [] else [p]) rs))"

definition registry_snapshot :: "request_registry \<Rightarrow> (string \<times> pyval) list" where
  "registry_snapshot g =
     [(''child_instance_id'', PStr (rg_child_instance_id g)),
      (''transport_generation'', PInt (rg_generation g)),
      (''active_request_count'', PInt (int (length (active_records g)))),
      (''terminal_request_count'', PInt (int (length (filter request_terminal (rg_records g))))),
      (''stale_request_count'', PInt (int (rg_stale_request_count g))),
      (''active_process_sessions'', PInt (int (length (process_sessions (active_records g))))),
      (''reconciled_request_count'', PInt (int (rg_reconciled_count g))),
      (''last_reconciliation_at'', opt_time (rg_last_reconciliation_at g)),
      (''last_recovery_reason'', opt_str (rg_last_recovery_reason g)),
      (''restart_required'', PBool False),
      (''outcome_unknown_count'', PInt (int (rg_outcome_unknown_count g))),
      (''event_sink_error'', opt_str (rg_event_sink_error g)),
      (''events'', PList (map PDict (rg_events g)))]"

end
