(* ===== verification/RequestRegistry.thy ===== *)
theory RequestRegistry
  imports RequestLifecycle
begin

text \<open>
  Correctness of the request registry: how a record progresses through its lifecycle, what the
  steps of the registry leave untouched, the invariant of every reachable registry, and the
  outcome of admission, retirement and reconciliation.
\<close>

section \<open>How records progress\<close>

interpretation request_dict: keyed_store lr_key "kget lr_key" "kset lr_key" "kpop lr_key" set "kdistinct lr_key"
  by (rule keyed_list_store)

definition request_may_follow :: "request_state \<Rightarrow> request_state \<Rightarrow> bool" where
  "request_may_follow s t \<longleftrightarrow> t = s \<or> t \<in> set (request_successors s)"

interpretation request_life: lifecycle request_may_follow "\<lambda>s. s \<in> set terminal_states"
  by unfold_locales (auto simp: terminal_states_def request_may_follow_def)

definition request_progress :: "request_record \<Rightarrow> request_record \<Rightarrow> bool" where
  "request_progress r r' \<longleftrightarrow>
     lr_key r' = lr_key r \<and> lr_operation_key r' = lr_operation_key r \<and> lr_tool_name r' = lr_tool_name r \<and>
     lr_side_effect_class r' = lr_side_effect_class r \<and>
     request_may_follow\<^sup>*\<^sup>* (lr_state r) (lr_state r') \<and>
     (lr_side_effect_started r \<longrightarrow> lr_side_effect_started r') \<and>
     (request_terminal r \<longrightarrow> lr_terminal_reason r' = lr_terminal_reason r \<and> lr_terminal_at r' = lr_terminal_at r)"

lemma request_progress_refl [simp]: "request_progress r r"
  by (simp add: request_progress_def)

lemma request_progress_terminal: "request_progress r r' \<Longrightarrow> request_terminal r \<Longrightarrow> lr_state r' = lr_state r"
  by (auto simp: request_progress_def request_terminal_def dest: request_life.terminal_stays)

lemma request_progress_trans: "request_progress r r' \<Longrightarrow> request_progress r' r'' \<Longrightarrow> request_progress r r''"
  using request_progress_terminal [of r r']
  by (auto simp: request_progress_def request_terminal_def)

lemma request_progress_live: "request_progress r r' \<Longrightarrow> \<not> request_terminal r' \<Longrightarrow> \<not> request_terminal r"
  using request_progress_terminal by (auto simp: request_terminal_def)

lemma request_may_follow_new: "request_may_follow\<^sup>*\<^sup>* s t \<Longrightarrow> s \<noteq> SNew \<Longrightarrow> t \<noteq> SNew"
proof (induction rule: rtranclp_induct)
  case (step t u)
  then show ?case by (cases t) (auto simp: request_may_follow_def)
qed

abbreviation lookup :: "request_registry \<Rightarrow> request_key \<Rightarrow> request_record option" where
  "lookup g k \<equiv> kget lr_key k (rg_records g)"

definition same_setup :: "request_registry \<Rightarrow> request_registry \<Rightarrow> bool" where
  "same_setup g h \<longleftrightarrow>
     rg_child_instance_id h = rg_child_instance_id g \<and> rg_max_entries h = rg_max_entries g \<and>
     rg_heartbeat_timeout_seconds h = rg_heartbeat_timeout_seconds g \<and>
     rg_terminal_ttl_seconds h = rg_terminal_ttl_seconds g \<and> rg_max_events h = rg_max_events g \<and>
     (length (rg_events g) \<le> rg_max_events g \<longrightarrow> length (rg_events h) \<le> rg_max_events h) \<and>
     (kdistinct lr_key (rg_records g) \<longrightarrow> kdistinct lr_key (rg_records h))"

text \<open>
  What every call but the admission of a request does to the registry: each record it leaves
  is a record it found, further along its lifecycle.
\<close>

definition settles :: "request_registry \<Rightarrow> request_registry \<Rightarrow> bool" where
  "settles g h \<longleftrightarrow> same_setup g h \<and> rg_generation h = rg_generation g \<and>
     (\<forall>k r'. lookup h k = Some r' \<longrightarrow> (\<exists>r. lookup g k = Some r \<and> request_progress r r'))"

text \<open>A live request that has not gone stale is left exactly as it is.\<close>

definition guards :: "time \<Rightarrow> request_registry \<Rightarrow> request_registry \<Rightarrow> bool" where
  "guards now g h \<longleftrightarrow> (\<forall>k r. lookup g k = Some r \<longrightarrow> \<not> request_terminal r \<longrightarrow>
     \<not> request_stale g now r \<longrightarrow> lookup h k = Some r)"

lemma same_setup_trans: "same_setup g h \<Longrightarrow> same_setup h i \<Longrightarrow> same_setup g i"
  by (auto simp: same_setup_def)

lemma settles_refl [simp]: "settles g g"
  by (auto simp: settles_def same_setup_def)

lemma settles_trans: assumes "settles g h" "settles h i" shows "settles g i"
proof -
  have "\<exists>r. lookup g k = Some r \<and> request_progress r r'" if "lookup i k = Some r'" for k r'
    using assms that unfolding settles_def by (meson request_progress_trans)
  then show ?thesis using assms same_setup_trans by (auto simp: settles_def)
qed

lemma guards_refl [simp]: "guards now g g"
  by (simp add: guards_def)

lemma guards_trans: "guards now g h \<Longrightarrow> guards now h i \<Longrightarrow> same_setup g h \<Longrightarrow> guards now g i"
  by (simp add: guards_def same_setup_def request_stale_def)

lemma settles_setup: "settles g h \<Longrightarrow> same_setup g h"
  by (simp add: settles_def)

text \<open>Both together, for the parts of an admission.\<close>

definition quiet_step :: "time \<Rightarrow> request_registry \<Rightarrow> request_registry \<Rightarrow> bool" where
  "quiet_step now g h \<longleftrightarrow> settles g h \<and> guards now g h"

lemma quiet_step_refl [simp]: "quiet_step now g g"
  by (simp add: quiet_step_def)

lemma quiet_step_trans: "quiet_step now g h \<Longrightarrow> quiet_step now h i \<Longrightarrow> quiet_step now g i"
  unfolding quiet_step_def by (blast intro: settles_trans guards_trans dest: settles_setup)

text \<open>Nothing but terminal records is taken out.\<close>

definition pruned :: "request_registry \<Rightarrow> request_registry \<Rightarrow> bool" where
  "pruned g h \<longleftrightarrow> same_setup g h \<and> rg_generation h = rg_generation g \<and>
     (\<forall>k. lookup h k = lookup g k \<or> lookup h k = None \<and> (\<exists>r. lookup g k = Some r \<and> request_terminal r))"

lemma pruned_refl [simp]: "pruned g g"
  by (simp add: pruned_def same_setup_def)

lemma pruned_trans: assumes "pruned g h" "pruned h i" shows "pruned g i"
proof -
  have "lookup i k = lookup g k \<or> lookup i k = None \<and> (\<exists>r. lookup g k = Some r \<and> request_terminal r)" for k
    using assms unfolding pruned_def by metis
  then show ?thesis using assms same_setup_trans by (auto simp: pruned_def)
qed

lemma pruned_kept: "pruned g h \<Longrightarrow> lookup h k = Some r \<Longrightarrow> lookup g k = Some r"
  unfolding pruned_def by (metis option.distinct(1))

lemma pruned_live: "pruned g h \<Longrightarrow> lookup g k = Some r \<Longrightarrow> \<not> request_terminal r \<Longrightarrow> lookup h k = Some r"
  unfolding pruned_def by (metis option.inject)

lemma pruned_setup: "pruned g h \<Longrightarrow> same_setup g h \<and> rg_generation h = rg_generation g"
  by (simp add: pruned_def)

lemma pruned_quiet: "pruned g h \<Longrightarrow> quiet_step now g h"
  unfolding quiet_step_def settles_def guards_def
  by (blast intro: request_progress_refl pruned_live dest: pruned_kept pruned_setup)

lemma pruned_settles: "pruned g h \<Longrightarrow> settles g h"
  using pruned_quiet by (simp add: quiet_step_def)

lemma pruned_meta:
  assumes "rg_records h = rg_records g" "rg_generation h = rg_generation g"
    "rg_child_instance_id h = rg_child_instance_id g" "rg_max_entries h = rg_max_entries g"
    "rg_heartbeat_timeout_seconds h = rg_heartbeat_timeout_seconds g"
    "rg_terminal_ttl_seconds h = rg_terminal_ttl_seconds g" "rg_max_events h = rg_max_events g"
    "length (rg_events g) \<le> rg_max_events g \<longrightarrow> length (rg_events h) \<le> rg_max_events g"
  shows "pruned g h"
  using assms by (simp add: pruned_def same_setup_def)

lemma pruned_pop:
  assumes "lookup g k = Some r" "request_terminal r"
  shows "pruned g (g\<lparr>rg_records := kpop lr_key k (rg_records g)\<rparr>)"
  using assms by (simp add: pruned_def same_setup_def store_simps kdistinct_kpop)

lemma settles_put:
  assumes "lookup g (lr_key r') = Some r" "request_progress r r'"
    "h = g\<lparr>rg_records := kset lr_key r' (rg_records g)\<rparr>"
  shows "settles g h"
proof -
  have "\<exists>u. lookup g k = Some u \<and> request_progress u v" if "lookup h k = Some v" for k v
    using that assms by (cases "k = lr_key r'") (auto simp: store_simps)
  then show ?thesis using assms(3) by (simp add: settles_def same_setup_def kdistinct_kset)
qed

lemma guards_put:
  assumes "lookup g (lr_key r') = Some r" "request_terminal r \<or> request_stale g now r"
  shows "guards now g (g\<lparr>rg_records := kset lr_key r' (rg_records g)\<rparr>)"
  using assms by (auto simp: guards_def store_simps)

section \<open>Steps of the registry\<close>

lemma ends_emit:
  assumes "\<And>h. rg_records h = rg_records g \<Longrightarrow> pruned g h \<Longrightarrow> Q (Inr ()) h"
  shows "ends (emit_event event r details) Q g"
  unfolding emit_event_def ends_updS Let_def by (rule assms) (auto intro!: pruned_meta)

lemma ends_make_request_key:
  assumes "\<And>e. Q (Inl e) g" and "\<And>k. Q (Inr k) g"
  shows "ends (make_request_key request_id generation) Q g"
  using assms by (simp add: make_request_key_def ends_simps split: sum.split)

lemma ends_get_locked:
  assumes "\<And>e. Q (Inl e) g" and "\<And>r. lookup g (lr_key r) = Some r \<Longrightarrow> Q (Inr r) g"
  shows "ends (get_locked request_id generation) Q g"
  unfolding get_locked_def ends_bindS
proof (rule ends_make_request_key)
  fix k
  have "ends (readS (\<lambda>g. case lookup g k of
      None \<Rightarrow> failS (RequestKeyError request_id) | Some r \<Rightarrow> retS r)) Q g"
  proof (cases "lookup g k")
    case (Some r)
    then have "lr_key r = k" by (rule kget_SomeD [THEN conjunct2])
    with Some assms(2) [of r] show ?thesis by (simp add: ends_simps)
  qed (simp add: ends_simps assms(1))
  then show "case Inr k of Inl e \<Rightarrow> Q (Inl e) g | Inr k \<Rightarrow> ends (readS (\<lambda>g. case lookup g k of
      None \<Rightarrow> failS (RequestKeyError request_id) | Some r \<Rightarrow> retS r)) Q g" by simp
qed (simp add: assms(1))

lemma ends_count_reconciled:
  assumes "\<And>h. rg_records h = rg_records g \<Longrightarrow> pruned g h \<Longrightarrow> Q (Inr ()) h"
  shows "ends count_reconciled Q g"
  unfolding count_reconciled_def ends_updS by (rule assms) (auto intro: pruned_meta)

lemma ends_count_stale:
  assumes "\<And>h. rg_records h = rg_records g \<Longrightarrow> pruned g h \<Longrightarrow> Q (Inr ()) h"
  shows "ends count_stale Q g"
  unfolding count_stale_def ends_updS by (rule assms) (auto intro: pruned_meta)

lemma ends_set_recovery_reason:
  assumes "\<And>h. rg_records h = rg_records g \<Longrightarrow> pruned g h \<Longrightarrow> Q (Inr ()) h"
  shows "ends (set_recovery_reason reason) Q g"
  unfolding set_recovery_reason_def ends_updS by (rule assms) (auto intro: pruned_meta)

lemma ends_bindI:
  assumes "ends m (\<lambda>r h. case r of Inl e \<Rightarrow> Q (Inl e) h | Inr x \<Rightarrow> ends (f x) Q h) g"
  shows "ends (bindS m f) Q g"
  using assms by (simp add: ends_bindS)

lemma terminal_successors: "request_terminal r \<Longrightarrow> request_successors (lr_state r) = []"
  by (auto simp: request_terminal_def terminal_states_def)

lemma ends_transition:
  assumes "lookup g (lr_key r) = Some r"
    and refused: "\<And>e. st \<notin> set (request_successors (lr_state r)) \<Longrightarrow>
      \<not> (request_terminal r \<and> st \<in> set terminal_states) \<Longrightarrow> Q (Inl e) g"
    and ended: "request_terminal r \<Longrightarrow> Q (Inr r) g"
    and moved: "\<And>r' h. \<not> request_terminal r \<Longrightarrow> request_progress r r' \<Longrightarrow> lr_state r' = st \<Longrightarrow>
      lr_last_heartbeat r' = now \<Longrightarrow> lr_side_effect_started r' = lr_side_effect_started r \<Longrightarrow>
      lookup h (lr_key r) = Some r' \<Longrightarrow> (\<And>k. k \<noteq> lr_key r \<Longrightarrow> lookup h k = lookup g k) \<Longrightarrow> settles g h \<Longrightarrow>
      Q (Inr r') h"
  shows "ends (request_transition now r st reason) Q g"
proof (cases "request_terminal r \<or> st \<notin> set (request_successors (lr_state r))")
  case True
  then show ?thesis
    using refused ended terminal_successors [of r] by (auto simp: request_transition_def ends_simps)
next
  case False
  then have live: "\<not> request_terminal r" and allowed: "st \<in> set (request_successors (lr_state r))" by auto
  then have follow: "request_may_follow\<^sup>*\<^sup>* (lr_state r) st"
    by (intro r_into_rtranclp) (simp add: request_may_follow_def)
  show ?thesis
  proof (cases "st \<in> set terminal_states")
    case True
    let ?r = "ended_record now st reason r"
    have r': "lr_key ?r = lr_key r" "request_progress r ?r" "lr_state ?r = st" "lr_last_heartbeat ?r = now"
      "lr_side_effect_started ?r = lr_side_effect_started r"
      using follow live by (simp_all add: ended_record_def request_progress_def)
    let ?g = "g\<lparr>rg_records := kset lr_key ?r (rg_records g)\<rparr>"
    have put: "settles g ?g" using assms(1) r' by (intro settles_put) simp_all
    have "Q (Inr ?r) h" if "rg_records h = rg_records ?g" "settles ?g h" for h
      using that r' live put by (intro moved) (auto simp: store_simps intro: settles_trans)
    then have emit: "ends (emit_event event (Some ?r) details)
        (\<lambda>x h. case x of Inl e \<Rightarrow> Q (Inl e) h | Inr _ \<Rightarrow> ends (retS ?r) Q h) i"
      if "rg_records i = rg_records ?g" "settles ?g i" for event details i
      using that by (intro ends_emit) (simp add: ends_retS settles_trans [OF _ pruned_settles])
    have count: "settles i (i\<lparr>rg_outcome_unknown_count := n\<rparr>)" for i :: request_registry and n
      by (rule pruned_settles [OF pruned_meta]) simp_all
    have "ends (emit_event event (Some ?r) details)
        (\<lambda>x h. case x of Inl e \<Rightarrow> Q (Inl e) h | Inr _ \<Rightarrow> ends (retS ?r) Q h)
        (if st = SOutcomeUnknown then ?g\<lparr>rg_outcome_unknown_count := Suc (rg_outcome_unknown_count ?g)\<rparr> else ?g)"
      for event details
      by (rule emit) (simp_all add: count)
    with live allowed True show ?thesis
      by (simp only: request_transition_def Let_def put_record_def ends_bindS ends_updS sum.case
          if_True if_False simp_thms)
  next
    case False
    define r' where "r' = r\<lparr>lr_state := st, lr_last_heartbeat := now\<rparr>"
    have r': "lr_key r' = lr_key r" "request_progress r r'" "lr_state r' = st" "lr_last_heartbeat r' = now"
      "lr_side_effect_started r' = lr_side_effect_started r"
      using follow live by (simp_all add: r'_def request_progress_def)
    let ?g = "g\<lparr>rg_records := kset lr_key r' (rg_records g)\<rparr>"
    have "settles g ?g" using assms(1) r' by (intro settles_put) simp_all
    then have "Q (Inr r') ?g"
      using r' live by (intro moved) (auto simp: store_simps)
    then show ?thesis
      using live allowed False
      by (simp add: request_transition_def Let_def put_record_def r'_def [symmetric] ends_simps)
  qed
qed

lemma ends_evict:
  assumes "lookup g (lr_key r) = Some r" "request_terminal r"
    and "\<And>h. pruned g h \<Longrightarrow> rg_records h = kpop lr_key (lr_key r) (rg_records g) \<Longrightarrow> Q (Inr ()) h"
  shows "ends (evict_record reason r) Q g"
  unfolding evict_record_def
proof (intro ends_bindI, unfold ends_updS sum.case, intro ends_bindI ends_count_reconciled, unfold sum.case,
    intro ends_emit)
  fix h i
  let ?g = "g\<lparr>rg_records := kpop lr_key (lr_key r) (rg_records g)\<rparr>"
  assume "rg_records h = rg_records ?g" "pruned ?g h" "rg_records i = rg_records h" "pruned h i"
  with pruned_pop [OF assms(1,2)] show "Q (Inr ()) i"
    by (intro assms(3)) (auto intro: pruned_trans)
qed

lemma ends_prune_expired:
  "\<forall>r\<in>set rs. lookup g (lr_key r) = Some r \<Longrightarrow> distinct (map lr_key rs) \<Longrightarrow>
     ends (prune_expired now rs) (\<lambda>res h. isOk res \<and> pruned g h) g"
proof (induction rs arbitrary: g)
  case (Cons r rs)
  let ?Q = "\<lambda>res h. isOk res \<and> pruned g h"
  show ?case
  proof (cases "request_terminal r \<and> rg_terminal_ttl_seconds g \<le> now - lr_last_heartbeat r")
    case True
    have "ends (bindS (prune_expired now rs) (\<lambda>n. retS (Suc n))) ?Q h"
      if "pruned g h" "rg_records h = kpop lr_key (lr_key r) (rg_records g)" for h
    proof (rule ends_bindI, rule ends_mono, rule Cons.IH)
      show "\<forall>v\<in>set rs. lookup h (lr_key v) = Some v"
      proof
        fix v assume v: "v \<in> set rs"
        with Cons.prems(2) have "lr_key v \<noteq> lr_key r" by (auto simp: image_iff)
        moreover have "lookup g (lr_key v) = Some v" using Cons.prems(1) v by simp
        ultimately show "lookup h (lr_key v) = Some v" unfolding that(2) kget_kpop by simp
      qed
      show "distinct (map lr_key rs)" using Cons.prems by simp
      show "case res of Inl e \<Rightarrow> ?Q (Inl e) i | Inr n \<Rightarrow> ends (retS (Suc n)) ?Q i"
        if "isOk res \<and> pruned h i" for res :: "lifecycle_error + nat" and i
        using that \<open>pruned g h\<close> by (cases res) (auto simp: ends_simps intro: pruned_trans)
    qed
    then have "ends (bindS (evict_record ''terminal_ttl'' r)
        (\<lambda>_. bindS (prune_expired now rs) (\<lambda>n. retS (Suc n)))) ?Q g"
      using Cons.prems True by (intro ends_bindI ends_evict) simp_all
    with True show ?thesis by (simp add: ends_readS)
  next
    case False
    have "ends (prune_expired now rs) ?Q g" using Cons.prems by (intro Cons.IH) simp_all
    with False show ?thesis by (simp only: prune_expired.simps ends_readS if_False)
  qed
qed (simp add: ends_simps)

lemma capacity_pruned:
  assumes "kdistinct lr_key (rg_records g)"
  shows "pruned g (snd (prune_capacity g)) \<and>
    (length (rg_records (snd (prune_capacity g))) \<le> rg_max_entries g \<or>
     (\<forall>r\<in>set (rg_records (snd (prune_capacity g))). \<not> request_terminal r))"
  using assms
proof (induction g rule: prune_capacity.induct)
  case (1 g)
  show ?case
  proof (cases "rg_max_entries g < length (rg_records g)")
    case True
    show ?thesis
    proof (cases "find request_terminal (rg_records g)")
      case None
      then have "\<forall>r\<in>set (rg_records g). \<not> request_terminal r" by (simp add: find_None_iff)
      with None True show ?thesis by (simp add: prune_capacity.simps [of g])
    next
      case (Some r)
      let ?h = "snd (evict_record ''capacity'' r g)"
      have "r \<in> set (rg_records g)" "request_terminal r" using Some by (auto simp: find_Some_iff)
      moreover from this 1(2) have "lookup g (lr_key r) = Some r" by (simp add: kget_Some_iff)
      ultimately have "ends (evict_record ''capacity'' r) (\<lambda>_ h. pruned g h) g"
        by (intro ends_evict) simp_all
      then have h: "pruned g ?h" by (simp add: ends_iff)
      then have "kdistinct lr_key (rg_records ?h)" "rg_max_entries ?h = rg_max_entries g"
        using 1(2) by (auto simp: pruned_def same_setup_def)
      with 1(1) [OF True Some] h True Some show ?thesis
        by (auto simp: prune_capacity.simps [of g] split: prod.split intro: pruned_trans)
    qed
  qed (simp add: prune_capacity.simps [of g])
qed

definition within_capacity :: "request_registry \<Rightarrow> bool" where
  "within_capacity g \<longleftrightarrow> length (rg_records g) \<le> rg_max_entries g \<or> (\<forall>r\<in>set (rg_records g). \<not> request_terminal r)"

lemma ends_prune_locked:
  assumes "kdistinct lr_key (rg_records g)"
    and "\<And>n h. pruned g h \<Longrightarrow> within_capacity h \<Longrightarrow> Q (Inr n) h"
  shows "ends (prune_locked now) Q g"
proof -
  have "ends (prune_expired now (rg_records g)) (\<lambda>res h. isOk res \<and> pruned g h) g"
    using assms(1) by (intro ends_prune_expired) (auto simp: kget_Some_iff kdistinct_def)
  then show ?thesis
    unfolding prune_locked_def ends_readS
  proof (intro ends_bindI, elim ends_mono)
    fix res :: "lifecycle_error + nat" and h
    assume ok: "isOk res \<and> pruned g h"
    obtain n i where i: "prune_capacity h = (n, i)" by fastforce
    have "kdistinct lr_key (rg_records h)"
      using ok assms(1) by (simp add: pruned_def same_setup_def)
    from capacity_pruned [OF this] i have "pruned h i" "within_capacity i"
      by (auto simp: within_capacity_def pruned_def same_setup_def)
    with ok have "Q (Inr m) i" for m by (intro assms(2)) (auto intro: pruned_trans)
    with ok i show "case res of Inl e \<Rightarrow> Q (Inl e) h
      | Inr expired \<Rightarrow> ends (bindS (\<lambda>h. case prune_capacity h of (n, h') \<Rightarrow> (Inr n, h'))
          (\<lambda>evicted. retS (expired + evicted))) Q h"
      by (cases res) (auto simp: ends_def bindS_def retS_def)
  qed
qed

lemma guards_except:
  "(\<And>k. k \<noteq> j \<Longrightarrow> lookup h k = lookup g k) \<Longrightarrow>
    (\<And>r. lookup g j = Some r \<Longrightarrow> request_terminal r \<or> request_stale g now r) \<Longrightarrow> guards now g h"
  unfolding guards_def by metis

lemma ends_reap:
  assumes "lookup g (lr_key r) = Some r"
    and idle: "\<not> (request_stale g now r \<and> lr_side_effect_class r = ReadOnly \<and> \<not> lr_side_effect_started r \<and>
      lr_process_session_id r = None) \<Longrightarrow> Q (Inr False) g"
    and refused: "\<And>e. lr_state r = SNew \<Longrightarrow> Q (Inl e) g"
    and reaped: "\<And>r' h. request_stale g now r \<Longrightarrow> quiet_step now g h \<Longrightarrow> request_progress r r' \<Longrightarrow>
      request_terminal r' \<Longrightarrow> lookup h (lr_key r) = Some r' \<Longrightarrow>
      (\<And>k. k \<noteq> lr_key r \<Longrightarrow> lookup h k = lookup g k) \<Longrightarrow>
      lr_side_effect_class r = ReadOnly \<and> \<not> lr_side_effect_started r \<and> lr_process_session_id r = None \<Longrightarrow>
      (\<not> request_terminal r \<Longrightarrow> lr_state r' = SDisconnected) \<Longrightarrow> Q (Inr True) h"
  shows "ends (reap_stale_read r now) Q g"
proof (cases "request_stale g now r \<and> lr_side_effect_class r = ReadOnly \<and> \<not> lr_side_effect_started r \<and>
      lr_process_session_id r = None")
  case False
  then show ?thesis using idle [OF False] by (auto simp: reap_stale_read_def ends_readS ends_retS)
next
  case True
  let ?rest = "\<lambda>r'. bindS count_reconciled (\<lambda>_. bindS count_stale (\<lambda>_.
     bindS (set_recovery_reason ''stale_read_only_request'') (\<lambda>_.
     bindS (emit_event ''REQUEST_REAPED_STALE'' (Some r') [(''reason'', PStr ''stale_read_only_request'')]) (\<lambda>_.
     retS True))))"
  have rest: "ends (?rest r') Q h"
    if "\<And>i. rg_records i = rg_records h \<Longrightarrow> pruned h i \<Longrightarrow> Q (Inr True) i" for r' h
    by (intro ends_bindI ends_count_reconciled ends_count_stale ends_set_recovery_reason ends_emit,
        unfold sum.case, intro ends_bindI ends_count_reconciled ends_count_stale ends_set_recovery_reason ends_emit,
        unfold sum.case, intro ends_bindI ends_count_reconciled ends_count_stale ends_set_recovery_reason ends_emit,
        unfold sum.case, intro ends_bindI ends_count_reconciled ends_count_stale ends_set_recovery_reason ends_emit,
        unfold sum.case ends_retS, intro that) (auto intro: pruned_trans)
  have fin: "Q (Inr True) i"
    if "quiet_step now g h" "request_progress r r'" "request_terminal r'" "lookup h (lr_key r) = Some r'"
      "\<And>k. k \<noteq> lr_key r \<Longrightarrow> lookup h k = lookup g k" "rg_records i = rg_records h" "pruned h i"
      "\<not> request_terminal r \<Longrightarrow> lr_state r' = SDisconnected" for h i r'
    using that True by (intro reaped) (auto intro: quiet_step_trans pruned_quiet)
  have "ends (request_transition now r SDisconnected (Some ''stale_read_only_request''))
      (\<lambda>x h. case x of Inl e \<Rightarrow> Q (Inl e) h | Inr r' \<Rightarrow> ends (?rest r') Q h) g"
  proof (rule ends_transition [OF assms(1)])
    show "case Inl e of Inl e \<Rightarrow> Q (Inl e) g | Inr r' \<Rightarrow> ends (?rest r') Q g"
      if "SDisconnected \<notin> set (request_successors (lr_state r))"
        "\<not> (request_terminal r \<and> SDisconnected \<in> set terminal_states)" for e
      using that refused by (cases "lr_state r") (auto simp: request_terminal_def terminal_states_def)
    show "case Inr r of Inl e \<Rightarrow> Q (Inl e) g | Inr r' \<Rightarrow> ends (?rest r') Q g" if "request_terminal r"
      using that assms(1) by (auto intro!: rest fin [of g r])
  next
    fix r' h
    assume "request_progress r r'" and "lr_state r' = SDisconnected" and "lookup h (lr_key r) = Some r'"
      and other: "\<And>k. k \<noteq> lr_key r \<Longrightarrow> lookup h k = lookup g k" and "settles g h"
    moreover from this have "request_terminal r'" by (simp add: request_terminal_def terminal_states_def)
    moreover have "guards now g h" using other True assms(1) by (intro guards_except [of "lr_key r"]) auto
    ultimately show "case Inr r' of Inl e \<Rightarrow> Q (Inl e) h | Inr r' \<Rightarrow> ends (?rest r') Q h"
      by (auto intro!: rest fin [of h r'] simp: quiet_step_def)
  qed
  with True show ?thesis by (simp add: reap_stale_read_def ends_readS ends_bindS [of "request_transition _ _ _ _"])
qed

lemma ends_release:
  assumes "lookup g (lr_key r) = Some r"
    and "\<And>e h. quiet_step now g h \<Longrightarrow> Q (Inl e) h"
    and "\<And>r' h. quiet_step now g h \<Longrightarrow> lookup h (lr_key r) = Some r' \<Longrightarrow> request_terminal r' \<Longrightarrow> Q (Inr ()) h"
  shows "ends (release_id now tool_name side_effect r) Q g"
  unfolding release_id_def
proof (intro ends_bindI ends_reap [OF assms(1)], unfold sum.case)
  show "Q (Inl e) g" for e by (intro assms(2) quiet_step_refl)
next
  have "ends (emit_event event (Some r) details) Q g" if "request_terminal r" for event details
    using assms(1) that by (intro ends_emit assms(3) pruned_quiet) auto
  then show "ends (if False then retS ()
     else if request_terminal r \<and>
       (lr_state r = SCompleted \<or>
        lr_side_effect_class r = ReadOnly \<and> side_effect = ReadOnly \<and> \<not> lr_side_effect_started r)
     then emit_event ''REQUEST_REUSED_TERMINAL_ID'' (Some r)
       [(''reason'', PStr ''completed_or_safe_read_only_id_reuse'')]
     else if request_terminal r \<and> lr_tool_name r \<noteq> tool_name then retS ()
     else failS (RequestConflict
       (if request_terminal r then ''request_id_reuse'' else ''request_already_active'') r)) Q g"
    using assms(1) assms(3) [OF quiet_step_refl assms(1)] assms(2) [OF quiet_step_refl]
    by (auto simp: ends_retS ends_failS)
next
  fix r' h
  assume "quiet_step now g h" "request_terminal r'" "lookup h (lr_key r) = Some r'"
  then show "ends (if True then retS () else t) Q h" for t
    using assms(3) by (simp add: ends_retS)
qed

lemma settles_terminal:
  "settles g h \<Longrightarrow> \<forall>v. lookup g k = Some v \<longrightarrow> request_terminal v \<Longrightarrow> lookup h k = Some w \<Longrightarrow> request_terminal w"
  unfolding settles_def by (metis request_progress_live)

lemma quiet_terminal:
  "quiet_step now g h \<Longrightarrow> \<forall>v. lookup g k = Some v \<longrightarrow> request_terminal v \<Longrightarrow> lookup h k = Some w \<Longrightarrow>
     request_terminal w"
  by (auto simp: quiet_step_def dest: settles_terminal)

definition claims :: "request_registry \<Rightarrow> string \<Rightarrow> request_record \<Rightarrow> bool" where
  "claims g operation_key r \<longleftrightarrow>
     rk_transport_generation (lr_key r) = rg_generation g \<and> lr_operation_key r = Some operation_key"

lemma ends_claim:
  assumes "\<forall>r\<in>set rs. lookup g (lr_key r) = Some r" "distinct (map lr_key rs)"
  shows "ends (claim_operation now operation_key rs) (\<lambda>res h. quiet_step now g h \<and>
     (isOk res \<longrightarrow> (\<forall>r\<in>set rs. claims g operation_key r \<longrightarrow>
        (\<forall>v. lookup h (lr_key r) = Some v \<longrightarrow> request_terminal v)))) g"
  using assms
proof (induction rs arbitrary: g)
  case (Cons r rs)
  have here: "lookup g (lr_key r) = Some r" using Cons.prems by simp
  let ?Q = "\<lambda>(res :: lifecycle_error + unit) h. quiet_step now g h \<and> (isOk res \<longrightarrow>
     (\<forall>r\<in>set (r # rs). claims g operation_key r \<longrightarrow>
        (\<forall>v. lookup h (lr_key r) = Some v \<longrightarrow> request_terminal v)))"
  have rest: "ends (claim_operation now operation_key rs) ?Q i"
    if "quiet_step now g i" "\<And>k. k \<noteq> lr_key r \<Longrightarrow> lookup i k = lookup g k"
      "claims g operation_key r \<longrightarrow> (\<forall>v. lookup i (lr_key r) = Some v \<longrightarrow> request_terminal v)" for i
  proof (rule ends_mono, rule Cons.IH)
    have "lookup i (lr_key v) = Some v" if v: "v \<in> set rs" for v
    proof -
      have "lr_key v \<noteq> lr_key r" using Cons.prems(2) v by (auto simp: image_iff)
      with \<open>\<And>k. k \<noteq> lr_key r \<Longrightarrow> lookup i k = lookup g k\<close> Cons.prems(1) v show ?thesis by simp
    qed
    then show "\<forall>v\<in>set rs. lookup i (lr_key v) = Some v" by blast
    show "distinct (map lr_key rs)" using Cons.prems(2) by simp
    have "claims i = claims g"
      using that(1) by (intro ext) (simp add: claims_def quiet_step_def settles_def)
    then show "?Q res h" if "quiet_step now i h \<and> (isOk res \<longrightarrow> (\<forall>r\<in>set rs. claims i operation_key r \<longrightarrow>
        (\<forall>v. lookup h (lr_key r) = Some v \<longrightarrow> request_terminal v)))" for res h
      using that \<open>quiet_step now g i\<close> \<open>claims g operation_key r \<longrightarrow> _\<close>
      by (auto intro: quiet_step_trans dest: quiet_terminal)
  qed
  show ?case
  proof (cases "\<not> claims g operation_key r \<or> request_terminal r")
    case True
    with rest [of g] here show ?thesis by (auto simp: ends_readS claims_def)
  next
    case False
    then have go: "\<not> (rk_transport_generation (lr_key r) \<noteq> rg_generation g \<or>
      lr_operation_key r \<noteq> Some operation_key \<or> request_terminal r)" by (simp add: claims_def)
    have "ends (bindS (reap_stale_read r now) (\<lambda>reaped. if reaped then claim_operation now operation_key rs
       else failS (RequestConflict ''operation_already_started'' r))) ?Q g"
    proof (intro ends_bindI ends_reap [OF here], unfold sum.case if_True if_False)
      fix r' h assume "quiet_step now g h" "request_terminal r'" "lookup h (lr_key r) = Some r'"
        "\<And>k. k \<noteq> lr_key r \<Longrightarrow> lookup h k = lookup g k"
      then show "ends (claim_operation now operation_key rs) ?Q h" by (intro rest) auto
    qed (simp_all add: ends_failS)
    then show ?thesis unfolding claim_operation.simps ends_readS if_not_P [OF go] .
  qed
qed (simp add: ends_retS)

section \<open>The invariant of the registry\<close>

definition slot_holder :: "request_registry \<Rightarrow> string \<Rightarrow> request_record \<Rightarrow> bool" where
  "slot_holder g operation_key r \<longleftrightarrow> \<not> request_terminal r \<and> lr_operation_key r = Some operation_key \<and>
     lookup g (lr_key r) = Some r"

definition registry_inv :: "request_registry \<Rightarrow> bool" where
  "registry_inv g \<longleftrightarrow> kdistinct lr_key (rg_records g) \<and> length (rg_events g) \<le> rg_max_events g \<and>
     (\<forall>k r. lookup g k = Some r \<longrightarrow> lr_state r \<noteq> SNew \<and> rk_transport_generation k \<le> rg_generation g \<and>
        (\<not> request_terminal r \<longrightarrow> rk_transport_generation k = rg_generation g)) \<and>
     (\<forall>operation_key r r'. operation_key \<noteq> [] \<longrightarrow> slot_holder g operation_key r \<longrightarrow>
        slot_holder g operation_key r' \<longrightarrow> r = r')"

lemma registry_inv_distinct: "registry_inv g \<Longrightarrow> kdistinct lr_key (rg_records g)"
  by (simp add: registry_inv_def)

lemma registry_inv_state: "registry_inv g \<Longrightarrow> lookup g k = Some r \<Longrightarrow> lr_state r \<noteq> SNew"
  unfolding registry_inv_def by blast

lemma registry_inv_current:
  "registry_inv g \<Longrightarrow> lookup g k = Some r \<Longrightarrow> \<not> request_terminal r \<Longrightarrow> rk_transport_generation k = rg_generation g"
  unfolding registry_inv_def by blast

lemma registry_inv_lookup: "registry_inv g \<Longrightarrow> r \<in> set (rg_records g) \<longleftrightarrow> lookup g (lr_key r) = Some r"
  using kget_Some_iff [OF registry_inv_distinct] by blast

lemma lookup_key: "lookup g k = Some r \<Longrightarrow> lr_key r = k"
  by (rule kget_SomeD [THEN conjunct2])

lemma settles_inv:
  assumes "settles g h" "registry_inv g" shows "registry_inv h"
proof -
  have came: "\<exists>r. lookup g k = Some r \<and> request_progress r r'" if "lookup h k = Some r'" for k r'
    using assms(1) that by (simp add: settles_def)
  have state: "lr_state r' \<noteq> SNew \<and> rk_transport_generation k \<le> rg_generation h \<and>
      (\<not> request_terminal r' \<longrightarrow> rk_transport_generation k = rg_generation h)"
    if r': "lookup h k = Some r'" for k r'
  proof -
    obtain r where r: "lookup g k = Some r" "request_progress r r'" using came [OF r'] by blast
    then have "lr_state r \<noteq> SNew \<and> rk_transport_generation k \<le> rg_generation g \<and>
      (\<not> request_terminal r \<longrightarrow> rk_transport_generation k = rg_generation g)"
      using assms(2) by (simp add: registry_inv_def)
    moreover have "rg_generation h = rg_generation g" using assms(1) by (simp add: settles_def)
    ultimately show ?thesis
      using r(2) request_may_follow_new request_progress_live by (auto simp: request_progress_def)
  qed
  have "\<exists>u. slot_holder g operation_key u \<and> lr_key u = lr_key r" if "slot_holder h operation_key r" for operation_key r
  proof -
    have r: "\<not> request_terminal r" "lr_operation_key r = Some operation_key" "lookup h (lr_key r) = Some r"
      using that by (simp_all add: slot_holder_def)
    obtain u where "lookup g (lr_key r) = Some u" "request_progress u r" using came [OF r(3)] by blast
    moreover from this r have "\<not> request_terminal u" "lr_operation_key u = Some operation_key" "lr_key u = lr_key r"
      using request_progress_live by (auto simp: request_progress_def)
    ultimately show ?thesis by (intro exI [of _ u]) (simp add: slot_holder_def)
  qed
  then have "lr_key r = lr_key r'"
    if "operation_key \<noteq> []" "slot_holder h operation_key r" "slot_holder h operation_key r'" for operation_key r r'
    using that assms(2) unfolding registry_inv_def by metis
  then have "r = r'"
    if "operation_key \<noteq> []" "slot_holder h operation_key r" "slot_holder h operation_key r'" for operation_key r r'
    using that by (metis slot_holder_def option.inject)
  with state assms show ?thesis
    unfolding registry_inv_def by (auto simp: settles_def same_setup_def)
qed

definition steady :: "time \<Rightarrow> request_registry \<Rightarrow> request_registry \<Rightarrow> bool" where
  "steady now g h \<longleftrightarrow> registry_inv h \<and> guards now g h"

lemma quiet_steady: "registry_inv g \<Longrightarrow> quiet_step now g h \<Longrightarrow> steady now g h"
  by (auto simp: steady_def quiet_step_def intro: settles_inv)

lemma ends_make_current_key:
  assumes "\<And>e. Q (Inl e) g" and "\<And>k. rk_transport_generation k = rg_generation g \<Longrightarrow> Q (Inr k) g"
  shows "ends (make_request_key request_id PNone) Q g"
  using assms by (auto simp: make_request_key_def ends_simps positive_int_def)

text \<open>The admission itself: the new record under its key, accepted.\<close>

lemma admitted_inv:
  assumes "registry_inv g" "rk_transport_generation k = rg_generation g"
    and "\<And>v. lookup g k = Some v \<Longrightarrow> request_terminal v"
    and slot: "\<And>operation_key. lr_operation_key r = Some operation_key \<Longrightarrow> operation_key \<noteq> [] \<Longrightarrow>
      (\<forall>v\<in>set (rg_records g). claims g operation_key v \<longrightarrow> request_terminal v)"
    and r: "lr_key r = k" "lr_state r \<noteq> SNew"
    and h: "lookup h k = Some r" "\<And>j. j \<noteq> k \<Longrightarrow> lookup h j = lookup g j" "same_setup g h"
      "rg_generation h = rg_generation g"
  shows "registry_inv h"
proof -
  have "v = w" if o: "operation_key \<noteq> []" "slot_holder h operation_key v" "slot_holder h operation_key w"
    for operation_key v w
  proof -
    have other: "slot_holder g operation_key u" if "slot_holder h operation_key u" "lr_key u \<noteq> k" for u
      using that h(2) by (simp add: slot_holder_def)
    have "\<not> slot_holder g operation_key u" if "slot_holder h operation_key r" for u
    proof
      assume u: "slot_holder g operation_key u"
      then have "u \<in> set (rg_records g)" "\<not> request_terminal u" "lookup g (lr_key u) = Some u"
        "lr_operation_key u = Some operation_key"
        by (auto simp: slot_holder_def dest: kget_SomeD)
      moreover from this registry_inv_current [OF assms(1)] have "claims g operation_key u"
        by (simp add: claims_def)
      ultimately show False using slot o(1) that by (auto simp: slot_holder_def)
    qed
    moreover have "u = r" if "slot_holder h operation_key u" "lr_key u = k" for u
      using that h(1) by (auto simp: slot_holder_def)
    ultimately show ?thesis using o other assms(1) unfolding registry_inv_def by metis
  qed
  moreover have "lr_state v \<noteq> SNew \<and> rk_transport_generation j \<le> rg_generation h \<and>
      (\<not> request_terminal v \<longrightarrow> rk_transport_generation j = rg_generation h)" if "lookup h j = Some v" for j v
    using that h r assms(1,2) by (cases "j = k") (auto simp: registry_inv_def)
  moreover have "kdistinct lr_key (rg_records h)" "length (rg_events h) \<le> rg_max_events h"
    using h(3) assms(1) by (auto simp: same_setup_def registry_inv_def)
  ultimately show ?thesis unfolding registry_inv_def by blast
qed

lemma same_setup_put: "same_setup g (g\<lparr>rg_records := kset lr_key r (rg_records g)\<rparr>)"
  by (simp add: same_setup_def kdistinct_kset)

lemma steady_trans: "steady now g h \<Longrightarrow> quiet_step now h i \<Longrightarrow> same_setup g h \<Longrightarrow> steady now g i"
  unfolding steady_def quiet_step_def by (blast intro: settles_inv guards_trans)

lemma ends_admit:
  assumes "registry_inv g" "rk_transport_generation k = rg_generation g"
    and free: "\<And>v. lookup g k = Some v \<Longrightarrow> request_terminal v"
    and slot: "\<And>operation_key. aq_operation_key q = Some operation_key \<Longrightarrow> operation_key \<noteq> [] \<Longrightarrow>
      (\<forall>v\<in>set (rg_records g). claims g operation_key v \<longrightarrow> request_terminal v)"
  shows "ends (admit_request now k tool_name q) (\<lambda>_ h. steady now g h) g"
proof -
  define r where "r = new_request_record now k tool_name q"
  have r: "lr_key r = k" "lr_state r = SNew" "\<not> request_terminal r"
    and op: "lr_operation_key r = aq_operation_key q"
    by (simp_all add: r_def new_request_record_def request_terminal_def terminal_states_def)
  let ?p = "g\<lparr>rg_records := kset lr_key r (rg_records g)\<rparr>"
  have p: "lookup ?p (lr_key r) = Some r" "\<And>j. j \<noteq> k \<Longrightarrow> lookup ?p j = lookup g j" "same_setup g ?p"
    using r by (simp_all add: store_simps same_setup_put)
  let ?tail = "\<lambda>r'. bindS (emit_event ''REQUEST_ACCEPTED'' (Some r') []) (\<lambda>_.
     bindS (prune_locked now) (\<lambda>_. retS r'))"
  have tail: "ends (?tail r') (\<lambda>_ h. steady now g h) h" if h: "steady now g h" "same_setup g h" for r' h
  proof (intro ends_bindI ends_emit, unfold sum.case, intro ends_bindI ends_prune_locked, unfold sum.case ends_retS)
    fix i j :: request_registry
    assume "rg_records i = rg_records h" "pruned h i"
    then show "kdistinct lr_key (rg_records i)" using h(1) by (simp add: steady_def registry_inv_def)
    show "steady now g j" if "pruned i j"
      using h that \<open>pruned h i\<close> by (blast intro: steady_trans pruned_quiet pruned_trans)
  qed
  have "ends (request_transition now r SAccepted None)
      (\<lambda>x h. case x of Inl e \<Rightarrow> steady now g h | Inr r' \<Rightarrow> ends (?tail r') (\<lambda>_ h. steady now g h) h) ?p"
  proof (rule ends_transition [OF p(1)], unfold sum.case)
    fix r' h
    assume moved: "request_progress r r'" "lr_state r' = SAccepted" "lookup h (lr_key r) = Some r'"
      "\<And>j. j \<noteq> lr_key r \<Longrightarrow> lookup h j = lookup ?p j" "settles ?p h"
    have placed: "same_setup g h" "rg_generation h = rg_generation g"
      using moved(5) p(3) by (auto simp: settles_def intro: same_setup_trans)
    have other: "\<And>j. j \<noteq> k \<Longrightarrow> lookup h j = lookup g j" using moved(4) p(2) r(1) by simp
    have "registry_inv h"
    proof (rule admitted_inv [OF assms(1,2) free, where r = r'])
      show "lr_key r' = k" "lr_state r' \<noteq> SNew" "lookup h k = Some r'"
        using moved r(1) by (auto simp: request_progress_def)
      show "\<forall>v\<in>set (rg_records g). claims g operation_key v \<longrightarrow> request_terminal v"
        if "lr_operation_key r' = Some operation_key" "operation_key \<noteq> []" for operation_key
        using moved(1) that by (intro slot) (simp_all add: request_progress_def op)
    qed (use other placed in auto)
    moreover have "guards now g h" using other free by (intro guards_except [of k]) auto
    ultimately show "ends (?tail r') (\<lambda>_ h. steady now g h) h"
      using placed by (intro tail) (simp_all add: steady_def)
  qed (use r in \<open>simp_all\<close>)
  then show ?thesis
    by (simp add: admit_request_def r_def [symmetric] put_record_def ends_bindS [of "updS _"] ends_bindS [of "request_transition _ _ _ _"] ends_updS Let_def)
qed

lemma claimed_slots:
  assumes "quiet_step now g h" "kdistinct lr_key (rg_records h)"
    and "\<forall>r\<in>set (rg_records g). claims g operation_key r \<longrightarrow>
      (\<forall>v. lookup h (lr_key r) = Some v \<longrightarrow> request_terminal v)"
  shows "\<forall>v\<in>set (rg_records h). claims h operation_key v \<longrightarrow> request_terminal v"
proof (intro ballI impI)
  fix v assume v: "v \<in> set (rg_records h)" "claims h operation_key v"
  then have here: "lookup h (lr_key v) = Some v" using assms(2) by (simp add: kget_Some_iff)
  then obtain u where u: "lookup g (lr_key v) = Some u" "request_progress u v"
    using assms(1) by (auto simp: quiet_step_def settles_def)
  then have "u \<in> set (rg_records g)" "lr_key u = lr_key v" by (auto dest: kget_SomeD)
  moreover from this u v(2) assms(1) have "claims g operation_key u"
    by (simp add: claims_def request_progress_def quiet_step_def settles_def)
  ultimately show "request_terminal v" using assms(3) here by metis
qed

lemma quiet_inv: "quiet_step now g h \<Longrightarrow> registry_inv g \<Longrightarrow> registry_inv h"
  unfolding quiet_step_def by (blast intro: settles_inv)

lemma ends_free_identifier:
  "ends (free_identifier now tool_name side_effect k) (\<lambda>res h. quiet_step now g h \<and>
     (isOk res \<longrightarrow> (\<forall>v. lookup h k = Some v \<longrightarrow> request_terminal v))) g"
proof (cases "lookup g k")
  case (Some r)
  have "ends (release_id now tool_name side_effect r) (\<lambda>res h. quiet_step now g h \<and>
     (isOk res \<longrightarrow> (\<forall>v. lookup h k = Some v \<longrightarrow> request_terminal v))) g"
    using Some lookup_key [OF Some] by (intro ends_release) simp_all
  with Some show ?thesis by (simp add: free_identifier_def ends_readS)
qed (simp add: free_identifier_def ends_simps)

lemma ends_claim_slot:
  assumes "registry_inv g"
  shows "ends (claim_slot now operation_key) (\<lambda>res h. quiet_step now g h \<and> (isOk res \<longrightarrow>
     (\<forall>o'. operation_key = Some o' \<longrightarrow> o' \<noteq> [] \<longrightarrow>
       (\<forall>v\<in>set (rg_records h). claims h o' v \<longrightarrow> request_terminal v)))) g"
proof (cases "operation_key = None \<or> operation_key = Some []")
  case True
  then show ?thesis by (auto simp: claim_slot_def ends_retS)
next
  case False
  then obtain o' where o': "operation_key = Some o'" "o' \<noteq> []" by auto
  have "ends (claim_operation now o' (rg_records g)) (\<lambda>res h. quiet_step now g h \<and>
      (isOk res \<longrightarrow> (\<forall>r\<in>set (rg_records g). claims g o' r \<longrightarrow>
        (\<forall>v. lookup h (lr_key r) = Some v \<longrightarrow> request_terminal v)))) g"
    using assms by (intro ends_claim) (auto simp: registry_inv_def kget_Some_iff kdistinct_def)
  then have "ends (claim_operation now o' (rg_records g)) (\<lambda>res h. quiet_step now g h \<and> (isOk res \<longrightarrow>
      (\<forall>v\<in>set (rg_records h). claims h o' v \<longrightarrow> request_terminal v))) g"
  proof (rule ends_mono)
    fix res :: "lifecycle_error + unit" and h
    assume post: "quiet_step now g h \<and> (isOk res \<longrightarrow> (\<forall>r\<in>set (rg_records g). claims g o' r \<longrightarrow>
        (\<forall>v. lookup h (lr_key r) = Some v \<longrightarrow> request_terminal v)))"
    then have "kdistinct lr_key (rg_records h)" using quiet_inv assms by (auto simp: registry_inv_def)
    with post claimed_slots [of now g h o'] show "quiet_step now g h \<and> (isOk res \<longrightarrow>
      (\<forall>v\<in>set (rg_records h). claims h o' v \<longrightarrow> request_terminal v))" by blast
  qed
  with o' show ?thesis by (simp add: claim_slot_def ends_readS)
qed

lemma request_accept_steady:
  assumes inv: "registry_inv g"
  shows "ends (request_accept now request_id q) (\<lambda>_ h. steady now g h) g" (is "ends _ ?Q g")
proof -
  have stop: "steady now g h" if "quiet_step now g h" for h using inv that by (rule quiet_steady)
  have keep: "rk_transport_generation k = rg_generation h"
    if "quiet_step now a h" "rk_transport_generation k = rg_generation a" for k :: request_key and a h
    using that by (simp add: quiet_step_def settles_def)
  have admit: "ends (admit_request now k tool_name q) ?Q c"
    if c: "quiet_step now g c" "rk_transport_generation k = rg_generation c"
      "\<And>v. lookup c k = Some v \<Longrightarrow> request_terminal v"
      "\<And>o'. aq_operation_key q = Some o' \<Longrightarrow> o' \<noteq> [] \<Longrightarrow>
        (\<forall>v\<in>set (rg_records c). claims c o' v \<longrightarrow> request_terminal v)" for c k tool_name
    using ends_admit [OF quiet_inv [OF c(1) inv] c(2-4)]
  proof (rule ends_mono)
    show "steady now g h" if "steady now c h" for h
      using that c(1) unfolding steady_def quiet_step_def settles_def by (blast intro: guards_trans)
  qed
  have claim: "ends (bindS (claim_slot now (aq_operation_key q)) (\<lambda>_. admit_request now k tool_name q)) ?Q b"
    if b: "quiet_step now g b" "rk_transport_generation k = rg_generation b"
      "\<forall>v. lookup b k = Some v \<longrightarrow> request_terminal v" for b k tool_name
  proof (rule ends_bindI, rule ends_mono [OF ends_claim_slot [OF quiet_inv [OF b(1) inv]]])
    fix res :: "lifecycle_error + unit" and c
    assume post: "quiet_step now b c \<and> (isOk res \<longrightarrow> (\<forall>o'. aq_operation_key q = Some o' \<longrightarrow> o' \<noteq> [] \<longrightarrow>
       (\<forall>v\<in>set (rg_records c). claims c o' v \<longrightarrow> request_terminal v)))"
    then have c: "quiet_step now g c" using b(1) quiet_step_trans by blast
    show "case res of Inl e \<Rightarrow> steady now g c | Inr _ \<Rightarrow> ends (admit_request now k tool_name q) ?Q c"
      using post c b stop
      by (cases res) (auto intro!: admit keep [of b c k] dest: quiet_terminal)
  qed
  have dist: "kdistinct lr_key (rg_records g)" using inv by (simp add: registry_inv_def)
  have "ends (bindS (prune_locked now) (\<lambda>_.
     bindS (make_request_key request_id PNone) (\<lambda>k.
     bindS (free_identifier now tool_name (aq_side_effect_class q) k) (\<lambda>_.
     bindS (claim_slot now (aq_operation_key q)) (\<lambda>_. admit_request now k tool_name q))))) ?Q g" for tool_name
  proof (intro ends_bindI ends_prune_locked [OF dist], unfold sum.case,
      intro ends_bindI ends_make_current_key, unfold sum.case)
    fix a assume a: "pruned g a"
    then show "steady now g a" by (intro stop pruned_quiet)
    fix k :: request_key
    assume k: "rk_transport_generation k = rg_generation a"
    show "ends (bindS (free_identifier now tool_name (aq_side_effect_class q) k) (\<lambda>_.
        bindS (claim_slot now (aq_operation_key q)) (\<lambda>_. admit_request now k tool_name q))) ?Q a"
    proof (rule ends_bindI, rule ends_mono [OF ends_free_identifier])
      fix res :: "lifecycle_error + unit" and h
      assume h: "quiet_step now a h \<and> (isOk res \<longrightarrow> (\<forall>v. lookup h k = Some v \<longrightarrow> request_terminal v))"
      then have "quiet_step now g h" using a by (blast intro: quiet_step_trans pruned_quiet)
      with h k stop show "case res of Inl e \<Rightarrow> steady now g h | Inr _ \<Rightarrow>
          ends (bindS (claim_slot now (aq_operation_key q)) (\<lambda>_. admit_request now k tool_name q)) ?Q h"
        by (cases res) (auto intro!: claim keep [of a h k])
    qed
  qed
  then show ?thesis
    unfolding request_accept_def by (intro ends_checkS_I) (auto intro: stop)
qed

section \<open>Calls that settle\<close>

lemma ends_put:
  assumes "lookup g (lr_key r') = Some r" "request_progress r r'"
    and "\<And>h. settles g h \<Longrightarrow> lookup h (lr_key r') = Some r' \<Longrightarrow> Q (Inr ()) h"
  shows "ends (put_record r') Q g"
  unfolding put_record_def ends_updS
  by (rule assms(3) [OF settles_put [OF assms(1,2) refl]]) (simp add: store_simps)

lemma ends_transition_settles:
  assumes "lookup g (lr_key r) = Some r"
  shows "ends (request_transition now r st reason) (\<lambda>_ h. settles g h) g"
  by (rule ends_transition [OF assms]) simp_all

lemma ends_put_then:
  assumes "lookup g (lr_key r) = Some r" "request_progress r r'"
    and "\<And>h. lookup h (lr_key r') = Some r' \<Longrightarrow> ends m (\<lambda>_ i. settles h i) h"
  shows "ends (bindS (put_record r') (\<lambda>_. m)) (\<lambda>_ h. settles g h) g"
proof -
  have "lookup g (lr_key r') = Some r" using assms(1,2) by (simp add: request_progress_def)
  then show ?thesis
    using assms(2)
  proof (intro ends_bindI ends_put, unfold sum.case)
    fix h assume h: "settles g h" "lookup h (lr_key r') = Some r'"
    show "ends m (\<lambda>_ i. settles g i) h"
      by (rule ends_mono [OF assms(3) [OF h(2)]]) (rule settles_trans [OF h(1)])
  qed
qed

lemma ends_located:
  assumes "\<And>r. lookup g (lr_key r) = Some r \<Longrightarrow> ends (f r) (\<lambda>_ h. settles g h) g"
  shows "ends (bindS (get_locked request_id generation) f) (\<lambda>_ h. settles g h) g"
  by (intro ends_bindI ends_get_locked) (simp_all add: assms)

lemma ends_emit_settles: "ends (bindS (emit_event event r details) (\<lambda>_. retS x)) (\<lambda>_ h. settles g h) g"
  by (intro ends_bindI ends_emit) (simp add: ends_retS pruned_settles)

lemma ends_retS_settles: "ends (retS x) (\<lambda>_ h. settles g h) g"
  by (simp add: ends_retS)

lemmas settle_intros = ends_located ends_put_then ends_transition_settles ends_emit_settles ends_retS_settles

lemma request_progress_edit:
  "request_progress r (r\<lparr>lr_last_heartbeat := now\<rparr>)"
  "request_progress r (r\<lparr>lr_side_effect_started := True, lr_last_heartbeat := now\<rparr>)"
  "request_progress r (r\<lparr>lr_retry_count := n, lr_last_heartbeat := now\<rparr>)"
  "request_progress r (r\<lparr>lr_process_session_id := p, lr_last_heartbeat := now\<rparr>)"
  "request_progress r (r\<lparr>lr_metadata := d\<rparr>)"
  by (simp_all add: request_progress_def)

datatype request_call =
    CAccept time pyval accept_request
  | CAnnotate pyval pyval "(string \<times> string option) list"
  | CEmit pyval string pyval "(string \<times> pyval) list"
  | CStart time pyval pyval
  | CHeartbeat time pyval pyval
  | CCompleting time pyval pyval
  | CSideEffect time pyval pyval
  | CRetry time pyval pyval string
  | CSink "(nat \<Rightarrow> (string \<times> pyval) list \<Rightarrow> string option) option"
  | CAttach time pyval pyval pyval
  | CComplete time pyval pyval
  | CFail time pyval pyval string
  | CCancel time pyval pyval string
  | CTimeout time pyval pyval string
  | CDisconnect time pyval pyval string
  | CCompleteKey time request_key
  | CRetire time string
  | CReconcile time "(string \<Rightarrow> bool option) option"

fun request_run :: "request_call \<Rightarrow> request_registry \<Rightarrow> request_registry" where
  "request_run (CAccept now i q) g = snd (request_accept now i q g)"
| "request_run (CAnnotate i n details) g = snd (request_annotate i n details g)"
| "request_run (CEmit i event n details) g = snd (request_emit i event n details g)"
| "request_run (CStart now i n) g = snd (request_start now i n g)"
| "request_run (CHeartbeat now i n) g = snd (request_heartbeat now i n g)"
| "request_run (CCompleting now i n) g = snd (request_mark_completing now i n g)"
| "request_run (CSideEffect now i n) g = snd (request_mark_side_effect_started now i n g)"
| "request_run (CRetry now i n reason) g = snd (request_mark_retry now i n reason g)"
| "request_run (CSink sink) g = snd (set_event_sink sink g)"
| "request_run (CAttach now i p n) g = snd (request_attach_process now i p n g)"
| "request_run (CComplete now i n) g = snd (request_complete now i n g)"
| "request_run (CFail now i n reason) g = snd (request_fail now i n reason g)"
| "request_run (CCancel now i n reason) g = snd (request_cancel now i n reason g)"
| "request_run (CTimeout now i n reason) g = snd (request_timeout now i n reason g)"
| "request_run (CDisconnect now i n reason) g = snd (request_disconnect now i n reason g)"
| "request_run (CCompleteKey now k) g = snd (request_complete_key now k g)"
| "request_run (CRetire now reason) g = snd (retire_generation now reason g)"
| "request_run (CReconcile now probe) g = snd (request_reconcile now probe g)"

fun local_call :: "request_call \<Rightarrow> bool" where
  "local_call (CAccept _ _ _) = False"
| "local_call (CRetire _ _) = False"
| "local_call (CReconcile _ _) = False"
| "local_call _ = True"

lemma finish_settles: "ends (request_finish now i st n reason) (\<lambda>_ h. settles g h) g"
  by (auto simp: request_finish_def ends_failS intro: settle_intros)

lemma request_call_settles: "local_call c \<Longrightarrow> settles g (request_run c g)"
proof -
  have "ends (request_annotate i n details) (\<lambda>_ h. settles g h) g"
    "ends (request_emit i event n ds) (\<lambda>_ h. settles g h) g"
    "ends (request_start now i n) (\<lambda>_ h. settles g h) g"
    "ends (request_heartbeat now i n) (\<lambda>_ h. settles g h) g"
    "ends (request_mark_completing now i n) (\<lambda>_ h. settles g h) g"
    "ends (request_mark_side_effect_started now i n) (\<lambda>_ h. settles g h) g"
    "ends (request_mark_retry now i n reason) (\<lambda>_ h. settles g h) g"
    "ends (request_disconnect now i n reason) (\<lambda>_ h. settles g h) g"
    for i event n details ds now reason
    by (auto simp: request_annotate_def request_emit_def request_start_def request_heartbeat_def
        request_mark_completing_def request_mark_side_effect_started_def request_mark_retry_def
        request_disconnect_def Let_def ends_if intro!: settle_intros request_progress_edit)
  moreover have "ends (set_event_sink sink) (\<lambda>_ h. settles g h) g" for sink
    unfolding set_event_sink_def ends_updS by (intro pruned_settles pruned_meta) simp_all
  moreover have "ends (request_attach_process now i p n) (\<lambda>_ h. settles g h) g" for now i p n
    unfolding request_attach_process_def Let_def
  proof (rule ends_checkS_I)
    fix x
    show "ends (bindS (get_locked i n) (\<lambda>r. bindS (put_record
        (r\<lparr>lr_process_session_id := Some x, lr_last_heartbeat := now\<rparr>)) (\<lambda>_. retS
        (r\<lparr>lr_process_session_id := Some x, lr_last_heartbeat := now\<rparr>)))) (\<lambda>_ h. settles g h) g"
      by (intro ends_located ends_put_then [OF _ request_progress_edit(4)] ends_retS_settles)
  qed simp
  moreover have "ends (request_complete_key now k) (\<lambda>_ h. settles g h) g" for now k
  proof -
    have "ends (bindS (set_recovery_reason reason) (\<lambda>_. bindS (emit_event event None details) (\<lambda>_. retS None)))
        (\<lambda>_ h. settles g h) g" for reason event details
      by (intro ends_bindI ends_set_recovery_reason, unfold sum.case, intro ends_bindI ends_emit)
        (auto simp: ends_retS intro: pruned_settles pruned_trans)
    moreover have "ends (bindS (request_transition now r SCompleted (Some ''completed'')) (\<lambda>r'. retS (Some r')))
        (\<lambda>_ h. settles g h) g" if "lookup g k = Some r" for r
      using that lookup_key [OF that] by (intro ends_bindI ends_transition) (simp_all add: ends_retS)
    ultimately show ?thesis
      by (auto simp: request_complete_key_def ends_readS ends_retS split: option.split)
  qed
  ultimately show "local_call c \<Longrightarrow> settles g (request_run c g)"
    by (cases c) (simp_all add: ends_snd finish_settles [unfolded ends_snd] request_complete_def request_fail_def
        request_cancel_def request_timeout_def)
qed

section \<open>Retiring a generation and reconciling\<close>

lemma lost_state_possible: "lr_state r \<noteq> SNew \<Longrightarrow> \<not> request_terminal r \<Longrightarrow>
    lost_state r \<in> set (request_successors (lr_state r)) \<and> lost_state r \<in> set terminal_states"
  by (cases "lr_state r") (auto simp: lost_state_def request_terminal_def terminal_states_def)

text \<open>What a pass over records makes of each: \<open>f r\<close> is its new state, if it gets one.\<close>

definition passed :: "(request_record \<Rightarrow> request_state option) \<Rightarrow> request_registry \<Rightarrow> request_registry \<Rightarrow> bool" where
  "passed f g h \<longleftrightarrow>
     (\<forall>k. lookup g k = None \<longrightarrow> lookup h k = None) \<and>
     (\<forall>k r. lookup g k = Some r \<longrightarrow> f r = None \<longrightarrow> lookup h k = Some r) \<and>
     (\<forall>k r st. lookup g k = Some r \<longrightarrow> f r = Some st \<longrightarrow>
        (\<exists>r'. lookup h k = Some r' \<and> lr_state r' = st \<and> request_progress r r'))"

lemma passed_id: "(\<And>k r. lookup g k = Some r \<Longrightarrow> f r = None) \<Longrightarrow> passed f g g"
  by (simp add: passed_def)

lemma passed_cong: "passed f g h \<Longrightarrow> (\<And>k r. lookup g k = Some r \<Longrightarrow> f' r = f r) \<Longrightarrow> passed f' g h"
  by (simp add: passed_def)

lemma passed_records: "rg_records i = rg_records h \<Longrightarrow> passed f g i = passed f g h"
  by (simp add: passed_def)

text \<open>A pass handles one record after the other; each step touches its own record only.\<close>

definition on_keys :: "request_key set \<Rightarrow> (request_record \<Rightarrow> 'b option) \<Rightarrow> request_record \<Rightarrow> 'b option" where
  "on_keys K f r = (if lr_key r \<in> K then f r else None)"

lemma passed_step:
  assumes gh: "passed (on_keys {k} f) g h" and hi: "passed (on_keys K f) h i" and "k \<notin> K"
  shows "passed (on_keys (insert k K) f) g i"
proof -
  have mine: "lookup i k = lookup h k"
  proof (cases "lookup h k")
    case None
    with hi show ?thesis by (simp add: passed_def)
  next
    case (Some r)
    with lookup_key [OF Some] assms(3) have "on_keys K f r = None" by (simp add: on_keys_def)
    with Some hi show ?thesis by (simp add: passed_def)
  qed
  have other: "lookup h j = lookup g j" if "j \<noteq> k" for j
  proof (cases "lookup g j")
    case None
    with gh show ?thesis by (simp add: passed_def)
  next
    case (Some r)
    with lookup_key [OF Some] that have "on_keys {k} f r = None" by (simp add: on_keys_def)
    with Some gh show ?thesis by (simp add: passed_def)
  qed
  have at: "lr_key r = j" if "lookup g j = Some r" for j r using that by (rule lookup_key)
  show ?thesis
    unfolding passed_def
  proof (intro conjI allI impI)
    fix j assume "lookup g j = None"
    with gh mine other hi show "lookup i j = None" by (cases "j = k") (simp_all add: passed_def)
  next
    fix j r assume "lookup g j = Some r" "on_keys (insert k K) f r = None"
    with at gh hi mine other show "lookup i j = Some r"
      by (cases "j = k") (auto simp: passed_def on_keys_def split: if_splits)
  next
    fix j r st assume j: "lookup g j = Some r" and st: "on_keys (insert k K) f r = Some st"
    show "\<exists>r'. lookup i j = Some r' \<and> lr_state r' = st \<and> request_progress r r'"
    proof (cases "j = k")
      case True
      with j st at have "on_keys {k} f r = Some st" by (simp add: on_keys_def)
      with gh j have "\<exists>r'. lookup h j = Some r' \<and> lr_state r' = st \<and> request_progress r r'"
        unfolding passed_def by blast
      with mine True show ?thesis by simp
    next
      case False
      with j st at have "on_keys K f r = Some st" by (simp add: on_keys_def split: if_splits)
      moreover have "lookup h j = Some r" using other [OF False] j by simp
      ultimately show ?thesis using hi unfolding passed_def by blast
    qed
  qed
qed

definition retires :: "request_registry \<Rightarrow> request_record \<Rightarrow> request_state option" where
  "retires g r = (if rk_transport_generation (lr_key r) = rg_generation g \<and> \<not> request_terminal r
     then Some (lost_state r) else None)"

lemma retires_settles: "settles g h \<Longrightarrow> retires h = retires g"
  by (intro ext) (simp add: retires_def settles_def)

lemma passed_one:
  assumes "lookup g k = Some r" "f r = Some st" "lookup h k = Some r'" "lr_state r' = st" "request_progress r r'"
    and "\<And>j. j \<noteq> k \<Longrightarrow> lookup h j = lookup g j"
  shows "passed (on_keys {k} f) g h"
proof -
  have "lr_key v = j" if "lookup g j = Some v" for j v using that by (rule lookup_key)
  then have "on_keys {k} f v = (if j = k then f v else None)" if "lookup g j = Some v" for j v
    using that by (simp add: on_keys_def)
  then show ?thesis
    unfolding passed_def using assms by (metis option.distinct(1) option.inject)
qed

lemma passed_skip:
  assumes "lookup g k = Some r" "f r = None" shows "passed (on_keys {k} f) g g"
proof (rule passed_id)
  fix j v assume v: "lookup g j = Some v"
  show "on_keys {k} f v = None"
  proof (cases "j = k")
    case True
    with v assms have "v = r" by simp
    with assms(2) show ?thesis by (simp add: on_keys_def)
  qed (use lookup_key [OF v] in \<open>simp add: on_keys_def\<close>)
qed

lemma ends_retire_records:
  assumes "\<forall>r\<in>set rs. lookup g (lr_key r) = Some r \<and> lr_state r \<noteq> SNew" "distinct (map lr_key rs)"
  shows "ends (retire_records now reason rs) (\<lambda>res h. settles g h \<and>
     passed (on_keys (lr_key ` set rs) (retires g)) g h \<and>
     res = Inr (length (filter (\<lambda>r. retires g r \<noteq> None) rs))) g"
  using assms
proof (induction rs arbitrary: g)
  case Nil
  then show ?case by (simp add: ends_retS passed_id on_keys_def)
next
  case (Cons r rs)
  have here: "lookup g (lr_key r) = Some r" "lr_state r \<noteq> SNew" "lr_key r \<notin> lr_key ` set rs"
    using Cons.prems by auto
  have rest: "ends (retire_records now reason rs) (\<lambda>res i. settles g i \<and>
      passed (on_keys (lr_key ` set (r # rs)) (retires g)) g i \<and>
      res = Inr (length (filter (\<lambda>r. retires g r \<noteq> None) rs))) h"
    if h: "settles g h" "passed (on_keys {lr_key r} (retires g)) g h"
      "\<And>k. k \<noteq> lr_key r \<Longrightarrow> lookup h k = lookup g k" for h
  proof (rule ends_mono [OF Cons.IH])
    show "\<forall>v\<in>set rs. lookup h (lr_key v) = Some v \<and> lr_state v \<noteq> SNew"
      using Cons.prems(1) h(3) here(3) by (metis imageI list.set_intros(2))
    show "distinct (map lr_key rs)" using Cons.prems(2) by simp
    show "settles g i \<and> passed (on_keys (lr_key ` set (r # rs)) (retires g)) g i \<and>
        res = Inr (length (filter (\<lambda>r. retires g r \<noteq> None) rs))"
      if "settles h i \<and> passed (on_keys (lr_key ` set rs) (retires h)) h i \<and>
        res = Inr (length (filter (\<lambda>r. retires h r \<noteq> None) rs))" for res i
      using that h retires_settles [OF h(1)] passed_step [OF h(2) _ here(3)] settles_trans [OF h(1)]
      by simp
  qed
  show ?case
  proof (cases "retires g r")
    case None
    then have skip: "rk_transport_generation (lr_key r) \<noteq> rg_generation g \<or> request_terminal r"
      by (simp add: retires_def split: if_splits)
    have "ends (retire_records now reason rs) (\<lambda>res i. settles g i \<and>
      passed (on_keys (lr_key ` set (r # rs)) (retires g)) g i \<and>
      res = Inr (length (filter (\<lambda>r. retires g r \<noteq> None) rs))) g"
      by (rule rest) (simp_all add: passed_skip [where r = r] here None)
    with None show ?thesis unfolding retire_records.simps ends_readS if_P [OF skip] by simp
  next
    case (Some st)
    then have live: "\<not> request_terminal r" "st = lost_state r"
      and go: "\<not> (rk_transport_generation (lr_key r) \<noteq> rg_generation g \<or> request_terminal r)"
      by (auto simp: retires_def split: if_splits)
    have "ends (bindS (request_transition now r (lost_state r) (Some reason)) (\<lambda>_.
          bindS (retire_records now reason rs) (\<lambda>n. retS (Suc n)))) (\<lambda>res i. settles g i \<and>
      passed (on_keys (lr_key ` set (r # rs)) (retires g)) g i \<and>
      res = Inr (length (filter (\<lambda>r. retires g r \<noteq> None) (r # rs)))) g" (is "ends _ ?Q g")
    proof (intro ends_bindI ends_transition [OF here(1)], unfold sum.case)
      fix r' h
      assume moved: "request_progress r r'" "lr_state r' = lost_state r" "lookup h (lr_key r) = Some r'"
        "\<And>k. k \<noteq> lr_key r \<Longrightarrow> lookup h k = lookup g k" "settles g h"
      have "passed (on_keys {lr_key r} (retires g)) g h"
        using moved Some live by (intro passed_one [OF here(1), where st = st]) simp_all
      have "ends (retire_records now reason rs) (\<lambda>res i. settles g i \<and>
          passed (on_keys (lr_key ` set (r # rs)) (retires g)) g i \<and>
          res = Inr (length (filter (\<lambda>r. retires g r \<noteq> None) rs))) h"
        by (rule rest [OF moved(5) \<open>passed _ g h\<close>]) (rule moved(4))
      then show "ends (bindS (retire_records now reason rs) (\<lambda>n. retS (Suc n))) ?Q h"
        by (intro ends_bindI) (elim ends_mono, auto simp: ends_retS Some)
    qed (use lost_state_possible [OF here(2)] live in auto)
    then show ?thesis unfolding retire_records.simps ends_readS if_not_P [OF go] .
  qed
qed

text \<open>The outcome of a pass between two prunings.\<close>

definition swept :: "(request_record \<Rightarrow> request_state option) \<Rightarrow> request_registry \<Rightarrow> request_registry \<Rightarrow> bool" where
  "swept f g h \<longleftrightarrow>
     (\<forall>k r'. lookup h k = Some r' \<longrightarrow> (\<exists>r. lookup g k = Some r \<and>
        (f r = None \<and> r' = r \<or> f r = Some (lr_state r') \<and> request_progress r r'))) \<and>
     (\<forall>k r. lookup g k = Some r \<longrightarrow> \<not> request_terminal r \<longrightarrow> f r = None \<longrightarrow> lookup h k = Some r)"

lemma sweptI:
  assumes ga: "pruned g a" and ab: "passed f a b" and bh: "pruned b h"
  shows "swept f g h"
  unfolding swept_def
proof (intro conjI allI impI)
  fix k r' assume "lookup h k = Some r'"
  with bh have b: "lookup b k = Some r'" by (rule pruned_kept)
  with ab obtain r where r: "lookup a k = Some r" unfolding passed_def by (metis not_None_eq)
  have "f r = None \<and> r' = r \<or> f r = Some (lr_state r') \<and> request_progress r r'"
  proof (cases "f r")
    case None
    with ab r have "lookup b k = Some r" unfolding passed_def by blast
    with b None show ?thesis by simp
  next
    case (Some st)
    with ab r obtain v where "lookup b k = Some v" "lr_state v = st" "request_progress r v"
      unfolding passed_def by blast
    with b Some show ?thesis by simp
  qed
  with r pruned_kept [OF ga] show "\<exists>r. lookup g k = Some r \<and>
      (f r = None \<and> r' = r \<or> f r = Some (lr_state r') \<and> request_progress r r')" by blast
next
  fix k r assume r: "lookup g k = Some r" "\<not> request_terminal r" "f r = None"
  then have "lookup a k = Some r" by (intro pruned_live [OF ga])
  with ab r(3) have "lookup b k = Some r" unfolding passed_def by blast
  then show "lookup h k = Some r" using r(2) by (rule pruned_live [OF bh])
qed

lemma live_records_iff: "kdistinct lr_key (rg_records g) \<Longrightarrow>
    active_records g = [] \<longleftrightarrow> (\<forall>k r. lookup g k = Some r \<longrightarrow> request_terminal r)"
  by (auto simp: active_records_def filter_empty_conv kget_Some_iff)

lemma ends_retire:
  assumes inv: "registry_inv g"
  shows "ends (retire_generation now reason) (\<lambda>res h. res = Inr (length (active_records g)) \<and> registry_inv h \<and>
    rg_generation h = rg_generation g + 1 \<and> active_records h = [] \<and> swept (retires g) g h) g"
proof -
  have current: "\<forall>r\<in>set (rg_records g). lookup g (lr_key r) = Some r \<and> lr_state r \<noteq> SNew"
    using inv registry_inv_lookup registry_inv_state by blast
  have gen: "rk_transport_generation (lr_key r) = rg_generation g"
    if "lookup g k = Some r" "\<not> request_terminal r" for k r
    using registry_inv_current [OF inv that] lookup_key [OF that(1)] by simp
  have "retires g r \<noteq> None \<longleftrightarrow> \<not> request_terminal r" if "r \<in> set (rg_records g)" for r
    using that current gen by (auto simp: retires_def)
  then have count: "filter (\<lambda>r. retires g r \<noteq> None) (rg_records g) = active_records g"
    unfolding active_records_def by (intro filter_cong) auto
  have keys: "on_keys (lr_key ` set (rg_records g)) (retires g) r = retires g r" if "lookup g k = Some r" for k r
    using kget_SomeD [OF that] by (auto simp: on_keys_def)
  let ?retired = "\<lambda>h. h\<lparr>rg_generation := rg_generation h + 1\<rparr>"
  have final: "registry_inv i \<and> active_records i = []"
    if h: "settles g h" "passed (retires g) g h" and i: "pruned (?retired h) i" for h i
  proof -
    have inv_h: "registry_inv h" using h(1) inv by (rule settles_inv)
    have dead: "request_terminal r'" if r': "lookup h k = Some r'" for k r'
    proof -
      from h(1) r' obtain r where r: "lookup g k = Some r" "request_progress r r'"
        by (auto simp: settles_def)
      show ?thesis
      proof (cases "retires g r")
        case None
        with r(1) gen have "request_terminal r" by (auto simp: retires_def split: if_splits)
        with r r' None h(2) show ?thesis by (simp add: passed_def)
      next
        case (Some st)
        then have "st \<in> set terminal_states"
          by (auto simp: retires_def lost_state_def terminal_states_def split: if_splits)
        with h(2) r(1) Some r' show ?thesis unfolding passed_def by (fastforce simp: request_terminal_def)
      qed
    qed
    have "registry_inv (?retired h)"
      using inv_h dead by (fastforce simp: registry_inv_def slot_holder_def)
    with i have inv_i: "registry_inv i" by (blast intro: settles_inv pruned_settles)
    moreover have "request_terminal r" if "lookup i k = Some r" for k r
      using dead [of k r] pruned_kept [OF i that] by simp
    ultimately show ?thesis by (auto simp: live_records_iff registry_inv_def)
  qed
  have dist: "distinct (map lr_key (rg_records g))" using inv by (simp add: registry_inv_def kdistinct_def)
  show ?thesis
    unfolding retire_generation_def ends_readS
  proof (rule ends_bindI, rule ends_mono [OF ends_retire_records [OF current dist]], elim conjE)
    fix res :: "lifecycle_error + nat" and h
    assume h: "settles g h" and p: "passed (on_keys (lr_key ` set (rg_records g)) (retires g)) g h"
      and res: "res = Inr (length (filter (\<lambda>r. retires g r \<noteq> None) (rg_records g)))"
    have pass: "passed (retires g) g h" using p by (rule passed_cong) (simp add: keys)
    have "passed (retires g) g (?retired h)" using pass by (simp add: passed_def)
    then have swept: "swept (retires g) g i" if "pruned (?retired h) i" for i
      by (rule sweptI [OF pruned_refl _ that])
    have "kdistinct lr_key (rg_records (?retired h))"
      using settles_inv [OF h inv] by (simp add: registry_inv_def)
    then have dist_i: "kdistinct lr_key (rg_records i)" if "pruned (?retired h) i" for i
      using pruned_setup [OF that] by (simp add: same_setup_def)
    have post: "registry_inv i \<and> rg_generation i = rg_generation g + 1 \<and> active_records i = [] \<and>
        swept (retires g) g i" if "pruned (?retired h) i" for i
      using final [OF h pass that] swept [OF that] pruned_setup [OF that] h by (simp add: settles_def)
    have "ends (bindS (updS ?retired) (\<lambda>_. bindS (set_recovery_reason reason) (\<lambda>_.
        bindS (emit_event ''TRANSPORT_GENERATION_REPLACED'' None [(''reason'', PStr reason)]) (\<lambda>_.
        bindS (prune_locked now) (\<lambda>_. retS (length (active_records g))))))) (\<lambda>res h.
      res = Inr (length (active_records g)) \<and> registry_inv h \<and>
      rg_generation h = rg_generation g + 1 \<and> active_records h = [] \<and> swept (retires g) g h) h"
    proof (intro ends_bindI, unfold ends_updS sum.case, intro ends_bindI ends_set_recovery_reason,
        unfold sum.case, intro ends_bindI ends_emit, unfold sum.case, rule ends_bindI, rule ends_prune_locked,
        unfold sum.case ends_retS)
      fix a b assume a: "pruned (?retired h) a" and b: "pruned a b"
      from dist_i [OF pruned_trans [OF a b]] show "kdistinct lr_key (rg_records b)" .
      fix c assume c: "pruned b c"
      from post [OF pruned_trans [OF pruned_trans [OF a b] c]]
      show "Inr (length (active_records g)) = Inr (length (active_records g)) \<and> registry_inv c \<and>
        rg_generation c = rg_generation g + 1 \<and> active_records c = [] \<and> swept (retires g) g c" by simp
    qed
    with res count show "case res of Inl e \<Rightarrow> Inl e = Inr (length (active_records g)) \<and> registry_inv h \<and>
        rg_generation h = rg_generation g + 1 \<and> active_records h = [] \<and> swept (retires g) g h
      | Inr retired \<Rightarrow> ends (bindS (updS ?retired) (\<lambda>_. bindS (set_recovery_reason reason) (\<lambda>_.
        bindS (emit_event ''TRANSPORT_GENERATION_REPLACED'' None [(''reason'', PStr reason)]) (\<lambda>_.
        bindS (prune_locked now) (\<lambda>_. retS retired))))) (\<lambda>res h.
      res = Inr (length (active_records g)) \<and> registry_inv h \<and>
      rg_generation h = rg_generation g + 1 \<and> active_records h = [] \<and> swept (retires g) g h) h"
      by simp
  qed
qed

text \<open>
  The policy of reconciliation: a stale live request bound to a process that has exited is
  settled, as is a stale read without a process and a stale request whose side effect has
  started; everything else stays.
\<close>

definition reconciled :: "request_registry \<Rightarrow> time \<Rightarrow> (string \<Rightarrow> bool option) option \<Rightarrow> request_record \<Rightarrow> request_state option" where
  "reconciled g now process_probe r =
     (if request_terminal r \<or> \<not> request_stale g now r then None
      else case bound_process process_probe r of
          Some (probe, p) \<Rightarrow>
            if process_alive probe p then None
            else Some (if lr_side_effect_started r then SOutcomeUnknown else STimedOut)
        | None \<Rightarrow>
            if lr_side_effect_started r then Some SOutcomeUnknown
            else if lr_side_effect_class r = ReadOnly \<and> lr_process_session_id r = None then Some SDisconnected
            else None)"

lemma reconciled_settles: "settles g h \<Longrightarrow> reconciled h now process_probe = reconciled g now process_probe"
  by (intro ext) (simp add: reconciled_def request_stale_def settles_def same_setup_def)

definition one_step :: "(request_record \<Rightarrow> request_state option) \<Rightarrow> request_record \<Rightarrow> request_registry \<Rightarrow> request_registry \<Rightarrow> bool" where
  "one_step f r g h \<longleftrightarrow> settles g h \<and> passed (on_keys {lr_key r} f) g h \<and>
     (\<forall>k. k \<noteq> lr_key r \<longrightarrow> lookup h k = lookup g k)"

lemma one_step_skip: "lookup g (lr_key r) = Some r \<Longrightarrow> f r = None \<Longrightarrow> one_step f r g g"
  by (simp add: one_step_def passed_skip)

lemma one_step_move:
  assumes "lookup g (lr_key r) = Some r" "f r = Some st" "request_progress r r'" "lr_state r' = st"
    "lookup h (lr_key r) = Some r'" "\<And>k. k \<noteq> lr_key r \<Longrightarrow> lookup h k = lookup g k" "settles g h"
  shows "one_step f r g h"
  using assms passed_one [where f = f, OF assms(1,2,5,4,3,6)] by (simp add: one_step_def)

lemma one_step_meta: "one_step f r g h \<Longrightarrow> rg_records i = rg_records h \<Longrightarrow> pruned h i \<Longrightarrow> one_step f r g i"
  unfolding one_step_def using passed_records [of i h] by (auto intro: settles_trans pruned_settles)

lemma ends_settle:
  assumes "lookup g (lr_key r) = Some r" "lr_state r \<noteq> SNew" "\<not> request_terminal r"
    "f r = Some st" "st \<in> {SOutcomeUnknown, STimedOut}"
    and rest: "\<And>r' h. one_step f r g h \<Longrightarrow> ends (m r') Q h"
  shows "ends (bindS (request_transition now r st reason) m) Q g"
proof (intro ends_bindI ends_transition [OF assms(1)], unfold sum.case)
  have "st \<in> set (request_successors (lr_state r))"
    using assms(2,3,5) by (cases "lr_state r") (auto simp: request_terminal_def terminal_states_def)
  then show "Q (Inl e) g" if "st \<notin> set (request_successors (lr_state r))" for e using that by simp
qed (use assms(3) in \<open>auto intro!: rest one_step_move [where f = f, OF assms(1,4)]\<close>)

lemma ends_counted:
  assumes "one_step f r g h" and "\<And>i. one_step f r g i \<Longrightarrow> ends m Q i"
  shows "ends (bindS count_reconciled (\<lambda>_. bindS count_stale (\<lambda>_. m))) Q h"
  by (intro ends_bindI ends_count_reconciled, unfold sum.case, intro ends_bindI ends_count_stale, unfold sum.case)
    (blast intro: assms one_step_meta)

lemma ends_reconcile_record:
  assumes "lookup g (lr_key r) = Some r" "lr_state r \<noteq> SNew"
  shows "ends (reconcile_record now process_probe r)
    (\<lambda>res h. isOk res \<and> one_step (reconciled g now process_probe) r g h) g"
proof -
  let ?f = "reconciled g now process_probe"
  let ?Q = "\<lambda>(res :: lifecycle_error + nat \<times> nat) h. isOk res \<and> one_step ?f r g h"
  note skip = one_step_skip [OF assms(1), of ?f]
  consider "request_terminal r \<or> \<not> request_stale g now r"
    | probe p where "\<not> request_terminal r" "request_stale g now r" "bound_process process_probe r = Some (probe, p)"
    | "\<not> request_terminal r" "request_stale g now r" "bound_process process_probe r = None"
    by (cases "bound_process process_probe r") auto
  then show ?thesis
  proof cases
    case 1
    then have "?f r = None" by (auto simp: reconciled_def)
    with 1 skip show ?thesis by (auto simp: reconcile_record_def ends_readS ends_retS)
  next
    case (2 probe p)
    show ?thesis
    proof (cases "process_alive probe p")
      case True
      with 2 have "?f r = None" by (simp add: reconciled_def)
      with 2 True skip show ?thesis by (simp add: reconcile_record_def ends_readS ends_retS)
    next
      case False
      let ?st = "if lr_side_effect_started r then SOutcomeUnknown else STimedOut"
      have st: "?f r = Some ?st" using 2 False by (simp add: reconciled_def)
      have "ends (bindS (request_transition now r ?st (Some ''process_exited'')) (\<lambda>r'.
          bindS count_reconciled (\<lambda>_. bindS count_stale (\<lambda>_.
          bindS (emit_event ''PROCESS_BINDING_RECONCILED'' (Some r') [(''reason'', PStr ''process_exited'')]) (\<lambda>_.
          retS (1, 0)))))) ?Q g"
        using 2(1) by (intro ends_settle [where f = ?f, OF assms _ st] ends_counted [where f = ?f] ends_bindI ends_emit)
          (auto simp: ends_retS intro: one_step_meta)
      with 2 False show ?thesis by (simp add: reconcile_record_def ends_readS)
    qed
  next
    case 3
    have "ends (bindS (reap_stale_read r now) (\<lambda>reaped.
        if reaped then retS (1, 0)
        else if lr_side_effect_started r
        then bindS (request_transition now r SOutcomeUnknown (Some ''stale_side_effect'')) (\<lambda>_.
             bindS count_reconciled (\<lambda>_. bindS count_stale (\<lambda>_. retS (1, 0))))
        else retS (0, 1))) ?Q g"
    proof (intro ends_bindI ends_reap [OF assms(1)], unfold sum.case if_True if_False)
      assume "\<not> (request_stale g now r \<and> lr_side_effect_class r = ReadOnly \<and> \<not> lr_side_effect_started r \<and>
          lr_process_session_id r = None)"
      with 3 have "?f r = (if lr_side_effect_started r then Some SOutcomeUnknown else None)"
        by (auto simp: reconciled_def)
      then show "ends (if lr_side_effect_started r
        then bindS (request_transition now r SOutcomeUnknown (Some ''stale_side_effect'')) (\<lambda>_.
             bindS count_reconciled (\<lambda>_. bindS count_stale (\<lambda>_. retS (1, 0))))
        else retS (0, 1)) ?Q g"
        using 3(1) skip
        by (auto simp: ends_retS intro!: ends_settle [where f = ?f, OF assms] ends_counted [where f = ?f])
    next
      fix r' h
      assume h: "quiet_step now g h" "request_progress r r'" "lookup h (lr_key r) = Some r'"
          "\<And>k. k \<noteq> lr_key r \<Longrightarrow> lookup h k = lookup g k"
        and safe: "lr_side_effect_class r = ReadOnly \<and> \<not> lr_side_effect_started r \<and> lr_process_session_id r = None"
        and st: "\<not> request_terminal r \<Longrightarrow> lr_state r' = SDisconnected"
      have "?f r = Some SDisconnected" using 3 safe by (simp add: reconciled_def)
      then have "one_step ?f r g h"
        using 3(1) st h by (intro one_step_move [where f = ?f, OF assms(1)]) (auto simp: quiet_step_def)
      then show "ends (retS (1, 0)) ?Q h" by (simp add: ends_retS)
    qed (use assms(2) in simp)
    with 3 show ?thesis by (simp add: reconcile_record_def ends_readS)
  qed
qed

lemma ends_reconcile_records:
  assumes "\<forall>r\<in>set rs. lookup g (lr_key r) = Some r \<and> lr_state r \<noteq> SNew" "distinct (map lr_key rs)"
  shows "ends (reconcile_records now process_probe rs) (\<lambda>res h. isOk res \<and> settles g h \<and>
     passed (on_keys (lr_key ` set rs) (reconciled g now process_probe)) g h) g"
  using assms
proof (induction rs arbitrary: g)
  case Nil
  then show ?case by (simp add: ends_retS passed_id on_keys_def)
next
  case (Cons r rs)
  let ?f = "reconciled g now process_probe"
  let ?Q = "\<lambda>(res :: lifecycle_error + nat \<times> nat) h. isOk res \<and> settles g h \<and>
     passed (on_keys (lr_key ` set (r # rs)) ?f) g h"
  have here: "lookup g (lr_key r) = Some r" "lr_state r \<noteq> SNew" "lr_key r \<notin> lr_key ` set rs"
    using Cons.prems by auto
  have rest: "ends (reconcile_records now process_probe rs) ?Q h" if h: "one_step ?f r g h" for h
  proof (rule ends_mono [OF Cons.IH])
    have same: "\<And>k. k \<noteq> lr_key r \<Longrightarrow> lookup h k = lookup g k" using h by (simp add: one_step_def)
    show "\<forall>v\<in>set rs. lookup h (lr_key v) = Some v \<and> lr_state v \<noteq> SNew"
      using Cons.prems(1) same here(3) by (metis imageI list.set_intros(2))
    show "distinct (map lr_key rs)" using Cons.prems(2) by simp
    show "?Q res i" if i: "isOk res \<and> settles h i \<and>
        passed (on_keys (lr_key ` set rs) (reconciled h now process_probe)) h i" for res i
    proof -
      from h have "settles g h" "passed (on_keys {lr_key r} ?f) g h" by (simp_all add: one_step_def)
      moreover from i reconciled_settles [OF this(1)] have "passed (on_keys (lr_key ` set rs) ?f) h i" by simp
      ultimately show ?thesis using i passed_step [OF _ _ here(3)] by (auto intro: settles_trans)
    qed
  qed
  have "ends (reconcile_record now process_probe r)
    (\<lambda>res h. case res of Inl e \<Rightarrow> ?Q (Inl e) h | Inr p \<Rightarrow> ends (case p of (reaped, active) \<Rightarrow>
       bindS (reconcile_records now process_probe rs) (\<lambda>(more_reaped, more_active).
         retS (reaped + more_reaped, active + more_active))) ?Q h) g"
  proof (rule ends_mono [OF ends_reconcile_record [OF here(1,2)]])
    fix res :: "lifecycle_error + nat \<times> nat" and h
    assume "isOk res \<and> one_step ?f r g h"
    then obtain reaped active where res: "res = Inr (reaped, active)" and h: "one_step ?f r g h"
      by (cases res) auto
    have "ends (bindS (reconcile_records now process_probe rs) (\<lambda>(more_reaped, more_active).
         retS (reaped + more_reaped, active + more_active))) ?Q h"
      by (rule ends_bindI, rule ends_mono [OF rest [OF h]]) (auto simp: ends_retS split: sum.splits)
    with res show "case res of Inl e \<Rightarrow> ?Q (Inl e) h | Inr p \<Rightarrow> ends (case p of (reaped, active) \<Rightarrow>
       bindS (reconcile_records now process_probe rs) (\<lambda>(more_reaped, more_active).
         retS (reaped + more_reaped, active + more_active))) ?Q h" by simp
  qed
  then show ?case by (simp only: reconcile_records.simps ends_bindS [of "reconcile_record _ _ _"])
qed

lemma ends_reconcile:
  assumes inv: "registry_inv g"
  shows "ends (request_reconcile now process_probe) (\<lambda>res h. isOk res \<and> settles g h \<and>
    swept (reconciled g now process_probe) g h) g" (is "ends _ ?Q g")
proof -
  let ?f = "reconciled g now process_probe"
  let ?g = "g\<lparr>rg_last_reconciliation_at := Some now\<rparr>"
  have start: "pruned g ?g" by (rule pruned_meta) simp_all
  have loop: "ends (bindS (reconcile_records now process_probe (rg_records a)) (\<lambda>(reaped, active).
     bindS (prune_locked now) (\<lambda>_. readS (\<lambda>g.
     retS [(''reconciled'', n + reaped), (''active'', active),
           (''terminal'', length (filter request_terminal (rg_records g)))])))) ?Q a"
    if a: "pruned g a" for a and n :: nat
  proof (rule ends_bindI, rule ends_mono [OF ends_reconcile_records])
    have inv_a: "registry_inv a" using a inv by (blast intro: settles_inv pruned_settles)
    then show "\<forall>r\<in>set (rg_records a). lookup a (lr_key r) = Some r \<and> lr_state r \<noteq> SNew"
      using registry_inv_lookup registry_inv_state by blast
    show "distinct (map lr_key (rg_records a))"
      using registry_inv_distinct [OF inv_a] by (simp add: kdistinct_def)
    fix res :: "lifecycle_error + nat \<times> nat" and h
    assume post: "isOk res \<and> settles a h \<and>
      passed (on_keys (lr_key ` set (rg_records a)) (reconciled a now process_probe)) a h"
    then have h: "settles a h" by simp
    have "on_keys (lr_key ` set (rg_records a)) (reconciled a now process_probe) r = ?f r"
      if "lookup a k = Some r" for k r
      using kget_SomeD [OF that] reconciled_settles [OF pruned_settles [OF a]] by (auto simp: on_keys_def)
    with post have pass: "passed ?f a h" by (auto intro: passed_cong)
    have dist: "kdistinct lr_key (rg_records h)"
      using settles_inv [OF h inv_a] by (rule registry_inv_distinct)
    have "?Q (Inr x) i" if "pruned h i" for i x
      using sweptI [OF a pass that] pruned_settles [OF that] pruned_settles [OF a] h
      by (auto intro: settles_trans)
    then have "ends (bindS (prune_locked now) (\<lambda>_. readS (\<lambda>g.
       retS [(''reconciled'', n + reaped), (''active'', active),
           (''terminal'', length (filter request_terminal (rg_records g)))]))) ?Q h" for reaped active
      by (intro ends_bindI ends_prune_locked [OF dist], unfold sum.case ends_readS ends_retS)
    then show "case res of Inl e \<Rightarrow> ?Q (Inl e) h | Inr p \<Rightarrow> ends (case p of (reaped, active) \<Rightarrow>
       bindS (prune_locked now) (\<lambda>_. readS (\<lambda>g.
       retS [(''reconciled'', n + reaped), (''active'', active),
           (''terminal'', length (filter request_terminal (rg_records g)))]))) ?Q h"
      using post by (cases res) (auto split: prod.split)
  qed
  have dist: "kdistinct lr_key (rg_records ?g)" using inv by (simp add: registry_inv_def)
  show ?thesis
    unfolding request_reconcile_def
  proof (intro ends_bindI, unfold ends_updS sum.case, intro ends_bindI ends_prune_locked [OF dist], unfold sum.case ends_readS)
    fix n a assume "pruned ?g a"
    then show "ends (bindS (reconcile_records now process_probe (rg_records a)) (\<lambda>(reaped, active).
     bindS (prune_locked now) (\<lambda>_. readS (\<lambda>g.
     retS [(''reconciled'', n + reaped), (''active'', active),
           (''terminal'', length (filter request_terminal (rg_records g)))])))) ?Q a"
      by (intro loop pruned_trans [OF start])
  qed
qed

section \<open>Reachable registries\<close>

inductive registry_reachable :: "request_registry \<Rightarrow> bool" where
  registry_start: "registry_init child token generation heartbeat ttl entries events sink event_token = Inr g \<Longrightarrow>
     registry_reachable g"
| registry_step: "registry_reachable g \<Longrightarrow> registry_reachable (request_run c g)"

lemma registry_init_inv:
  assumes "registry_init child token generation heartbeat ttl entries events sink event_token = Inr g"
  shows "registry_inv g"
proof -
  have "rg_records g = []" "rg_events g = []"
    using assms by (auto simp: registry_init_def result_simps Let_def split: if_splits)
  then show ?thesis by (simp add: registry_inv_def kdistinct_def slot_holder_def store_simps)
qed

lemma registry_run_inv: "registry_inv g \<Longrightarrow> registry_inv (request_run c g)"
proof (cases "local_call c")
  case True
  then show "registry_inv g \<Longrightarrow> registry_inv (request_run c g)"
    by (blast intro: settles_inv request_call_settles)
next
  case False
  assume inv: "registry_inv g"
  have "registry_inv (snd (request_accept now i q g))" for now i q
    using request_accept_steady [OF inv] by (simp add: ends_iff steady_def)
  moreover have "registry_inv (snd (retire_generation now reason g))" for now reason
    using ends_retire [OF inv] by (simp add: ends_iff)
  moreover have "registry_inv (snd (request_reconcile now probe g))" for now probe
    using ends_reconcile [OF inv] settles_inv [OF _ inv] by (simp add: ends_iff)
  ultimately show ?thesis using False by (cases c) simp_all
qed

lemma registry_reachable_inv: "registry_reachable g \<Longrightarrow> registry_inv g"
  by (induction rule: registry_reachable.induct) (auto intro: registry_init_inv registry_run_inv)

lemma registry_reachable_fold: "registry_reachable g \<Longrightarrow> registry_reachable (fold request_run cs g)"
  by (induction cs arbitrary: g) (auto intro: registry_step)

section \<open>An example\<close>

definition example_registry :: request_registry where
  "example_registry = \<lparr>rg_child_instance_id = ''child'', rg_heartbeat_timeout_seconds = 60,
     rg_terminal_ttl_seconds = 300, rg_max_entries = 512, rg_generation = 1, rg_records = [],
     rg_events = [], rg_max_events = 128, rg_event_sink = None, rg_event_sink_error = None,
     rg_reconciled_count = 0, rg_stale_request_count = 0, rg_outcome_unknown_count = 0,
     rg_last_reconciliation_at = None, rg_last_recovery_reason = None, rg_emitted = 0,
     rg_event_token = (\<lambda>_. ''e'')\<rparr>"

definition example_accept :: "string \<Rightarrow> side_effect_class \<Rightarrow> string \<Rightarrow> accept_request" where
  "example_accept tool side_effect operation_key =
     \<lparr>aq_tool_name = PStr tool, aq_side_effect_class = side_effect, aq_operation_key = Some operation_key,
      aq_workspace_id = None, aq_working_tree_id = None, aq_development_session_id = None, aq_metadata = []\<rparr>"

definition example_requests :: request_registry where
  "example_requests = fold request_run
     [CAccept 0 (PInt 1) (example_accept ''git_push'' ExternalWrite ''push''), CStart 1 (PInt 1) PNone,
      CSideEffect 2 (PInt 1) PNone, CAccept 3 (PInt 2) (example_accept ''read_file'' ReadOnly ''read'')]
     example_registry"

definition request_summary :: "request_registry \<Rightarrow> (pyval \<times> string \<times> string \<times> bool) list" where
  "request_summary g = map (\<lambda>r. (rk_request_id (lr_key r), lr_tool_name r, request_state_value (lr_state r),
     lr_side_effect_started r)) (rg_records g)"

lemma example_registry_reachable: "registry_reachable example_registry"
  by (rule registry_start [where child = "Some ''child''" and token = "[]" and generation = "PInt 1" and
        heartbeat = 60 and ttl = 300 and entries = "PInt 512" and events = "PInt 128" and sink = None and
        event_token = "\<lambda>_. ''e''"])
    (simp add: registry_init_def positive_int_def bounded_int_def example_registry_def)

lemma example_requests_reachable: "registry_reachable example_requests"
  unfolding example_requests_def by (intro registry_reachable_fold example_registry_reachable)

lemma example_requests_summary:
  "request_summary example_requests =
     [(PInt 1, ''git_push'', ''RUNNING'', True), (PInt 2, ''read_file'', ''ACCEPTED'', False)]"
  by code_simp

text \<open>What the applications below need of the example, evaluated at once.\<close>

definition live_push :: "request_registry \<Rightarrow> bool" where
  "live_push g \<longleftrightarrow>
     (case rg_records g of
        [push, read] \<Rightarrow> \<not> request_terminal push \<and> rg_generation g = 1 \<and>
          10 - lr_last_heartbeat push < rg_heartbeat_timeout_seconds g
      | _ \<Rightarrow> False)"

definition completed_read :: "request_call \<Rightarrow> request_registry \<Rightarrow> bool" where
  "completed_read c g \<longleftrightarrow>
     (case (rg_records g, rg_records (request_run c g)) of
        ([push, read], [push', read']) \<Rightarrow> request_terminal read \<and> lr_key read' = lr_key read \<and>
          lr_state read = SCompleted \<and> lr_state push' \<noteq> SOutcomeUnknown
      | _ \<Rightarrow> False)"

lemma example_live_push: "live_push example_requests"
  by code_simp

lemma live_push_head:
  assumes "live_push g"
  shows "hd (rg_records g) \<in> set (rg_records g)" and "\<not> request_terminal (hd (rg_records g))"
    and "rg_generation g = 1"
    and "10 - lr_last_heartbeat (hd (rg_records g)) < rg_heartbeat_timeout_seconds g"
  using assms by (auto simp: live_push_def split: list.splits)

section \<open>Properties\<close>

text \<open>
  C3: An operation has one owner. Whatever calls a registry has served, two live requests never hold the
  same operation key, and every live request belongs to the current transport generation.
\<close>

theorem operation_slots_exclusive:
  assumes "registry_reachable g" and "r \<in> set (rg_records g)" and "\<not> request_terminal r"
  shows "rk_transport_generation (lr_key r) = rg_generation g \<and>
    (\<forall>r'\<in>set (rg_records g). \<not> request_terminal r' \<longrightarrow> lr_operation_key r' = lr_operation_key r \<longrightarrow>
      lr_operation_key r \<notin> {None, Some []} \<longrightarrow> r' = r)"
proof -
  have inv: "registry_inv g" using assms(1) by (rule registry_reachable_inv)
  have r: "lookup g (lr_key r) = Some r" using assms(2) registry_inv_lookup [OF inv] by simp
  have "r' = r" if "r' \<in> set (rg_records g)" "\<not> request_terminal r'" "lr_operation_key r' = lr_operation_key r"
    "lr_operation_key r = Some operation_key" "operation_key \<noteq> []" for r' operation_key
  proof -
    have "slot_holder g operation_key r" "slot_holder g operation_key r'"
      using that assms(3) r registry_inv_lookup [OF inv] by (simp_all add: slot_holder_def)
    with inv that(5) show ?thesis unfolding registry_inv_def by metis
  qed
  with registry_inv_current [OF inv r assms(3)] show ?thesis by auto
qed

lemma operation_slots_exclusive_witness:
  "rk_transport_generation (lr_key (hd (rg_records example_requests))) = 1"
  using operation_slots_exclusive [OF example_requests_reachable
      live_push_head(1,2) [OF example_live_push]] live_push_head(3) [OF example_live_push]
  by metis

text \<open>
  C30: Admission is safe for everybody else. Whatever \<open>accept\<close> is asked for, and whether it admits the
  request or raises, a live request whose heartbeat has not gone stale is afterwards in the
  registry exactly as it was.
\<close>

theorem live_requests_survive_accept:
  assumes "registry_reachable g" and "r \<in> set (rg_records g)" and "\<not> request_terminal r"
    and "now - lr_last_heartbeat r < rg_heartbeat_timeout_seconds g"
  shows "r \<in> set (rg_records (snd (request_accept now request_id q g)))"
proof -
  have inv: "registry_inv g" using assms(1) by (rule registry_reachable_inv)
  have "lookup g (lr_key r) = Some r" using assms(2) registry_inv_lookup [OF inv] by simp
  moreover have "guards now g (snd (request_accept now request_id q g))"
    using request_accept_steady [OF inv] by (simp add: ends_iff steady_def)
  ultimately have "lookup (snd (request_accept now request_id q g)) (lr_key r) = Some r"
    using assms(3,4) by (simp add: guards_def request_stale_def not_le)
  then show ?thesis by (blast dest: kget_SomeD)
qed

lemma live_requests_survive_accept_witness:
  "hd (rg_records example_requests) \<in> set (rg_records (snd (request_accept 10 (PInt 1)
     (example_accept ''git_push'' ExternalWrite ''push'') example_requests)))"
  by (rule live_requests_survive_accept [OF example_requests_reachable])
    (rule live_push_head [OF example_live_push])+

text \<open>
  C29: Terminal is final. No call other than \<open>accept\<close> changes the state, the reason or the time of a
  terminal request while its record is kept, nor does a delayed completion reopen it.
\<close>

theorem terminal_requests_final:
  assumes "registry_reachable g" and "r \<in> set (rg_records g)" and "request_terminal r"
    and "\<nexists>now i q. c = CAccept now i q"
    and "r' \<in> set (rg_records (request_run c g))" and "lr_key r' = lr_key r"
  shows "lr_state r' = lr_state r \<and> lr_terminal_reason r' = lr_terminal_reason r \<and>
    lr_terminal_at r' = lr_terminal_at r"
proof -
  let ?h = "request_run c g"
  have inv: "registry_inv g" using assms(1) by (rule registry_reachable_inv)
  have r: "lookup g (lr_key r) = Some r" using assms(2) registry_inv_lookup [OF inv] by simp
  have r': "lookup ?h (lr_key r) = Some r'"
    using assms(5,6) registry_inv_lookup [OF registry_run_inv [OF inv]] by metis
  have progress: "request_progress r r'"
  proof (cases "\<exists>now reason. c = CRetire now reason")
    case True
    then obtain now reason where c: "c = CRetire now reason" by blast
    have "swept (retires g) g ?h" using ends_retire [OF inv, of now reason] by (simp add: c ends_iff)
    then obtain v where "lookup g (lr_key r) = Some v" "retires g v = None \<and> r' = v \<or> request_progress v r'"
      using r' unfolding swept_def by blast
    with r show ?thesis by auto
  next
    case False
    have "settles g (snd (request_reconcile now probe g))" for now probe
      using ends_reconcile [OF inv] by (simp add: ends_iff)
    then have "settles g ?h" using False assms(4) request_call_settles [of c g] by (cases c) auto
    then obtain v where "lookup g (lr_key r) = Some v" "request_progress v r'"
      using r' unfolding settles_def by blast
    with r show ?thesis by simp
  qed
  from request_progress_terminal [OF this assms(3)] show ?thesis
    using progress assms(3) by (simp add: request_progress_def)
qed

lemma terminal_requests_final_witness:
  "lr_state (hd (rg_records (request_run (CDisconnect 9 (PInt 2) PNone ''late'')
     (request_run (CComplete 5 (PInt 2) PNone) example_requests)))) \<noteq> SOutcomeUnknown \<and>
   lr_state (rg_records (request_run (CDisconnect 9 (PInt 2) PNone ''late'')
     (request_run (CComplete 5 (PInt 2) PNone) example_requests)) ! 1) = SCompleted"
proof -
  let ?g = "request_run (CComplete 5 (PInt 2) PNone) example_requests"
  let ?c = "CDisconnect 9 (PInt 2) PNone ''late''"
  have "completed_read ?c ?g" by code_simp
  then obtain push read push' read' where g: "rg_records ?g = [push, read]"
    and g': "rg_records (request_run ?c ?g) = [push', read']" and read: "request_terminal read"
    "lr_key read' = lr_key read" "lr_state read = SCompleted" "lr_state push' \<noteq> SOutcomeUnknown"
    by (auto simp: completed_read_def split: list.splits)
  have "registry_reachable ?g" by (intro registry_step example_requests_reachable)
  moreover have "read \<in> set (rg_records ?g)" by (simp only: g) simp
  moreover have "\<nexists>now i q. ?c = CAccept now i q" by simp
  moreover have "read' \<in> set (rg_records (request_run ?c ?g))" by (simp only: g') simp
  ultimately have "lr_state read' = lr_state read"
    using terminal_requests_final read(1,2) by blast
  with read show ?thesis by (simp only: g') simp
qed

text \<open>
  Losing the transport loses nothing silently. After \<open>retire_generation\<close> the generation is the next
  one, the number returned is that of the live requests, none is live any more, and each record
  still kept that was live is now \<open>OUTCOME_UNKNOWN\<close> if its side effect had started and
  \<open>DISCONNECTED\<close> otherwise, while the others are unchanged.
\<close>

theorem retire_generation_outcomes:
  assumes "registry_reachable g"
  shows "fst (retire_generation now reason g) = Inr (length (active_records g)) \<and>
    rg_generation (snd (retire_generation now reason g)) = rg_generation g + 1 \<and>
    active_records (snd (retire_generation now reason g)) = [] \<and>
    (\<forall>r'\<in>set (rg_records (snd (retire_generation now reason g))). \<exists>r\<in>set (rg_records g).
      lr_key r' = lr_key r \<and>
      (if request_terminal r then r' = r
       else lr_state r' = (if lr_side_effect_started r then SOutcomeUnknown else SDisconnected)))"
proof -
  let ?h = "snd (retire_generation now reason g)"
  have inv: "registry_inv g" using assms by (rule registry_reachable_inv)
  have post: "fst (retire_generation now reason g) = Inr (length (active_records g)) \<and> registry_inv ?h \<and>
    rg_generation ?h = rg_generation g + 1 \<and> active_records ?h = [] \<and> swept (retires g) g ?h"
    using ends_retire [OF inv, of now reason] by (simp add: ends_iff)
  have "\<exists>r\<in>set (rg_records g). lr_key r' = lr_key r \<and> (if request_terminal r then r' = r
      else lr_state r' = (if lr_side_effect_started r then SOutcomeUnknown else SDisconnected))"
    if r': "r' \<in> set (rg_records ?h)" for r'
  proof -
    have "lookup ?h (lr_key r') = Some r'" using post r' registry_inv_lookup by blast
    then obtain r where r: "lookup g (lr_key r') = Some r"
      "retires g r = None \<and> r' = r \<or> retires g r = Some (lr_state r') \<and> request_progress r r'"
      using post unfolding swept_def by blast
    have "r \<in> set (rg_records g)" "lr_key r = lr_key r'" using r(1) by (auto dest: kget_SomeD)
    moreover have "rk_transport_generation (lr_key r) = rg_generation g" if "\<not> request_terminal r"
      using registry_inv_current [OF inv r(1) that] \<open>lr_key r = lr_key r'\<close> by simp
    ultimately show ?thesis
      using r(2) by (intro bexI [of _ r]) (auto simp: retires_def lost_state_def split: if_splits)
  qed
  with post show ?thesis by blast
qed

lemma retire_generation_outcomes_witness:
  "fst (retire_generation 5 ''reconnect'' example_requests) = Inr (length (active_records example_requests)) \<and>
   request_summary (snd (retire_generation 5 ''reconnect'' example_requests)) =
     [(PInt 1, ''git_push'', ''OUTCOME_UNKNOWN'', True), (PInt 2, ''read_file'', ''DISCONNECTED'', False)]"
proof -
  have "request_summary (snd (retire_generation 5 ''reconnect'' example_requests)) =
     [(PInt 1, ''git_push'', ''OUTCOME_UNKNOWN'', True), (PInt 2, ''read_file'', ''DISCONNECTED'', False)]"
    by code_simp
  with retire_generation_outcomes [OF example_requests_reachable, of 5 "''reconnect''"] show ?thesis by blast
qed

text \<open>
  C31: Reconciliation settles what it can and only that. After \<open>reconcile\<close> every record is either
  unchanged, and then not to be reconciled, or in the state that the policy \<open>reconciled\<close> gives
  for it; a live request that the policy leaves alone is still there, and a live request is
  stale with a started side effect only while its process is reported alive.
\<close>

theorem reconcile_follows_policy:
  assumes "registry_reachable g"
  shows "isOk (fst (request_reconcile now probe g)) \<and>
    (\<forall>r'\<in>set (rg_records (snd (request_reconcile now probe g))). \<exists>r\<in>set (rg_records g).
      lr_key r' = lr_key r \<and> (if reconciled g now probe r = None then r' = r
        else reconciled g now probe r = Some (lr_state r')) \<and>
      (request_terminal r' \<or> \<not> request_stale g now r' \<or> \<not> lr_side_effect_started r' \<or>
        (\<exists>check p. probe = Some check \<and> lr_process_session_id r' = Some p \<and> process_alive check p))) \<and>
    (\<forall>r\<in>set (rg_records g). \<not> request_terminal r \<longrightarrow> reconciled g now probe r = None \<longrightarrow>
      r \<in> set (rg_records (snd (request_reconcile now probe g))))"
proof -
  let ?h = "snd (request_reconcile now probe g)"
  have inv: "registry_inv g" using assms by (rule registry_reachable_inv)
  have post: "isOk (fst (request_reconcile now probe g))" "settles g ?h" "swept (reconciled g now probe) g ?h"
    using ends_reconcile [OF inv, of now probe] by (simp_all add: ends_iff)
  have "\<exists>r\<in>set (rg_records g). lr_key r' = lr_key r \<and> (if reconciled g now probe r = None then r' = r
        else reconciled g now probe r = Some (lr_state r')) \<and>
      (request_terminal r' \<or> \<not> request_stale g now r' \<or> \<not> lr_side_effect_started r' \<or>
        (\<exists>check p. probe = Some check \<and> lr_process_session_id r' = Some p \<and> process_alive check p))"
    if r': "r' \<in> set (rg_records ?h)" for r'
  proof -
    have "lookup ?h (lr_key r') = Some r'"
      using settles_inv [OF post(2) inv] r' registry_inv_lookup by blast
    then obtain r where r: "lookup g (lr_key r') = Some r"
      "reconciled g now probe r = None \<and> r' = r \<or>
       reconciled g now probe r = Some (lr_state r') \<and> request_progress r r'"
      using post(3) unfolding swept_def by blast
    have "r \<in> set (rg_records g)" "lr_key r = lr_key r'" using r(1) by (auto dest: kget_SomeD)
    moreover have "request_terminal r'" if "reconciled g now probe r = Some (lr_state r')"
      using that by (auto simp: reconciled_def request_terminal_def terminal_states_def split: if_splits option.splits)
    moreover have "request_terminal r \<or> \<not> request_stale g now r \<or> \<not> lr_side_effect_started r \<or>
        (\<exists>check p. probe = Some check \<and> lr_process_session_id r = Some p \<and> process_alive check p)"
      if "reconciled g now probe r = None"
      using that by (auto simp: reconciled_def bound_process_def split: if_splits option.splits)
    ultimately show ?thesis using r(2) by (intro bexI [of _ r]) auto
  qed
  moreover have "r \<in> set (rg_records ?h)"
    if "r \<in> set (rg_records g)" "\<not> request_terminal r" "reconciled g now probe r = None" for r
    using that registry_inv_lookup [OF inv] post(3) unfolding swept_def by (meson kget_SomeD)
  ultimately show ?thesis using post(1) by blast
qed

lemma reconcile_follows_policy_witness:
  "isOk (fst (request_reconcile 100 (Some (\<lambda>_. Some False)) example_requests)) \<and>
   request_summary (snd (request_reconcile 100 (Some (\<lambda>_. Some False)) example_requests)) =
     [(PInt 1, ''git_push'', ''OUTCOME_UNKNOWN'', True), (PInt 2, ''read_file'', ''DISCONNECTED'', False)]"
proof -
  have "request_summary (snd (request_reconcile 100 (Some (\<lambda>_. Some False)) example_requests)) =
     [(PInt 1, ''git_push'', ''OUTCOME_UNKNOWN'', True), (PInt 2, ''read_file'', ''DISCONNECTED'', False)]"
    by code_simp
  with reconcile_follows_policy [OF example_requests_reachable, of 100 "Some (\<lambda>_. Some False)"]
  show ?thesis by blast
qed

section \<open>Observations\<close>

text \<open>
  A comment of \<open>accept\<close> says that the terminal record of a recycled identifier is kept for
  diagnostics when the tool differs. It is replaced: the unknown outcome of the push is gone.
\<close>

lemma unknown_outcome_overwritten:
  "request_summary (fold request_run [CDisconnect 5 (PInt 1) PNone ''lost'',
       CAccept 6 (PInt 1) (example_accept ''read_file'' ReadOnly ''r'')] example_requests) =
     [(PInt 1, ''read_file'', ''ACCEPTED'', False), (PInt 2, ''read_file'', ''ACCEPTED'', False)]"
  by code_simp

text \<open>
  \<open>mark_side_effect_started\<close> does not look at the state: a side effect reported after the request was
  disconnected is recorded, and the record stays \<open>DISCONNECTED\<close>, not \<open>OUTCOME_UNKNOWN\<close>.
\<close>

lemma late_side_effect_stays_disconnected:
  "request_summary (fold request_run [CDisconnect 5 (PInt 2) PNone ''lost'', CSideEffect 6 (PInt 2) PNone]
       example_requests) =
     [(PInt 1, ''git_push'', ''RUNNING'', True), (PInt 2, ''read_file'', ''DISCONNECTED'', True)]"
  by code_simp

end
