(* ===== verification/GitHunks.thy ===== *)
theory GitHunks
  imports JsonReader
begin

text \<open>
  Selection of hunks of one file's diff, \<open>src/src/chatgpt_dev_mcp/git_hunks.py\<close>: splitting a
  diff into its header and hunks, and building the patch of a chosen set of hunks. SHA-256 is the
  parameter \<open>sha\<close>.
\<close>

section \<open>Lines and headers\<close>

text \<open>\<open>text.splitlines(keepends=True)\<close>.\<close>

fun split_keep_aux :: "string \<Rightarrow> string \<Rightarrow> string list" where
  "split_keep_aux cur [] = (if cur = [] then [] else [rev cur])"
| "split_keep_aux cur (c # cs) =
     (if c = CHR 0x0D then
        (case cs of
           d # ds \<Rightarrow>
             if d = CHR 0x0A then (rev cur @ [c, d]) # split_keep_aux [] ds
             else (rev cur @ [c]) # split_keep_aux [] (d # ds)
         | [] \<Rightarrow> [rev cur @ [c]])
      else if is_line_break c then (rev cur @ [c]) # split_keep_aux [] cs
      else split_keep_aux (c # cur) cs)"

definition split_keep :: "string \<Rightarrow> string list" where
  "split_keep s = split_keep_aux [] s"

fun py_contains :: "string \<Rightarrow> string \<Rightarrow> bool" where
  "py_contains pat [] = (pat = [])"
| "py_contains pat (c # cs) = (prefix pat (c # cs) \<or> py_contains pat cs)"

text \<open>\<open>line.rstrip("\r\n")\<close>.\<close>

definition strip_line_end :: "string \<Rightarrow> string" where
  "strip_line_end s = rev (dropWhile (\<lambda>c. c \<in> {CHR 0x0A, CHR 0x0D}) (rev s))"

definition drop_literal :: "string \<Rightarrow> string \<Rightarrow> string option" where
  "drop_literal lit s = (if prefix lit s then Some (drop (length lit) s) else None)"

text \<open>\<open>(\d+)(?:,(\d+))?\<close> with the count 1 when it is absent.\<close>

definition hunk_range :: "string \<Rightarrow> ((nat \<times> nat) \<times> string) option" where
  "hunk_range s =
     (case span_digits s of (ds, u) \<Rightarrow>
        if ds = [] then None
        else
          (case closes CHR '','' u of
             None \<Rightarrow> Some ((digits_value ds, 1), u)
           | Some v \<Rightarrow>
               (case span_digits v of (es, w) \<Rightarrow>
                  if es = [] then Some ((digits_value ds, 1), u)
                  else Some ((digits_value ds, digits_value es), w))))"

text \<open>\<open>_HUNK_HEADER_RE\<close> under \<open>fullmatch\<close>.\<close>

definition hunk_header :: "string \<Rightarrow> ((nat \<times> nat) \<times> (nat \<times> nat)) option" where
  "hunk_header s =
     (case drop_literal ''@@ -'' s of
        None \<Rightarrow> None
      | Some s1 \<Rightarrow>
          (case hunk_range s1 of
             None \<Rightarrow> None
           | Some (old, s2) \<Rightarrow>
               (case drop_literal '' +'' s2 of
                  None \<Rightarrow> None
                | Some s3 \<Rightarrow>
                    (case hunk_range s3 of
                       None \<Rightarrow> None
                     | Some (new, s4) \<Rightarrow>
                         (case drop_literal '' @@'' s4 of
                            None \<Rightarrow> None
                          | Some s5 \<Rightarrow> if s5 = [] \<or> hd s5 = CHR '' '' then Some (old, new) else None)))))"

section \<open>Diffs of one file\<close>

datatype hunk_error = GitHunkSelectionError string string

record git_hunk =
  gh_hunk_id :: string
  gh_path :: string
  gh_header :: string
  gh_text :: string
  gh_old_start :: nat
  gh_old_count :: nat
  gh_new_start :: nat
  gh_new_count :: nat

record hunk_selection =
  hs_patch :: string
  hs_patch_hash :: string
  hs_hunk_ids :: "string list"
  hs_paths :: "string list"

definition unsupported_prefixes :: "string list" where
  "unsupported_prefixes =
     [''new file mode '', ''deleted file mode '', ''old mode '', ''new mode '', ''similarity index '',
      ''dissimilarity index '', ''rename from '', ''rename to '', ''copy from '', ''copy to '',
      ''Binary files '', ''GIT binary patch'']"

definition stable_hunk_id :: "(string \<Rightarrow> string) \<Rightarrow> string \<Rightarrow> string \<Rightarrow> string" where
  "stable_hunk_id sha path body = ''hunk:'' @ sha (path @ [CHR 0x00] @ body)"

definition hunk_path :: "pyval \<Rightarrow> hunk_error + string" where
  "hunk_path path =
     (let invalid = Inl (GitHunkSelectionError ''GIT_HUNK_PATH_INVALID''
        ''path must be a non-empty NUL-free string.'') in
      case path of PStr p \<Rightarrow> if p = [] \<or> has_nul p then invalid else Inr p | _ \<Rightarrow> invalid)"

abbreviation is_hunk_start :: "string \<Rightarrow> bool" where
  "is_hunk_start line \<equiv> prefix ''@@ '' line"

definition split_single_file_diff :: "pyval \<Rightarrow> pyval \<Rightarrow> hunk_error + string \<times> string list" where
  "split_single_file_diff path diff_text =
     (let invalid = (\<lambda>m. Inl (GitHunkSelectionError ''GIT_HUNK_DIFF_INVALID'' m));
          unsupported = (\<lambda>m. Inl (GitHunkSelectionError ''GIT_HUNK_UNSUPPORTED_CHANGE'' m)) in
      bindE (hunk_path path) (\<lambda>_.
      case diff_text of
        PStr s \<Rightarrow>
          if s = [] then invalid ''diff text is required.''
          else
            let lines = split_keep s in
            if lines = [] \<or> \<not> prefix ''diff --git '' (hd lines)
            then invalid ''expected one ordinary Git file diff.''
            else if length (filter (prefix ''diff --git '') lines) \<noteq> 1
            then invalid ''hunk parser accepts exactly one file diff.''
            else if list_ex (\<lambda>line. list_ex (\<lambda>p. prefix p (strip_line_end line)) unsupported_prefixes) lines
            then unsupported ''hunk staging supports only ordinary tracked text modifications.''
            else
              let head = takeWhile (\<lambda>l. \<not> is_hunk_start l) lines; rest = dropWhile (\<lambda>l. \<not> is_hunk_start l) lines in
              if rest = [] then invalid ''ordinary text diff contains no selectable hunks.''
              else if \<not> py_contains ''--- '' (concat head) \<or> \<not> py_contains ''+++ '' (concat head)
              then invalid ''ordinary text diff is missing file headers.''
              else if py_contains ''--- /dev/null'' (concat head) \<or> py_contains ''+++ /dev/null'' (concat head)
              then unsupported ''new and deleted files are not supported by hunk staging.''
              else Inr (concat head, rest)
      | _ \<Rightarrow> invalid ''diff text is required.''))"

text \<open>The lines from one hunk header to the next.\<close>

function group_hunks :: "string list \<Rightarrow> string list list" where
  "group_hunks [] = []"
| "group_hunks (l # ls) =
     (l # takeWhile (\<lambda>x. \<not> is_hunk_start x) ls) # group_hunks (dropWhile (\<lambda>x. \<not> is_hunk_start x) ls)"
  by pat_completeness auto
termination by (relation "measure length") (auto simp: le_imp_less_Suc length_dropWhile_le)

definition parse_hunk :: "(string \<Rightarrow> string) \<Rightarrow> string \<Rightarrow> string list \<Rightarrow> hunk_error + git_hunk" where
  "parse_hunk sha path ls =
     (let body = concat ls; header = strip_line_end (hd ls) in
      case hunk_header header of
        None \<Rightarrow> Inl (GitHunkSelectionError ''GIT_HUNK_DIFF_INVALID'' ''malformed unified diff hunk header.'')
      | Some ((old_start, old_count), (new_start, new_count)) \<Rightarrow>
          if list_ex (\<lambda>line. line = [] \<or> hd line \<notin> {CHR '' '', CHR ''+'', CHR ''-'', CHR 0x5C}) (tl ls)
          then Inl (GitHunkSelectionError ''GIT_HUNK_DIFF_INVALID'' ''malformed unified diff hunk body.'')
          else Inr \<lparr>gh_hunk_id = stable_hunk_id sha path body, gh_path = path, gh_header = header,
            gh_text = body, gh_old_start = old_start, gh_old_count = old_count,
            gh_new_start = new_start, gh_new_count = new_count\<rparr>)"

definition parse_hunks :: "(string \<Rightarrow> string) \<Rightarrow> string \<Rightarrow> string list \<Rightarrow> hunk_error + git_hunk list" where
  "parse_hunks sha path ls =
     (if ls = [] \<or> \<not> is_hunk_start (hd ls)
      then Inl (GitHunkSelectionError ''GIT_HUNK_DIFF_INVALID'' ''malformed unified diff hunk stream.'')
      else mapE (parse_hunk sha path) (group_hunks ls))"

definition enumerate_file_hunks :: "(string \<Rightarrow> string) \<Rightarrow> pyval \<Rightarrow> pyval \<Rightarrow> hunk_error + git_hunk list" where
  "enumerate_file_hunks sha path diff_text =
     bindE (hunk_path path) (\<lambda>p.
     bindE (split_single_file_diff path diff_text) (\<lambda>(_, ls). parse_hunks sha p ls))"

text \<open>\<open>tuple(hunk_ids)\<close>, where a string is refused and a value that is no collection raises.\<close>

definition requested_ids :: "pyval \<Rightarrow> hunk_error + string list" where
  "requested_ids hunk_ids =
     (let invalid = GitHunkSelectionError ''GIT_HUNK_IDS_INVALID'' ''hunk_ids must be a non-empty collection.'';
          vs = (case hunk_ids of PList vs \<Rightarrow> vs | PDict d \<Rightarrow> map (\<lambda>kv. PStr (fst kv)) d | _ \<Rightarrow> []) in
      if vs = [] then Inl invalid
      else mapE (\<lambda>v. case v of PStr s \<Rightarrow> if s = [] then Inl invalid else Inr s | _ \<Rightarrow> Inl invalid) vs)"

definition patch_header :: "string \<Rightarrow> string" where
  "patch_header raw_prefix = concat (filter (\<lambda>line. \<not> prefix ''index '' line) (split_keep raw_prefix))"

definition build_hunk_patch ::
  "(string \<Rightarrow> string) \<Rightarrow> pyval \<Rightarrow> pyval \<Rightarrow> pyval \<Rightarrow> hunk_error + hunk_selection" where
  "build_hunk_patch sha path diff_text hunk_ids =
     bindE (hunk_path path) (\<lambda>p.
     bindE (requested_ids hunk_ids) (\<lambda>requested.
     if \<not> distinct requested
     then Inl (GitHunkSelectionError ''GIT_HUNK_DUPLICATE'' ''duplicate hunk ids are not allowed.'')
     else
     bindE (split_single_file_diff path diff_text) (\<lambda>(raw_prefix, _).
     bindE (enumerate_file_hunks sha path diff_text) (\<lambda>available.
     if list_ex (\<lambda>i. i \<notin> set (map gh_hunk_id available)) requested
     then Inl (GitHunkSelectionError ''GIT_HUNK_UNKNOWN'' ''one or more hunk ids do not match the current diff.'')
     else
       let head = patch_header raw_prefix;
           selected = filter (\<lambda>h. gh_hunk_id h \<in> set requested) available;
           patch = head @ concat (map gh_text selected) in
       Inr \<lparr>hs_patch = patch, hs_patch_hash = sha patch, hs_hunk_ids = map gh_hunk_id selected,
         hs_paths = [p]\<rparr>))))"

section \<open>Splitting loses nothing\<close>

lemma concat_split_keep_aux: "concat (split_keep_aux cur s) = rev cur @ s"
  by (induction cur s rule: split_keep_aux.induct) (auto split: list.split)

lemma concat_split_keep: "concat (split_keep s) = s"
  by (simp add: split_keep_def concat_split_keep_aux)

lemma concat_group_hunks: "concat (group_hunks ls) = ls"
  by (induction ls rule: group_hunks.induct) simp_all

lemma parse_hunk_text: "parse_hunk sha path ls = Inr h \<Longrightarrow> gh_text h = concat ls"
  by (auto simp: parse_hunk_def Let_def split: option.splits if_splits)

lemma parse_hunks_text: "parse_hunks sha path ls = Inr hs \<Longrightarrow> concat (map gh_text hs) = concat ls"
proof -
  have "mapE (parse_hunk sha path) gs = Inr hs \<Longrightarrow> map gh_text hs = map concat gs" for gs
    by (induction gs arbitrary: hs) (auto simp: result_simps parse_hunk_text)
  moreover have "concat (map concat gs) = concat (concat gs)" for gs :: "string list list"
    by (induction gs) simp_all
  ultimately show "parse_hunks sha path ls = Inr hs \<Longrightarrow> concat (map gh_text hs) = concat ls"
    by (simp add: parse_hunks_def concat_group_hunks split: if_splits)
qed

lemma split_single_file_diff_Inr:
  assumes "split_single_file_diff path diff = Inr (head, ls)"
  shows "\<exists>s. diff = PStr s \<and> s = head @ concat ls \<and>
    head = concat (takeWhile (\<lambda>l. \<not> is_hunk_start l) (split_keep s)) \<and>
    ls = dropWhile (\<lambda>l. \<not> is_hunk_start l) (split_keep s) \<and> ls \<noteq> []"
proof -
  from assms obtain s where s: "diff = PStr s"
    "head = concat (takeWhile (\<lambda>l. \<not> is_hunk_start l) (split_keep s))"
    "ls = dropWhile (\<lambda>l. \<not> is_hunk_start l) (split_keep s)" "ls \<noteq> []"
    by (auto simp: split_single_file_diff_def Let_def result_simps split: pyval.splits if_splits)
  have "head @ concat ls = concat (split_keep s)"
    unfolding s(2,3) concat_append [symmetric] by simp
  with s show ?thesis by (simp add: concat_split_keep)
qed

section \<open>Selected hunks read as hunks again\<close>

text \<open>A line with its line end, and the lines that splitting returns.\<close>

definition ended_line :: "string \<Rightarrow> bool" where
  "ended_line l \<longleftrightarrow> (\<exists>b e. l = b @ e \<and> (\<forall>c\<in>set b. \<not> is_line_break c) \<and>
     (e = [CHR 0x0D, CHR 0x0A] \<or> (\<exists>c. e = [c] \<and> is_line_break c)))"

definition line_before :: "string \<Rightarrow> string \<Rightarrow> bool" where
  "line_before l m \<longleftrightarrow> ended_line l \<and> m \<noteq> [] \<and> (last l = CHR 0x0D \<longrightarrow> hd m \<noteq> CHR 0x0A)"

definition last_line :: "string \<Rightarrow> bool" where
  "last_line l \<longleftrightarrow> l \<noteq> [] \<and> (ended_line l \<or> (\<forall>c\<in>set l. \<not> is_line_break c))"

definition lines_ok :: "string list \<Rightarrow> bool" where
  "lines_ok ls \<longleftrightarrow> successively line_before ls \<and> (ls \<noteq> [] \<longrightarrow> last_line (last ls))"

lemma line_break_chars [simp]: "is_line_break CHR 0x0D" "is_line_break CHR 0x0A"
  by (simp_all add: is_line_break_def)

lemma split_keep_aux_ended:
  assumes "\<forall>c\<in>set b. \<not> is_line_break c" "e = [CHR 0x0D, CHR 0x0A] \<or> (\<exists>c. e = [c] \<and> is_line_break c)"
    "last e = CHR 0x0D \<longrightarrow> s = [] \<or> hd s \<noteq> CHR 0x0A"
  shows "split_keep_aux cur (b @ e @ s) = (rev cur @ b @ e) # split_keep_aux [] s"
  using assms
proof (induction b arbitrary: cur)
  case Nil
  from Nil(2) show ?case
  proof (elim disjE exE conjE)
    assume "e = [CHR 0x0D, CHR 0x0A]"
    then show ?thesis by simp
  next
    fix c assume c: "e = [c]" "is_line_break c"
    show ?thesis
    proof (cases "c = CHR 0x0D")
      case True
      with c Nil(3) show ?thesis by (cases s) simp_all
    next
      case False
      with c show ?thesis by simp
    qed
  qed
next
  case (Cons c b)
  then have "c \<noteq> CHR 0x0D" "\<not> is_line_break c" by auto
  with Cons show ?case by simp
qed

lemma split_keep_ended:
  assumes "ended_line l" "last l = CHR 0x0D \<longrightarrow> s = [] \<or> hd s \<noteq> CHR 0x0A"
  shows "split_keep (l @ s) = l # split_keep s"
proof -
  from assms(1) obtain b e where l: "l = b @ e" "\<forall>c\<in>set b. \<not> is_line_break c"
    "e = [CHR 0x0D, CHR 0x0A] \<or> (\<exists>c. e = [c] \<and> is_line_break c)" by (auto simp: ended_line_def)
  then have "e \<noteq> []" by auto
  with l assms(2) show ?thesis
    using split_keep_aux_ended [of b e s "[]"] by (simp add: split_keep_def)
qed

lemma split_keep_unended:
  assumes "l \<noteq> []" "\<forall>c\<in>set l. \<not> is_line_break c" shows "split_keep l = [l]"
proof -
  have "split_keep_aux cur l = (if rev cur @ l = [] then [] else [rev cur @ l])" for cur
    using assms(2) by (induction l arbitrary: cur) auto
  with assms(1) show ?thesis by (simp add: split_keep_def)
qed

lemma lines_ok_Cons:
  "lines_ok (l # ls) \<longleftrightarrow> (if ls = [] then last_line l else line_before l (hd ls) \<and> lines_ok ls)"
  by (cases ls) (auto simp: lines_ok_def)

lemma split_keep_concat: "lines_ok ls \<Longrightarrow> split_keep (concat ls) = ls"
proof (induction ls)
  case (Cons l ls)
  show ?case
  proof (cases ls)
    case Nil
    with Cons.prems have "last_line l" by (simp add: lines_ok_Cons)
    then show ?thesis
      using split_keep_ended [of l "[]"] split_keep_unended [of l] Nil
      by (auto simp: last_line_def split_keep_def)
  next
    case (Cons m ms)
    with Cons.prems have "line_before l m" "lines_ok ls" by (simp_all add: lines_ok_Cons)
    moreover from this have "concat ls \<noteq> []" "hd (concat ls) = hd m"
      using Cons by (simp_all add: line_before_def)
    ultimately show ?thesis
      using split_keep_ended [of l "concat ls"] Cons.IH by (simp add: line_before_def)
  qed
qed (simp add: split_keep_def)

lemma split_keep_aux_first:
  "cur \<noteq> [] \<Longrightarrow> split_keep_aux cur t \<noteq> [] \<and> hd (split_keep_aux cur t) \<noteq> [] \<and>
     hd (hd (split_keep_aux cur t)) = last cur"
proof (induction cur t rule: split_keep_aux.induct)
  case (1 cur)
  then show ?case by (simp add: hd_rev)
next
  case (2 cur c cs)
  from 2(5) have first: "rev cur @ e \<noteq> [] \<and> hd (rev cur @ e) = last cur" for e by (simp add: hd_append hd_rev)
  show ?case
  proof (cases "c = CHR 0x0D")
    case True
    with first show ?thesis by (cases cs) simp_all
  next
    case False
    with first 2(4,5) show ?thesis by (cases "is_line_break c") simp_all
  qed
qed

lemma lines_ok_split_aux:
  "\<forall>c\<in>set cur. \<not> is_line_break c \<Longrightarrow> lines_ok (split_keep_aux cur s) \<and>
     (cur = [] \<longrightarrow> s \<noteq> [] \<longrightarrow> split_keep_aux cur s \<noteq> [] \<and> hd (split_keep_aux cur s) \<noteq> [] \<and>
        hd (hd (split_keep_aux cur s)) = hd s)"
proof (induction cur s rule: split_keep_aux.induct)
  case (1 cur)
  then show ?case by (auto simp: lines_ok_def last_line_def)
next
  case (2 cur c cs)
  have line: "lines_ok ((rev cur @ e) # split_keep_aux [] t)"
    if "lines_ok (split_keep_aux [] t)"
      "t \<noteq> [] \<longrightarrow> split_keep_aux [] t \<noteq> [] \<and> hd (split_keep_aux [] t) \<noteq> [] \<and> hd (hd (split_keep_aux [] t)) = hd t"
      "e = [CHR 0x0D, CHR 0x0A] \<or> (\<exists>c. e = [c] \<and> is_line_break c)"
      "last e = CHR 0x0D \<longrightarrow> t = [] \<or> hd t \<noteq> CHR 0x0A" for e t
  proof -
    have "ended_line (rev cur @ e)"
      unfolding ended_line_def by (intro exI [of _ "rev cur"] exI [of _ e]) (use 2(5) that(3) in simp)
    moreover have "e \<noteq> []" using that(3) by auto
    ultimately have line: "ended_line (rev cur @ e)" "rev cur @ e \<noteq> []" "last (rev cur @ e) = last e" by simp_all
    show ?thesis
    proof (cases "t = []")
      case True
      with line show ?thesis by (simp add: lines_ok_Cons last_line_def)
    next
      case False
      with that(2,4) line have "line_before (rev cur @ e) (hd (split_keep_aux [] t))"
        by (simp only: line_before_def) simp
      with that(1,2) False show ?thesis by (simp add: lines_ok_Cons)
    qed
  qed
  show ?case
  proof (cases "c = CHR 0x0D")
    case True
    show ?thesis
    proof (cases cs)
      case Nil
      then show ?thesis
        using 2(5) True line [of "[]" "[CHR 0x0D]"] by (auto simp: lines_ok_def)
    next
      case (Cons d ds)
      show ?thesis
      proof (cases "d = CHR 0x0A")
        case lf: True
        show ?thesis
          using line [of ds "[CHR 0x0D, CHR 0x0A]"] 2(1) [OF True Cons lf] True Cons lf by simp
      next
        case False
        show ?thesis
          using line [of "d # ds" "[CHR 0x0D]"] 2(2) [OF True Cons False] True Cons False by simp
      qed
    qed
  next
    case False
    show ?thesis
    proof (cases "is_line_break c")
      case True
      show ?thesis
        using line [of cs "[c]"] 2(3) [OF False True] False True by simp
    next
      case plain: False
      have "split_keep_aux [c] cs \<noteq> [] \<and> hd (split_keep_aux [c] cs) \<noteq> [] \<and> hd (hd (split_keep_aux [c] cs)) = c"
        using split_keep_aux_first [of "[c]" cs] by simp
      then show ?thesis using 2(4) [OF False plain] 2(5) False plain by auto
    qed
  qed
qed

lemma lines_ok_split: "lines_ok (split_keep s)"
  using lines_ok_split_aux [of "[]" s] by (simp add: split_keep_def)

lemma lines_ok_append: "lines_ok (xs @ ys) \<Longrightarrow> lines_ok ys"
  by (auto simp: lines_ok_def successively_append_iff)

lemma lines_ok_dropWhile: "lines_ok ls \<Longrightarrow> lines_ok (dropWhile P ls)"
  using lines_ok_append [of "takeWhile P ls"] by simp

text \<open>A hunk's lines: a header and lines that start no hunk.\<close>

definition hunk_lines :: "string list \<Rightarrow> bool" where
  "hunk_lines g \<longleftrightarrow> (case g of [] \<Rightarrow> False | l # ls \<Rightarrow> is_hunk_start l \<and> (\<forall>x\<in>set ls. \<not> is_hunk_start x))"

lemma group_hunks_lines: "ls = [] \<or> is_hunk_start (hd ls) \<Longrightarrow> g \<in> set (group_hunks ls) \<Longrightarrow> hunk_lines g"
proof (induction ls rule: group_hunks.induct)
  case (2 l ls)
  have "dropWhile (\<lambda>x. \<not> is_hunk_start x) ls = [] \<or> is_hunk_start (hd (dropWhile (\<lambda>x. \<not> is_hunk_start x) ls))"
    using hd_dropWhile [of "\<lambda>x. \<not> is_hunk_start x" ls] by blast
  note rest = "2.IH" [OF this]
  from 2(3) consider "g = l # takeWhile (\<lambda>x. \<not> is_hunk_start x) ls"
    | "g \<in> set (group_hunks (dropWhile (\<lambda>x. \<not> is_hunk_start x) ls))"
    unfolding group_hunks.simps by (metis set_ConsD)
  then show ?case
  proof cases
    case 1
    with 2(2) show ?thesis by (simp add: hunk_lines_def) (blast dest: set_takeWhileD)
  qed (rule rest)
qed simp

lemma group_hunks_concat: "(\<forall>g\<in>set gs. hunk_lines g) \<Longrightarrow> group_hunks (concat gs) = gs"
proof (induction gs)
  case (Cons g gs)
  then obtain l ls where g: "g = l # ls" "\<forall>x\<in>set ls. \<not> is_hunk_start x"
    by (cases g) (auto simp: hunk_lines_def)
  have rest: "takeWhile (\<lambda>x. \<not> is_hunk_start x) (concat gs) = [] \<and> dropWhile (\<lambda>x. \<not> is_hunk_start x) (concat gs) = concat gs"
  proof (cases gs)
    case (Cons g' gs')
    then obtain l' ls' where "g' = l' # ls'" "is_hunk_start l'"
      using Cons.prems by (cases g') (auto simp: hunk_lines_def)
    with Cons show ?thesis by simp
  qed simp
  with Cons g show ?case by simp
qed simp

lemma hunk_lines_first: "hunk_lines g \<Longrightarrow> g \<noteq> [] \<and> hd g \<noteq> [] \<and> hd (hd g) \<noteq> CHR 0x0A"
  by (cases g; cases "hd g") (auto simp: hunk_lines_def)

lemma lines_ok_groups:
  "subseq gs' gs \<Longrightarrow> lines_ok (concat gs) \<Longrightarrow> (\<forall>g\<in>set gs. hunk_lines g) \<Longrightarrow> lines_ok (concat gs')"
proof (induction rule: list_emb.induct)
  case (list_emb_Cons gs' gs g)
  then show ?case using lines_ok_append by simp
next
  case (list_emb_Cons2 g g' gs' gs)
  then have g: "g = g'" "g \<noteq> []" using hunk_lines_first by auto
  have tail: "lines_ok (concat gs')" using list_emb_Cons2 lines_ok_append by simp
  have whole: "successively line_before g" "concat gs = [] \<or> line_before (last g) (hd (concat gs))"
    "concat gs = [] \<longrightarrow> last_line (last g)"
    using list_emb_Cons2.prems(1) g by (auto simp: lines_ok_def successively_append_iff)
  show ?case
  proof (cases gs')
    case Nil
    have "last_line (last g)"
    proof (cases "concat gs = []")
      case False
      with whole(2) have "line_before (last g) (hd (concat gs))" by blast
      then have "ended_line (last g)" by (simp add: line_before_def)
      moreover from this have "last g \<noteq> []" by (auto simp: ended_line_def)
      ultimately show ?thesis by (simp add: last_line_def)
    qed (use whole in simp)
    with Nil whole(1) g show ?thesis by (simp add: lines_ok_def)
  next
    case (Cons h hs)
    then have "h \<in> set gs" using list_emb_Cons2.hyps(2) by (auto dest: list_emb_set)
    then have h: "h \<noteq> [] \<and> hd h \<noteq> [] \<and> hd (hd h) \<noteq> CHR 0x0A" and "concat gs \<noteq> []"
      using list_emb_Cons2.prems(2) hunk_lines_first by auto
    with whole(2) have "line_before (last g) (hd (concat gs))" by blast
    then have "ended_line (last g)" by (simp add: line_before_def)
    with h have "line_before (last g) (hd (concat gs'))" by (simp add: line_before_def Cons)
    with tail whole(1) g Cons h show ?thesis
      by (auto simp: lines_ok_def successively_append_iff)
  qed
qed (simp add: lines_ok_def)

lemma mapE_filter:
  assumes "mapE f xs = Inr ys"
  shows "\<exists>xs'. subseq xs' xs \<and> mapE f xs' = Inr (filter P ys)"
  using assms
proof (induction xs arbitrary: ys)
  case (Cons x xs)
  then obtain y ys' where y: "f x = Inr y" "mapE f xs = Inr ys'" "ys = y # ys'" by (auto simp: result_simps)
  with Cons.IH obtain xs' where xs': "subseq xs' xs" "mapE f xs' = Inr (filter P ys')" by blast
  show ?case
  proof (cases "P y")
    case True
    with xs' y show ?thesis by (intro exI [of _ "x # xs'"]) simp
  next
    case False
    with xs' y show ?thesis by (intro exI [of _ xs']) auto
  qed
qed auto

lemma selected_hunks_reparse:
  assumes "parse_hunks sha p ls = Inr hs" "lines_ok ls" "filter P hs \<noteq> []"
  shows "parse_hunks sha p (split_keep (concat (map gh_text (filter P hs)))) = Inr (filter P hs)"
proof -
  from assms(1) have ls: "ls \<noteq> []" "is_hunk_start (hd ls)" and parsed: "mapE (parse_hunk sha p) (group_hunks ls) = Inr hs"
    by (auto simp: parse_hunks_def split: if_splits)
  from mapE_filter [OF parsed, of P] obtain gs where gs: "subseq gs (group_hunks ls)"
      "mapE (parse_hunk sha p) gs = Inr (filter P hs)" by blast
  have groups: "\<forall>g\<in>set (group_hunks ls). hunk_lines g" using group_hunks_lines ls by blast
  then have own: "\<forall>g\<in>set gs. hunk_lines g" using gs(1) by (auto dest: list_emb_set)
  have "lines_ok (concat gs)"
    using lines_ok_groups [OF gs(1) _ groups] assms(2) by (simp add: concat_group_hunks)
  moreover have "map gh_text (filter P hs) = map concat gs"
  proof -
    have "mapE (parse_hunk sha p) gs = Inr xs \<Longrightarrow> map gh_text xs = map concat gs" for gs xs
      by (induction gs arbitrary: xs) (auto simp: result_simps parse_hunk_text)
    with gs(2) show ?thesis by blast
  qed
  moreover have "concat (map concat gs) = concat (concat gs)" by (induction gs) simp_all
  ultimately have lines: "split_keep (concat (map gh_text (filter P hs))) = concat gs"
    by (simp add: split_keep_concat)
  from gs(2) assms(3) obtain g gs' where "gs = g # gs'" by (cases gs) auto
  with own have "concat gs \<noteq> []" "is_hunk_start (hd (concat gs))"
    by (cases g; auto simp: hunk_lines_def)+
  then show ?thesis
    unfolding lines by (simp add: parse_hunks_def group_hunks_concat [OF own] gs(2))
qed

lemma enumerate_split:
  assumes "enumerate_file_hunks sha path diff = Inr hs"
  obtains p head ls where "hunk_path path = Inr p" "split_single_file_diff path diff = Inr (head, ls)"
    "parse_hunks sha p ls = Inr hs" "diff = PStr (head @ concat (map gh_text hs))" "lines_ok ls"
proof -
  from assms obtain p head ls where parts: "hunk_path path = Inr p" "split_single_file_diff path diff = Inr (head, ls)"
    "parse_hunks sha p ls = Inr hs"
    by (auto simp: enumerate_file_hunks_def result_simps)
  from split_single_file_diff_Inr [OF parts(2)] obtain s where s: "diff = PStr s" "s = head @ concat ls"
    "ls = dropWhile (\<lambda>l. \<not> is_hunk_start l) (split_keep s)" by blast
  have ok: "lines_ok ls" unfolding s(3) by (rule lines_ok_dropWhile [OF lines_ok_split])
  have "diff = PStr (head @ concat (map gh_text hs))"
    by (simp only: s(1,2) parse_hunks_text [OF parts(3)])
  from that [OF parts this ok] show thesis .
qed

section \<open>Properties\<close>

text \<open>
  C39: A selection of hunks is exactly what was asked for. The hunks partition the diff after its
  header; the patch is that header without its index lines, followed by the requested hunks as they
  are and in the order of the diff, and those read as the same hunks again; their identities are
  the requested ones; the order in which they were requested does not matter; and asking for all
  of them gives the whole diff.
\<close>

theorem hunk_selection_exact:
  assumes "build_hunk_patch sha path diff ids = Inr sel"
  shows "\<exists>p head hs requested chosen. path = PStr p \<and> requested_ids ids = Inr requested \<and>
    enumerate_file_hunks sha path diff = Inr hs \<and> diff = PStr (head @ concat (map gh_text hs)) \<and>
    chosen = filter (\<lambda>h. gh_hunk_id h \<in> set requested) hs \<and>
    hs_patch sel = patch_header head @ concat (map gh_text chosen) \<and>
    parse_hunks sha p (split_keep (concat (map gh_text chosen))) = Inr chosen \<and>
    set (hs_hunk_ids sel) = set requested \<and>
    (\<forall>ids' r. requested_ids ids' = Inr r \<and> distinct r \<and> set r = set requested \<longrightarrow>
       build_hunk_patch sha path diff ids' = Inr sel) \<and>
    (set (map gh_hunk_id hs) \<subseteq> set requested \<longrightarrow> chosen = hs)"
proof -
  from assms obtain requested hs where req: "requested_ids ids = Inr requested" "distinct requested"
    and hs: "enumerate_file_hunks sha path diff = Inr hs"
    by (auto simp: build_hunk_patch_def result_simps split: if_splits)
  obtain p head ls where parts: "hunk_path path = Inr p" "split_single_file_diff path diff = Inr (head, ls)"
    "parse_hunks sha p ls = Inr hs" "diff = PStr (head @ concat (map gh_text hs))" "lines_ok ls"
    by (rule enumerate_split [OF hs])
  define chosen where "chosen = filter (\<lambda>h. gh_hunk_id h \<in> set requested) hs"
  have path: "path = PStr p"
    using parts(1) by (auto simp: hunk_path_def Let_def split: pyval.splits if_splits)
  from assms have known: "set requested \<subseteq> set (map gh_hunk_id hs)"
    and sel: "sel = \<lparr>hs_patch = patch_header head @ concat (map gh_text chosen),
      hs_patch_hash = sha (patch_header head @ concat (map gh_text chosen)),
      hs_hunk_ids = map gh_hunk_id chosen, hs_paths = [p]\<rparr>"
    by (auto simp: build_hunk_patch_def parts(1,2) hs req Let_def chosen_def list_ex_iff split: if_splits)
  have "requested \<noteq> []"
    using req(1) by (auto simp: requested_ids_def Let_def split: if_splits dest: mapE_Inr_length)
  with known have nonempty: "chosen \<noteq> []"
    by (cases requested) (auto simp: chosen_def filter_empty_conv)
  have reparse: "parse_hunks sha p (split_keep (concat (map gh_text chosen))) = Inr chosen"
    using selected_hunks_reparse [OF parts(3,5)] nonempty by (simp add: chosen_def)
  have "build_hunk_patch sha path diff ids' = Inr sel"
    if "requested_ids ids' = Inr r" "distinct r" "set r = set requested" for ids' r
    using that known
    by (auto simp: build_hunk_patch_def parts(1,2) hs Let_def sel chosen_def list_ex_iff)
  moreover have "set (hs_hunk_ids sel) = set requested"
    using known by (auto simp: sel chosen_def)
  moreover have "chosen = hs" if "set (map gh_hunk_id hs) \<subseteq> set requested"
    using that by (auto simp: chosen_def filter_id_conv)
  ultimately show ?thesis
    using path req(1) hs parts(4) chosen_def reparse
    by (intro exI [of _ p] exI [of _ head] exI [of _ hs] exI [of _ requested] exI [of _ chosen]) (simp add: sel)
qed

definition example_diff :: "string \<Rightarrow> string" where
  "example_diff added = concat (map (\<lambda>l. l @ [CHR 0x0A])
     [''diff --git a/f b/f'', ''index 1..2 100644'', ''--- a/f'', ''+++ b/f'', ''@@ -1 +1 @@'', ''-a'', added,
      ''@@ -9 +9 @@ g'', ''-c'', ''+d''])"

definition example_hunk_id :: string where
  "example_hunk_id = stable_hunk_id (\<lambda>s. s) ''f'' (concat (map (\<lambda>l. l @ [CHR 0x0A]) [''@@ -9 +9 @@ g'', ''-c'', ''+d'']))"

lemma hunk_selection_exact_witness:
  "\<exists>sel. build_hunk_patch (\<lambda>s. s) (PStr ''f'') (PStr (example_diff ''+b'')) (PList [PStr example_hunk_id]) = Inr sel \<and>
     set (hs_hunk_ids sel) = {example_hunk_id}"
proof -
  have "isOk (build_hunk_patch (\<lambda>s. s) (PStr ''f'') (PStr (example_diff ''+b'')) (PList [PStr example_hunk_id]))"
    by code_simp
  then obtain sel where sel: "build_hunk_patch (\<lambda>s. s) (PStr ''f'') (PStr (example_diff ''+b''))
      (PList [PStr example_hunk_id]) = Inr sel"
    by (cases "build_hunk_patch (\<lambda>s. s) (PStr ''f'') (PStr (example_diff ''+b'')) (PList [PStr example_hunk_id])") simp_all
  have "requested_ids (PList [PStr example_hunk_id]) = Inr [example_hunk_id]"
    by (simp add: requested_ids_def example_hunk_id_def stable_hunk_id_def)
  with hunk_selection_exact [OF sel] sel show ?thesis by auto
qed

text \<open>
  \<open>splitlines\<close> also ends a line at a form feed, where Git does not: an added line with a form feed
  in it makes the whole diff malformed.
\<close>

lemma form_feed_in_line_refused:
  "enumerate_file_hunks (\<lambda>s. s) (PStr ''f'') (PStr (example_diff ([CHR ''+'', CHR 0x0C, CHR ''b'']))) =
     Inl (GitHunkSelectionError ''GIT_HUNK_DIFF_INVALID'' ''malformed unified diff hunk body.'')"
  by code_simp

end
