(* ===== verification/IntegrationQueue.thy ===== *)
theory IntegrationQueue
  imports DirectorText JsonReader
begin

text \<open>
  Compatibility of two session diffs, \<open>src/src/chatgpt_dev_mcp/integration_queue.py\<close>. The Git
  executable is a parameter: a record of what its four commands answer, where an index is a value of
  any type that \<open>read-tree\<close> makes from a revision and \<open>apply --cached\<close> changes. Every other step
  of the code, the reading of Git's answers included, is modelled.
\<close>

section \<open>Git\<close>

datatype queue_error = IntegrationError string string | QueueValidationError

record process_result =
  pr_returncode :: "int option"
  pr_stdout :: string
  pr_stderr :: string
  pr_timed_out :: bool
  pr_stdout_truncated :: bool
  pr_stderr_truncated :: bool

record 'i git =
  git_read_tree :: "string \<Rightarrow> process_result \<times> 'i"
  git_apply :: "string \<Rightarrow> 'i \<Rightarrow> process_result \<times> 'i"
  git_name_status :: "string \<Rightarrow> 'i \<Rightarrow> process_result"
  git_numstat :: "string \<Rightarrow> 'i \<Rightarrow> process_result"

record session_diff =
  sd_base_revision :: string
  sd_patch :: string
  sd_patch_hash :: string
  sd_changed_paths :: "string list"

definition output_truncated :: "process_result \<Rightarrow> bool" where
  "output_truncated p \<longleftrightarrow> pr_stdout_truncated p \<or> pr_stderr_truncated p"

definition or_message :: "string \<Rightarrow> string \<Rightarrow> string" where
  "or_message s message = (if s = [] then message else s)"

definition git_checked :: "bool \<Rightarrow> process_result \<Rightarrow> queue_error + process_result" where
  "git_checked check p =
     (if pr_timed_out p
      then Inl (IntegrationError ''INTEGRATION_GIT_TIMEOUT'' ''fixed Git command exceeded the bounded timeout'')
      else if output_truncated p
      then Inl (IntegrationError ''INTEGRATION_OUTPUT_LIMIT'' ''fixed Git command exceeded the bounded output limit'')
      else if check \<and> pr_returncode p \<noteq> Some 0
      then Inl (IntegrationError ''INTEGRATION_GIT_FAILED''
        (or_message (py_strip (pr_stderr p)) ''fixed Git command failed''))
      else Inr p)"

section \<open>What a patch changes\<close>

text \<open>\<open>int(text)\<close>: white space around, a sign, digits with single underscores between them.\<close>

fun int_groups :: "string \<Rightarrow> bool" where
  "int_groups [] = False"
| "int_groups [c] = is_digit_char c"
| "int_groups (c # d # cs) =
     (is_digit_char c \<and> (if d = CHR ''_'' then int_groups cs else int_groups (d # cs)))"

definition py_int :: "string \<Rightarrow> int option" where
  "py_int s =
     (let t = py_strip s; signed = (t \<noteq> [] \<and> hd t \<in> set ''+-''); u = (if signed then tl t else t) in
      if \<not> int_groups u then None
      else
        let n = int (digits_value (filter is_digit_char u)) in
        Some (if signed \<and> hd t = CHR ''-'' then - n else n))"

definition queue_path :: "string \<Rightarrow> queue_error + string" where
  "queue_path p = mapError (\<lambda>_. QueueValidationError) (normalize_relative_path (PStr p))"

definition nul_tokens :: "string \<Rightarrow> string list" where
  "nul_tokens s = filter (\<lambda>t. t \<noteq> []) (py_split CHR 0x00 s)"

text \<open>Pairs of a status and a path; the last status of a path counts.\<close>

fun status_pairs :: "string list \<Rightarrow> queue_error + (string \<times> string) list" where
  "status_pairs (status # path # rest) =
     bindE (queue_path path) (\<lambda>p. bindE (status_pairs rest) (\<lambda>ps. Inr ((p, status) # ps)))"
| "status_pairs _ = Inr []"

text \<open>\<open>record.split("\t", 2)\<close>.\<close>

definition tab_fields :: "string \<Rightarrow> string list" where
  "tab_fields s =
     (case py_split CHR 0x09 s of
        a # b # rest \<Rightarrow> if rest = [] then [a, b] else [a, b, py_join [CHR 0x09] rest]
      | parts \<Rightarrow> parts)"

definition malformed_numstat :: queue_error where
  "malformed_numstat = IntegrationError ''INTEGRATION_DIFF_FAILED'' ''patch numstat evidence is malformed''"

text \<open>The paths of one record: one when it is an ordinary textual modification.\<close>

definition textual_delta :: "(string \<times> string) list \<Rightarrow> string \<Rightarrow> queue_error + string list" where
  "textual_delta statuses r =
     (case tab_fields r of
        [additions, deletions, path] \<Rightarrow>
          bindE (queue_path path) (\<lambda>p.
          if map_of statuses p \<noteq> Some ''M'' \<or> additions = ''-'' \<or> deletions = ''-'' then Inr []
          else
            (case (py_int additions, py_int deletions) of
               (Some a, Some d) \<Rightarrow> Inr (if 0 < a + d then [p] else [])
             | _ \<Rightarrow> Inl malformed_numstat))
      | _ \<Rightarrow> Inl malformed_numstat)"

definition patch_change_evidence :: "'i git \<Rightarrow> string \<Rightarrow> string \<Rightarrow> queue_error + string list \<times> string list" where
  "patch_change_evidence g patch base_revision =
     (case git_read_tree g base_revision of (made, index) \<Rightarrow>
      bindE (git_checked True made) (\<lambda>_.
      case git_apply g patch index of (finished, index') \<Rightarrow>
      bindE (git_checked False finished) (\<lambda>applied.
      if pr_returncode applied \<noteq> Some 0
      then Inl (IntegrationError ''INTEGRATION_CONFLICT''
        (or_message (py_strip (pr_stderr applied)) ''integration patch does not apply to its base revision''))
      else
      bindE (git_checked True (git_name_status g base_revision index')) (\<lambda>status.
      bindE (git_checked True (git_numstat g base_revision index')) (\<lambda>numstat.
      let tokens = nul_tokens (pr_stdout status) in
      if odd (length tokens)
      then Inl (IntegrationError ''INTEGRATION_DIFF_FAILED'' ''patch status evidence is malformed'')
      else
      bindE (status_pairs tokens) (\<lambda>pairs.
      let statuses = rev pairs in
      bindE (mapE (textual_delta statuses) (nul_tokens (pr_stdout numstat))) (\<lambda>deltas.
      Inr (sorted_set (map fst pairs), sorted_set (concat deltas)))))))))"

fun apply_all :: "'i git \<Rightarrow> string list \<Rightarrow> 'i \<Rightarrow> queue_error + bool" where
  "apply_all g [] index = Inr True"
| "apply_all g (patch # patches) index =
     (case git_apply g patch index of (finished, index') \<Rightarrow>
      bindE (git_checked False finished) (\<lambda>applied.
      if pr_returncode applied \<noteq> Some 0 then Inr False else apply_all g patches index'))"

definition patch_sequence_applies :: "'i git \<Rightarrow> string \<Rightarrow> string list \<Rightarrow> queue_error + bool" where
  "patch_sequence_applies g base_revision patches =
     (case git_read_tree g base_revision of (made, index) \<Rightarrow>
      case git_checked True made of Inl _ \<Rightarrow> Inr False | Inr _ \<Rightarrow> apply_all g patches index)"

section \<open>Compatibility\<close>

definition paths_overlap :: "string \<Rightarrow> string \<Rightarrow> bool" where
  "paths_overlap left right \<longleftrightarrow> left = right \<or> prefix (right @ ''/'') left \<or> prefix (left @ ''/'') right"

definition session_overlap :: "session_diff \<Rightarrow> session_diff \<Rightarrow> string list" where
  "session_overlap first second =
     sort (filter (\<lambda>l. list_ex (paths_overlap l) (sd_changed_paths second)) (sd_changed_paths first))"

definition covered_textually :: "string list \<Rightarrow> string list \<Rightarrow> string \<Rightarrow> bool" where
  "covered_textually first_textual second_textual path \<longleftrightarrow>
     list_ex (paths_overlap path) first_textual \<and> list_ex (paths_overlap path) second_textual"

text \<open>\<open>repo\<close> is what \<open>_repo\<close> says of the source directory; only \<open>IntegrationError\<close> is caught.\<close>

definition session_diffs_compatible ::
  "queue_error + unit \<Rightarrow> 'i git \<Rightarrow> session_diff \<Rightarrow> session_diff \<Rightarrow> queue_error + bool" where
  "session_diffs_compatible repo g first second =
     (let overlapping = session_overlap first second; base = sd_base_revision first in
      if overlapping = [] then Inr True
      else if base \<noteq> sd_base_revision second then Inr False
      else
      bindE repo (\<lambda>_.
      case bindE (patch_change_evidence g (sd_patch first) base) (\<lambda>(_, first_textual).
           bindE (patch_change_evidence g (sd_patch second) (sd_base_revision second)) (\<lambda>(_, second_textual).
           Inr (first_textual, second_textual))) of
        Inl (IntegrationError _ _) \<Rightarrow> Inr False
      | Inl e \<Rightarrow> Inl e
      | Inr (first_textual, second_textual) \<Rightarrow>
          if list_ex (\<lambda>p. \<not> covered_textually first_textual second_textual p) overlapping then Inr False
          else
          bindE (patch_sequence_applies g base [sd_patch first, sd_patch second]) (\<lambda>forth.
          if \<not> forth then Inr False
          else patch_sequence_applies g base [sd_patch second, sd_patch first])))"

section \<open>Facts\<close>

lemma paths_overlap_commute: "paths_overlap p q = paths_overlap q p"
  by (auto simp: paths_overlap_def)

lemma set_overlapping_paths:
  "set (session_overlap first second) =
     {l \<in> set (sd_changed_paths first). \<exists>r\<in>set (sd_changed_paths second). paths_overlap l r}"
  by (auto simp: session_overlap_def list_ex_iff)

text \<open>The index that a list of patches makes, when every one of them applies.\<close>

fun applied_index :: "'i git \<Rightarrow> string list \<Rightarrow> 'i \<Rightarrow> 'i option" where
  "applied_index g [] index = Some index"
| "applied_index g (patch # patches) index =
     (case git_apply g patch index of (finished, index') \<Rightarrow>
      if pr_timed_out finished \<or> output_truncated finished \<or> pr_returncode finished \<noteq> Some 0 then None
      else applied_index g patches index')"

lemma apply_all_True: "apply_all g patches index = Inr True \<longleftrightarrow> applied_index g patches index \<noteq> None"
  by (induction g patches index rule: apply_all.induct) (auto simp: git_checked_def split: prod.split)

lemma sequence_applies_True:
  "patch_sequence_applies g base patches = Inr True \<longleftrightarrow>
     isOk (git_checked True (fst (git_read_tree g base))) \<and> applied_index g patches (snd (git_read_tree g base)) \<noteq> None"
  by (auto simp: patch_sequence_applies_def apply_all_True split: prod.split sum.split)

lemma both_true: "bindE a (\<lambda>x. if \<not> x then Inr False else b) = Inr True \<longleftrightarrow> a = Inr True \<and> b = Inr True"
  by (cases a) auto

lemma compatible_iff:
  "session_diffs_compatible repo g first second = Inr True \<longleftrightarrow>
     session_overlap first second = [] \<or>
     (sd_base_revision first = sd_base_revision second \<and> isOk repo \<and>
      (\<exists>ps qs first_textual second_textual.
         patch_change_evidence g (sd_patch first) (sd_base_revision first) = Inr (ps, first_textual) \<and>
         patch_change_evidence g (sd_patch second) (sd_base_revision first) = Inr (qs, second_textual) \<and>
         (\<forall>p\<in>set (session_overlap first second). covered_textually first_textual second_textual p)) \<and>
      patch_sequence_applies g (sd_base_revision first) [sd_patch first, sd_patch second] = Inr True \<and>
      patch_sequence_applies g (sd_base_revision first) [sd_patch second, sd_patch first] = Inr True)"
proof (cases "patch_change_evidence g (sd_patch first) (sd_base_revision first)")
  case (Inl e)
  then show ?thesis
    by (cases repo; cases e) (auto simp: session_diffs_compatible_def Let_def)
next
  case first: (Inr pf)
  obtain ps ft where pf: "pf = (ps, ft)" by force
  show ?thesis
  proof (cases "patch_change_evidence g (sd_patch second) (sd_base_revision second)")
    case (Inl e)
    with first pf show ?thesis
      by (cases repo; cases e) (auto simp: session_diffs_compatible_def Let_def)
  next
    case (Inr qf)
    obtain qs st where qf: "qf = (qs, st)" by force
    show ?thesis
      using first pf Inr qf
      by (cases repo; cases "sd_base_revision first = sd_base_revision second";
          cases "\<forall>p\<in>set (session_overlap first second). covered_textually ft st p")
        (auto simp: session_diffs_compatible_def Let_def list_ex_iff both_true)
  qed
qed

lemma compatible_swap:
  assumes "session_diffs_compatible repo g a b = Inr True"
    "set (session_overlap a b) = set (session_overlap b a)"
  shows "session_diffs_compatible repo g b a = Inr True"
proof (cases "session_overlap a b = []")
  case True
  with assms(2) have "session_overlap b a = []" by simp
  then show ?thesis by (simp add: compatible_iff)
next
  case False
  with assms(1) have base: "sd_base_revision a = sd_base_revision b" "isOk repo"
    and forth: "patch_sequence_applies g (sd_base_revision a) [sd_patch a, sd_patch b] = Inr True"
    and back_forth: "patch_sequence_applies g (sd_base_revision a) [sd_patch b, sd_patch a] = Inr True"
    and "\<exists>ps qs ta tb. patch_change_evidence g (sd_patch a) (sd_base_revision a) = Inr (ps, ta) \<and>
      patch_change_evidence g (sd_patch b) (sd_base_revision a) = Inr (qs, tb) \<and>
      (\<forall>p\<in>set (session_overlap a b). covered_textually ta tb p)"
    unfolding compatible_iff by blast+
  then obtain ps qs ta tb where ev: "patch_change_evidence g (sd_patch a) (sd_base_revision a) = Inr (ps, ta)"
      "patch_change_evidence g (sd_patch b) (sd_base_revision a) = Inr (qs, tb)"
      "\<forall>p\<in>set (session_overlap a b). covered_textually ta tb p" by blast
  from ev(3) assms(2) have "\<forall>p\<in>set (session_overlap b a). covered_textually tb ta p"
    by (simp add: covered_textually_def)
  with base forth back_forth ev show ?thesis unfolding compatible_iff base(1) by blast
qed

section \<open>Properties\<close>

text \<open>
  C40: Two session diffs are declared compatible only when Git says so in both orders: they change
  no path in common, or they start from the same revision, both patches apply one after the other in
  either order from that revision, and every path in common lies in an ordinary text modification of
  both.
\<close>

theorem compatible_diffs_compose:
  assumes "session_diffs_compatible repo g first second = Inr True"
    and "l \<in> set (sd_changed_paths first)" "r \<in> set (sd_changed_paths second)" "paths_overlap l r"
  shows "sd_base_revision first = sd_base_revision second \<and>
    (\<forall>order\<in>{[sd_patch first, sd_patch second], [sd_patch second, sd_patch first]}.
       applied_index g order (snd (git_read_tree g (sd_base_revision first))) \<noteq> None) \<and>
    (\<forall>d\<in>{first, second}. \<exists>ps textual p.
       patch_change_evidence g (sd_patch d) (sd_base_revision first) = Inr (ps, textual) \<and>
       p \<in> set textual \<and> paths_overlap l p)"
proof -
  have l: "l \<in> set (session_overlap first second)" using assms(2-4) by (auto simp: set_overlapping_paths)
  then have "session_overlap first second \<noteq> []" by auto
  with assms(1) obtain ps qs ft st where base: "sd_base_revision first = sd_base_revision second"
    and ev: "patch_change_evidence g (sd_patch first) (sd_base_revision first) = Inr (ps, ft)"
      "patch_change_evidence g (sd_patch second) (sd_base_revision first) = Inr (qs, st)"
      "\<forall>p\<in>set (session_overlap first second). covered_textually ft st p"
    and orders: "applied_index g [sd_patch first, sd_patch second] (snd (git_read_tree g (sd_base_revision first))) \<noteq> None"
      "applied_index g [sd_patch second, sd_patch first] (snd (git_read_tree g (sd_base_revision first))) \<noteq> None"
    unfolding compatible_iff sequence_applies_True by blast
  from ev(3) l have "\<exists>p\<in>set ft. paths_overlap l p" "\<exists>p\<in>set st. paths_overlap l p"
    unfolding covered_textually_def list_ex_iff by blast+
  with ev(1,2) have "\<exists>ps textual p. patch_change_evidence g (sd_patch d) (sd_base_revision first) = Inr (ps, textual) \<and>
      p \<in> set textual \<and> paths_overlap l p" if "d \<in> {first, second}" for d
    using that by auto
  with base orders show ?thesis by blast
qed

text \<open>
  The verdict does not depend on the order in which the two diffs are given, when their paths meet only in
  equal paths (no path of one lies below a path of the other).
\<close>

theorem compatibility_symmetric:
  assumes "\<And>l r. l \<in> set (sd_changed_paths first) \<Longrightarrow> r \<in> set (sd_changed_paths second) \<Longrightarrow>
    paths_overlap l r \<Longrightarrow> l = r"
  shows "session_diffs_compatible repo g first second = Inr True \<longleftrightarrow>
    session_diffs_compatible repo g second first = Inr True"
proof -
  have same: "set (session_overlap first second) = set (session_overlap second first)"
    using assms paths_overlap_commute unfolding set_overlapping_paths by blast
  then show ?thesis using compatible_swap by metis
qed


text \<open>A repository in which every patch applies, for examples.\<close>

definition example_process :: "string \<Rightarrow> process_result" where
  "example_process out = \<lparr>pr_returncode = Some 0, pr_stdout = out, pr_stderr = [], pr_timed_out = False,
     pr_stdout_truncated = False, pr_stderr_truncated = False\<rparr>"

definition example_git :: "string list git" where
  "example_git =
     \<lparr>git_read_tree = (\<lambda>revision. (example_process [], [revision])),
      git_apply = (\<lambda>patch index. (example_process [], patch # index)),
      git_name_status = (\<lambda>revision index. example_process (''M'' @ [CHR 0x00] @ ''src/f.py'' @ [CHR 0x00])),
      git_numstat = (\<lambda>revision index. example_process
        (''1'' @ [CHR 0x09] @ ''2'' @ [CHR 0x09] @ ''src/f.py'' @ [CHR 0x00]))\<rparr>"

definition example_session_diff :: "string \<Rightarrow> session_diff" where
  "example_session_diff patch = \<lparr>sd_base_revision = ''r1'', sd_patch = patch, sd_patch_hash = [],
     sd_changed_paths = [''src/f.py'']\<rparr>"

lemma example_compatible:
  "session_diffs_compatible (Inr ()) example_git (example_session_diff ''p'') (example_session_diff ''q'') = Inr True"
  by code_simp

lemma compatible_diffs_compose_witness:
  "applied_index example_git [''q'', ''p''] (snd (git_read_tree example_git ''r1'')) \<noteq> None"
proof -
  have "''src/f.py'' \<in> set (sd_changed_paths (example_session_diff ''p''))"
    "''src/f.py'' \<in> set (sd_changed_paths (example_session_diff ''q''))"
    by (simp_all add: example_session_diff_def)
  from compatible_diffs_compose [OF example_compatible this] show ?thesis
    by (simp add: paths_overlap_def example_session_diff_def)
qed

lemma compatibility_symmetric_witness:
  "session_diffs_compatible (Inr ()) example_git (example_session_diff ''q'') (example_session_diff ''p'') = Inr True"
proof -
  have "l = r" if "l \<in> set (sd_changed_paths (example_session_diff ''p''))"
    "r \<in> set (sd_changed_paths (example_session_diff ''q''))" for l r
    using that by (simp add: example_session_diff_def)
  then show ?thesis
    using compatibility_symmetric [of "example_session_diff ''p''" "example_session_diff ''q''" "Inr ()" example_git]
      example_compatible by blast
qed

end
