(* ===== verification/VerificationCache.thy ===== *)
theory VerificationCache
  imports DirectorText JsonReader
begin

text \<open>
  The cache of verification results: \<open>verification_cache.py\<close> and the operations of
  \<open>persistence.py\<close> (both under \<open>src/src/chatgpt_dev_mcp/\<close>) on its table \<open>verification_cache\<close>. An
  entry is found under the digest of the exact identity of a run: worktree, head, diff, command,
  environment and dependencies. SHA-256 is the parameter \<open>sha\<close>. The clock is a field of the cache,
  the sequence of its readings, because a call may read it more than once.
\<close>

section \<open>Keys and paths\<close>

text \<open>\<open>CacheValueError\<close> is \<open>ValueError\<close>, \<open>CacheStoreError\<close> is \<open>PersistenceError\<close>.\<close>

datatype cache_error = CacheValueError string | CacheStoreError string

text \<open>\<open>Path(value).parts\<close> and \<open>as_posix\<close> of a relative path.\<close>

definition relative_parts :: "string \<Rightarrow> string list" where
  "relative_parts s = filter (\<lambda>p. p \<noteq> [] \<and> p \<noteq> ''.'') (py_split CHR ''/'' s)"

definition relative_posix :: "string \<Rightarrow> string" where
  "relative_posix s = (if relative_parts s = [] then ''.'' else py_join ''/'' (relative_parts s))"

definition cache_path :: "string \<Rightarrow> cache_error + string" where
  "cache_path s =
     (let invalid = Inl (CacheValueError ''verification cache path is invalid'') in
      if s = [] \<or> 512 < int (length s) \<or> CHR 0x5C \<in> set s then invalid
      else if prefix ''/'' s \<or> ''..'' \<in> set (relative_parts s) then invalid
      else Inr (relative_posix s))"

text \<open>\<open>text.rstrip("/")\<close>, and the overlap of two paths.\<close>

definition strip_slashes :: "string \<Rightarrow> string" where
  "strip_slashes s = rev (dropWhile (\<lambda>c. c = CHR ''/'') (rev s))"

definition cache_overlap :: "string \<Rightarrow> string \<Rightarrow> bool" where
  "cache_overlap left right =
     (let a = strip_slashes left; b = strip_slashes right in
      a = b \<or> prefix (b @ ''/'') a \<or> prefix (a @ ''/'') b)"

record cache_key =
  vk_worktree_id :: string
  vk_head :: string
  vk_diff_hash :: string
  vk_command :: string
  vk_env :: string
  vk_dependency :: string

definition hex40 :: "string \<Rightarrow> bool" where
  "hex40 s \<longleftrightarrow> length s = 40 \<and> list_all (\<lambda>c. is_digit_char c \<or> c \<in> set ''abcdef'') s"

definition cache_key_checked :: "cache_key \<Rightarrow> cache_error + cache_key" where
  "cache_key_checked k =
     (if vk_worktree_id k = [] \<or> 160 < int (length (vk_worktree_id k))
      then Inl (CacheValueError ''worktree_id is invalid'')
      else if \<not> hex40 (vk_head k) then Inl (CacheValueError ''head is invalid'')
      else if \<not> list_all hex64 [vk_diff_hash k, vk_command k, vk_env k, vk_dependency k]
      then Inl (CacheValueError ''cache fingerprint is invalid'')
      else Inr k)"

definition key_digest :: "(string \<Rightarrow> string) \<Rightarrow> cache_key \<Rightarrow> string" where
  "key_digest sha k =
     sha (ensure_ascii (json_dumps (jstrs [vk_worktree_id k, vk_head k, vk_diff_hash k,
       vk_command k, vk_env k, vk_dependency k])))"

record cache_entry =
  ve_key :: cache_key
  ve_paths :: "string list"
  ve_status :: string
  ve_result_digest :: string
  ve_summary :: string
  ve_created :: time
  ve_expires :: time

abbreviation entry_digest :: "(string \<Rightarrow> string) \<Rightarrow> cache_entry \<Rightarrow> string" where
  "entry_digest sha e \<equiv> key_digest sha (ve_key e)"

definition cache_statuses :: "string list" where
  "cache_statuses = [''passed'', ''failed'', ''timed_out'']"

section \<open>The table\<close>

record cache_row =
  cr_cache_key :: string
  cr_worktree_id :: string
  cr_head_revision :: string
  cr_diff_hash :: string
  cr_command :: string
  cr_env :: string
  cr_dependency :: string
  cr_paths_json :: string
  cr_status :: string
  cr_result_digest :: string
  cr_summary :: string
  cr_created :: time
  cr_expires :: time

definition forbidden_markers :: "string list" where
  "forbidden_markers = [''diff --git'', ''*** begin patch'', ''approval_token'', ''access_token'']"

definition store_text :: "string \<Rightarrow> int \<Rightarrow> bool \<Rightarrow> string \<Rightarrow> cache_error + string" where
  "store_text name maximum allow_empty s =
     (if has_nul s \<or> maximum < int (utf8_size s)
      then Inl (CacheStoreError (name @ '' is outside its safety bound''))
      else if \<not> allow_empty \<and> py_strip s = []
      then Inl (CacheStoreError (name @ '' must not be empty''))
      else if contains_secret_like_content s \<or> list_ex (\<lambda>m. sublist m (py_lower s)) forbidden_markers
      then Inl (CacheStoreError (name @ '' contains non-persistable sensitive content''))
      else Inr s)"

definition store_identifier :: "string \<Rightarrow> string \<Rightarrow> cache_error + string" where
  "store_identifier name s =
     bindE (store_text name 256 False s) (\<lambda>t.
     if \<not> id_format ''._:/-'' 255 t then Inl (CacheStoreError (name @ '' has an invalid format'')) else Inr t)"

definition store_hash :: "string \<Rightarrow> string \<Rightarrow> cache_error + string" where
  "store_hash name s =
     bindE (store_text name 128 False s) (\<lambda>t.
     if t \<noteq> [] \<and> \<not> hex64 t then Inl (CacheStoreError (name @ '' must be sha256 hex'')) else Inr t)"

definition store_path :: "string \<Rightarrow> string \<Rightarrow> cache_error + string" where
  "store_path name s =
     bindE (store_text name 512 False s) (\<lambda>t.
     if prefix ''/'' t \<or> prefix ''~'' t \<or> CHR 0x5C \<in> set t \<or>
       list_ex (\<lambda>p. p \<in> {[], ''.'', ''..''}) (py_split CHR ''/'' t)
     then Inl (CacheStoreError (name @ '' contains an unsafe path''))
     else Inr t)"

definition store_json :: "string \<Rightarrow> json \<Rightarrow> cache_error + string" where
  "store_json name v =
     (let encoded = json_dumps v in
      if 128 * 1024 < int (utf8_size encoded) then Inl (CacheStoreError (name @ '' exceeds its safety bound''))
      else if contains_secret_like_content encoded
      then Inl (CacheStoreError (name @ '' contains secret-like content''))
      else Inr encoded)"

definition store_paths :: "string \<Rightarrow> string list \<Rightarrow> cache_error + string" where
  "store_paths name ps =
     bindE (mapE (store_path name) ps) (\<lambda>parsed.
     if \<not> distinct parsed then Inl (CacheStoreError (name @ '' contains duplicates''))
     else store_json name (jstrs (sort parsed)))"

text \<open>\<open>save_verification_cache_entry(entry.as_persistence_dict())\<close>: the checks in the order in
  which the code evaluates them. The table is in the order of insertion, and an existing row keeps
  the columns that make up its identity.\<close>

definition entry_row :: "(string \<Rightarrow> string) \<Rightarrow> cache_entry \<Rightarrow> cache_error + cache_row" where
  "entry_row sha e =
     bindE (store_text ''cache_status'' 32 False (ve_status e)) (\<lambda>status.
     if status \<notin> set cache_statuses then Inl (CacheStoreError ''cache_status is invalid'')
     else if ve_expires e \<le> ve_created e
     then Inl (CacheStoreError ''verification cache expiry is invalid'')
     else
     bindE (store_hash ''cache_key'' (entry_digest sha e)) (\<lambda>digest.
     bindE (store_identifier ''worktree_id'' (vk_worktree_id (ve_key e))) (\<lambda>worktree.
     bindE (store_text ''head_revision'' 128 False (vk_head (ve_key e))) (\<lambda>head.
     bindE (store_hash ''relevant_diff_hash'' (vk_diff_hash (ve_key e))) (\<lambda>diff.
     bindE (store_hash ''command_fingerprint'' (vk_command (ve_key e))) (\<lambda>command.
     bindE (store_hash ''env_fingerprint'' (vk_env (ve_key e))) (\<lambda>env.
     bindE (store_hash ''dependency_fingerprint'' (vk_dependency (ve_key e))) (\<lambda>dependency.
     bindE (store_paths ''relevant_paths'' (ve_paths e)) (\<lambda>paths.
     bindE (store_hash ''result_digest'' (ve_result_digest e)) (\<lambda>result.
     bindE (store_text ''output_summary'' 2048 True (ve_summary e)) (\<lambda>summary.
     Inr \<lparr>cr_cache_key = digest, cr_worktree_id = worktree, cr_head_revision = head, cr_diff_hash = diff,
       cr_command = command, cr_env = env, cr_dependency = dependency, cr_paths_json = paths,
       cr_status = status, cr_result_digest = result, cr_summary = summary,
       cr_created = ve_created e, cr_expires = ve_expires e\<rparr>)))))))))))"

definition upsert_row :: "cache_row \<Rightarrow> cache_row list \<Rightarrow> cache_row list" where
  "upsert_row new rows =
     (case kget cr_cache_key (cr_cache_key new) rows of
        None \<Rightarrow> rows @ [new]
      | Some old \<Rightarrow> kset cr_cache_key (old\<lparr>cr_paths_json := cr_paths_json new, cr_status := cr_status new,
          cr_result_digest := cr_result_digest new, cr_summary := cr_summary new,
          cr_created := cr_created new, cr_expires := cr_expires new\<rparr>) rows)"

definition save_row :: "(string \<Rightarrow> string) \<Rightarrow> cache_entry \<Rightarrow> cache_row list \<Rightarrow> cache_error + cache_row list" where
  "save_row sha e rows = bindE (entry_row sha e) (\<lambda>r. Inr (upsert_row r rows))"

definition delete_rows :: "string list \<Rightarrow> cache_row list \<Rightarrow> cache_error + cache_row list" where
  "delete_rows keys rows =
     bindE (mapE (store_hash ''cache_key'') keys) (\<lambda>parsed.
     Inr (filter (\<lambda>r. cr_cache_key r \<notin> set parsed) rows))"

definition row_order :: "cache_row \<Rightarrow> time \<times> string" where
  "row_order r = (cr_created r, cr_cache_key r)"

definition prune_rows :: "time \<Rightarrow> int \<Rightarrow> cache_row list \<Rightarrow> cache_error + cache_row list" where
  "prune_rows now maximum rows =
     (if maximum < 1 \<or> 10000 < maximum
      then Inl (CacheStoreError ''max_entries is outside its safety bound'')
      else
        let live = filter (\<lambda>r. now < cr_expires r) rows;
            overflow = nat (int (length live) - maximum);
            dropped = map cr_cache_key (take overflow (sort_key row_order live)) in
        Inr (filter (\<lambda>r. cr_cache_key r \<notin> set dropped) live))"

text \<open>\<open>load_verification_cache_entries\<close>: each row with its decoded list of paths. A column that does not
  decode to a list ends the call.\<close>

definition loaded_paths :: "cache_row \<Rightarrow> cache_error + pyval list" where
  "loaded_paths r =
     (case json_loads (cr_paths_json r) of
        Some (PList ps) \<Rightarrow> Inr ps
      | Some _ \<Rightarrow> Inl (CacheStoreError ''stored verification cache paths are invalid'')
      | None \<Rightarrow> Inl (CacheStoreError ''stored relevant_paths JSON is invalid''))"

definition load_rows :: "cache_row list \<Rightarrow> cache_error + (cache_row \<times> pyval list) list" where
  "load_rows rows = mapE (\<lambda>r. bindE (loaded_paths r) (\<lambda>ps. Inr (r, ps))) (sort_key row_order rows)"

section \<open>The cache\<close>

record vcache =
  vc_store :: "cache_row list option"
  vc_clock :: "nat \<Rightarrow> time"
  vc_reads :: nat
  vc_ttl :: int
  vc_max_entries :: int
  vc_entries :: "cache_entry list"

text \<open>\<open>_from_record\<close>.\<close>

definition py_strings :: "pyval list \<Rightarrow> string list" where
  "py_strings ps = concat (map (\<lambda>p. case p of PStr s \<Rightarrow> [s] | _ \<Rightarrow> []) ps)"

definition row_key :: "cache_row \<Rightarrow> cache_key" where
  "row_key r = \<lparr>vk_worktree_id = cr_worktree_id r, vk_head = cr_head_revision r,
     vk_diff_hash = cr_diff_hash r, vk_command = cr_command r, vk_env = cr_env r,
     vk_dependency = cr_dependency r\<rparr>"

definition row_entry ::
  "(string \<Rightarrow> string) \<Rightarrow> cache_row \<times> pyval list \<Rightarrow> cache_error + cache_entry" where
  "row_entry sha = (\<lambda>(r, ps).
     bindE (cache_key_checked (row_key r)) (\<lambda>key.
     if cr_cache_key r \<noteq> key_digest sha key
     then Inl (CacheValueError ''persisted cache key is invalid'')
     else
     bindE (mapE cache_path (py_strings ps)) (\<lambda>paths.
     if cr_status r \<notin> set cache_statuses \<or> \<not> hex64 (cr_result_digest r)
     then Inl (CacheValueError ''persisted cache result is invalid'')
     else Inr \<lparr>ve_key = key, ve_paths = paths, ve_status = cr_status r,
       ve_result_digest = cr_result_digest r, ve_summary = cr_summary r,
       ve_created = cr_created r, ve_expires = cr_expires r\<rparr>)))"

text \<open>The loop of \<open>_restore\<close> over the records that were read: a record that is invalid is skipped.\<close>

definition restored_entries ::
  "(string \<Rightarrow> string) \<Rightarrow> time \<Rightarrow> (cache_row \<times> pyval list) list \<Rightarrow> cache_entry list" where
  "restored_entries sha now records =
     foldl (\<lambda>d record. case row_entry sha record of
         Inl _ \<Rightarrow> d
       | Inr e \<Rightarrow> if now < ve_expires e then kset (entry_digest sha) e d else d) [] records"

definition cache_clock :: "(time \<Rightarrow> (vcache, cache_error, 'a) step) \<Rightarrow> (vcache, cache_error, 'a) step" where
  "cache_clock f = readS (\<lambda>c. bindS (updS (vc_reads_update Suc)) (\<lambda>_. f (vc_clock c (vc_reads c))))"

text \<open>A call of the store changes the table or raises; without a store there is no call.\<close>

definition store_call ::
  "(cache_row list \<Rightarrow> cache_error + cache_row list) \<Rightarrow> (vcache, cache_error, unit) step" where
  "store_call f = readS (\<lambda>c. case vc_store c of
       None \<Rightarrow> retS ()
     | Some rows \<Rightarrow> checkS (f rows) (\<lambda>rows'. updS (\<lambda>c. c\<lparr>vc_store := Some rows'\<rparr>)))"

definition entry_order :: "(string \<Rightarrow> string) \<Rightarrow> cache_entry \<Rightarrow> time \<times> string" where
  "entry_order sha e = (ve_created e, entry_digest sha e)"

text \<open>What \<open>_trim\<close> keeps of the entries at a time, and the keys it drops.\<close>

definition fresh_entries :: "time \<Rightarrow> cache_entry list \<Rightarrow> cache_entry list" where
  "fresh_entries now entries = filter (\<lambda>e. now < ve_expires e) entries"

definition overflow_keys :: "(string \<Rightarrow> string) \<Rightarrow> int \<Rightarrow> cache_entry list \<Rightarrow> string list" where
  "overflow_keys sha maximum live =
     map (entry_digest sha) (take (nat (int (length live) - maximum)) (sort_key (entry_order sha) live))"

definition kept_entries :: "(string \<Rightarrow> string) \<Rightarrow> time \<Rightarrow> int \<Rightarrow> cache_entry list \<Rightarrow> cache_entry list" where
  "kept_entries sha now maximum entries =
     (let live = fresh_entries now entries in
      filter (\<lambda>e. entry_digest sha e \<notin> set (overflow_keys sha maximum live)) live)"

definition trim_store :: "string list \<Rightarrow> time \<Rightarrow> int \<Rightarrow> (vcache, cache_error, unit) step" where
  "trim_store stale now maximum =
     bindS (if stale = [] then retS () else store_call (delete_rows (py_fromkeys stale))) (\<lambda>_.
     store_call (prune_rows now maximum))"

definition cache_trim :: "(string \<Rightarrow> string) \<Rightarrow> bool \<Rightarrow> (vcache, cache_error, unit) step" where
  "cache_trim sha persist = cache_clock (\<lambda>now. readS (\<lambda>c.
     let stale = map (entry_digest sha) (filter (\<lambda>e. ve_expires e \<le> now) (vc_entries c)) @
           overflow_keys sha (vc_max_entries c) (fresh_entries now (vc_entries c)) in
     bindS (updS (\<lambda>c. c\<lparr>vc_entries := kept_entries sha now (vc_max_entries c) (vc_entries c)\<rparr>)) (\<lambda>_.
     if persist then trim_store stale now (vc_max_entries c) else retS ())))"

definition vcache_new ::
  "(string \<Rightarrow> string) \<Rightarrow> cache_row list option \<Rightarrow> (nat \<Rightarrow> time) \<Rightarrow> int \<Rightarrow> int \<Rightarrow> cache_error + vcache" where
  "vcache_new sha store clock ttl maximum =
     (if ttl < 1 \<or> 24 * 60 * 60 < ttl then Inl (CacheValueError ''ttl_seconds is outside bounds'')
      else if maximum < 1 \<or> 10000 < maximum then Inl (CacheValueError ''max_entries is outside bounds'')
      else
        let empty = \<lparr>vc_store = store, vc_clock = clock, vc_reads = 0, vc_ttl = ttl,
              vc_max_entries = maximum, vc_entries = []\<rparr> in
        case store of
          None \<Rightarrow> Inr empty
        | Some rows \<Rightarrow>
            (case load_rows rows of
               Inl _ \<Rightarrow> Inr (empty\<lparr>vc_reads := 1\<rparr>)
             | Inr records \<Rightarrow>
                 Inr (snd (cache_trim sha False
                   (empty\<lparr>vc_reads := 1, vc_entries := restored_entries sha (clock 0) records\<rparr>)))))"

definition put_checked ::
  "string list \<Rightarrow> string \<Rightarrow> string \<Rightarrow> string \<Rightarrow> cache_error + string list" where
  "put_checked paths status result_digest summary =
     bindE (mapE cache_path paths) (\<lambda>ps.
     if ps = [] \<or> \<not> distinct ps \<or> 256 < int (length ps)
     then Inl (CacheValueError ''relevant_paths are invalid'')
     else if status \<notin> set cache_statuses \<or> \<not> hex64 result_digest
     then Inl (CacheValueError ''cache result is invalid'')
     else if 2048 < int (utf8_size summary) then Inl (CacheValueError ''output_summary is outside bounds'')
     else Inr ps)"

definition new_entry ::
  "cache_key \<Rightarrow> string list \<Rightarrow> string \<Rightarrow> string \<Rightarrow> string \<Rightarrow> time \<Rightarrow> int \<Rightarrow> cache_entry" where
  "new_entry key paths status result_digest summary created ttl =
     \<lparr>ve_key = key, ve_paths = paths, ve_status = status, ve_result_digest = result_digest,
      ve_summary = redact_secrets summary, ve_created = created, ve_expires = created + of_int ttl\<rparr>"

definition cache_put ::
  "(string \<Rightarrow> string) \<Rightarrow> cache_key \<Rightarrow> string list \<Rightarrow> string \<Rightarrow> string \<Rightarrow> string \<Rightarrow>
   (vcache, cache_error, cache_entry) step" where
  "cache_put sha key paths status result_digest summary =
     checkS (put_checked paths status result_digest summary) (\<lambda>ps.
     cache_clock (\<lambda>created. readS (\<lambda>c.
       let e = new_entry key ps status result_digest summary created (vc_ttl c) in
       bindS (updS (\<lambda>c. c\<lparr>vc_entries := kset (entry_digest sha) e (vc_entries c)\<rparr>)) (\<lambda>_.
       bindS (store_call (save_row sha e)) (\<lambda>_.
       bindS (cache_trim sha True) (\<lambda>_. retS e))))))"

definition cache_get ::
  "(string \<Rightarrow> string) \<Rightarrow> cache_key \<Rightarrow> (vcache, cache_error, cache_entry option) step" where
  "cache_get sha key =
     bindS (cache_trim sha True) (\<lambda>_. readS (\<lambda>c.
     retS (kget (entry_digest sha) (key_digest sha key) (vc_entries c))))"

text \<open>An entry whose relevant paths overlap a changed path.\<close>

definition touched_by :: "string list \<Rightarrow> cache_entry \<Rightarrow> bool" where
  "touched_by changed e \<longleftrightarrow> list_ex (\<lambda>r. list_ex (cache_overlap r) changed) (ve_paths e)"

definition changed_checked :: "string list \<Rightarrow> cache_error + string list" where
  "changed_checked changed_paths =
     bindE (mapE cache_path changed_paths) (\<lambda>changed.
     if \<not> distinct changed then Inl (CacheValueError ''changed_paths contain duplicates'') else Inr changed)"

definition cache_invalidate ::
  "(string \<Rightarrow> string) \<Rightarrow> string list \<Rightarrow> (vcache, cache_error, nat) step" where
  "cache_invalidate sha changed_paths =
     checkS (changed_checked changed_paths) (\<lambda>changed. readS (\<lambda>c.
       let remove = map (entry_digest sha) (filter (touched_by changed) (vc_entries c)) in
       bindS (updS (\<lambda>c. c\<lparr>vc_entries := filter (\<lambda>e. entry_digest sha e \<notin> set remove) (vc_entries c)\<rparr>)) (\<lambda>_.
       bindS (if remove = [] then retS () else store_call (delete_rows remove)) (\<lambda>_.
       retS (length remove)))))"

section \<open>Histories\<close>

text \<open>The calls of a cache, and the ideal record of verdicts: the last verdict that was put under
  each identity and that no invalidation touched. The ideal record forgets nothing on its own.\<close>

datatype cache_call =
    CPut cache_key "string list" string string string
  | CGet cache_key
  | CInvalidate "string list"

type_synonym verdicts = "cache_key \<Rightarrow> cache_entry option"

fun cache_call_state :: "(string \<Rightarrow> string) \<Rightarrow> cache_call \<Rightarrow> vcache \<Rightarrow> vcache" where
  "cache_call_state sha (CPut k ps st rd sm) c = snd (cache_put sha k ps st rd sm c)"
| "cache_call_state sha (CGet k) c = snd (cache_get sha k c)"
| "cache_call_state sha (CInvalidate ps) c = snd (cache_invalidate sha ps c)"

text \<open>A call whose arguments are valid and that the store does not end.\<close>

fun call_accepted :: "(string \<Rightarrow> string) \<Rightarrow> cache_call \<Rightarrow> vcache \<Rightarrow> bool" where
  "call_accepted sha (CPut k ps st rd sm) c \<longleftrightarrow>
     isOk (cache_key_checked k) \<and> isOk (fst (cache_put sha k ps st rd sm c))"
| "call_accepted sha (CGet k) c \<longleftrightarrow> isOk (fst (cache_get sha k c))"
| "call_accepted sha (CInvalidate ps) c \<longleftrightarrow> isOk (fst (cache_invalidate sha ps c))"

fun all_accepted :: "(string \<Rightarrow> string) \<Rightarrow> cache_call list \<Rightarrow> vcache \<Rightarrow> bool" where
  "all_accepted sha [] c \<longleftrightarrow> True"
| "all_accepted sha (x # xs) c \<longleftrightarrow> call_accepted sha x c \<and> all_accepted sha xs (cache_call_state sha x c)"

fun verdict_call :: "cache_call \<Rightarrow> vcache \<Rightarrow> verdicts \<Rightarrow> verdicts" where
  "verdict_call (CPut k ps st rd sm) c b =
     (case put_checked ps st rd sm of
        Inl _ \<Rightarrow> b
      | Inr qs \<Rightarrow> b(k \<mapsto> new_entry k qs st rd sm (vc_clock c (vc_reads c)) (vc_ttl c)))"
| "verdict_call (CGet k) c b = b"
| "verdict_call (CInvalidate ps) c b =
     (case changed_checked ps of
        Inl _ \<Rightarrow> b
      | Inr changed \<Rightarrow> (\<lambda>k. case b k of Some e \<Rightarrow> if touched_by changed e then None else Some e | None \<Rightarrow> None))"

fun cache_history ::
  "(string \<Rightarrow> string) \<Rightarrow> cache_call list \<Rightarrow> vcache \<times> verdicts \<Rightarrow> vcache \<times> verdicts" where
  "cache_history sha [] s = s"
| "cache_history sha (x # xs) (c, b) =
     cache_history sha xs (cache_call_state sha x c, verdict_call x c b)"

section \<open>What the memory of the cache holds\<close>

lemma key_digest_inj: "inj sha \<Longrightarrow> key_digest sha k = key_digest sha l \<longleftrightarrow> k = l"
proof
  assume "inj sha" "key_digest sha k = key_digest sha l"
  then have "jstrs [vk_worktree_id k, vk_head k, vk_diff_hash k, vk_command k, vk_env k, vk_dependency k] =
      jstrs [vk_worktree_id l, vk_head l, vk_diff_hash l, vk_command l, vk_env l, vk_dependency l]"
    by (auto simp: key_digest_def dest!: injD ascii_dumps_inj)
  then show "k = l" by (cases k; cases l) simp
qed simp

text \<open>Operations that change nothing but the table.\<close>

definition store_only :: "(vcache, cache_error, 'a) step \<Rightarrow> bool" where
  "store_only m \<longleftrightarrow> (\<forall>c. \<exists>rows. snd (m c) = c\<lparr>vc_store := rows\<rparr>)"

lemma store_only_ret [intro, simp]: "store_only (retS x)"
  unfolding store_only_def retS_def by (metis snd_conv vcache.surjective vcache.update_convs(1))

lemma store_only_call [intro, simp]: "store_only (store_call f)"
proof -
  have "\<exists>rows. snd (store_call f c) = c\<lparr>vc_store := rows\<rparr>" for c
  proof (cases "vc_store c")
    case None
    then show ?thesis by (intro exI [of _ None]) (simp add: store_call_def readS_def retS_def)
  next
    case (Some rows)
    then show ?thesis
      by (cases "f rows") (auto simp: store_call_def readS_def checkS_eq updS_def
        intro: exI [of _ "vc_store c"])
  qed
  then show ?thesis by (simp add: store_only_def)
qed

lemma store_only_bind [intro]:
  assumes "store_only m" "\<And>x. store_only (f x)" shows "store_only (bindS m f)"
  unfolding store_only_def
proof
  fix c
  obtain r t rows where m: "m c = (r, t)" "t = c\<lparr>vc_store := rows\<rparr>"
    using assms(1) unfolding store_only_def by (metis prod.collapse)
  show "\<exists>rows. snd (bindS m f c) = c\<lparr>vc_store := rows\<rparr>"
  proof (cases r)
    case (Inr x)
    obtain rows' where "snd (f x t) = t\<lparr>vc_store := rows'\<rparr>" using assms(2) unfolding store_only_def by blast
    with m Inr show ?thesis by (auto simp: bindS_def)
  qed (use m in \<open>auto simp: bindS_def\<close>)
qed

lemma store_only_trim [simp]: "store_only (trim_store stale now maximum)"
  unfolding trim_store_def by (intro store_only_bind) simp_all

lemma store_only_ends:
  assumes "store_only m" "\<And>r rows. Q r (c\<lparr>vc_store := rows\<rparr>)" shows "ends m Q c"
  using assms(1) unfolding store_only_def ends_iff by (metis assms(2))

lemma ends_store_bind:
  assumes "store_only m" "\<And>e rows. Q (Inl e) (c\<lparr>vc_store := rows\<rparr>)"
    and "\<And>x rows. ends (f x) Q (c\<lparr>vc_store := rows\<rparr>)"
  shows "ends (bindS m f) Q c"
  unfolding ends_bindS by (rule store_only_ends [OF assms(1)]) (simp add: assms split: sum.split)

lemma ends_upd_bind: "ends (bindS (updS f) (\<lambda>_. m)) Q c = ends m Q (f c)"
  by (simp add: ends_simps)

lemma ends_clock:
  "ends (cache_clock f) Q c = ends (f (vc_clock c (vc_reads c))) Q (vc_reads_update Suc c)"
  by (simp add: cache_clock_def ends_readS ends_upd_bind)

definition same_frame :: "vcache \<Rightarrow> vcache \<Rightarrow> bool" where
  "same_frame c t \<longleftrightarrow> vc_clock t = vc_clock c \<and> vc_ttl t = vc_ttl c \<and> vc_max_entries t = vc_max_entries c"

lemma trim_memory:
  "ends (cache_trim sha p) (\<lambda>_ t. same_frame c t \<and> vc_reads t = Suc (vc_reads c) \<and>
      vc_entries t = kept_entries sha (vc_clock c (vc_reads c)) (vc_max_entries c) (vc_entries c)) c"
  unfolding cache_trim_def cache_clock_def Let_def ends_readS ends_bindS ends_updS sum.case ends_if
  by (simp add: same_frame_def ends_retS store_only_ends)

lemma get_memory:
  "ends (cache_get sha k) (\<lambda>r t. same_frame c t \<and> vc_reads t = Suc (vc_reads c) \<and>
      vc_entries t = kept_entries sha (vc_clock c (vc_reads c)) (vc_max_entries c) (vc_entries c) \<and>
      (\<forall>found. r = Inr found \<longrightarrow> found = kget (entry_digest sha) (key_digest sha k) (vc_entries t))) c"
  unfolding cache_get_def ends_bindS
  by (rule ends_mono [OF trim_memory]) (auto simp: ends_simps split: sum.split)

lemma put_memory:
  assumes "put_checked ps st rd sm = Inr qs"
  shows "ends (cache_put sha k ps st rd sm) (\<lambda>r t.
      let e = new_entry k qs st rd sm (vc_clock c (vc_reads c)) (vc_ttl c);
          written = kset (entry_digest sha) e (vc_entries c);
          trimmed = kept_entries sha (vc_clock c (Suc (vc_reads c))) (vc_max_entries c) written in
      same_frame c t \<and>
      (vc_reads t = Suc (vc_reads c) \<and> vc_entries t = written \<and> \<not> isOk r \<or>
       vc_reads t = Suc (Suc (vc_reads c)) \<and> vc_entries t = trimmed \<and> (isOk r \<longrightarrow> r = Inr e))) c"
proof -
  let ?e = "new_entry k qs st rd sm (vc_clock c (vc_reads c)) (vc_ttl c)"
  let ?c = "vc_entries_update (\<lambda>_. kset (entry_digest sha) ?e (vc_entries c)) (vc_reads_update Suc c)"
  have tail: "ends (bindS (cache_trim sha True) (\<lambda>_. retS ?e)) (\<lambda>r t. same_frame c t \<and>
      vc_reads t = Suc (Suc (vc_reads c)) \<and> vc_entries t = kept_entries sha
        (vc_clock c (Suc (vc_reads c))) (vc_max_entries c) (kset (entry_digest sha) ?e (vc_entries c)) \<and>
      (isOk r \<longrightarrow> r = Inr ?e)) (?c\<lparr>vc_store := rows\<rparr>)" for rows
    unfolding ends_bindS
    by (rule ends_mono [OF trim_memory]) (auto simp: ends_simps same_frame_def split: sum.split)
  show ?thesis
    unfolding cache_put_def assms ends_checkS sum.case ends_clock ends_readS Let_def ends_upd_bind
  proof (rule ends_store_bind)
    fix rows
    show "ends (bindS (cache_trim sha True)
         (\<lambda>_. retS (new_entry k qs st rd sm (vc_clock c (vc_reads c)) (vc_ttl (vc_reads_update Suc c)))))
       (\<lambda>r t. same_frame c t \<and>
          (vc_reads t = Suc (vc_reads c) \<and> vc_entries t = kset (entry_digest sha) ?e (vc_entries c) \<and> \<not> isOk r \<or>
           vc_reads t = Suc (Suc (vc_reads c)) \<and>
           vc_entries t = kept_entries sha (vc_clock c (Suc (vc_reads c))) (vc_max_entries c)
             (kset (entry_digest sha) ?e (vc_entries c)) \<and> (isOk r \<longrightarrow> r = Inr ?e)))
       (vc_reads_update Suc c
        \<lparr>vc_entries := kset (entry_digest sha)
            (new_entry k qs st rd sm (vc_clock c (vc_reads c)) (vc_ttl (vc_reads_update Suc c)))
            (vc_entries (vc_reads_update Suc c)), vc_store := rows\<rparr>)"
      using tail [of rows] by (simp, elim ends_mono) simp
  qed (simp_all add: same_frame_def)
qed

lemma put_state:
  assumes "put_checked ps st rd sm = Inr qs"
  defines "written \<equiv> \<lambda>sha k c.
    kset (entry_digest sha) (new_entry k qs st rd sm (vc_clock c (vc_reads c)) (vc_ttl c)) (vc_entries c)"
  shows "same_frame c (snd (cache_put sha k ps st rd sm c))"
    and "vc_reads (snd (cache_put sha k ps st rd sm c)) = Suc (vc_reads c) \<and>
        vc_entries (snd (cache_put sha k ps st rd sm c)) = written sha k c \<or>
      vc_reads (snd (cache_put sha k ps st rd sm c)) = Suc (Suc (vc_reads c)) \<and>
        vc_entries (snd (cache_put sha k ps st rd sm c)) =
          kept_entries sha (vc_clock c (Suc (vc_reads c))) (vc_max_entries c) (written sha k c)"
  using put_memory [OF assms(1), of sha k c] unfolding ends_iff Let_def written_def by blast+

lemma invalidate_memory:
  assumes "changed_checked ps = Inr changed"
  shows "ends (cache_invalidate sha ps) (\<lambda>_ t. same_frame c t \<and> vc_reads t = vc_reads c \<and>
      vc_entries t = filter (\<lambda>e. entry_digest sha e \<notin>
        entry_digest sha ` set (filter (touched_by changed) (vc_entries c))) (vc_entries c)) c"
  unfolding cache_invalidate_def assms ends_checkS sum.case ends_readS Let_def ends_bindS ends_updS ends_if
    ends_retS
  by (auto simp: same_frame_def ends_retS intro!: store_only_ends split: sum.split)

lemma refused_call_state:
  "put_checked ps st rd sm = Inl x \<Longrightarrow> cache_put sha k ps st rd sm c = (Inl x, c)"
  "changed_checked ps = Inl x \<Longrightarrow> cache_invalidate sha ps c = (Inl x, c)"
  by (simp_all add: cache_put_def cache_invalidate_def checkS_eq)

section \<open>The cache against the ideal record\<close>

definition remembers_truth :: "(string \<Rightarrow> string) \<Rightarrow> vcache \<Rightarrow> verdicts \<Rightarrow> bool" where
  "remembers_truth sha c b \<longleftrightarrow> kdistinct (entry_digest sha) (vc_entries c) \<and>
     (\<forall>e\<in>set (vc_entries c). b (ve_key e) = Some e)"

lemma set_kept_entries: "set (kept_entries sha now n es) \<subseteq> {e \<in> set es. now < ve_expires e}"
  by (auto simp: kept_entries_def fresh_entries_def Let_def)

lemma kdistinct_kept: "kdistinct (entry_digest sha) es \<Longrightarrow> kdistinct (entry_digest sha) (kept_entries sha now n es)"
  by (simp add: kept_entries_def fresh_entries_def Let_def kdistinct_filter)

lemma remembers_kept:
  "remembers_truth sha c b \<Longrightarrow> vc_entries t = kept_entries sha now n (vc_entries c) \<Longrightarrow> remembers_truth sha t b"
  unfolding remembers_truth_def using set_kept_entries by (fastforce simp: kdistinct_kept)

lemma remembers_same: "remembers_truth sha c b \<Longrightarrow> vc_entries t = vc_entries c \<Longrightarrow> remembers_truth sha t b"
  by (simp add: remembers_truth_def)

lemma remembers_written:
  assumes "inj sha" "remembers_truth sha c b" "vc_entries t = kset (entry_digest sha) e (vc_entries c)"
  shows "remembers_truth sha t (b(ve_key e \<mapsto> e))"
  using assms unfolding remembers_truth_def
  by (auto simp: kdistinct_kset set_kset key_digest_inj)

lemma remembers_call:
  assumes "inj sha" "remembers_truth sha c b"
  shows "remembers_truth sha (cache_call_state sha x c) (verdict_call x c b)"
proof (cases x)
  case (CPut k ps st rd sm)
  show ?thesis
  proof (cases "put_checked ps st rd sm")
    case (Inl err)
    with assms CPut show ?thesis by (simp add: refused_call_state)
  next
    case (Inr qs)
    let ?e = "new_entry k qs st rd sm (vc_clock c (vc_reads c)) (vc_ttl c)"
    let ?c = "c\<lparr>vc_entries := kset (entry_digest sha) ?e (vc_entries c)\<rparr>"
    have key: "ve_key ?e = k" by (simp add: new_entry_def)
    from remembers_written [OF assms, of ?c ?e] have w: "remembers_truth sha ?c (b(k \<mapsto> ?e))" by (simp add: key)
    have "vc_entries (snd (cache_put sha k ps st rd sm c)) = vc_entries ?c \<or>
        vc_entries (snd (cache_put sha k ps st rd sm c)) =
          kept_entries sha (vc_clock c (Suc (vc_reads c))) (vc_max_entries c) (vc_entries ?c)"
      using put_state(2) [OF Inr, of sha k c] by auto
    then have "remembers_truth sha (snd (cache_put sha k ps st rd sm c)) (b(k \<mapsto> ?e))"
      using remembers_kept [OF w] remembers_same [OF w] by blast
    with CPut Inr show ?thesis by simp
  qed
next
  case (CGet k)
  from get_memory [of sha k c] remembers_kept [OF assms(2)] show ?thesis
    unfolding CGet ends_iff by auto
next
  case (CInvalidate ps)
  show ?thesis
  proof (cases "changed_checked ps")
    case (Inl err)
    with assms CInvalidate show ?thesis by (simp add: refused_call_state)
  next
    case (Inr changed)
    from invalidate_memory [OF Inr, of sha c] assms(2) show ?thesis
      unfolding CInvalidate cache_call_state.simps verdict_call.simps Inr sum.case ends_iff remembers_truth_def
      by (auto simp: kdistinct_filter)
  qed
qed

lemma in_kset_other: "v \<in> set d \<Longrightarrow> key v \<noteq> key e \<Longrightarrow> v \<in> set (kset key e d)"
  by (force simp: kset_def)

lemma length_kept_entries:
  assumes "kdistinct (entry_digest sha) es" "0 \<le> n"
  shows "int (length (kept_entries sha now n es)) \<le> n"
proof -
  let ?live = "fresh_entries now es" and ?d = "entry_digest sha"
  let ?out = "take (nat (int (length ?live) - n)) (sort_key (entry_order sha) ?live)"
  have live: "distinct (map ?d ?live)"
    using kdistinct_filter [OF assms(1)] by (simp add: fresh_entries_def kdistinct_def)
  then have sorted: "distinct (map ?d (sort_key (entry_order sha) ?live))"
    by (metis (no_types, lifting) distinct_map distinct_sort set_sort)
  have "distinct (map ?d ?out)" using distinct_take [OF sorted] by (simp add: take_map)
  then have out: "card (?d ` set ?out) = nat (int (length ?live) - n)"
    using distinct_card [of "map ?d ?out"] assms(2) by simp
  have sub: "?d ` set ?out \<subseteq> ?d ` set ?live"
    using set_take_subset [of _ "sort_key (entry_order sha) ?live"] by fastforce
  have "set (kept_entries sha now n es) = {e \<in> set ?live. ?d e \<notin> ?d ` set ?out}"
    by (auto simp: kept_entries_def overflow_keys_def Let_def)
  then have "?d ` set (kept_entries sha now n es) = ?d ` set ?live - ?d ` set ?out" by auto
  moreover have "card (?d ` set (kept_entries sha now n es)) = length (kept_entries sha now n es)"
    using distinct_card [of "map ?d (kept_entries sha now n es)"] kdistinct_kept [OF assms(1)]
    by (simp add: kdistinct_def)
  moreover have "card (?d ` set ?live) = length ?live"
    using distinct_card [OF live] by simp
  ultimately have "length (kept_entries sha now n es) = length ?live - nat (int (length ?live) - n)"
    using out sub by (simp add: card_Diff_subset)
  then show ?thesis using assms(2) by linarith
qed

lemma kept_all: "int (length (fresh_entries now es)) \<le> n \<Longrightarrow> kept_entries sha now n es = fresh_entries now es"
  by (simp add: kept_entries_def overflow_keys_def Let_def)

lemma remembers_length:
  assumes "remembers_truth sha c b" "dom b \<subseteq> K" "finite K"
  shows "length (vc_entries c) \<le> card K"
proof -
  have d: "distinct (vc_entries c)" and k: "inj_on ve_key (set (vc_entries c))"
    using assms(1) unfolding remembers_truth_def kdistinct_def
    by (auto simp: distinct_map intro!: inj_onI) (metis option.inject)
  have "ve_key ` set (vc_entries c) \<subseteq> K" using assms(1,2) by (auto simp: remembers_truth_def)
  then have "card (ve_key ` set (vc_entries c)) \<le> card K" by (rule card_mono [OF assms(3)])
  with card_image [OF k] distinct_card [OF d] show ?thesis by simp
qed

text \<open>Nothing that is still valid was dropped.\<close>

definition recalls_all :: "vcache \<Rightarrow> verdicts \<Rightarrow> bool" where
  "recalls_all c b \<longleftrightarrow>
     (\<forall>k e. b k = Some e \<longrightarrow> ve_key e = k \<and>
        (ve_expires e \<le> vc_clock c (vc_reads c) \<or> e \<in> set (vc_entries c)))"

lemma recalls_later:
  assumes "recalls_all c b" "mono (vc_clock c)" "vc_clock t = vc_clock c" "vc_reads c \<le> vc_reads t"
    and "\<And>e. b (ve_key e) = Some e \<Longrightarrow> e \<in> set (vc_entries c) \<Longrightarrow> vc_clock c (vc_reads c) < ve_expires e \<Longrightarrow>
      e \<in> set (vc_entries t)"
  shows "recalls_all t b"
  unfolding recalls_all_def
proof (intro allI impI conjI)
  fix k e assume b: "b k = Some e"
  with assms(1) show k: "ve_key e = k" by (auto simp: recalls_all_def)
  have later: "vc_clock c (vc_reads c) \<le> vc_clock t (vc_reads t)" using assms(2-4) by (simp add: monoD)
  from assms(1) b have "ve_expires e \<le> vc_clock c (vc_reads c) \<or> e \<in> set (vc_entries c)"
    by (auto simp: recalls_all_def)
  with assms(5) [of e] b k later show "ve_expires e \<le> vc_clock t (vc_reads t) \<or> e \<in> set (vc_entries t)"
    by (metis le_less_linear order_trans)
qed

lemma recalls_same: "recalls_all c b \<Longrightarrow> vc_clock t = vc_clock c \<Longrightarrow> vc_reads t = vc_reads c \<Longrightarrow>
    vc_entries t = vc_entries c \<Longrightarrow> recalls_all t b"
  by (simp add: recalls_all_def)

lemma recalls_kept:
  assumes "recalls_all c b" "mono (vc_clock c)" "vc_clock t = vc_clock c" "vc_reads t = Suc (vc_reads c)"
    and "vc_entries t = kept_entries sha (vc_clock c (vc_reads c)) n (vc_entries c)"
    and "int (length (vc_entries c)) \<le> n"
  shows "recalls_all t b"
proof (rule recalls_later [OF assms(1-3)])
  have "int (length (fresh_entries (vc_clock c (vc_reads c)) (vc_entries c))) \<le> n"
    using assms(6) length_filter_le [of _ "vc_entries c"] unfolding fresh_entries_def
    by (meson of_nat_mono order_trans)
  with assms(5) show "e \<in> set (vc_entries t)"
    if "e \<in> set (vc_entries c)" "vc_clock c (vc_reads c) < ve_expires e" for e
    using that by (simp add: kept_all fresh_entries_def)
qed (use assms(4) in simp)

lemma recalls_written:
  assumes "recalls_all c b" "mono (vc_clock c)" "vc_clock t = vc_clock c" "vc_reads t = Suc (vc_reads c)"
    and "inj sha" "vc_entries t = kset (entry_digest sha) e (vc_entries c)"
  shows "recalls_all t (b(ve_key e \<mapsto> e))"
  unfolding recalls_all_def
proof (intro allI impI)
  fix k f assume f: "(b(ve_key e \<mapsto> e)) k = Some f"
  have later: "vc_clock c (vc_reads c) \<le> vc_clock t (vc_reads t)" using assms(2-4) by (simp add: monoD)
  show "ve_key f = k \<and> (ve_expires f \<le> vc_clock t (vc_reads t) \<or> f \<in> set (vc_entries t))"
  proof (cases "k = ve_key e")
    case True
    with f in_kset [of e "entry_digest sha"] assms(6) show ?thesis by auto
  next
    case False
    with f have b: "b k = Some f" by simp
    with assms(1) have "ve_key f = k" "ve_expires f \<le> vc_clock c (vc_reads c) \<or> f \<in> set (vc_entries c)"
      by (auto simp: recalls_all_def)
    with False later in_kset_other [of f "vc_entries c" "entry_digest sha" e] assms(5,6) show ?thesis
      by (auto simp: key_digest_inj)
  qed
qed

fun put_key :: "cache_call \<Rightarrow> cache_key list" where
  "put_key (CPut k ps st rd sm) = [k]"
| "put_key _ = []"

definition put_keys :: "cache_call list \<Rightarrow> cache_key list" where
  "put_keys cs = concat (map put_key cs)"

lemma call_frame: "same_frame c (cache_call_state sha x c)"
proof (cases x)
  case (CPut k ps st rd sm)
  show ?thesis
  proof (cases "put_checked ps st rd sm")
    case (Inr qs)
    from put_memory [OF Inr, of sha k c] CPut show ?thesis by (simp add: ends_iff Let_def)
  qed (use CPut in \<open>simp add: refused_call_state same_frame_def\<close>)
next
  case (CGet k)
  then show ?thesis using get_memory [of sha k c] by (simp add: ends_iff)
next
  case (CInvalidate ps)
  show ?thesis
  proof (cases "changed_checked ps")
    case (Inr qs)
    from invalidate_memory [OF Inr, of sha c] CInvalidate show ?thesis by (simp add: ends_iff)
  qed (use CInvalidate in \<open>simp add: refused_call_state same_frame_def\<close>)
qed

lemma verdict_keys: "dom (verdict_call x c b) \<subseteq> dom b \<union> set (put_key x)"
  by (cases x) (auto split: sum.splits option.splits if_splits)

lemma recalls_call:
  assumes sha: "inj sha" and truth: "remembers_truth sha c b" and all: "recalls_all c b"
    and clock: "mono (vc_clock c)" and dom: "dom b \<union> set (put_key x) \<subseteq> K" "finite K"
    and room: "int (card K) \<le> vc_max_entries c"
  shows "recalls_all (cache_call_state sha x c) (verdict_call x c b)"
proof (cases x)
  case (CPut k ps st rd sm)
  show ?thesis
  proof (cases "put_checked ps st rd sm")
    case (Inl err)
    with all CPut show ?thesis by (simp add: refused_call_state)
  next
    case (Inr qs)
    let ?e = "new_entry k qs st rd sm (vc_clock c (vc_reads c)) (vc_ttl c)"
    let ?c = "vc_entries_update (\<lambda>_. kset (entry_digest sha) ?e (vc_entries c)) (vc_reads_update Suc c)"
    let ?t = "snd (cache_put sha k ps st rd sm c)"
    have key: "ve_key ?e = k" by (simp add: new_entry_def)
    have w: "recalls_all ?c (b(k \<mapsto> ?e))"
      using recalls_written [OF all clock, of ?c sha ?e] sha by (simp add: key)
    have r: "remembers_truth sha ?c (b(k \<mapsto> ?e))"
      using remembers_written [OF sha truth, of ?c ?e] by (simp add: key)
    define d t where "d = ?c" and "t = ?t"
    have d: "vc_clock d = vc_clock c" "vc_reads d = Suc (vc_reads c)" "vc_max_entries d = vc_max_entries c"
      "vc_entries d = kset (entry_digest sha) ?e (vc_entries c)" by (simp_all add: d_def)
    have "dom (b(k \<mapsto> ?e)) \<subseteq> K" using dom(1) CPut by auto
    with r have len: "int (length (vc_entries d)) \<le> vc_max_entries c"
      unfolding d_def using remembers_length [OF _ _ dom(2)] room by (meson of_nat_mono order_trans)
    have frame: "vc_clock t = vc_clock d" "mono (vc_clock d)"
      using put_state(1) [OF Inr, of c sha k] clock d(1) by (simp_all add: same_frame_def t_def)
    have "vc_reads t = vc_reads d \<and> vc_entries t = vc_entries d \<or> vc_reads t = Suc (vc_reads d) \<and>
        vc_entries t = kept_entries sha (vc_clock d (vc_reads d)) (vc_max_entries c) (vc_entries d)"
      using put_state(2) [OF Inr, of sha k c] unfolding d t_def .
    then have "recalls_all t (b(k \<mapsto> ?e))"
      using recalls_kept [OF w [folded d_def] frame(2,1)] recalls_same [OF w [folded d_def] frame(1)] len by blast
    then have "recalls_all ?t (b(k \<mapsto> ?e))" by (simp only: t_def)
    with CPut Inr show ?thesis by simp
  qed
next
  case (CGet k)
  have "int (length (vc_entries c)) \<le> vc_max_entries c"
    using remembers_length [OF truth _ dom(2)] dom(1) room by (meson le_sup_iff of_nat_mono order_trans)
  moreover from get_memory [of sha k c] have "vc_clock (snd (cache_get sha k c)) = vc_clock c"
    "vc_reads (snd (cache_get sha k c)) = Suc (vc_reads c)"
    "vc_entries (snd (cache_get sha k c)) =
       kept_entries sha (vc_clock c (vc_reads c)) (vc_max_entries c) (vc_entries c)"
    by (simp_all add: ends_iff same_frame_def)
  ultimately show ?thesis using recalls_kept [OF all clock] CGet by simp
next
  case (CInvalidate ps)
  show ?thesis
  proof (cases "changed_checked ps")
    case (Inl err)
    with all CInvalidate show ?thesis by (simp add: refused_call_state)
  next
    case (Inr changed)
    let ?t = "snd (cache_invalidate sha ps c)"
    from invalidate_memory [OF Inr, of sha c] have t: "vc_clock ?t = vc_clock c" "vc_reads ?t = vc_reads c"
      "set (vc_entries ?t) = {e \<in> set (vc_entries c). entry_digest sha e \<notin>
        entry_digest sha ` set (filter (touched_by changed) (vc_entries c))}"
      by (auto simp: ends_iff same_frame_def)
    have "inj_on (entry_digest sha) (set (vc_entries c))"
      using truth by (simp add: remembers_truth_def kdistinct_def distinct_map)
    then have "e \<in> set (vc_entries ?t)" if "e \<in> set (vc_entries c)" "\<not> touched_by changed e" for e
      using that t(3) by (auto dest: inj_onD)
    with all t(1,2) have "recalls_all ?t (verdict_call x c b)"
      unfolding recalls_all_def CInvalidate verdict_call.simps Inr sum.case
      by (auto split: option.splits if_splits)
    with CInvalidate show ?thesis by simp
  qed
qed

lemma history_remembers:
  assumes "inj sha" "remembers_truth sha c b"
  shows "remembers_truth sha (fst (cache_history sha cs (c, b))) (snd (cache_history sha cs (c, b))) \<and>
    same_frame c (fst (cache_history sha cs (c, b)))"
  using assms(2)
proof (induction cs arbitrary: c b)
  case (Cons x cs)
  from Cons.IH [OF remembers_call [OF assms(1) Cons.prems]] call_frame [of c sha x] show ?case
    by (auto simp: same_frame_def)
qed (simp add: same_frame_def)

lemma history_recalls:
  assumes "inj sha" "finite K"
    and "remembers_truth sha c b" "recalls_all c b" "mono (vc_clock c)"
    and "dom b \<union> set (put_keys cs) \<subseteq> K" "int (card K) \<le> vc_max_entries c"
  shows "recalls_all (fst (cache_history sha cs (c, b))) (snd (cache_history sha cs (c, b)))"
  using assms(3-)
proof (induction cs arbitrary: c b)
  case (Cons x cs)
  let ?c = "cache_call_state sha x c" and ?b = "verdict_call x c b"
  have f: "same_frame c ?c" by (rule call_frame)
  have "dom ?b \<union> set (put_keys cs) \<subseteq> K"
    using verdict_keys [of x c b] Cons.prems(4) by (auto simp: put_keys_def)
  moreover have "recalls_all ?c ?b"
    by (rule recalls_call [OF assms(1) Cons.prems(1-3) _ assms(2) Cons.prems(5)])
      (use Cons.prems(4) in \<open>auto simp: put_keys_def\<close>)
  ultimately show ?case
    using Cons.IH [OF remembers_call [OF assms(1) Cons.prems(1)], of x] f Cons.prems(3,5)
    by (simp add: same_frame_def)
qed simp

section \<open>Answers\<close>

lemma history_dom: "dom (snd (cache_history sha cs (c, b))) \<subseteq> dom b \<union> set (put_keys cs)"
proof (induction cs arbitrary: c b)
  case (Cons x cs)
  from Cons.IH [of "cache_call_state sha x c" "verdict_call x c b"] verdict_keys [of x c b] show ?case
    by (auto simp: put_keys_def)
qed simp

lemma empty_history:
  assumes "inj sha" "vc_entries c0 = []" "cache_history sha cs (c0, Map.empty) = (c, b)"
  shows "remembers_truth sha c b" and "same_frame c0 c"
proof -
  have "remembers_truth sha c0 Map.empty" using assms(2) by (simp add: remembers_truth_def kdistinct_def)
  from history_remembers [OF assms(1) this, of cs] assms(3)
  show "remembers_truth sha c b" "same_frame c0 c" by simp_all
qed

lemma kget_verdict:
  assumes "inj sha" "remembers_truth sha c b" "vc_entries t = kept_entries sha now n (vc_entries c)"
    and "kget (entry_digest sha) (key_digest sha k) (vc_entries t) = Some e"
  shows "b k = Some e \<and> now < ve_expires e"
proof -
  from kget_SomeD [OF assms(4)] assms(1,3) have e: "e \<in> set (vc_entries t)" and k: "ve_key e = k"
    by (auto simp: key_digest_inj)
  with set_kept_entries [of sha now n "vc_entries c"] assms(3) have "e \<in> set (vc_entries c)" "now < ve_expires e"
    by auto
  with assms(2) k show ?thesis by (auto simp: remembers_truth_def)
qed

text \<open>
  C15: In every history of an empty cache, an answer is the last verdict that was put under the same
  identity and not invalidated since, and it has not expired. An answer leaves at most the maximal
  number of entries. While the identities fit into the cache and the clock does not go back, the
  cache answers exactly as the ideal record restricted to what has not expired.
\<close>

theorem cache_answers_last_verdict:
  assumes "inj sha" "vc_entries c0 = []" "0 \<le> vc_max_entries c0"
    and "cache_history sha cs (c0, Map.empty) = (c, b)"
    and "cache_get sha k c = (Inr found, t)"
  shows "(\<forall>e. found = Some e \<longrightarrow> b k = Some e \<and> vc_clock c (vc_reads c) < ve_expires e) \<and>
    int (length (vc_entries t)) \<le> vc_max_entries c0 \<and>
    (mono (vc_clock c0) \<and> int (card (set (put_keys cs))) \<le> vc_max_entries c0 \<longrightarrow>
      found = (case b k of
          Some e \<Rightarrow> if vc_clock c (vc_reads c) < ve_expires e then Some e else None
        | None \<Rightarrow> None))"
proof -
  let ?now = "vc_clock c (vc_reads c)"
  note truth = empty_history(1) [OF assms(1,2,4)]
  have frame: "same_frame c0 c" by (rule empty_history(2) [OF assms(1,2,4)])
  have kept: "vc_entries t = kept_entries sha ?now (vc_max_entries c) (vc_entries c)"
    and found: "found = kget (entry_digest sha) (key_digest sha k) (vc_entries t)"
    using get_memory [of sha k c] assms(5) by (simp_all add: ends_iff)
  have sound: "b k = Some e \<and> ?now < ve_expires e" if "found = Some e" for e
    using kget_verdict [OF assms(1) truth kept] that found by simp
  have bound: "int (length (vc_entries t)) \<le> vc_max_entries c0"
    using length_kept_entries [of sha "vc_entries c" "vc_max_entries c0" ?now] truth kept frame assms(3)
    by (simp add: remembers_truth_def same_frame_def)
  have exact: "found = Some e" if room: "mono (vc_clock c0)" "int (card (set (put_keys cs))) \<le> vc_max_entries c0"
    and e: "b k = Some e" "?now < ve_expires e" for e
  proof -
    have start: "remembers_truth sha c0 Map.empty" "recalls_all c0 Map.empty"
      using assms(2) by (simp_all add: remembers_truth_def kdistinct_def recalls_all_def)
    have "recalls_all (fst (cache_history sha cs (c0, Map.empty))) (snd (cache_history sha cs (c0, Map.empty)))"
      by (rule history_recalls [OF assms(1) _ start room(1) _ room(2)]) simp_all
    then have all: "recalls_all c b" using assms(4) by simp
    from all e(1) have "ve_key e = k" "ve_expires e \<le> ?now \<or> e \<in> set (vc_entries c)"
      unfolding recalls_all_def by blast+
    with e(2) have "e \<in> set (vc_entries c)" "ve_key e = k" by simp_all
    moreover have "kept_entries sha ?now (vc_max_entries c) (vc_entries c) = fresh_entries ?now (vc_entries c)"
    proof (rule kept_all)
      have "dom b \<subseteq> set (put_keys cs)" using history_dom [of sha cs c0 Map.empty] assms(4) by simp
      then have "length (vc_entries c) \<le> card (set (put_keys cs))" by (rule remembers_length [OF truth]) simp
      then have "int (length (vc_entries c)) \<le> vc_max_entries c" using room(2) frame by (simp add: same_frame_def)
      then show "int (length (fresh_entries ?now (vc_entries c))) \<le> vc_max_entries c"
        unfolding fresh_entries_def using length_filter_le [of _ "vc_entries c"] by (meson of_nat_mono order_trans)
    qed
    ultimately have "e \<in> set (vc_entries t)" using kept e(2) by (simp add: fresh_entries_def)
    moreover have "kdistinct (entry_digest sha) (vc_entries t)"
      using truth kept by (simp add: remembers_truth_def kdistinct_kept)
    ultimately show ?thesis using found \<open>ve_key e = k\<close> by (auto simp: kget_Some_iff)
  qed
  have last: "found = (case b k of Some e \<Rightarrow> if ?now < ve_expires e then Some e else None | None \<Rightarrow> None)"
    if "mono (vc_clock c0)" "int (card (set (put_keys cs))) \<le> vc_max_entries c0"
  proof (cases found)
    case None
    show ?thesis
    proof (cases "b k")
      case (Some e)
      with exact [OF that Some] None show ?thesis by auto
    qed (simp add: None)
  next
    case (Some e)
    from sound [OF Some] Some show ?thesis by simp
  qed
  show ?thesis by (intro conjI allI impI) (use sound bound last in blast)+
qed

section \<open>The table mirrors the memory\<close>

lemma mapE_unchanged: "mapE f xs = Inr ys \<Longrightarrow> (\<And>x y. f x = Inr y \<Longrightarrow> y = x) \<Longrightarrow> ys = xs"
  by (induction xs arbitrary: ys) (auto simp: result_simps)

lemma store_text_same: "store_text n m a s = Inr t \<Longrightarrow> t = s \<and> (a \<or> s \<noteq> []) \<and> int (length s) \<le> m"
  using utf8_size_bounds(1) [of s]
  by (auto simp: store_text_def py_strip_def py_lstrip_def split: if_splits)

lemma store_hash_same: "store_hash n s = Inr t \<Longrightarrow> t = s \<and> hex64 s"
  by (auto simp: store_hash_def result_simps dest!: store_text_same split: if_splits)

lemma store_path_same: "store_path n s = Inr t \<Longrightarrow> t = s \<and> cache_path s = Inr s"
proof -
  assume "store_path n s = Inr t"
  then obtain u where u: "store_text n 512 False s = Inr u"
    and rest: "\<not> (prefix ''/'' u \<or> prefix ''~'' u \<or> CHR 0x5C \<in> set u \<or>
      list_ex (\<lambda>p. p \<in> {[], ''.'', ''..''}) (py_split CHR ''/'' u))" "t = u"
    unfolding store_path_def bindE_Inr_iff by (metis Inl_Inr_False Inr_inject)
  from store_text_same [OF u] rest have t: "t = s" "s \<noteq> []" "int (length s) \<le> 512"
      "\<not> prefix ''/'' s" "CHR 0x5C \<notin> set s"
    and parts: "\<forall>p\<in>set (py_split CHR ''/'' s). p \<notin> {[], ''.'', ''..''}"
    by (simp_all add: list_ex_iff)
  have rp: "relative_parts s = py_split CHR ''/'' s"
    unfolding relative_parts_def by (rule filter_True) (use parts in auto)
  moreover have "relative_posix s = s" by (simp add: relative_posix_def rp)
  ultimately show ?thesis using t parts by (auto simp: cache_path_def)
qed

lemma store_paths_same:
  assumes "store_paths n ps = Inr j"
  shows "j = json_dumps (jstrs (sort ps))" and "\<forall>p\<in>set ps. cache_path p = Inr p"
proof -
  obtain qs where qs: "mapE (store_path n) ps = Inr qs" and j: "store_json n (jstrs (sort qs)) = Inr j"
    using assms by (auto simp: store_paths_def result_simps split: if_splits)
  from mapE_Inr_in [OF qs] show "\<forall>p\<in>set ps. cache_path p = Inr p" by (blast dest: store_path_same)
  have "qs = ps" by (rule mapE_unchanged [OF qs]) (simp add: store_path_same)
  with j show "j = json_dumps (jstrs (sort ps))"
    by (auto simp: store_json_def Let_def split: if_splits)
qed

lemma entry_row_columns:
  assumes "entry_row sha e = Inr r"
  shows "cr_cache_key r = entry_digest sha e" and "row_key r = ve_key e"
    and "cr_paths_json r = json_dumps (jstrs (sort (ve_paths e)))"
    and "\<forall>p\<in>set (ve_paths e). cache_path p = Inr p"
    and "cr_status r = ve_status e" and "ve_status e \<in> set cache_statuses"
    and "cr_result_digest r = ve_result_digest e" and "hex64 (ve_result_digest e)"
    and "cr_summary r = ve_summary e" and "cr_created r = ve_created e" and "cr_expires r = ve_expires e"
proof -
  obtain st dg wt hd df cm en dp pj rd sm where parts:
    "store_text ''cache_status'' 32 False (ve_status e) = Inr st" "st \<in> set cache_statuses"
    "store_hash ''cache_key'' (entry_digest sha e) = Inr dg"
    "store_identifier ''worktree_id'' (vk_worktree_id (ve_key e)) = Inr wt"
    "store_text ''head_revision'' 128 False (vk_head (ve_key e)) = Inr hd"
    "store_hash ''relevant_diff_hash'' (vk_diff_hash (ve_key e)) = Inr df"
    "store_hash ''command_fingerprint'' (vk_command (ve_key e)) = Inr cm"
    "store_hash ''env_fingerprint'' (vk_env (ve_key e)) = Inr en"
    "store_hash ''dependency_fingerprint'' (vk_dependency (ve_key e)) = Inr dp"
    "store_paths ''relevant_paths'' (ve_paths e) = Inr pj"
    "store_hash ''result_digest'' (ve_result_digest e) = Inr rd"
    "store_text ''output_summary'' 2048 True (ve_summary e) = Inr sm"
    and r: "r = \<lparr>cr_cache_key = dg, cr_worktree_id = wt, cr_head_revision = hd, cr_diff_hash = df,
       cr_command = cm, cr_env = en, cr_dependency = dp, cr_paths_json = pj,
       cr_status = st, cr_result_digest = rd, cr_summary = sm,
       cr_created = ve_created e, cr_expires = ve_expires e\<rparr>"
    using assms by (auto simp: entry_row_def result_simps split: if_splits)
  have wt: "wt = vk_worktree_id (ve_key e)"
    using parts(4) by (auto simp: store_identifier_def result_simps dest!: store_text_same split: if_splits)
  note same = parts(1,5,12) [THEN store_text_same] parts(3,6-9,11) [THEN store_hash_same]
    store_paths_same [OF parts(10)] wt
  show "cr_cache_key r = entry_digest sha e" "row_key r = ve_key e"
    "cr_paths_json r = json_dumps (jstrs (sort (ve_paths e)))"
    "\<forall>p\<in>set (ve_paths e). cache_path p = Inr p"
    "cr_status r = ve_status e" "ve_status e \<in> set cache_statuses"
    "cr_result_digest r = ve_result_digest e" "hex64 (ve_result_digest e)"
    "cr_summary r = ve_summary e" "cr_created r = ve_created e" "cr_expires r = ve_expires e"
    using same parts(2) by (simp_all add: r row_key_def)
qed

definition table_mirrors :: "(string \<Rightarrow> string) \<Rightarrow> vcache \<Rightarrow> cache_row list \<Rightarrow> bool" where
  "table_mirrors sha c rows \<longleftrightarrow> vc_store c = Some rows \<and> kdistinct cr_cache_key rows \<and>
     kdistinct (entry_digest sha) (vc_entries c) \<and>
     (\<forall>e\<in>set (vc_entries c). \<exists>r\<in>set rows. entry_row sha e = Inr r) \<and>
     (\<forall>r\<in>set rows. \<exists>e\<in>set (vc_entries c). entry_row sha e = Inr r)"

text \<open>Restricting both sides to the same keys keeps the mirror.\<close>

lemma table_mirrors_filter:
  assumes "table_mirrors sha c rows" "vc_store t = Some (filter (\<lambda>r. P (cr_cache_key r)) rows)"
    and "set (vc_entries t) = {e \<in> set (vc_entries c). P (entry_digest sha e)}"
    and "kdistinct (entry_digest sha) (vc_entries t)"
  shows "table_mirrors sha t (filter (\<lambda>r. P (cr_cache_key r)) rows)"
  using assms unfolding table_mirrors_def
  by (auto simp: kdistinct_filter) (metis entry_row_columns(1))+

lemma table_mirrors_length:
  assumes "table_mirrors sha c rows" shows "length rows = length (vc_entries c)"
proof -
  have "cr_cache_key ` set rows = entry_digest sha ` set (vc_entries c)"
    using assms unfolding table_mirrors_def by (auto simp: image_iff) (metis entry_row_columns(1))+
  then have "card (set (map cr_cache_key rows)) = card (set (map (entry_digest sha) (vc_entries c)))" by simp
  then show ?thesis using assms unfolding table_mirrors_def kdistinct_def by (metis distinct_card length_map)
qed

lemma delete_rows_accepted:
  "delete_rows keys rows = Inr rows' \<Longrightarrow> rows' = filter (\<lambda>r. cr_cache_key r \<notin> set keys) rows"
proof -
  assume "delete_rows keys rows = Inr rows'"
  then obtain ks where ks: "mapE (store_hash ''cache_key'') keys = Inr ks"
    and r: "rows' = filter (\<lambda>r. cr_cache_key r \<notin> set ks) rows"
    by (auto simp: delete_rows_def result_simps)
  have "ks = keys" by (rule mapE_unchanged [OF ks]) (simp add: store_hash_same)
  with r show ?thesis by simp
qed

lemma store_call_some:
  "vc_store c = Some rows \<Longrightarrow> store_call f c =
     (case f rows of Inl e \<Rightarrow> (Inl e, c) | Inr rows' \<Rightarrow> (Inr (), c\<lparr>vc_store := Some rows'\<rparr>))"
  by (simp add: store_call_def readS_def checkS_eq updS_def split: sum.split)

lemma trim_store_accepted:
  assumes "vc_store c = Some rows" "trim_store stale now n c = (Inr x, t)"
  shows "\<exists>rows'. prune_rows now n (filter (\<lambda>r. cr_cache_key r \<notin> set stale) rows) = Inr rows' \<and>
    t = c\<lparr>vc_store := Some rows'\<rparr>"
proof (cases "stale = []")
  case True
  with assms show ?thesis
    by (auto simp: trim_store_def bindS_def retS_def store_call_some split: sum.splits)
next
  case False
  then obtain rows' where d: "delete_rows (py_fromkeys stale) rows = Inr rows'"
    using assms by (auto simp: trim_store_def bindS_def store_call_some split: sum.splits)
  from delete_rows_accepted [OF d] have "rows' = filter (\<lambda>r. cr_cache_key r \<notin> set stale) rows" by simp
  with False d assms show ?thesis
    by (auto simp: trim_store_def bindS_def store_call_some split: sum.splits)
qed

lemma trim_keys:
  assumes "kdistinct (entry_digest sha) es"
  shows "set (kept_entries sha now n es) = {e \<in> set es. entry_digest sha e \<notin>
      set (map (entry_digest sha) (filter (\<lambda>e. ve_expires e \<le> now) es) @ overflow_keys sha n (fresh_entries now es))}"
    (is "_ = ?right")
proof -
  have inj: "inj_on (entry_digest sha) (set es)" using assms by (simp add: kdistinct_def distinct_map)
  have "e \<in> set (kept_entries sha now n es) \<longleftrightarrow> e \<in> ?right" for e
  proof (cases "e \<in> set es \<and> now < ve_expires e")
    case True
    have "entry_digest sha e \<notin> entry_digest sha ` {f \<in> set es. ve_expires f \<le> now}"
    proof
      assume "entry_digest sha e \<in> entry_digest sha ` {f \<in> set es. ve_expires f \<le> now}"
      then obtain f where f: "f \<in> set es" "ve_expires f \<le> now" "entry_digest sha e = entry_digest sha f" by auto
      with inj_onD [OF inj f(3)] True show False by auto
    qed
    with True show ?thesis by (simp add: kept_entries_def fresh_entries_def Let_def)
  next
    case False
    then show ?thesis by (auto simp: kept_entries_def fresh_entries_def Let_def)
  qed
  then show ?thesis by blast
qed

lemma trim_mirrored:
  assumes "table_mirrors sha c rows" "cache_trim sha True c = (Inr x, t)" "0 \<le> vc_max_entries c"
  shows "\<exists>rows'. table_mirrors sha t rows'"
proof -
  let ?now = "vc_clock c (vc_reads c)" and ?es = "vc_entries c" and ?n = "vc_max_entries c"
  let ?kept = "kept_entries sha ?now ?n ?es"
  let ?stale = "map (entry_digest sha) (filter (\<lambda>e. ve_expires e \<le> ?now) ?es) @
    overflow_keys sha ?n (fresh_entries ?now ?es)"
  let ?c = "vc_entries_update (\<lambda>_. ?kept) (vc_reads_update Suc c)"
  let ?rows = "filter (\<lambda>r. cr_cache_key r \<notin> set ?stale) rows"
  have d: "kdistinct (entry_digest sha) ?es" "vc_store ?c = Some rows"
    using assms(1) by (simp_all add: table_mirrors_def)
  from assms(2) have "trim_store ?stale ?now ?n ?c = (Inr x, t)"
    by (simp add: cache_trim_def cache_clock_def readS_def bindS_def updS_def Let_def)
  from trim_store_accepted [OF d(2) this] obtain rows' where prune: "prune_rows ?now ?n ?rows = Inr rows'"
    and t: "t = ?c\<lparr>vc_store := Some rows'\<rparr>" by blast
  have m: "table_mirrors sha (?c\<lparr>vc_store := Some ?rows\<rparr>) ?rows"
    by (rule table_mirrors_filter [OF assms(1)]) (use trim_keys [OF d(1)] kdistinct_kept [OF d(1)] in simp_all)
  have live: "filter (\<lambda>r. ?now < cr_expires r) ?rows = ?rows"
  proof (rule filter_True, rule ballI)
    fix r assume "r \<in> set ?rows"
    with m obtain e where e: "e \<in> set ?kept" "entry_row sha e = Inr r" by (auto simp: table_mirrors_def)
    from e(1) set_kept_entries [of sha ?now ?n ?es] have "?now < ve_expires e" by auto
    with entry_row_columns(11) [OF e(2)] show "?now < cr_expires r" by simp
  qed
  have "int (length ?rows) \<le> ?n"
    using table_mirrors_length [OF m] length_kept_entries [OF d(1) assms(3), of ?now] by simp
  with prune live have "rows' = ?rows"
    unfolding prune_rows_def live Let_def by (auto split: if_splits)
  with t m show ?thesis by auto
qed

lemma row_key_inj: "cr_cache_key r = cr_cache_key s \<Longrightarrow> row_key r = row_key s \<Longrightarrow>
   r\<lparr>cr_paths_json := cr_paths_json s, cr_status := cr_status s, cr_result_digest := cr_result_digest s,
     cr_summary := cr_summary s, cr_created := cr_created s, cr_expires := cr_expires s\<rparr> = s"
  by (cases r; cases s) (simp add: row_key_def)

lemma upsert_mirrored:
  assumes "inj sha" "table_mirrors sha c rows" "entry_row sha e = Inr r"
  shows "upsert_row r rows = kset cr_cache_key r rows"
proof (cases "kget cr_cache_key (cr_cache_key r) rows")
  case None
  then have "\<not> list_ex (\<lambda>u. cr_cache_key u = cr_cache_key r) rows"
    by (simp add: list_ex_key kget_None_iff)
  with None show ?thesis by (simp add: upsert_row_def kset_def)
next
  case (Some old)
  from kget_SomeD [OF Some] have old: "old \<in> set rows" "cr_cache_key old = cr_cache_key r" by simp_all
  then obtain f where f: "entry_row sha f = Inr old" using assms(2) by (auto simp: table_mirrors_def)
  have "ve_key f = ve_key e"
    using old(2) entry_row_columns(1) [OF f] entry_row_columns(1) [OF assms(3)] assms(1)
    by (simp add: key_digest_inj)
  then have "row_key old = row_key r" using entry_row_columns(2) [OF f] entry_row_columns(2) [OF assms(3)] by simp
  with Some row_key_inj [OF old(2)] show ?thesis by (simp add: upsert_row_def)
qed

lemma put_table_mirrors:
  assumes "inj sha" "table_mirrors sha c rows" "0 \<le> vc_max_entries c"
    and "cache_put sha k ps st rd sm c = (Inr x, t)"
  shows "\<exists>rows'. table_mirrors sha t rows'"
proof -
  from assms(4) obtain qs where qs: "put_checked ps st rd sm = Inr qs"
    by (cases "put_checked ps st rd sm") (simp_all add: refused_call_state)
  let ?e = "new_entry k qs st rd sm (vc_clock c (vc_reads c)) (vc_ttl c)"
  let ?c = "vc_entries_update (\<lambda>_. kset (entry_digest sha) ?e (vc_entries c)) (vc_reads_update Suc c)"
  have store: "vc_store ?c = Some rows" using assms(2) by (simp add: table_mirrors_def)
  have run: "bindS (store_call (save_row sha ?e)) (\<lambda>_. bindS (cache_trim sha True) (\<lambda>_. retS ?e)) ?c = (Inr x, t)"
    using assms(4) qs by (simp add: cache_put_def checkS_eq cache_clock_def readS_def bindS_def [of "updS _"] updS_def Let_def)
  then obtain r where r: "entry_row sha ?e = Inr r"
    by (cases "entry_row sha ?e") (simp_all add: bindS_def store_call_some [OF store] save_row_def)
  let ?rows = "kset cr_cache_key r rows" and ?d = "entry_digest sha"
  have saved: "save_row sha ?e rows = Inr ?rows"
    using upsert_mirrored [OF assms(1,2) r] by (simp add: save_row_def r)
  let ?t = "?c\<lparr>vc_store := Some ?rows\<rparr>"
  have trim: "\<exists>u y. cache_trim sha True ?t = (Inr y, t)"
    using run by (auto simp: bindS_def store_call_some [OF store] saved retS_def split: prod.splits sum.splits)
  have m: "kdistinct cr_cache_key rows" "kdistinct ?d (vc_entries c)" using assms(2) by (simp_all add: table_mirrors_def)
  have key: "cr_cache_key r = ?d ?e" by (rule entry_row_columns(1) [OF r])
  have "table_mirrors sha ?t ?rows"
    unfolding table_mirrors_def
  proof (intro conjI ballI)
    fix f assume "f \<in> set (vc_entries ?t)"
    then have "f = ?e \<or> f \<in> set (vc_entries c) \<and> ?d f \<noteq> ?d ?e" using set_kset [OF m(2)] by auto
    then show "\<exists>r\<in>set ?rows. entry_row sha f = Inr r"
    proof
      assume f: "f \<in> set (vc_entries c) \<and> ?d f \<noteq> ?d ?e"
      with assms(2) obtain s where s: "s \<in> set rows" "entry_row sha f = Inr s" by (auto simp: table_mirrors_def)
      with f key entry_row_columns(1) [OF s(2)] set_kset [OF m(1)] show ?thesis by auto
    qed (use r set_kset [OF m(1)] in auto)
  next
    fix s assume "s \<in> set ?rows"
    then have "s = r \<or> s \<in> set rows \<and> cr_cache_key s \<noteq> cr_cache_key r" using set_kset [OF m(1)] by auto
    then show "\<exists>f\<in>set (vc_entries ?t). entry_row sha f = Inr s"
    proof
      assume s: "s \<in> set rows \<and> cr_cache_key s \<noteq> cr_cache_key r"
      with assms(2) obtain f where f: "f \<in> set (vc_entries c)" "entry_row sha f = Inr s" by (auto simp: table_mirrors_def)
      with s key entry_row_columns(1) [OF f(2)] set_kset [OF m(2)] show ?thesis by auto
    qed (use r set_kset [OF m(2)] in auto)
  qed (use m in \<open>simp_all add: kdistinct_kset\<close>)
  with trim trim_mirrored [of sha ?t ?rows] assms(3) show ?thesis by auto
qed

lemma get_mirrored:
  assumes "table_mirrors sha c rows" "0 \<le> vc_max_entries c" "cache_get sha k c = (Inr x, t)"
  shows "\<exists>rows'. table_mirrors sha t rows'"
proof -
  from assms(3) obtain y where "cache_trim sha True c = (Inr y, t)"
    by (auto simp: cache_get_def bindS_def readS_def retS_def split: prod.splits sum.splits)
  with trim_mirrored [OF assms(1) _ assms(2)] show ?thesis by blast
qed

lemma invalidate_mirrored:
  assumes "table_mirrors sha c rows" "cache_invalidate sha ps c = (Inr x, t)"
  shows "\<exists>rows'. table_mirrors sha t rows'"
proof -
  from assms(2) obtain changed where ch: "changed_checked ps = Inr changed"
    by (cases "changed_checked ps") (simp_all add: refused_call_state)
  let ?remove = "map (entry_digest sha) (filter (touched_by changed) (vc_entries c))"
  let ?P = "\<lambda>k. k \<notin> set ?remove"
  let ?c = "c\<lparr>vc_entries := filter (\<lambda>e. ?P (entry_digest sha e)) (vc_entries c)\<rparr>"
  let ?rows = "filter (\<lambda>r. ?P (cr_cache_key r)) rows"
  have store: "vc_store ?c = Some rows" using assms(1) by (simp add: table_mirrors_def)
  have "t = ?c\<lparr>vc_store := Some ?rows\<rparr>"
  proof (cases "?remove = []")
    case True
    then have rows: "?rows = rows" by simp
    have "t = ?c"
      using True assms(2) ch
      by (simp add: cache_invalidate_def checkS_eq readS_def bindS_def updS_def retS_def Let_def
        del: set_map set_filter)
    with rows store show ?thesis by simp
  next
    case False
    with assms(2) ch show ?thesis
      by (auto simp: cache_invalidate_def checkS_eq readS_def bindS_def updS_def retS_def Let_def
        store_call_some [OF store] simp del: set_map set_filter dest!: delete_rows_accepted
        split: prod.splits sum.splits)
  qed
  moreover have "table_mirrors sha (?c\<lparr>vc_store := Some ?rows\<rparr>) ?rows"
    by (rule table_mirrors_filter [OF assms(1)]) (use assms(1) in \<open>auto simp: table_mirrors_def kdistinct_filter\<close>)
  ultimately show ?thesis by blast
qed

lemma isOk_Ex: "isOk r \<longleftrightarrow> (\<exists>x. r = Inr x)"
  by (cases r) auto

lemma call_mirrored:
  assumes "inj sha" "table_mirrors sha c rows" "0 \<le> vc_max_entries c" "call_accepted sha x c"
  shows "\<exists>rows'. table_mirrors sha (cache_call_state sha x c) rows'"
proof (cases x)
  case (CPut k ps st rd sm)
  with assms(4) obtain y where "cache_put sha k ps st rd sm c = (Inr y, cache_call_state sha x c)"
    by (auto simp: isOk_Ex prod_eq_iff)
  then show ?thesis by (rule put_table_mirrors [OF assms(1-3)])
next
  case (CGet k)
  with assms(4) obtain y where "cache_get sha k c = (Inr y, cache_call_state sha x c)"
    by (auto simp: isOk_Ex prod_eq_iff)
  then show ?thesis by (rule get_mirrored [OF assms(2,3)])
next
  case (CInvalidate ps)
  with assms(4) obtain y where "cache_invalidate sha ps c = (Inr y, cache_call_state sha x c)"
    by (auto simp: isOk_Ex prod_eq_iff)
  then show ?thesis by (rule invalidate_mirrored [OF assms(2)])
qed

lemma history_mirrored:
  assumes "inj sha" "table_mirrors sha c rows" "0 \<le> vc_max_entries c" "all_accepted sha cs c"
  shows "\<exists>rows'. table_mirrors sha (fst (cache_history sha cs (c, b))) rows'"
  using assms(2-)
proof (induction cs arbitrary: c b rows)
  case (Cons x cs)
  from call_mirrored [OF assms(1) Cons.prems(1,2)] Cons.prems(3)
  obtain rows' where "table_mirrors sha (cache_call_state sha x c) rows'" by auto
  moreover have "0 \<le> vc_max_entries (cache_call_state sha x c)"
    using call_frame [of c sha x] Cons.prems(2) by (simp add: same_frame_def)
  ultimately show ?case using Cons.IH [of "cache_call_state sha x c"] Cons.prems(3) by simp
qed auto

lemma key_checked_same: "isOk (cache_key_checked k) \<Longrightarrow> cache_key_checked k = Inr k"
  by (simp add: cache_key_checked_def split: if_splits)

lemma accepted_keys: "all_accepted sha cs c \<Longrightarrow> k \<in> set (put_keys cs) \<Longrightarrow> cache_key_checked k = Inr k"
proof (induction cs arbitrary: c)
  case (Cons x cs)
  show ?case
  proof (cases "k \<in> set (put_keys cs)")
    case True
    with Cons.IH [of "cache_call_state sha x c"] Cons.prems(1) show ?thesis by simp
  next
    case False
    with Cons.prems(2) have "k \<in> set (put_key x)" by (simp add: put_keys_def)
    with Cons.prems(1) show ?thesis by (cases x) (simp_all add: key_checked_same)
  qed
qed (simp add: put_keys_def)

section \<open>Restarting from the table\<close>

text \<open>What the table keeps of an entry: its paths come back in ascending order.\<close>

definition canonical_entry :: "cache_entry \<Rightarrow> cache_entry" where
  "canonical_entry e = e\<lparr>ve_paths := sort (ve_paths e)\<rparr>"

lemma canonical_simps [simp]:
  "ve_key (canonical_entry e) = ve_key e" "ve_expires (canonical_entry e) = ve_expires e"
  "ve_created (canonical_entry e) = ve_created e"
  by (simp_all add: canonical_entry_def)

definition read_back :: "cache_row \<Rightarrow> cache_row \<times> pyval list" where
  "read_back r = (r, case loaded_paths r of Inr ps \<Rightarrow> ps | Inl _ \<Rightarrow> [])"

lemma py_strings_PStr [simp]: "py_strings (map PStr ps) = ps"
  by (induction ps) (simp_all add: py_strings_def)

lemma entry_row_back:
  assumes "entry_row sha e = Inr r" "cache_key_checked (ve_key e) = Inr (ve_key e)"
  shows "bindE (loaded_paths r) (\<lambda>ps. Inr (r, ps)) = Inr (read_back r)"
    and "row_entry sha (read_back r) = Inr (canonical_entry e)"
proof -
  note col = entry_row_columns [OF assms(1)]
  have lp: "loaded_paths r = Inr (map PStr (sort (ve_paths e)))"
    by (simp add: loaded_paths_def col(3) json_loads_jstrs)
  then show "bindE (loaded_paths r) (\<lambda>ps. Inr (r, ps)) = Inr (read_back r)" by (simp add: read_back_def)
  have "mapE cache_path (sort (ve_paths e)) = Inr (map (\<lambda>p. p) (sort (ve_paths e)))"
    by (rule mapE_all_Inr) (use col(4) in simp)
  with lp col assms(2) show "row_entry sha (read_back r) = Inr (canonical_entry e)"
    by (simp add: row_entry_def read_back_def canonical_entry_def)
qed

lemma kset_new: "key v \<notin> key ` set d \<Longrightarrow> kset key v d = d @ [v]"
  by (simp add: kset_def list_ex_key)

lemma restored_fold:
  assumes "\<forall>r\<in>set rs. \<exists>e. E r = e \<and> row_entry sha (read_back r) = Inr e \<and> entry_digest sha e = cr_cache_key r"
    and "distinct (map cr_cache_key rs)" "entry_digest sha ` set d \<inter> cr_cache_key ` set rs = {}"
  shows "foldl (\<lambda>d record. case row_entry sha record of
         Inl _ \<Rightarrow> d
       | Inr e \<Rightarrow> if now < ve_expires e then kset (entry_digest sha) e d else d) d (map read_back rs) =
     d @ filter (\<lambda>e. now < ve_expires e) (map E rs)"
  using assms
proof (induction rs arbitrary: d)
  case (Cons r rs)
  then have e: "row_entry sha (read_back r) = Inr (E r)" "entry_digest sha (E r) = cr_cache_key r" by auto
  have "kset (entry_digest sha) (E r) d = d @ [E r]" by (rule kset_new) (use Cons.prems(3) e(2) in auto)
  with e Cons.IH [of "d @ [E r]"] Cons.IH [of d] Cons.prems show ?case by auto
qed simp

lemma call_bounded:
  assumes "kdistinct (entry_digest sha) (vc_entries c)" "call_accepted sha x c" "0 \<le> vc_max_entries c"
    and "int (length (vc_entries c)) \<le> vc_max_entries c"
  shows "int (length (vc_entries (cache_call_state sha x c))) \<le> vc_max_entries c"
proof (cases x)
  case (CPut k ps st rd sm)
  with assms(2) obtain y where y: "cache_put sha k ps st rd sm c = (Inr y, cache_call_state sha x c)"
    by (auto simp: isOk_Ex prod_eq_iff)
  then obtain qs where qs: "put_checked ps st rd sm = Inr qs"
    by (cases "put_checked ps st rd sm") (simp_all add: refused_call_state)
  from put_memory [OF qs, of sha k c] y show ?thesis
    using length_kept_entries [OF kdistinct_kset [OF assms(1)] assms(3)] by (simp add: ends_iff Let_def)
next
  case (CGet k)
  with get_memory [of sha k c] length_kept_entries [OF assms(1,3)] show ?thesis by (simp add: ends_iff)
next
  case (CInvalidate ps)
  show ?thesis
  proof (cases "changed_checked ps")
    case (Inl e)
    with CInvalidate assms(4) show ?thesis by (simp add: refused_call_state)
  next
    case (Inr changed)
    let ?t = "cache_call_state sha x c"
    have "length (vc_entries ?t) \<le> length (vc_entries c)"
      using invalidate_memory [OF Inr, of sha c] CInvalidate by (simp add: ends_iff)
    with assms(4) show ?thesis by linarith
  qed
qed

lemma history_bounded:
  assumes "inj sha" "remembers_truth sha c b" "all_accepted sha cs c" "0 \<le> vc_max_entries c"
    and "int (length (vc_entries c)) \<le> vc_max_entries c"
  shows "int (length (vc_entries (fst (cache_history sha cs (c, b))))) \<le> vc_max_entries c"
  using assms(2-)
proof (induction cs arbitrary: c b)
  case (Cons x cs)
  have f: "vc_max_entries (cache_call_state sha x c) = vc_max_entries c"
    using call_frame [of c sha x] by (simp add: same_frame_def)
  have "int (length (vc_entries (cache_call_state sha x c))) \<le> vc_max_entries c"
    using call_bounded [of sha c x] Cons.prems by (simp add: remembers_truth_def)
  with Cons.IH [OF remembers_call [OF assms(1) Cons.prems(1), of x]] Cons.prems f show ?case by simp
qed simp

definition cache_lookup :: "(string \<Rightarrow> string) \<Rightarrow> vcache \<Rightarrow> cache_key \<Rightarrow> cache_entry option" where
  "cache_lookup sha c k = kget (entry_digest sha) (key_digest sha k) (vc_entries c)"

lemma restored_from_mirror:
  assumes m: "table_mirrors sha c rows"
    and keys: "\<forall>e\<in>set (vc_entries c). cache_key_checked (ve_key e) = Inr (ve_key e)"
  shows "load_rows rows = Inr (map read_back (sort_key row_order rows))"
    and "set (restored_entries sha now (map read_back (sort_key row_order rows))) =
      canonical_entry ` {e \<in> set (vc_entries c). now < ve_expires e}"
    and "kdistinct (entry_digest sha) (restored_entries sha now (map read_back (sort_key row_order rows)))"
proof -
  let ?rs = "sort_key row_order rows" and ?E = "\<lambda>r. projr (row_entry sha (read_back r))"
  have origin: "\<exists>e\<in>set (vc_entries c). entry_row sha e = Inr r" if "r \<in> set rows" for r
    using m that by (auto simp: table_mirrors_def)
  show "load_rows rows = Inr (map read_back ?rs)"
    unfolding load_rows_def
  proof (rule mapE_all_Inr)
    fix r assume "r \<in> set ?rs"
    with origin obtain e where e: "e \<in> set (vc_entries c)" "entry_row sha e = Inr r" by auto
    with entry_row_back(1) [OF e(2)] keys show "bindE (loaded_paths r) (\<lambda>ps. Inr (r, ps)) = Inr (read_back r)"
      by simp
  qed
  have E: "?E r = canonical_entry e" if "entry_row sha e = Inr r" "e \<in> set (vc_entries c)" for e r
    using entry_row_back(2) [OF that(1)] keys that(2) by simp
  have rs: "distinct (map cr_cache_key ?rs)"
    using m by (simp add: table_mirrors_def kdistinct_def distinct_map)
  have "\<forall>r\<in>set ?rs. \<exists>e. ?E r = e \<and> row_entry sha (read_back r) = Inr e \<and> entry_digest sha e = cr_cache_key r"
  proof
    fix r assume "r \<in> set ?rs"
    with origin obtain e where e: "e \<in> set (vc_entries c)" "entry_row sha e = Inr r" by auto
    with entry_row_back(2) [OF e(2)] keys entry_row_columns(1) [OF e(2)]
    show "\<exists>e. ?E r = e \<and> row_entry sha (read_back r) = Inr e \<and> entry_digest sha e = cr_cache_key r" by simp
  qed
  from restored_fold [OF this rs, of "[]" now]
  have fold: "restored_entries sha now (map read_back ?rs) = filter (\<lambda>e. now < ve_expires e) (map ?E ?rs)"
    by (simp add: restored_entries_def)
  have "?E ` set rows = canonical_entry ` set (vc_entries c)"
  proof (intro subset_antisym subsetI)
    fix f assume "f \<in> ?E ` set rows"
    with origin E show "f \<in> canonical_entry ` set (vc_entries c)" by force
  next
    fix f assume "f \<in> canonical_entry ` set (vc_entries c)"
    then obtain e where e: "e \<in> set (vc_entries c)" "f = canonical_entry e" by auto
    with m obtain r where "r \<in> set rows" "entry_row sha e = Inr r" by (auto simp: table_mirrors_def)
    with E e show "f \<in> ?E ` set rows" by force
  qed
  then show "set (restored_entries sha now (map read_back ?rs)) =
      canonical_entry ` {e \<in> set (vc_entries c). now < ve_expires e}"
    unfolding fold by auto
  have "map (entry_digest sha) (map ?E ?rs) = map cr_cache_key ?rs"
  proof (simp, rule ballI)
    fix r assume "r \<in> set rows"
    with origin obtain e where e: "e \<in> set (vc_entries c)" "entry_row sha e = Inr r" by auto
    with E [OF e(2,1)] entry_row_columns(1) [OF e(2)] show "entry_digest sha (?E r) = cr_cache_key r" by simp
  qed
  with rs have "kdistinct (entry_digest sha) (map ?E ?rs)" unfolding kdistinct_def by (simp only:)
  then show "kdistinct (entry_digest sha) (restored_entries sha now (map read_back ?rs))"
    unfolding fold by (rule kdistinct_filter)
qed

lemma vcache_new_empty:
  assumes "vcache_new sha (Some []) clock ttl n = Inr c"
  shows "vc_store c = Some [] \<and> vc_entries c = [] \<and> vc_ttl c = ttl \<and> vc_max_entries c = n \<and>
    1 \<le> ttl \<and> ttl \<le> 24 * 60 * 60 \<and> 1 \<le> n \<and> n \<le> 10000"
  using assms
  by (auto simp: vcache_new_def load_rows_def restored_entries_def cache_trim_def cache_clock_def readS_def
    bindS_def updS_def retS_def Let_def kept_entries_def fresh_entries_def split: if_splits)

text \<open>
  C16: A restart loses nothing that the table accepted. After a history of accepted calls, a cache that
  is restored from the table answers for every identity what the running cache holds for it, as
  far as it has not expired when the table is read.
\<close>

theorem restarted_cache_agrees:
  assumes "inj sha" "vcache_new sha (Some []) clock ttl n = Inr c0" "all_accepted sha cs c0"
    and "cache_history sha cs (c0, Map.empty) = (c, b)"
  shows "\<exists>c'. vcache_new sha (vc_store c) clock' ttl n = Inr c' \<and>
    (\<forall>k. cache_lookup sha c' k = (case cache_lookup sha c k of
        None \<Rightarrow> None
      | Some e \<Rightarrow> if clock' 0 < ve_expires e \<and> clock' 1 < ve_expires e then Some (canonical_entry e) else None))"
proof -
  from vcache_new_empty [OF assms(2)] have c0: "vc_store c0 = Some []" "vc_entries c0 = []" "vc_max_entries c0 = n"
    and bounds: "1 \<le> ttl" "ttl \<le> 24 * 60 * 60" "1 \<le> n" "n \<le> 10000" by simp_all
  have start: "table_mirrors sha c0 []" using c0 by (simp add: table_mirrors_def kdistinct_def)
  have room: "0 \<le> vc_max_entries c0" using bounds(3) c0(3) by simp
  from history_mirrored [OF assms(1) start room assms(3), of Map.empty] assms(4)
  obtain rows where m: "table_mirrors sha c rows" by auto
  note truth = empty_history(1) [OF assms(1) c0(2) assms(4)]
  have "ve_key e \<in> set (put_keys cs)" if "e \<in> set (vc_entries c)" for e
    using truth that history_dom [of sha cs c0 Map.empty] assms(4) by (auto simp: remembers_truth_def)
  with accepted_keys [OF assms(3)]
  have keys: "\<forall>e\<in>set (vc_entries c). cache_key_checked (ve_key e) = Inr (ve_key e)" by blast
  let ?records = "map read_back (sort_key row_order rows)"
  let ?restored = "restored_entries sha (clock' 0) ?records"
  let ?c = "\<lparr>vc_store = Some rows, vc_clock = clock', vc_reads = 1, vc_ttl = ttl, vc_max_entries = n,
    vc_entries = ?restored\<rparr>"
  let ?t = "snd (cache_trim sha False ?c)"
  have new: "vcache_new sha (vc_store c) clock' ttl n = Inr ?t"
    using bounds m restored_from_mirror(1) [OF m keys] by (simp add: vcache_new_def table_mirrors_def)
  note set_restored = restored_from_mirror(2) [OF m keys, of "clock' 0"]
  note dist = restored_from_mirror(3) [OF m keys, of "clock' 0"]
  have all: "kept_entries sha (clock' 1) n ?restored = fresh_entries (clock' 1) ?restored"
  proof (rule kept_all)
    have "kdistinct (entry_digest sha) (vc_entries c)" using m by (simp add: table_mirrors_def)
    have "length ?restored = card (set ?restored)"
      using dist by (metis distinct_card distinct_map kdistinct_def)
    also have "\<dots> \<le> card (set (vc_entries c))"
      unfolding set_restored by (rule order_trans [OF card_image_le card_mono]) auto
    also have "\<dots> \<le> length (vc_entries c)" by (rule card_length)
    finally have "length ?restored \<le> length (vc_entries c)" .
    moreover have "int (length (vc_entries c)) \<le> n"
      using history_bounded [OF assms(1) _ assms(3) room, of Map.empty] c0 bounds(3) assms(4)
      by (simp add: remembers_truth_def kdistinct_def)
    ultimately have "int (length ?restored) \<le> n" by linarith
    then show "int (length (fresh_entries (clock' 1) ?restored)) \<le> n"
      unfolding fresh_entries_def using length_filter_le [of _ ?restored] by (meson of_nat_mono order_trans)
  qed
  define u where "u = ?t"
  have t: "vc_entries u = fresh_entries (clock' 1) ?restored"
    using trim_memory [of sha False ?c] all by (simp add: ends_iff u_def)
  have td: "kdistinct (entry_digest sha) (vc_entries u)"
    unfolding t fresh_entries_def by (rule kdistinct_filter [OF dist])
  have cd: "kdistinct (entry_digest sha) (vc_entries c)" using m by (simp add: table_mirrors_def)
  have "cache_lookup sha u k = (case cache_lookup sha c k of
        None \<Rightarrow> None
      | Some e \<Rightarrow> if clock' 0 < ve_expires e \<and> clock' 1 < ve_expires e then Some (canonical_entry e) else None)"
    (is "_ = ?right") for k
  proof (cases "cache_lookup sha c k")
    case None
    then have "key_digest sha k \<notin> entry_digest sha ` set (vc_entries c)"
      by (simp add: cache_lookup_def kget_None_iff)
    then have "key_digest sha k \<notin> entry_digest sha ` set (vc_entries u)"
      unfolding t fresh_entries_def using set_restored by auto
    then have "cache_lookup sha u k = None" by (simp add: cache_lookup_def kget_None_iff)
    with None show ?thesis by simp
  next
    case (Some e)
    then have e: "e \<in> set (vc_entries c)" "entry_digest sha e = key_digest sha k"
      using cd by (simp_all add: cache_lookup_def kget_Some_iff)
    have same: "f = e" if "f \<in> set (vc_entries c)" "entry_digest sha f = key_digest sha k" for f
      using that e cd by (metis distinct_map inj_onD kdistinct_def)
    show ?thesis
    proof (cases "clock' 0 < ve_expires e \<and> clock' 1 < ve_expires e")
      case True
      then have "canonical_entry e \<in> set (vc_entries u)"
        unfolding t fresh_entries_def using e(1) set_restored by auto
      with True Some td e(2) show ?thesis by (simp add: cache_lookup_def kget_Some_iff)
    next
      case False
      have "key_digest sha k \<notin> entry_digest sha ` set (vc_entries u)"
        unfolding t fresh_entries_def using set_restored same False by force
      then have "cache_lookup sha u k = None" by (simp add: cache_lookup_def kget_None_iff)
      with Some False show ?thesis by auto
    qed
  qed
  with new show ?thesis unfolding u_def by blast
qed

section \<open>Examples\<close>

text \<open>A digest without collisions that gives one text a hexadecimal digest.\<close>

definition hex_of_1 :: string where "hex_of_1 = replicate 64 (CHR ''1'')"

definition example_key :: cache_key where
  "example_key = \<lparr>vk_worktree_id = ''tree'', vk_head = replicate 40 (CHR ''0''), vk_diff_hash = hex_of_1,
     vk_command = hex_of_1, vk_env = hex_of_1, vk_dependency = hex_of_1\<rparr>"

definition swap_digest :: "string \<Rightarrow> string \<Rightarrow> string \<Rightarrow> string" where
  "swap_digest a b s = (if s = a then b else if s = b then a else s)"

definition key_sha :: "string \<Rightarrow> string" where
  "key_sha = swap_digest (ensure_ascii (json_dumps (jstrs [vk_worktree_id example_key,
     vk_head example_key, vk_diff_hash example_key, vk_command example_key, vk_env example_key,
     vk_dependency example_key])))
     hex_of_1"

definition example_cache :: "cache_row list option \<Rightarrow> vcache" where
  "example_cache store = \<lparr>vc_store = store, vc_clock = (\<lambda>n. of_nat n), vc_reads = 2, vc_ttl = 900,
     vc_max_entries = 512, vc_entries = []\<rparr>"

definition example_put :: cache_call where
  "example_put = CPut example_key [''tests/b.py'', ''a.py''] ''passed'' hex_of_1 ''ok''"

lemma inj_key_sha: "inj key_sha"
  by (auto simp: key_sha_def swap_digest_def inj_def)

lemma example_digest_key: "key_digest key_sha example_key = hex_of_1"
  by (simp add: key_digest_def key_sha_def swap_digest_def)


lemma example_hash: "store_hash n hex_of_1 = Inr hex_of_1"
  by code_simp

lemma example_head: "store_text n 128 False (replicate 40 (CHR ''0'')) = Inr (replicate 40 (CHR ''0''))"
  by code_simp

lemma example_texts:
  "put_checked [''tests/b.py'', ''a.py''] ''passed'' hex_of_1 ''ok'' = Inr [''tests/b.py'', ''a.py'']"
  "store_text ''cache_status'' 32 False ''passed'' = Inr ''passed''"
  "store_identifier ''worktree_id'' ''tree'' = Inr ''tree''"
  "isOk (store_paths ''relevant_paths'' [''tests/b.py'', ''a.py''])"
  "store_text ''output_summary'' 2048 True ''ok'' = Inr ''ok''"
  "redact_secrets ''ok'' = ''ok''"
  "isOk (cache_key_checked example_key)"
  by code_simp+

definition example_entry :: cache_entry where
  "example_entry = new_entry example_key [''tests/b.py'', ''a.py''] ''passed'' hex_of_1 ''ok'' 2 900"

lemma example_entry_row: "\<exists>r. entry_row key_sha example_entry = Inr r"
proof -
  obtain paths where "store_paths ''relevant_paths'' [''tests/b.py'', ''a.py''] = Inr paths"
    using example_texts(4) by (auto simp: isOk_Ex)
  then show ?thesis
    using example_texts example_hash example_head example_digest_key
    by (simp add: entry_row_def example_entry_def new_entry_def example_key_def cache_statuses_def)
qed

lemma example_state: "fst (cache_put key_sha example_key [''tests/b.py'', ''a.py''] ''passed'' hex_of_1 ''ok''
    (example_cache store)) = Inr example_entry" if "store = None \<or> store = Some []"
proof -
  obtain r where r: "entry_row key_sha example_entry = Inr r" using example_entry_row by blast
  have e: "ve_created example_entry = 2" "ve_expires example_entry = 902" "cr_created r = 2" "cr_expires r = 902"
    using entry_row_columns(10,11) [OF r] by (simp_all add: example_entry_def new_entry_def)
  show ?thesis using that
    by (auto simp: cache_put_def checkS_eq example_texts(1) cache_clock_def readS_def bindS_def updS_def retS_def
      example_cache_def store_call_def save_row_def upsert_row_def store_simps r e Let_def
      example_entry_def [symmetric] cache_trim_def kset_def kept_entries_def fresh_entries_def
      overflow_keys_def trim_store_def prune_rows_def)
qed

lemma example_new: "vcache_new key_sha (Some []) of_nat 900 512 = Inr (example_cache (Some []))"
  by (simp add: vcache_new_def example_cache_def load_rows_def restored_entries_def cache_trim_def cache_clock_def
    readS_def bindS_def updS_def retS_def kept_entries_def fresh_entries_def overflow_keys_def)

lemma example_after_put:
  assumes "store = None \<or> store = Some []"
  shows "vc_entries (cache_call_state key_sha example_put (example_cache store)) = [example_entry]"
    and "vc_reads (cache_call_state key_sha example_put (example_cache store)) = 4"
    and "same_frame (example_cache store) (cache_call_state key_sha example_put (example_cache store))"
proof -
  have ok: "isOk (fst (cache_put key_sha example_key [''tests/b.py'', ''a.py''] ''passed'' hex_of_1 ''ok''
      (example_cache store)))" using example_state [OF assms] by simp
  have new: "new_entry example_key [''tests/b.py'', ''a.py''] ''passed'' hex_of_1 ''ok'' 2 900 = example_entry"
    by (simp add: example_entry_def)
  have e: "ve_expires example_entry = 902" by (simp add: example_entry_def new_entry_def)
  show "vc_entries (cache_call_state key_sha example_put (example_cache store)) = [example_entry]"
    "vc_reads (cache_call_state key_sha example_put (example_cache store)) = 4"
    "same_frame (example_cache store) (cache_call_state key_sha example_put (example_cache store))"
    using put_memory [OF example_texts(1), of key_sha example_key "example_cache store"] ok
    by (simp_all add: ends_iff Let_def example_put_def example_cache_def new kset_def kept_entries_def
      fresh_entries_def overflow_keys_def e)
qed

lemma example_history: "cache_history key_sha [example_put] (example_cache store, Map.empty) =
    (cache_call_state key_sha example_put (example_cache store), [example_key \<mapsto> example_entry])"
  by (simp add: example_put_def example_texts(1) example_entry_def example_cache_def)

lemma example_get:
  "\<exists>t. cache_get key_sha example_key (cache_call_state key_sha example_put (example_cache None)) =
     (Inr (Some example_entry), t)"
proof -
  let ?c = "cache_call_state key_sha example_put (example_cache None)"
  have c: "vc_entries ?c = [example_entry]" "vc_reads ?c = 4" "vc_clock ?c = of_nat" "vc_max_entries ?c = 512"
    "vc_store ?c = None"
  proof -
    show "vc_entries ?c = [example_entry]" "vc_reads ?c = 4" by (simp_all add: example_after_put)
    show "vc_clock ?c = of_nat" "vc_max_entries ?c = 512"
      using example_after_put(3) [of None] by (simp_all add: same_frame_def example_cache_def fun_eq_iff)
    show "vc_store ?c = None"
      by (simp add: example_put_def cache_put_def checkS_eq example_texts(1) cache_clock_def readS_def bindS_def
        updS_def retS_def example_cache_def store_call_def cache_trim_def trim_store_def Let_def)
  qed
  have e: "ve_expires example_entry = 902" "ve_key example_entry = example_key"
    by (simp_all add: example_entry_def new_entry_def)
  define d where "d = ?c"
  note c = c [folded d_def]
  show ?thesis unfolding d_def [symmetric]
    by (simp add: cache_get_def cache_trim_def cache_clock_def readS_def bindS_def updS_def retS_def Let_def
      store_call_def trim_store_def c e kept_entries_def fresh_entries_def overflow_keys_def store_simps)
qed

lemma cache_answers_last_verdict_witness:
  "\<exists>t. cache_get key_sha example_key (cache_call_state key_sha example_put (example_cache None)) =
      (Inr (Some example_entry), t) \<and> int (length (vc_entries t)) \<le> 512 \<and> 4 < ve_expires example_entry"
proof -
  obtain t where t: "cache_get key_sha example_key (cache_call_state key_sha example_put (example_cache None)) =
      (Inr (Some example_entry), t)" using example_get by blast
  from cache_answers_last_verdict [OF inj_key_sha _ _ example_history t]
  have "int (length (vc_entries t)) \<le> 512" by (simp add: example_cache_def)
  moreover from cache_answers_last_verdict [OF inj_key_sha _ _ example_history t]
  have "of_nat 4 < ve_expires example_entry"
    using example_after_put(2,3) [of None] by (simp add: same_frame_def example_cache_def)
  ultimately show ?thesis using t by auto
qed

lemma restarted_cache_agrees_witness:
  "\<exists>c'. vcache_new key_sha (vc_store (cache_call_state key_sha example_put (example_cache (Some []))))
      (\<lambda>_. 10) 900 512 = Inr c' \<and> cache_lookup key_sha c' example_key = Some (canonical_entry example_entry)"
proof -
  let ?c = "cache_call_state key_sha example_put (example_cache (Some []))"
  have acc: "all_accepted key_sha [example_put] (example_cache (Some []))"
    using example_state [of "Some []"] example_texts(7) by (simp add: example_put_def)
  from restarted_cache_agrees [OF inj_key_sha example_new acc example_history, of "\<lambda>_. 10"]
  obtain c' where c': "vcache_new key_sha (vc_store ?c) (\<lambda>_. 10) 900 512 = Inr c'"
    "cache_lookup key_sha c' example_key = (case cache_lookup key_sha ?c example_key of
        None \<Rightarrow> None
      | Some e \<Rightarrow> if 10 < ve_expires e \<and> 10 < ve_expires e then Some (canonical_entry e) else None)" by auto
  have e: "ve_expires example_entry = 902" "ve_key example_entry = example_key"
    by (simp_all add: example_entry_def new_entry_def)
  have "cache_lookup key_sha ?c example_key = Some example_entry"
    by (simp add: cache_lookup_def example_after_put e store_simps)
  with c' e show ?thesis by simp
qed

section \<open>Redacted output is still refused by the table\<close>

lemma example_redacted:
  "redact_secrets ''password=hunter2'' = ''password=[REDACTED]''"
  "store_text ''output_summary'' 2048 True ''password=[REDACTED]'' =
     Inl (CacheStoreError (''output_summary'' @ '' contains non-persistable sensitive content''))"
  "put_checked [''tests/b.py'', ''a.py''] ''passed'' hex_of_1 ''password=hunter2'' = Inr [''tests/b.py'', ''a.py'']"
  by code_simp+

text \<open>
  \<open>put\<close> redacts the summary of a run, but the table still takes the redacted text for a secret. The
  call raises after the verdict has entered the memory, so the caller loses the result of a run
  that has passed, and the next lookup returns it.
\<close>

theorem redacted_summary_refused:
  "\<exists>m. fst (cache_put key_sha example_key [''tests/b.py'', ''a.py''] ''passed'' hex_of_1 ''password=hunter2''
      (example_cache (Some []))) = Inl (CacheStoreError m) \<and>
    map ve_status (vc_entries (snd (cache_put key_sha example_key [''tests/b.py'', ''a.py''] ''passed'' hex_of_1
      ''password=hunter2'' (example_cache (Some []))))) = [''passed'']"
proof -
  let ?e = "new_entry example_key [''tests/b.py'', ''a.py''] ''passed'' hex_of_1 ''password=hunter2'' 2 900"
  obtain paths where paths: "store_paths ''relevant_paths'' [''tests/b.py'', ''a.py''] = Inr paths"
    using example_texts(4) by (auto simp: isOk_Ex)
  have "\<exists>m. entry_row key_sha ?e = Inl (CacheStoreError m)"
    using example_texts example_hash example_head example_digest_key paths example_redacted
    by (simp add: entry_row_def new_entry_def example_key_def cache_statuses_def)
  then obtain m where m: "entry_row key_sha ?e = Inl (CacheStoreError m)" by blast
  have "ve_status ?e = ''passed''" by (simp add: new_entry_def)
  then show ?thesis
    by (simp add: cache_put_def checkS_eq example_redacted(3) cache_clock_def readS_def bindS_def updS_def
      example_cache_def store_call_def save_row_def m Let_def kset_def)
qed

end
