(* ===== verification/VerificationSelection.thy ===== *)
theory VerificationSelection
  imports VerificationCache
begin

text \<open>
  Which tests a change needs: project profiles (\<open>director_profile.py\<close>), the impact of a change
  (\<open>change_impact.py\<close>), the snapshot of the semantic index (the data of \<open>semantic_index.py\<close>) and the
  selection of tests (\<open>selective_verification.py\<close>), all under \<open>src/src/chatgpt_dev_mcp/\<close>. A set of the
  code is a list whose order does not matter: every set is sorted before it leaves a function.
\<close>

section \<open>Project profiles\<close>

datatype profile_error = ProfileError string | ProfileInput director_error

definition profile_names :: "string list" where
  "profile_names = [''READ_ONLY'', ''READ_WRITE'', ''DEVELOPMENT'']"

definition task_names :: "string list" where
  "task_names = [''test'', ''lint'', ''build'', ''dev'', ''format'']"

definition verification_task_names :: "string list" where
  "verification_task_names = [''test'', ''lint'', ''build'']"

definition profile_text :: "string \<Rightarrow> int \<Rightarrow> pyval \<Rightarrow> profile_error + string" where
  "profile_text name maximum value =
     (case value of
        PStr s \<Rightarrow>
          if py_strip s = [] then Inl (ProfileError (name @ '' must not be empty''))
          else if maximum < int (length s) \<or> has_nul s \<or> contains_secret_like_content s
          then Inl (ProfileError (name @ '' is outside the safety bound''))
          else Inr (py_strip s)
      | _ \<Rightarrow> Inl (ProfileError (name @ '' must be text'')))"

text \<open>\<open>_FORBIDDEN_COMMAND_SYNTAX.search\<close>: a pipe that stands alone is found with its two
  look-around assertions, two pipes by their own alternative.\<close>

fun lone_pipe :: "bool \<Rightarrow> string \<Rightarrow> bool" where
  "lone_pipe after [] = False"
| "lone_pipe after (c # cs) =
     (c = CHR ''|'' \<and> \<not> after \<and> \<not> prefix ''|'' cs \<or> lone_pipe (c = CHR ''|'') cs)"

definition forbidden_command :: "string \<Rightarrow> bool" where
  "forbidden_command s \<longleftrightarrow>
     list_ex (\<lambda>c. c \<in> {CHR 0x0D, CHR 0x0A, CHR '';'', CHR 0x60, CHR ''<'', CHR ''>''}) s \<or>
     sublist ''||'' s \<or> lone_pipe False s \<or> sublist ''$('' s"

definition profile_command :: "string \<Rightarrow> pyval \<Rightarrow> profile_error + string" where
  "profile_command name value =
     bindE (profile_text name 400 value) (\<lambda>command.
     if forbidden_command command then Inl (ProfileError (name @ '' contains shell composition syntax''))
     else Inr command)"

record project_profile =
  pf_workspace_id :: string
  pf_profile :: string
  pf_language :: string
  pf_framework :: string
  pf_canonical_paths :: "string list"
  pf_commands :: "(string \<times> string) list"
  pf_verification_tasks :: "string list"
  pf_external_execution :: bool

text \<open>\<open>__post_init__\<close>; the sequences of paths and tasks have been made into tuples before.\<close>

definition profile_commands :: "(string \<times> pyval) list \<Rightarrow> profile_error + (string \<times> string) list" where
  "profile_commands raw =
     mapE (\<lambda>(task, command).
       if task \<notin> set task_names then Inl (ProfileError ''commands contains an unknown task'')
       else bindE (profile_command (''commands.'' @ task) command) (\<lambda>c. Inr (task, c))) raw"

definition make_profile ::
  "pyval \<Rightarrow> pyval \<Rightarrow> pyval \<Rightarrow> pyval \<Rightarrow> pyval list \<Rightarrow> (string \<times> pyval) list \<Rightarrow> string list \<Rightarrow> pyval \<Rightarrow>
   profile_error + project_profile" where
  "make_profile workspace_id profile language framework canonical_paths commands verification_tasks external =
     bindE (mapError ProfileInput (validate_workspace_id workspace_id)) (\<lambda>workspace.
     if profile \<notin> set (map PStr profile_names) then Inl (ProfileError ''profile is invalid'')
     else
     bindE (profile_text ''language'' 160 language) (\<lambda>lang.
     bindE (profile_text ''framework'' 160 framework) (\<lambda>frame.
     case external of
       PBool ext \<Rightarrow>
         bindE (mapE (mapError ProfileInput \<circ> normalize_relative_path) canonical_paths) (\<lambda>paths.
         if paths = [] \<or> 32 < int (length paths) \<or> \<not> distinct paths
         then Inl (ProfileError ''canonical_paths is invalid'')
         else
         bindE (profile_commands commands) (\<lambda>parsed.
         if list_ex (\<lambda>t. t \<notin> set (map fst parsed) \<or> t \<notin> set verification_task_names) verification_tasks
         then Inl (ProfileError ''verification_tasks must reference test, lint, or build commands'')
         else if \<not> distinct verification_tasks
         then Inl (ProfileError ''verification_tasks contains duplicates'')
         else Inr \<lparr>pf_workspace_id = workspace,
           pf_profile = (case profile of PStr s \<Rightarrow> s | _ \<Rightarrow> []), pf_language = lang,
           pf_framework = frame, pf_canonical_paths = paths, pf_commands = parsed,
           pf_verification_tasks = verification_tasks, pf_external_execution = ext\<rparr>))
     | _ \<Rightarrow> Inl (ProfileError ''external_execution must be boolean''))))"

definition profile_keys :: "string list" where
  "profile_keys = [''workspace_id'', ''profile'', ''language'', ''framework'', ''canonical_paths'',
     ''commands'', ''verification_tasks'', ''external_execution'']"

definition raw_get :: "string \<Rightarrow> pyval \<Rightarrow> (string \<times> pyval) list \<Rightarrow> pyval" where
  "raw_get k default_value raw = (case map_of raw k of None \<Rightarrow> default_value | Some v \<Rightarrow> v)"

text \<open>\<open>raw.get("verification_tasks")\<close>, or the configured ones of the three tasks.\<close>

definition raw_tasks :: "(string \<times> pyval) list \<Rightarrow> pyval \<Rightarrow> profile_error + string list" where
  "raw_tasks raw_commands value =
     (let invalid = Inl (ProfileError ''verification_tasks must be a list of task names'') in
      case value of
        PNone \<Rightarrow> Inr (filter (\<lambda>t. t \<in> set (map fst raw_commands)) verification_task_names)
      | PList ts \<Rightarrow>
          if list_ex (\<lambda>t. \<not> (case t of PStr _ \<Rightarrow> True | _ \<Rightarrow> False)) ts then invalid
          else Inr (py_strings ts)
      | _ \<Rightarrow> invalid)"

definition profile_from_mapping :: "pyval \<Rightarrow> profile_error + project_profile" where
  "profile_from_mapping value =
     (case value of
        PDict raw \<Rightarrow>
          if list_ex (\<lambda>k. k \<notin> set profile_keys) (map fst raw)
          then Inl (ProfileError ''profile contains unknown keys'')
          else
            (case raw_get ''canonical_paths'' PNone raw of
               PList paths \<Rightarrow>
                 (case raw_get ''commands'' PNone raw of
                    PDict commands \<Rightarrow>
                      bindE (raw_tasks commands (raw_get ''verification_tasks'' PNone raw)) (\<lambda>tasks.
                      make_profile (raw_get ''workspace_id'' PNone raw) (raw_get ''profile'' PNone raw)
                        (raw_get ''language'' (PStr ''unknown'') raw) (raw_get ''framework'' (PStr ''unknown'') raw)
                        paths commands tasks (raw_get ''external_execution'' (PBool False) raw))
                  | _ \<Rightarrow> Inl (ProfileError ''commands must be an object''))
             | _ \<Rightarrow> Inl (ProfileError ''canonical_paths must be a list''))
      | _ \<Rightarrow> Inl (ProfileError ''profile must be an object''))"

definition command_for :: "project_profile \<Rightarrow> string \<Rightarrow> profile_error + string" where
  "command_for p task =
     (case map_of (pf_commands p) task of
        None \<Rightarrow> Inl (ProfileError (''task is not configured: '' @ task))
      | Some c \<Rightarrow> Inr c)"

section \<open>The impact of a change\<close>

datatype selection_error = SelectionError string | SelectionInput director_error

text \<open>\<open>Path(path).name\<close> and \<open>Path(path).suffix\<close>.\<close>

definition path_name :: "string \<Rightarrow> string" where
  "path_name s = (if relative_parts s = [] then [] else last (relative_parts s))"

definition path_suffix :: "string \<Rightarrow> string" where
  "path_suffix s =
     (let name = rev (path_name s); ext = takeWhile (\<lambda>c. c \<noteq> CHR ''.'') name;
          rest = drop (length ext) name in
      if ext = [] \<or> length rest \<le> 1 then [] else CHR ''.'' # rev ext)"

definition doc_suffixes :: "string list" where
  "doc_suffixes = [''.md'', ''.mdx'', ''.rst'', ''.txt'']"

definition doc_root_files :: "string list" where
  "doc_root_files = [''README.md'', ''CHANGELOG.md'', ''CONTRIBUTING.md'']"

record change_impact =
  ci_paths :: "string list"
  ci_execution_required :: bool
  ci_reason :: string

definition documentation_path :: "string \<Rightarrow> bool" where
  "documentation_path p \<longleftrightarrow>
     p \<in> set doc_root_files \<or> (prefix ''docs/'' p \<and> py_lower (path_suffix p) \<in> set doc_suffixes)"

definition classify_change_impact :: "string list \<Rightarrow> selection_error + change_impact" where
  "classify_change_impact paths =
     bindE (mapE (\<lambda>p. mapError SelectionInput (normalize_relative_path (PStr p))) paths) (\<lambda>parsed.
     if parsed = [] \<or> \<not> distinct parsed
     then Inl (SelectionError ''changed paths must be non-empty and unique'')
     else
       let documentation_only = list_all documentation_path parsed in
       Inr \<lparr>ci_paths = parsed, ci_execution_required = (\<not> documentation_only),
         ci_reason = (if documentation_only then ''documentation_only'' else ''execution_relevant_or_unknown'')\<rparr>)"

section \<open>The semantic index\<close>

record symbol_record =
  sy_symbol_id :: string
  sy_path :: string
  sy_kind :: string
  sy_name :: string
  sy_start_line :: int
  sy_end_line :: int
  sy_content_hash :: string

record semantic_edge =
  se_relation :: string
  se_source :: string
  se_target :: string
  se_path :: string
  se_line :: int

record index_snapshot =
  ix_identity :: string
  ix_symbols :: "symbol_record list"
  ix_edges :: "semantic_edge list"

section \<open>Selection\<close>

definition project_rule_paths :: "string list" where
  "project_rule_paths = [''pyproject.toml'', ''package.json'', ''package-lock.json'', ''Cargo.toml'',
     ''go.mod'', ''go.sum'']"

definition selection_path :: "string \<Rightarrow> selection_error + string" where
  "selection_path s =
     (let invalid = Inl (SelectionError ''changed path is invalid'') in
      if s = [] \<or> CHR 0x5C \<in> set s then invalid
      else if prefix ''/'' s \<or> ''..'' \<in> set (relative_parts s) then invalid
      else Inr (relative_posix s))"

definition is_test_path :: "string \<Rightarrow> bool" where
  "is_test_path p \<longleftrightarrow>
     prefix ''tests/'' p \<or> prefix ''test_'' (path_name p) \<or> suffix ''_test.py'' (path_name p)"

record test_selection =
  ts_tests :: "string list"
  ts_reasons :: "(string \<times> string list) list"
  ts_fallback_full :: bool
  ts_global_reasons :: "string list"

text \<open>The symbols that refer to a symbol of a set, and the loop that adds them until nothing is new.\<close>

definition referrers :: "semantic_edge list \<Rightarrow> string list \<Rightarrow> string list" where
  "referrers edges affected =
     map se_source (filter (\<lambda>e. se_relation e = ''reference'' \<and> se_target e \<in> set affected \<and>
       CHR '':'' \<in> set (se_source e)) edges)"

function affected_symbols :: "semantic_edge list \<Rightarrow> string list \<Rightarrow> string list" where
  "affected_symbols edges affected =
     (let expanded = filter (\<lambda>s. s \<notin> set affected) (referrers edges affected) in
      if expanded = [] then affected else affected_symbols edges (expanded @ affected))"
  by pat_completeness auto

termination
proof (relation "measure (\<lambda>(edges, affected). card (se_source ` set edges - set affected))")
  fix edges :: "semantic_edge list" and affected expanded :: "string list"
  assume x: "expanded = filter (\<lambda>s. s \<notin> set affected) (referrers edges affected)" "expanded \<noteq> []"
  obtain s where s: "s \<in> set expanded" using last_in_set [OF x(2)] by blast
  then have "s \<in> se_source ` set edges - set affected" unfolding x(1) by (auto simp: referrers_def)
  with s have "se_source ` set edges - set (expanded @ affected) \<subset> se_source ` set edges - set affected" by auto
  then show "((edges, expanded @ affected), edges, affected) \<in>
      measure (\<lambda>(edges, affected). card (se_source ` set edges - set affected))"
    by (simp add: psubset_card_mono)
qed simp

declare affected_symbols.simps [simp del]

text \<open>The reasons are kept as pairs of a test and one of its reasons.\<close>

definition reason_order :: "string \<Rightarrow> bool \<times> bool \<times> string" where
  "reason_order r = (r \<noteq> ''direct_path'', r \<noteq> ''test_owner'', r)"

definition reasons_of :: "(string \<times> string) list \<Rightarrow> string \<Rightarrow> string list" where
  "reasons_of selected path =
     sort_key reason_order (remdups (map snd (filter (\<lambda>x. fst x = path) selected)))"

definition changed_symbols :: "string list \<Rightarrow> index_snapshot \<Rightarrow> string list" where
  "changed_symbols changed snapshot =
     map sy_symbol_id (filter (\<lambda>s. sy_path s \<in> set changed) (ix_symbols snapshot))"

definition test_configured :: "project_profile \<Rightarrow> bool" where
  "test_configured p \<longleftrightarrow> ''test'' \<in> set (map fst (pf_commands p)) \<and> ''test'' \<in> set (pf_verification_tasks p)"

definition selected_pairs :: "string list \<Rightarrow> index_snapshot \<Rightarrow> (string \<times> string) list" where
  "selected_pairs changed snapshot =
     (let symbols = changed_symbols changed snapshot;
          direct = concat (map (\<lambda>p. if is_test_path p then [(p, ''direct_path''), (p, ''test_owner'')] else []) changed);
          affected = affected_symbols (ix_edges snapshot) symbols in
      direct @
      (if symbols = [] then []
       else map (\<lambda>e. (se_path e, ''symbol_dependency''))
         (filter (\<lambda>e. se_relation e = ''test'' \<and> se_target e \<in> set affected \<and> is_test_path (se_path e))
           (ix_edges snapshot))))"

definition verification_select ::
  "string list \<Rightarrow> index_snapshot \<Rightarrow> project_profile \<Rightarrow> selection_error + test_selection" where
  "verification_select changed_paths snapshot profile =
     bindE (mapE selection_path changed_paths) (\<lambda>changed.
     if changed = [] \<or> \<not> distinct changed
     then Inl (SelectionError ''changed_paths must be non-empty and unique'')
     else
     bindE (classify_change_impact changed) (\<lambda>impact.
     if \<not> ci_execution_required impact \<and> test_configured profile
     then Inr \<lparr>ts_tests = [], ts_reasons = [], ts_fallback_full = False,
       ts_global_reasons = [''documentation_only'']\<rparr>
     else
       let selected = selected_pairs changed snapshot;
           rules = list_ex (\<lambda>p. path_name p \<in> set project_rule_paths) changed;
           non_test_changes = filter (\<lambda>p. \<not> is_test_path p \<and> path_name p \<notin> set project_rule_paths) changed;
           graph_unknown = (non_test_changes \<noteq> [] \<and> changed_symbols changed snapshot = []);
           dependency_known = list_ex (\<lambda>(p, r). r \<in> {''symbol_dependency'', ''test_owner''}) selected;
           dependency_unknown = (non_test_changes \<noteq> [] \<and> \<not> dependency_known);
           fallback = (rules \<or> \<not> test_configured profile \<or> graph_unknown \<or> dependency_unknown);
           tests = sorted_set (map fst selected) in
       Inr \<lparr>ts_tests = tests, ts_reasons = map (\<lambda>p. (p, reasons_of selected p)) tests,
         ts_fallback_full = fallback,
         ts_global_reasons = sort ((if rules then [''project_rule''] else []) @
           (if fallback then [''fallback_full''] else []))\<rparr>))"

section \<open>The loop computes every dependent symbol\<close>

definition refers :: "semantic_edge list \<Rightarrow> (string \<times> string) set" where
  "refers edges = {(se_target e, se_source e) | e. e \<in> set edges \<and> se_relation e = ''reference'' \<and>
     CHR '':'' \<in> set (se_source e)}"

lemma set_referrers: "set (referrers edges affected) = refers edges `` set affected"
  by (auto simp: referrers_def refers_def)

lemma affected_sound: "set (affected_symbols edges affected) \<subseteq> (refers edges)\<^sup>* `` set affected"
proof (induction edges affected rule: affected_symbols.induct)
  case (1 edges affected)
  let ?new = "filter (\<lambda>s. s \<notin> set affected) (referrers edges affected)"
  show ?case
  proof (cases "?new = []")
    case False
    have new: "set (?new @ affected) \<subseteq> (refers edges)\<^sup>* `` set affected"
      by (auto simp: set_referrers)
    have "(refers edges)\<^sup>* `` set (?new @ affected) \<subseteq> (refers edges)\<^sup>* `` set affected"
    proof
      fix y assume "y \<in> (refers edges)\<^sup>* `` set (?new @ affected)"
      then obtain x where "x \<in> set (?new @ affected)" "(x, y) \<in> (refers edges)\<^sup>*" by blast
      with new show "y \<in> (refers edges)\<^sup>* `` set affected" by (blast intro: rtrancl_trans)
    qed
    with 1 [OF refl False] show ?thesis by (subst affected_symbols.simps) (simp add: Let_def False)
  qed (subst affected_symbols.simps, auto)
qed

lemma affected_closed:
  "set affected \<subseteq> set (affected_symbols edges affected) \<and>
   refers edges `` set (affected_symbols edges affected) \<subseteq> set (affected_symbols edges affected)"
proof (induction edges affected rule: affected_symbols.induct)
  case (1 edges affected)
  let ?new = "filter (\<lambda>s. s \<notin> set affected) (referrers edges affected)"
  show ?case
  proof (cases "?new = []")
    case True
    then have "refers edges `` set affected \<subseteq> set affected"
      by (auto simp: set_referrers [symmetric] filter_empty_conv)
    with True show ?thesis by (subst (1 2 3) affected_symbols.simps) simp
  next
    case False
    then have "affected_symbols edges affected = affected_symbols edges (?new @ affected)"
      by (subst affected_symbols.simps) (simp add: Let_def)
    with 1 [OF refl False] show ?thesis by simp
  qed
qed

lemma set_affected_symbols: "set (affected_symbols edges affected) = (refers edges)\<^sup>* `` set affected"
proof (rule subset_antisym [OF affected_sound])
  have "(x, y) \<in> (refers edges)\<^sup>* \<Longrightarrow> x \<in> set affected \<Longrightarrow> y \<in> set (affected_symbols edges affected)" for x y
    by (induction rule: rtrancl_induct) (use affected_closed [of affected edges] in auto)
  then show "(refers edges)\<^sup>* `` set affected \<subseteq> set (affected_symbols edges affected)" by auto
qed

section \<open>What is selected\<close>

text \<open>A test depends on a change when it calls a symbol of a changed file or a symbol that refers to
  one, however indirectly.\<close>

definition depends_on_change :: "index_snapshot \<Rightarrow> string list \<Rightarrow> string \<Rightarrow> bool" where
  "depends_on_change ix changed p \<longleftrightarrow>
     (\<exists>e\<in>set (ix_edges ix). \<exists>s\<in>set (ix_symbols ix). se_relation e = ''test'' \<and> se_path e = p \<and>
        sy_path s \<in> set changed \<and> (sy_symbol_id s, se_target e) \<in> (refers (ix_edges ix))\<^sup>*)"

lemma set_changed_symbols:
  "set (changed_symbols changed ix) = {sy_symbol_id s | s. s \<in> set (ix_symbols ix) \<and> sy_path s \<in> set changed}"
  by (auto simp: changed_symbols_def)

lemma set_selected_pairs:
  "set (selected_pairs changed ix) =
     {(p, r). is_test_path p \<and> p \<in> set changed \<and> (r = ''direct_path'' \<or> r = ''test_owner'')} \<union>
     {(p, r). is_test_path p \<and> depends_on_change ix changed p \<and> r = ''symbol_dependency''}"
proof -
  let ?affected = "set (affected_symbols (ix_edges ix) (changed_symbols changed ix))"
  have d: "depends_on_change ix changed p \<longleftrightarrow>
      (\<exists>e\<in>set (ix_edges ix). se_relation e = ''test'' \<and> se_path e = p \<and> se_target e \<in> ?affected)" for p
    unfolding depends_on_change_def set_affected_symbols set_changed_symbols by blast
  have e: "changed_symbols changed ix = [] \<Longrightarrow> ?affected = {}"
    by (simp add: set_affected_symbols)
  have direct: "set (concat (map (\<lambda>p. if is_test_path p then [(p, ''direct_path''), (p, ''test_owner'')] else []) changed)) =
      {(p, r). is_test_path p \<and> p \<in> set changed \<and> (r = ''direct_path'' \<or> r = ''test_owner'')}"
    by (auto split: if_splits)
  have symbol: "set (if changed_symbols changed ix = [] then []
       else map (\<lambda>e. (se_path e, ''symbol_dependency''))
         (filter (\<lambda>e. se_relation e = ''test'' \<and> se_target e \<in> ?affected \<and> is_test_path (se_path e))
           (ix_edges ix))) =
      {(p, r). is_test_path p \<and> depends_on_change ix changed p \<and> r = ''symbol_dependency''}"
    using e by (auto simp: d image_iff)
  show ?thesis
    unfolding selected_pairs_def Let_def set_append direct symbol ..
qed

lemma selected_tests:
  "fst ` set (selected_pairs changed ix) =
     {p. is_test_path p \<and> (p \<in> set changed \<or> depends_on_change ix changed p)}"
proof (intro set_eqI iffI)
  fix p assume "p \<in> {p. is_test_path p \<and> (p \<in> set changed \<or> depends_on_change ix changed p)}"
  then have "(p, ''test_owner'') \<in> set (selected_pairs changed ix) \<or>
      (p, ''symbol_dependency'') \<in> set (selected_pairs changed ix)"
    by (simp add: set_selected_pairs)
  then show "p \<in> fst ` set (selected_pairs changed ix)" by force
qed (auto simp: set_selected_pairs)

lemma selected_reasons:
  "list_ex (\<lambda>(p, r). r \<in> {''symbol_dependency'', ''test_owner''}) (selected_pairs changed ix) \<longleftrightarrow>
     selected_pairs changed ix \<noteq> []"
proof
  assume "selected_pairs changed ix \<noteq> []"
  then obtain p where "p \<in> fst ` set (selected_pairs changed ix)"
    by (metis ex_in_conv image_is_empty set_empty)
  then have "(p, ''test_owner'') \<in> set (selected_pairs changed ix) \<or>
      (p, ''symbol_dependency'') \<in> set (selected_pairs changed ix)"
    unfolding selected_tests by (simp add: set_selected_pairs)
  then show "list_ex (\<lambda>(p, r). r \<in> {''symbol_dependency'', ''test_owner''}) (selected_pairs changed ix)"
    by (auto simp: list_ex_iff)
qed (auto simp: list_ex_iff)

lemma classify_paths:
  "classify_change_impact paths = Inr impact \<Longrightarrow>
     ci_execution_required impact \<longleftrightarrow> \<not> list_all documentation_path paths"
proof -
  assume a: "classify_change_impact paths = Inr impact"
  then obtain parsed where p: "mapE (\<lambda>p. mapError SelectionInput (normalize_relative_path (PStr p))) paths = Inr parsed"
    and i: "ci_execution_required impact \<longleftrightarrow> \<not> list_all documentation_path parsed"
    by (auto simp: classify_change_impact_def result_simps Let_def split: if_splits)
  have "parsed = paths"
    by (rule mapE_unchanged [OF p]) (simp add: mapError_Inr_iff normalize_relative_path_Inr)
  with i show ?thesis by simp
qed

lemma selection_falls_back:
  "verification_select changed_paths ix profile = Inr sel \<Longrightarrow> ts_fallback_full sel \<or> test_configured profile"
  by (auto simp: verification_select_def result_simps Let_def split: if_splits)

definition project_rule_path :: "string \<Rightarrow> bool" where
  "project_rule_path p \<longleftrightarrow> path_name p \<in> set project_rule_paths"

text \<open>A change that is neither a test nor a project rule.\<close>

definition plain_change :: "string list \<Rightarrow> bool" where
  "plain_change changed \<longleftrightarrow> list_ex (\<lambda>p. \<not> is_test_path p \<and> \<not> project_rule_path p) changed"

text \<open>
  C18: A selection is exact. When only documentation changed and tests are configured, nothing is
  selected. Otherwise the selected tests are exactly the changed tests and the tests that call,
  directly or through any chain of references, a symbol of a changed file, in ascending order; and
  the whole suite is demanded exactly when a project rule changed, no test task is configured, or
  some plain change comes with no indexed symbol at all or with no selected test.
\<close>

theorem selection_exact:
  assumes "verification_select changed_paths ix profile = Inr sel"
    and "mapE selection_path changed_paths = Inr changed"
  shows "if list_all documentation_path changed \<and> test_configured profile
    then ts_tests sel = [] \<and> \<not> ts_fallback_full sel
    else set (ts_tests sel) = {p. is_test_path p \<and> (p \<in> set changed \<or> depends_on_change ix changed p)} \<and>
      sorted (ts_tests sel) \<and> distinct (ts_tests sel) \<and>
      (ts_fallback_full sel \<longleftrightarrow> list_ex project_rule_path changed \<or> \<not> test_configured profile \<or>
        plain_change changed \<and> (changed_symbols changed ix = [] \<or> ts_tests sel = []))"
proof -
  from assms obtain impact where impact: "classify_change_impact changed = Inr impact"
    by (auto simp: verification_select_def result_simps split: if_splits)
  note doc = classify_paths [OF impact]
  show ?thesis
  proof (cases "list_all documentation_path changed \<and> test_configured profile")
    case True
    with assms impact doc show ?thesis
      by (auto simp: verification_select_def split: if_splits)
  next
    case False
    let ?pairs = "selected_pairs changed ix"
    have plain: "filter (\<lambda>p. \<not> is_test_path p \<and> path_name p \<notin> set project_rule_paths) changed \<noteq> [] \<longleftrightarrow>
        plain_change changed"
      by (auto simp: plain_change_def project_rule_path_def filter_empty_conv list_ex_iff)
    have tests: "ts_tests sel = sorted_set (map fst ?pairs)"
      and fallback: "ts_fallback_full sel \<longleftrightarrow>
        list_ex (\<lambda>p. path_name p \<in> set project_rule_paths) changed \<or> \<not> test_configured profile \<or>
        plain_change changed \<and> changed_symbols changed ix = [] \<or>
        plain_change changed \<and> \<not> list_ex (\<lambda>(p, r). r \<in> {''symbol_dependency'', ''test_owner''}) ?pairs"
      using assms impact doc False
      by (auto simp: verification_select_def Let_def plain split: if_splits)
    have "ts_tests sel = [] \<longleftrightarrow> ?pairs = []"
      unfolding tests by (metis map_is_Nil_conv set_empty set_sorted_set)
    moreover have "set (ts_tests sel) = {p. is_test_path p \<and> (p \<in> set changed \<or> depends_on_change ix changed p)}"
      unfolding tests set_sorted_set set_map by (rule selected_tests)
    moreover have "list_ex project_rule_path changed \<longleftrightarrow>
        list_ex (\<lambda>p. path_name p \<in> set project_rule_paths) changed"
      by (simp add: project_rule_path_def list_ex_iff)
    ultimately show ?thesis
      using False fallback [unfolded selected_reasons] by (auto simp: tests)
  qed
qed

section \<open>Examples\<close>

definition example_profile :: project_profile where
  "example_profile = \<lparr>pf_workspace_id = ''repo'', pf_profile = ''DEVELOPMENT'', pf_language = ''python'',
     pf_framework = ''none'', pf_canonical_paths = [''src''], pf_commands = [(''test'', ''pytest'')],
     pf_verification_tasks = [''test''], pf_external_execution = False\<rparr>"

definition example_index :: index_snapshot where
  "example_index = \<lparr>ix_identity = ''tree'',
     ix_symbols = [\<lparr>sy_symbol_id = ''pkg.a:run'', sy_path = ''pkg/a.py'', sy_kind = ''function'', sy_name = ''run'',
       sy_start_line = 1, sy_end_line = 2, sy_content_hash = ''h''\<rparr>],
     ix_edges = [
       \<lparr>se_relation = ''reference'', se_source = ''pkg.b:use'', se_target = ''pkg.a:run'', se_path = ''pkg/b.py'', se_line = 3\<rparr>,
       \<lparr>se_relation = ''test'', se_source = ''tests.test_b:test_use'', se_target = ''pkg.b:use'',
        se_path = ''tests/test_b.py'', se_line = 4\<rparr>]\<rparr>"

lemma example_select:
  "verification_select [''pkg/a.py''] example_index example_profile =
     Inr \<lparr>ts_tests = [''tests/test_b.py''], ts_reasons = [(''tests/test_b.py'', [''symbol_dependency''])],
       ts_fallback_full = False, ts_global_reasons = []\<rparr>"
  "mapE selection_path [''pkg/a.py''] = Inr [''pkg/a.py'']"
  "\<not> (list_all documentation_path [''pkg/a.py''] \<and> test_configured example_profile)"
  by code_simp+

lemma selection_exact_witness:
  "{p. is_test_path p \<and> (p \<in> set [''pkg/a.py''] \<or> depends_on_change example_index [''pkg/a.py''] p)} =
     {''tests/test_b.py''}"
  using selection_exact [OF example_select(1,2)] unfolding if_not_P [OF example_select(3)] by simp

text \<open>
  A changed file that the index does not know, next to one that it knows: the suite is not demanded,
  and no test is selected for the unknown file. Alone it demands the whole suite.
\<close>

theorem unknown_change_beside_known_one:
  "bindE (verification_select [''pkg/a.py'', ''native/fast.c''] example_index example_profile)
      (\<lambda>sel. Inr (ts_tests sel, ts_fallback_full sel)) = Inr ([''tests/test_b.py''], False) \<and>
   bindE (verification_select [''native/fast.c''] example_index example_profile)
      (\<lambda>sel. Inr (ts_tests sel, ts_fallback_full sel)) = Inr ([], True)"
  by (rule conjI) code_simp+

end
