(* ===== verification/VerificationEngine.thy ===== *)
theory VerificationEngine
  imports VerificationSelection
begin

text \<open>
  Verification plans, receipts and runs, \<open>src/src/chatgpt_dev_mcp/director_verification.py\<close>, over the
  cache (\<open>VerificationCache\<close>) and the selection of tests (\<open>VerificationSelection\<close>). The runner is a
  parameter: what it returns for a task and its tests. The threads of a pool run one after the other
  in the order in which they are submitted.
\<close>

section \<open>Errors and text\<close>

datatype verify_error =
    VerificationError string
  | VerificationSafetyError string
  | VerifyInput director_error
  | VerifyProfile profile_error
  | VerifySelection selection_error
  | VerifyCache cache_error

text \<open>\<open>repr\<close> of the values that are hashed into identifiers.\<close>

datatype pyrepr = RNone | RInt int | RStr string | RTuple "pyrepr list"

definition repr_escape :: "char \<Rightarrow> char \<Rightarrow> string" where
  "repr_escape q c =
     (if c = q \<or> c = CHR 0x5C then [CHR 0x5C, c]
      else if c = CHR 0x09 then [CHR 0x5C, CHR ''t'']
      else if c = CHR 0x0A then [CHR 0x5C, CHR ''n'']
      else if c = CHR 0x0D then [CHR 0x5C, CHR ''r'']
      else if (of_char c :: nat) < 32 \<or> 127 \<le> (of_char c :: nat)
        then [CHR 0x5C, CHR ''x'', hex_digit (of_char c div 16), hex_digit (of_char c mod 16)]
      else [c])"

definition repr_string :: "string \<Rightarrow> string" where
  "repr_string s =
     (let q = (if CHR 0x27 \<in> set s \<and> CHR 0x22 \<notin> set s then CHR 0x22 else CHR 0x27) in
      q # concat (map (repr_escape q) s) @ [q])"

fun py_repr :: "pyrepr \<Rightarrow> string" where
  "py_repr RNone = ''None''"
| "py_repr (RInt i) = int_digits i"
| "py_repr (RStr s) = repr_string s"
| "py_repr (RTuple [x]) = CHR ''('' # py_repr x @ '',)''"
| "py_repr (RTuple xs) = CHR ''('' # py_join '', '' (map py_repr xs) @ '')''"

definition rstrs :: "string list \<Rightarrow> pyrepr" where
  "rstrs xs = RTuple (map RStr xs)"

text \<open>\<open>round(x, 2)\<close> of a rational: to the nearest multiple, a tie to the even one.\<close>

definition round_cents :: "rat \<Rightarrow> rat" where
  "round_cents x =
     (let y = x * 100; n = \<lfloor>y\<rfloor>; d = y - of_int n in
      of_int (if d < 1 / 2 \<or> d = 1 / 2 \<and> even n then n else n + 1) / 100)"

definition code_suffixes :: "string list" where
  "code_suffixes = [''.py'', ''.js'', ''.jsx'', ''.ts'', ''.tsx'', ''.rs'', ''.go'', ''.java'', ''.rb'']"

definition build_markers :: "string list" where
  "build_markers = [''pyproject.toml'', ''package.json'', ''package-lock.json'', ''Cargo.toml'', ''go.mod'']"

section \<open>Plans\<close>

record verification_plan =
  vp_workspace_id :: string
  vp_changed_paths :: "string list"
  vp_tasks :: "string list"
  vp_eligible :: bool
  vp_reason :: string

definition task_applies :: "project_profile \<Rightarrow> string list \<Rightarrow> string \<Rightarrow> bool" where
  "task_applies profile paths task \<longleftrightarrow>
     task \<in> set (map fst (pf_commands profile)) \<and> task \<in> set verification_task_names \<and>
     (task = ''lint'' \<longrightarrow> list_ex (\<lambda>p. list_ex (\<lambda>s. suffix s p) code_suffixes) paths) \<and>
     (task = ''build'' \<longrightarrow> list_ex (\<lambda>p. p \<in> set build_markers) paths)"

definition make_verification_plan ::
  "project_profile \<Rightarrow> string list \<Rightarrow> verify_error + verification_plan" where
  "make_verification_plan profile changed_paths =
     bindE (mapE (\<lambda>p. mapError VerifyInput (normalize_relative_path (PStr p))) changed_paths) (\<lambda>parsed.
     if \<not> distinct parsed then Inl (VerificationError ''changed_paths must be unique'')
     else
     bindE (mapError VerifyInput (validate_workspace_id (PStr (pf_workspace_id profile)))) (\<lambda>workspace.
     let plan = (\<lambda>tasks eligible reason. \<lparr>vp_workspace_id = workspace, vp_changed_paths = parsed,
           vp_tasks = tasks, vp_eligible = eligible, vp_reason = reason\<rparr>) in
     if pf_profile profile \<noteq> ''DEVELOPMENT'' then Inr (plan [] False ''PROFILE_NOT_DEVELOPMENT'')
     else
       let chosen = filter (task_applies profile parsed) (pf_verification_tasks profile);
           tasks = (if chosen = [] \<and> ''test'' \<in> set (pf_verification_tasks profile) then [''test''] else chosen) in
       if tasks = [] then Inr (plan [] False ''NO_VERIFICATION_TASK_CONFIGURED'')
       else
       bindE (mapError VerifySelection (classify_change_impact parsed)) (\<lambda>impact.
       if \<not> ci_execution_required impact then Inr (plan [] True ''NO_EXECUTION_REQUIRED'')
       else Inr (plan (py_fromkeys tasks) True ''VERIFICATION_TASKS_SELECTED''))))"

section \<open>Results\<close>

record verification_result =
  vr_task :: string
  vr_status :: string
  vr_exit_code :: "int option"
  vr_duration_ms :: rat
  vr_output :: string
  vr_output_truncated :: bool

definition bounded_output :: "pyval \<Rightarrow> verify_error + (string \<times> bool)" where
  "bounded_output value =
     (case value of
        PNone \<Rightarrow> Inr ([], False)
      | PStr s \<Rightarrow>
          if has_nul s then Inl (VerificationError ''verification output must be text'')
          else
            let redacted = redact_secrets s; encoded = utf8_encode redacted in
            if int (length encoded) \<le> 16 * 1024 then Inr (redacted, False)
            else Inr (utf8_decode (take (nat (16 * 1024)) encoded), True)
      | _ \<Rightarrow> Inl (VerificationError ''verification output must be text''))"

definition result_exit_code :: "pyval \<Rightarrow> verify_error + int option" where
  "result_exit_code value =
     (case value of
        PNone \<Rightarrow> Inr None
      | PInt i \<Rightarrow> if -255 \<le> i \<and> i \<le> 255 then Inr (Some i) else Inl (VerificationError ''exit_code is invalid'')
      | _ \<Rightarrow> Inl (VerificationError ''exit_code is invalid''))"

definition result_duration :: "pyval \<Rightarrow> verify_error + rat" where
  "result_duration value =
     (let invalid = Inl (VerificationError ''duration_ms is invalid'');
          bounded = (\<lambda>d. if 0 \<le> d \<and> d \<le> 2 * 60 * 60 * 1000 then Inr d else invalid) in
      case value of PInt i \<Rightarrow> bounded (of_int i) | PFloat d \<Rightarrow> bounded d | _ \<Rightarrow> invalid)"

definition normalize_verification_result ::
  "string \<Rightarrow> pyval \<Rightarrow> pyval \<Rightarrow> pyval \<Rightarrow> pyval \<Rightarrow> verify_error + verification_result" where
  "normalize_verification_result task exit_code output_value duration_ms timed_out =
     (if task \<notin> set verification_task_names then Inl (VerificationError ''verification task is invalid'')
      else
      bindE (result_exit_code exit_code) (\<lambda>code.
      bindE (result_duration duration_ms) (\<lambda>duration.
      case timed_out of
        PBool expired \<Rightarrow>
          bindE (bounded_output output_value) (\<lambda>(bounded, truncated).
          Inr \<lparr>vr_task = task,
            vr_status = (if expired then ''timed_out'' else if code = None then ''skipped''
              else if code = Some 0 then ''passed'' else ''failed''),
            vr_exit_code = code, vr_duration_ms = round_cents duration, vr_output = bounded,
            vr_output_truncated = truncated\<rparr>)
      | _ \<Rightarrow> Inl (VerificationError ''timed_out must be boolean''))))"

text \<open>What the runner returned, read with its defaults.\<close>

definition result_of_raw :: "string \<Rightarrow> pyval \<Rightarrow> verify_error + verification_result" where
  "result_of_raw task raw =
     (case raw of
        PDict d \<Rightarrow> normalize_verification_result task (raw_get ''exit_code'' PNone d)
          (raw_get ''output'' (PStr []) d) (raw_get ''duration_ms'' (PInt 0) d)
          (raw_get ''timed_out'' (PBool False) d)
      | _ \<Rightarrow> Inl (VerificationError ''verification runner must return an object''))"

section \<open>Receipts\<close>

record verification_receipt =
  vt_workspace_id :: string
  vt_plan :: verification_plan
  vt_results :: "verification_result list"
  vt_status :: string
  vt_base_revision :: string
  vt_diff_hash :: string
  vt_recorded_at :: string
  vt_receipt_id :: string
  vt_working_tree_id :: string

definition receipt_status :: "verification_plan \<Rightarrow> verification_result list \<Rightarrow> string" where
  "receipt_status plan results =
     (if results = [] \<and> vp_eligible plan \<and> vp_tasks plan = [] \<and> vp_reason plan = ''NO_EXECUTION_REQUIRED''
      then ''passed''
      else if results = [] then ''not_run''
      else if list_ex (\<lambda>r. vr_status r \<in> {''failed'', ''timed_out''}) results then ''failed''
      else if length results < length (vp_tasks plan) \<or> list_ex (\<lambda>r. vr_status r = ''skipped'') results
      then ''incomplete''
      else ''passed'')"

definition result_identity :: "verification_result \<Rightarrow> pyrepr" where
  "result_identity r = RTuple [RStr (vr_task r), RStr (vr_status r),
     case vr_exit_code r of None \<Rightarrow> RNone | Some i \<Rightarrow> RInt i]"

definition record_receipt ::
  "(string \<Rightarrow> string) \<Rightarrow> string \<Rightarrow> project_profile \<Rightarrow> verification_plan \<Rightarrow> verification_result list \<Rightarrow>
   string \<Rightarrow> string \<Rightarrow> string option \<Rightarrow> string \<Rightarrow> verify_error + verification_receipt" where
  "record_receipt sha utc_now profile plan results base_revision diff_hash recorded_at working_tree_id =
     (let task_list = map vr_task results; status = receipt_status plan results in
      if vp_workspace_id plan \<noteq> pf_workspace_id profile
      then Inl (VerificationError ''plan does not belong to this profile'')
      else if \<not> distinct task_list \<or> list_ex (\<lambda>t. t \<notin> set (vp_tasks plan)) task_list
      then Inl (VerificationError ''results do not match the verification plan'')
      else if base_revision = [] \<or> 128 < int (length base_revision)
      then Inl (VerificationError ''base_revision is invalid'')
      else if diff_hash \<noteq> [] \<and> \<not> hex64 diff_hash then Inl (VerificationError ''diff_hash is invalid'')
      else if 160 < int (length working_tree_id) \<or> has_nul working_tree_id
      then Inl (VerificationError ''working_tree_id is invalid'')
      else
        let created_at = (case recorded_at of None \<Rightarrow> utc_now | Some t \<Rightarrow> if t = [] then utc_now else t);
            fingerprint = sha (py_repr (RTuple [RStr (pf_workspace_id profile), rstrs (vp_changed_paths plan),
              rstrs (vp_tasks plan), RTuple (map result_identity results), RStr status,
              RStr base_revision, RStr diff_hash, RStr working_tree_id])) in
        Inr \<lparr>vt_workspace_id = pf_workspace_id profile, vt_plan = plan, vt_results = results,
          vt_status = status, vt_base_revision = base_revision, vt_diff_hash = diff_hash,
          vt_recorded_at = created_at, vt_receipt_id = ''verify:'' @ take 32 fingerprint,
          vt_working_tree_id = working_tree_id\<rparr>)"

definition invalidate_receipt :: "verification_receipt \<Rightarrow> verification_receipt" where
  "invalidate_receipt r = r\<lparr>vt_status := ''stale''\<rparr>"

text \<open>\<open>VerificationPipeline.execute\<close>: both gates come before the first call of the runner.\<close>

definition execute_plan ::
  "(string \<Rightarrow> string) \<Rightarrow> string \<Rightarrow> project_profile \<Rightarrow> (string \<Rightarrow> string \<Rightarrow> pyval) option \<Rightarrow> verification_plan \<Rightarrow>
   bool \<Rightarrow> bool \<Rightarrow> verify_error + verification_receipt" where
  "execute_plan sha utc_now profile runner plan isolated_workspace allow_execution =
     (if \<not> isolated_workspace then Inl (VerificationSafetyError ''VERIFICATION_ISOLATION_REQUIRED'')
      else if \<not> allow_execution then Inl (VerificationSafetyError ''VERIFICATION_APPROVAL_REQUIRED'')
      else if \<not> vp_eligible plan then Inl (VerificationError ''PLAN_NOT_ELIGIBLE'')
      else
        case runner of
          None \<Rightarrow> Inl (VerificationSafetyError ''VERIFICATION_RUNNER_NOT_CONFIGURED'')
        | Some run \<Rightarrow>
            bindE (mapE (\<lambda>task. bindE (mapError VerifyProfile (command_for profile task)) (\<lambda>command.
              result_of_raw task (run task command))) (vp_tasks plan)) (\<lambda>results.
            record_receipt sha utc_now profile plan results ''unknown'' [] None []))"

section \<open>Runs over the cache\<close>

record run_result =
  rr_task :: string
  rr_status :: string
  rr_exit_code :: "int option"
  rr_duration_ms :: rat
  rr_output :: string
  rr_cache_status :: string
  rr_selected_tests :: "string list"

text \<open>The test shards with which an engine is made.\<close>

definition engine_shards :: "string list list \<Rightarrow> verify_error + string list list" where
  "engine_shards shards =
     (if list_ex (\<lambda>shard. shard = [] \<or> \<not> distinct shard) shards
      then Inl (VerificationError ''full test shards are invalid'')
      else Inr shards)"

text \<open>What a run is for: the fields of the identity that its caller passes.\<close>

record run_scope =
  rs_worktree_id :: string
  rs_head :: string
  rs_diff_hash :: string
  rs_env :: string
  rs_dependency :: string

definition run_cache_key ::
  "(string \<Rightarrow> string) \<Rightarrow> project_profile \<Rightarrow> run_scope \<Rightarrow> string \<Rightarrow> string \<Rightarrow> string list \<Rightarrow>
   verify_error + cache_key" where
  "run_cache_key sha profile scope namespace task tests =
     (if namespace \<notin> {''fast'', ''full''}
      then Inl (VerificationError ''verification cache namespace is invalid'')
      else
      bindE (mapError VerifyProfile (command_for profile task)) (\<lambda>command.
      mapError VerifyCache (cache_key_checked
        \<lparr>vk_worktree_id = rs_worktree_id scope, vk_head = rs_head scope, vk_diff_hash = rs_diff_hash scope,
         vk_command = sha (py_repr (RTuple [RStr namespace, RStr task, RStr command, rstrs tests])),
         vk_env = rs_env scope, vk_dependency = rs_dependency scope\<rparr>)))"

text \<open>An operation of the cache inside a run.\<close>

definition from_cache :: "(vcache, cache_error, 'a) step \<Rightarrow> (vcache, verify_error, 'a) step" where
  "from_cache m c = (case m c of (r, t) \<Rightarrow> (mapError VerifyCache r, t))"

definition hit_result :: "string \<Rightarrow> string list \<Rightarrow> cache_entry \<Rightarrow> run_result" where
  "hit_result task tests e = \<lparr>rr_task = task, rr_status = ve_status e,
     rr_exit_code = (if ve_status e = ''passed'' then Some 0 else if ve_status e = ''failed'' then Some 1 else None),
     rr_duration_ms = 0, rr_output = ve_summary e, rr_cache_status = ''hit'', rr_selected_tests = tests\<rparr>"

definition cached_result ::
  "(string \<Rightarrow> string) \<Rightarrow> project_profile \<Rightarrow> run_scope \<Rightarrow> string \<Rightarrow> string \<Rightarrow> string list \<Rightarrow>
   (vcache, verify_error, run_result option) step" where
  "cached_result sha profile scope namespace task tests =
     checkS (run_cache_key sha profile scope namespace task tests) (\<lambda>key.
     bindS (from_cache (cache_get sha key)) (\<lambda>found.
     case found of
       None \<Rightarrow> retS None
     | Some e \<Rightarrow>
         if namespace = ''full''
         then bindS (from_cache (cache_put sha key (ve_paths e) (ve_status e) (ve_result_digest e) (ve_summary e)))
           (\<lambda>e'. retS (Some (hit_result task tests e')))
         else retS (Some (hit_result task tests e))))"

definition result_digest :: "(string \<Rightarrow> string) \<Rightarrow> string \<Rightarrow> verification_result \<Rightarrow> string" where
  "result_digest sha task r = sha (py_repr (RTuple [RStr task, RStr (vr_status r),
     case vr_exit_code r of None \<Rightarrow> RNone | Some i \<Rightarrow> RInt i, RStr (vr_output r)]))"

definition run_output :: "string \<Rightarrow> string list \<Rightarrow> bool \<Rightarrow> verification_result \<Rightarrow> run_result" where
  "run_output task tests use_cache r = \<lparr>rr_task = task, rr_status = vr_status r, rr_exit_code = vr_exit_code r,
     rr_duration_ms = vr_duration_ms r, rr_output = vr_output r,
     rr_cache_status = (if use_cache then ''miss'' else ''bypass''), rr_selected_tests = tests\<rparr>"

definition execute_one ::
  "(string \<Rightarrow> string) \<Rightarrow> project_profile \<Rightarrow> (string \<Rightarrow> string list \<Rightarrow> pyval) \<Rightarrow> run_scope \<Rightarrow> bool \<Rightarrow> string \<Rightarrow>
   string \<Rightarrow> string list \<Rightarrow> string list \<Rightarrow> (vcache, verify_error, run_result) step" where
  "execute_one sha profile runner scope use_cache namespace task tests relevant_paths =
     checkS (run_cache_key sha profile scope namespace task tests) (\<lambda>key.
     bindS (if use_cache then cached_result sha profile scope namespace task tests else retS None) (\<lambda>cached.
     case cached of
       Some r \<Rightarrow> retS r
     | None \<Rightarrow>
         checkS (result_of_raw task (runner task tests)) (\<lambda>r.
         bindS (if use_cache \<and> vr_status r \<in> set cache_statuses
                then bindS (from_cache (cache_put sha key relevant_paths (vr_status r)
                  (result_digest sha task r) (take (nat 2048) (vr_output r)))) (\<lambda>_. retS ())
                else retS ()) (\<lambda>_.
         retS (run_output task tests use_cache r)))))"

text \<open>A loop that stops at the first error, and a pool whose calls all run before it is raised.\<close>

fun mapS :: "('a \<Rightarrow> ('s, 'e, 'b) step) \<Rightarrow> 'a list \<Rightarrow> ('s, 'e, 'b list) step" where
  "mapS f [] = retS []"
| "mapS f (x # xs) = bindS (f x) (\<lambda>y. bindS (mapS f xs) (\<lambda>ys. retS (y # ys)))"

fun poolS :: "('a \<Rightarrow> ('s, 'e, 'b) step) \<Rightarrow> 'a list \<Rightarrow> ('s, 'e, 'b list) step" where
  "poolS f [] = retS []"
| "poolS f (x # xs) = (\<lambda>s. case f x s of (r, t) \<Rightarrow>
     (case poolS f xs t of (rs, u) \<Rightarrow> (bindE r (\<lambda>y. bindE rs (\<lambda>ys. Inr (y # ys))), u)))"

definition relevant_for :: "string list \<Rightarrow> string list \<Rightarrow> string list" where
  "relevant_for changed_paths tests = sorted_set (changed_paths @ tests)"

text \<open>FULL over more than two shards: what the cache has, and at most two of the missing ones.\<close>

definition full_shards ::
  "(string \<Rightarrow> string) \<Rightarrow> project_profile \<Rightarrow> (string \<Rightarrow> string list \<Rightarrow> pyval) \<Rightarrow> run_scope \<Rightarrow> string list \<Rightarrow>
   string list list \<Rightarrow> string \<Rightarrow> (vcache, verify_error, run_result list \<times> nat) step" where
  "full_shards sha profile runner scope changed_paths shards task =
     (let shard_run = (\<lambda>shard. execute_one sha profile runner scope True ''full'' task shard
            (relevant_for changed_paths shard)) in
      if 2 < length shards
      then
        bindS (mapS (cached_result sha profile scope ''full'' task) shards) (\<lambda>cached.
        let missing = filter (\<lambda>i. cached ! i = None) [0..<length shards];
            now = take 2 missing in
        bindS (poolS (\<lambda>i. shard_run (shards ! i)) now) (\<lambda>fresh.
        let resolved = map (\<lambda>i. (i, the (cached ! i))) (filter (\<lambda>i. cached ! i \<noteq> None) [0..<length shards]) @
              zip now fresh in
        retS (map snd (sort_key fst resolved), length missing - length now)))
      else bindS (poolS shard_run shards) (\<lambda>results. retS (results, 0)))"

definition full_task ::
  "(string \<Rightarrow> string) \<Rightarrow> project_profile \<Rightarrow> (string \<Rightarrow> string list \<Rightarrow> pyval) \<Rightarrow> run_scope \<Rightarrow> string list \<Rightarrow>
   string list list \<Rightarrow> string \<Rightarrow> (vcache, verify_error, run_result list \<times> nat) step" where
  "full_task sha profile runner scope changed_paths shards task =
     (if task = ''test'' \<and> shards \<noteq> [] then full_shards sha profile runner scope changed_paths shards task
      else bindS (execute_one sha profile runner scope True ''full'' task [] changed_paths) (\<lambda>r. retS ([r], 0)))"

definition full_tasks :: "project_profile \<Rightarrow> string list" where
  "full_tasks profile = filter (\<lambda>t. t \<in> set (map fst (pf_commands profile)) \<and>
     t \<in> set verification_task_names) (pf_verification_tasks profile)"

record run_receipt =
  rx_receipt_id :: string
  rx_task_id :: string
  rx_mode :: string
  rx_selection :: test_selection
  rx_results :: "run_result list"
  rx_status :: string
  rx_worktree_id :: string
  rx_head :: string
  rx_diff_hash :: string
  rx_pending_work_units :: nat
  rx_continuation_required :: bool

definition results_status :: "run_result list \<Rightarrow> string" where
  "results_status results =
     (if results = [] then ''not_run''
      else if list_ex (\<lambda>r. rr_status r \<in> {''failed'', ''timed_out''}) results then ''failed''
      else if list_ex (\<lambda>r. rr_status r = ''skipped'') results then ''incomplete''
      else ''passed'')"

definition execution_free :: "string \<Rightarrow> test_selection \<Rightarrow> bool" where
  "execution_free mode sel \<longleftrightarrow> mode = ''fast'' \<and> \<not> ts_fallback_full sel \<and> ts_tests sel = [] \<and>
     ''documentation_only'' \<in> set (ts_global_reasons sel)"

definition run_status :: "string \<Rightarrow> test_selection \<Rightarrow> run_result list \<Rightarrow> nat \<Rightarrow> string" where
  "run_status mode sel results pending =
     (let status = (if execution_free mode sel then ''passed'' else results_status results);
          status = (if mode = ''fast'' \<and> ts_fallback_full sel \<and> status \<in> {''passed'', ''not_run''}
            then ''incomplete'' else status) in
      if 0 < pending \<and> status \<in> {''passed'', ''not_run''} then ''incomplete'' else status)"

text \<open>FAST runs the tests that it can name; it never widens into the whole suite.\<close>

definition fast_results ::
  "(string \<Rightarrow> string) \<Rightarrow> project_profile \<Rightarrow> (string \<Rightarrow> string list \<Rightarrow> pyval) \<Rightarrow> run_scope \<Rightarrow> string list \<Rightarrow>
   test_selection \<Rightarrow> (vcache, verify_error, run_result list) step" where
  "fast_results sha profile runner scope changed_paths sel =
     (let run_tests = bindS (execute_one sha profile runner scope True ''fast'' ''test'' (ts_tests sel)
            (relevant_for changed_paths (ts_tests sel))) (\<lambda>r. retS [r]) in
      if execution_free ''fast'' sel then retS []
      else if ts_fallback_full sel
      then (if ts_tests sel \<noteq> [] \<and> test_configured profile then run_tests else retS [])
      else if test_configured profile then run_tests
      else retS [])"

definition run_results ::
  "(string \<Rightarrow> string) \<Rightarrow> project_profile \<Rightarrow> (string \<Rightarrow> string list \<Rightarrow> pyval) \<Rightarrow> run_scope \<Rightarrow> string list \<Rightarrow>
   string list list \<Rightarrow> string \<Rightarrow> test_selection \<Rightarrow> (vcache, verify_error, run_result list \<times> nat) step" where
  "run_results sha profile runner scope changed_paths shards mode sel =
     (if mode = ''full''
      then bindS (mapS (full_task sha profile runner scope changed_paths shards) (full_tasks profile))
        (\<lambda>parts. retS (concat (map fst parts), sum_list (map snd parts)))
      else bindS (fast_results sha profile runner scope changed_paths sel) (\<lambda>rs. retS (rs, 0)))"

definition run_identity :: "run_result \<Rightarrow> pyrepr" where
  "run_identity r = RTuple [RStr (rr_task r), RStr (rr_status r), RStr (rr_cache_status r), rstrs (rr_selected_tests r)]"

definition verification_run ::
  "(string \<Rightarrow> string) \<Rightarrow> project_profile \<Rightarrow> (string \<Rightarrow> string list \<Rightarrow> pyval) \<Rightarrow> string list list \<Rightarrow> string \<Rightarrow>
   string \<Rightarrow> string list \<Rightarrow> index_snapshot \<Rightarrow> run_scope \<Rightarrow> (vcache, verify_error, run_receipt) step" where
  "verification_run sha profile runner shards mode task_id changed_paths ix scope =
     (if mode \<notin> {''fast'', ''full''} then failS (VerificationError ''verification mode is invalid'')
      else if task_id = [] then failS (VerificationError ''task_id is invalid'')
      else
      checkS (mapError VerifySelection (verification_select changed_paths ix profile)) (\<lambda>sel.
      bindS (run_results sha profile runner scope changed_paths shards mode sel) (\<lambda>(results, pending).
      let fingerprint = sha (py_repr (RTuple [RStr task_id, RStr mode, RStr (rs_worktree_id scope),
            RStr (rs_head scope), RStr (rs_diff_hash scope), RInt (int pending),
            RTuple (map run_identity results)])) in
      retS \<lparr>rx_receipt_id = ''verification-run:'' @ take 32 fingerprint, rx_task_id = task_id, rx_mode = mode,
        rx_selection = sel, rx_results = results, rx_status = run_status mode sel results pending,
        rx_worktree_id = rs_worktree_id scope, rx_head = rs_head scope, rx_diff_hash = rs_diff_hash scope,
        rx_pending_work_units = pending, rx_continuation_required = (0 < pending)\<rparr>)))"

section \<open>Every verdict comes from the runner\<close>

text \<open>\<open>runs\<close> collects what was run: the identity of the run and the status that the runner's answer gives.\<close>

definition entries_backed :: "(cache_key \<times> string) set \<Rightarrow> vcache \<Rightarrow> bool" where
  "entries_backed runs c \<longleftrightarrow> (\<forall>e\<in>set (vc_entries c). (ve_key e, ve_status e) \<in> runs)"

definition produced ::
  "(string \<Rightarrow> string) \<Rightarrow> project_profile \<Rightarrow> (string \<Rightarrow> string list \<Rightarrow> pyval) \<Rightarrow> run_scope \<Rightarrow> (cache_key \<times> string) set" where
  "produced sha profile runner scope =
     {(key, vr_status r) | key r namespace task tests.
        run_cache_key sha profile scope namespace task tests = Inr key \<and>
        result_of_raw task (runner task tests) = Inr r}"

definition result_backed ::
  "(string \<Rightarrow> string) \<Rightarrow> project_profile \<Rightarrow> run_scope \<Rightarrow> (cache_key \<times> string) set \<Rightarrow> string \<Rightarrow> run_result \<Rightarrow> bool" where
  "result_backed sha profile scope runs namespace r \<longleftrightarrow>
     (\<exists>key. run_cache_key sha profile scope namespace (rr_task r) (rr_selected_tests r) = Inr key \<and>
        (key, rr_status r) \<in> runs)"

text \<open>An operation keeps the entries backed and its value has a property.\<close>

definition backs :: "(cache_key \<times> string) set \<Rightarrow> (vcache, 'e, 'a) step \<Rightarrow> ('a \<Rightarrow> bool) \<Rightarrow> bool" where
  "backs runs m P \<longleftrightarrow> (\<forall>c. entries_backed runs c \<longrightarrow>
     ends m (\<lambda>r t. entries_backed runs t \<and> (\<forall>x. r = Inr x \<longrightarrow> P x)) c)"

lemma backs_ret: "P x \<Longrightarrow> backs runs (retS x) P"
  by (simp add: backs_def ends_simps)

lemma backs_bind:
  assumes "backs runs m P" "\<And>x. P x \<Longrightarrow> backs runs (f x) Q" shows "backs runs (bindS m f) Q"
  unfolding backs_def
proof (intro allI impI)
  fix c assume "entries_backed runs c"
  with assms(1) have "ends m (\<lambda>r t. entries_backed runs t \<and> (\<forall>x. r = Inr x \<longrightarrow> P x)) c"
    by (simp add: backs_def)
  then show "ends (bindS m f) (\<lambda>r t. entries_backed runs t \<and> (\<forall>x. r = Inr x \<longrightarrow> Q x)) c"
    unfolding ends_bindS
    by (rule ends_mono) (use assms(2) in \<open>auto simp: backs_def split: sum.split\<close>)
qed

lemma backs_check: "(\<And>x. r = Inr x \<Longrightarrow> backs runs (f x) Q) \<Longrightarrow> backs runs (checkS r f) Q"
  by (simp add: backs_def ends_checkS split: sum.split)

lemma backs_from_cache: "backs runs m P \<Longrightarrow> backs runs (from_cache m) P"
  by (fastforce simp: backs_def ends_def from_cache_def mapError_Inr_iff split: prod.splits)

lemma backs_if: "backs runs m P \<Longrightarrow> backs runs n P \<Longrightarrow> backs runs (if b then m else n) P"
  by simp

lemma backs_weaken: "backs runs m P \<Longrightarrow> (\<And>x. P x \<Longrightarrow> Q x) \<Longrightarrow> backs runs m Q"
  unfolding backs_def by (blast intro: ends_mono)

lemma backs_get:
  assumes "inj sha"
  shows "backs runs (cache_get sha key) (\<lambda>found. \<forall>e. found = Some e \<longrightarrow> ve_key e = key \<and> (key, ve_status e) \<in> runs)"
  unfolding backs_def
proof (intro allI impI, rule ends_mono [OF get_memory])
  fix c t :: vcache and r :: "cache_error + cache_entry option"
  assume c: "entries_backed runs c" and m: "same_frame c t \<and> vc_reads t = Suc (vc_reads c) \<and>
      vc_entries t = kept_entries sha (vc_clock c (vc_reads c)) (vc_max_entries c) (vc_entries c) \<and>
      (\<forall>found. r = Inr found \<longrightarrow> found = kget (entry_digest sha) (key_digest sha key) (vc_entries t))"
  then have t: "entries_backed runs t"
    using set_kept_entries [of sha "vc_clock c (vc_reads c)" "vc_max_entries c" "vc_entries c"]
    by (auto simp: entries_backed_def)
  moreover have "ve_key e = key \<and> (key, ve_status e) \<in> runs" if "r = Inr (Some e)" for e
  proof -
    from m that have "kget (entry_digest sha) (key_digest sha key) (vc_entries t) = Some e" by simp
    from kget_SomeD [OF this] t assms show ?thesis by (auto simp: key_digest_inj entries_backed_def)
  qed
  ultimately show "entries_backed runs t \<and> (\<forall>x. r = Inr x \<longrightarrow>
      (\<forall>e. x = Some e \<longrightarrow> ve_key e = key \<and> (key, ve_status e) \<in> runs))" by blast
qed

lemma kept_subset: "set (kept_entries sha now n es) \<subseteq> set es"
  using set_kept_entries [of sha now n es] by auto

lemma backs_put:
  assumes "(key, st) \<in> runs"
  shows "backs runs (cache_put sha key ps st rd sm) (\<lambda>e. ve_key e = key \<and> ve_status e = st)"
proof (cases "put_checked ps st rd sm")
  case (Inl x)
  then show ?thesis by (simp add: backs_def ends_def refused_call_state)
next
  case (Inr qs)
  show ?thesis
    unfolding backs_def
  proof (intro allI impI)
    fix c assume c: "entries_backed runs c"
    let ?e = "new_entry key qs st rd sm (vc_clock c (vc_reads c)) (vc_ttl c)"
    let ?written = "kset (entry_digest sha) ?e (vc_entries c)"
    have e: "ve_key ?e = key" "ve_status ?e = st" by (simp_all add: new_entry_def)
    have w: "\<forall>f\<in>set ?written. (ve_key f, ve_status f) \<in> runs"
      using set_kset_subset [of "entry_digest sha" ?e "vc_entries c"] c assms e
      by (auto simp: entries_backed_def)
    let ?t = "snd (cache_put sha key ps st rd sm c)"
    have "set (vc_entries ?t) \<subseteq> set ?written"
      using put_state(2) [OF Inr, of sha key c] kept_subset by (metis subset_refl)
    with w have "entries_backed runs ?t" by (auto simp: entries_backed_def)
    moreover have "x = ?e" if "fst (cache_put sha key ps st rd sm c) = Inr x" for x
      using put_memory [OF Inr, of sha key c] that by (simp add: ends_iff Let_def)
    ultimately show "ends (cache_put sha key ps st rd sm)
        (\<lambda>r t. entries_backed runs t \<and> (\<forall>x. r = Inr x \<longrightarrow> ve_key x = key \<and> ve_status x = st)) c"
      using e by (auto simp: ends_iff)
  qed
qed

lemma key_checked_Inr: "cache_key_checked k = Inr k' \<Longrightarrow> k' = k"
  by (auto simp: cache_key_checked_def split: if_splits)

lemma backs_cached:
  assumes "inj sha"
  shows "backs runs (cached_result sha profile scope namespace task tests)
    (\<lambda>found. \<forall>r. found = Some r \<longrightarrow> rr_task r = task \<and> rr_selected_tests r = tests \<and>
       result_backed sha profile scope runs namespace r)"
  unfolding cached_result_def
proof (rule backs_check, rule backs_bind [OF backs_from_cache [OF backs_get [OF assms]]])
  fix key and found :: "cache_entry option"
  assume key: "run_cache_key sha profile scope namespace task tests = Inr key"
    and found: "\<forall>e. found = Some e \<longrightarrow> ve_key e = key \<and> (key, ve_status e) \<in> runs"
  have hit: "rr_task (hit_result task tests e) = task \<and> rr_selected_tests (hit_result task tests e) = tests \<and>
      result_backed sha profile scope runs namespace (hit_result task tests e)" if "(key, ve_status e) \<in> runs" for e
    using that key by (simp add: hit_result_def result_backed_def)
  show "backs runs (case found of
       None \<Rightarrow> retS None
     | Some e \<Rightarrow>
         if namespace = ''full''
         then bindS (from_cache (cache_put sha key (ve_paths e) (ve_status e) (ve_result_digest e) (ve_summary e)))
           (\<lambda>e'. retS (Some (hit_result task tests e')))
         else retS (Some (hit_result task tests e)))
     (\<lambda>found. \<forall>r. found = Some r \<longrightarrow> rr_task r = task \<and> rr_selected_tests r = tests \<and>
       result_backed sha profile scope runs namespace r)"
  proof (cases found)
    case None
    then show ?thesis by (simp add: backs_ret)
  next
    case (Some e)
    with found have e: "(key, ve_status e) \<in> runs" by blast
    have "backs runs (bindS (from_cache (cache_put sha key (ve_paths e) (ve_status e) (ve_result_digest e) (ve_summary e)))
        (\<lambda>e'. retS (Some (hit_result task tests e'))))
      (\<lambda>found. \<forall>r. found = Some r \<longrightarrow> rr_task r = task \<and> rr_selected_tests r = tests \<and>
        result_backed sha profile scope runs namespace r)"
      by (rule backs_bind [OF backs_from_cache [OF backs_put [OF e]]]) (use hit e in \<open>auto intro!: backs_ret\<close>)
    moreover have "backs runs (retS (Some (hit_result task tests e)))
      (\<lambda>found. \<forall>r. found = Some r \<longrightarrow> rr_task r = task \<and> rr_selected_tests r = tests \<and>
        result_backed sha profile scope runs namespace r)"
      by (rule backs_ret) (use hit [OF e] in simp)
    ultimately show ?thesis unfolding Some option.case by (rule backs_if)
  qed
qed

definition is_run_of ::
  "(string \<Rightarrow> string) \<Rightarrow> project_profile \<Rightarrow> run_scope \<Rightarrow> (cache_key \<times> string) set \<Rightarrow> string \<Rightarrow>
   string \<Rightarrow> string list \<Rightarrow> run_result \<Rightarrow> bool" where
  "is_run_of sha profile scope runs namespace task tests r \<longleftrightarrow>
     rr_task r = task \<and> rr_selected_tests r = tests \<and> result_backed sha profile scope runs namespace r"

lemma backs_execute:
  assumes "inj sha" "produced sha profile runner scope \<subseteq> runs"
  shows "backs runs (execute_one sha profile runner scope use_cache namespace task tests relevant)
    (is_run_of sha profile scope runs namespace task tests)"
  unfolding execute_one_def
proof (rule backs_check, rule backs_bind)
  fix key assume key: "run_cache_key sha profile scope namespace task tests = Inr key"
  show "backs runs (if use_cache then cached_result sha profile scope namespace task tests else retS None)
      (\<lambda>found. \<forall>r. found = Some r \<longrightarrow> is_run_of sha profile scope runs namespace task tests r)"
    using backs_cached [OF assms(1)] by (auto simp: is_run_of_def intro!: backs_ret)
  fix found :: "run_result option"
  assume found: "\<forall>r. found = Some r \<longrightarrow> is_run_of sha profile scope runs namespace task tests r"
  show "backs runs (case found of
       Some r \<Rightarrow> retS r
     | None \<Rightarrow>
         checkS (result_of_raw task (runner task tests)) (\<lambda>r.
         bindS (if use_cache \<and> vr_status r \<in> set cache_statuses
                then bindS (from_cache (cache_put sha key relevant (vr_status r)
                  (result_digest sha task r) (take (nat 2048) (vr_output r)))) (\<lambda>_. retS ())
                else retS ()) (\<lambda>_.
         retS (run_output task tests use_cache r))))
     (is_run_of sha profile scope runs namespace task tests)"
  proof (cases found)
    case (Some r)
    with found show ?thesis by (simp add: backs_ret)
  next
    case None
    have fresh: "backs runs (bindS (if use_cache \<and> vr_status r \<in> set cache_statuses
                then bindS (from_cache (cache_put sha key relevant (vr_status r)
                  (result_digest sha task r) (take (nat 2048) (vr_output r)))) (\<lambda>_. retS ())
                else retS ()) (\<lambda>_. retS (run_output task tests use_cache r)))
        (is_run_of sha profile scope runs namespace task tests)"
      if raw: "result_of_raw task (runner task tests) = Inr r" for r
    proof (rule backs_bind [where P = "\<lambda>_. True"])
      have in_runs: "(key, vr_status r) \<in> runs" using assms(2) key raw unfolding produced_def by blast
      show "backs runs (if use_cache \<and> vr_status r \<in> set cache_statuses
                then bindS (from_cache (cache_put sha key relevant (vr_status r)
                  (result_digest sha task r) (take (nat 2048) (vr_output r)))) (\<lambda>_. retS ())
                else retS ()) (\<lambda>_. True)"
        by (auto intro!: backs_ret backs_bind [OF backs_from_cache [OF backs_put [OF in_runs]]])
      show "backs runs (retS (run_output task tests use_cache r))
          (is_run_of sha profile scope runs namespace task tests)"
        by (rule backs_ret) (use key in_runs in \<open>simp add: is_run_of_def result_backed_def run_output_def\<close>)
    qed
    from None show ?thesis by (simp add: backs_check fresh)
  qed
qed

lemma backs_mapS:
  "(\<And>x. x \<in> set xs \<Longrightarrow> backs runs (f x) (P x)) \<Longrightarrow> backs runs (mapS f xs) (list_all2 P xs)"
proof (induction xs)
  case (Cons x xs)
  show ?case
    unfolding mapS.simps
    by (rule backs_bind [OF Cons.prems backs_bind [OF Cons.IH]]) (auto intro!: backs_ret Cons.prems)
qed (simp add: backs_ret)

lemma backs_poolS:
  "(\<And>x. x \<in> set xs \<Longrightarrow> backs runs (f x) (P x)) \<Longrightarrow> backs runs (poolS f xs) (list_all2 P xs)"
proof (induction xs)
  case (Cons x xs)
  have f: "backs runs (f x) (P x)" and fs: "backs runs (poolS f xs) (list_all2 P xs)"
    using Cons by simp_all
  show ?case
    unfolding backs_def
  proof (intro allI impI)
    fix c assume c: "entries_backed runs c"
    obtain r t where r: "f x c = (r, t)" by fastforce
    obtain rs u where rs: "poolS f xs t = (rs, u)" by fastforce
    from f c r have t: "entries_backed runs t" "\<forall>y. r = Inr y \<longrightarrow> P x y" by (auto simp: backs_def ends_def)
    with fs rs have "entries_backed runs u" "\<forall>ys. rs = Inr ys \<longrightarrow> list_all2 P xs ys" by (auto simp: backs_def ends_def)
    with t(2) r rs show "ends (poolS f (x # xs)) (\<lambda>r t. entries_backed runs t \<and>
        (\<forall>ys. r = Inr ys \<longrightarrow> list_all2 P (x # xs) ys)) c"
      by (auto simp: ends_def result_simps)
  qed
qed (simp add: backs_ret)

section \<open>A passed run\<close>

text \<open>The tasks and tests that a run must have run before it may pass.\<close>

definition required_runs :: "string \<Rightarrow> test_selection \<Rightarrow> project_profile \<Rightarrow> string list list \<Rightarrow> (string \<times> string list) list" where
  "required_runs mode sel profile shards =
     (if mode = ''fast'' then (if execution_free mode sel then [] else [(''test'', ts_tests sel)])
      else concat (map (\<lambda>task. if task = ''test'' \<and> shards \<noteq> [] then map (Pair task) shards else [(task, [])])
        (full_tasks profile)))"

definition covers_runs ::
  "(string \<times> string list \<Rightarrow> run_result \<Rightarrow> bool) \<Rightarrow> (string \<times> string list) list \<Rightarrow> run_result list \<Rightarrow> bool" where
  "covers_runs P reqs results \<longleftrightarrow> (\<forall>q\<in>set reqs. \<exists>r\<in>set results. P q r)"

lemma list_all2_covers: "list_all2 P xs ys \<Longrightarrow> x \<in> set xs \<Longrightarrow> \<exists>y\<in>set ys. P x y"
  by (induction rule: list_all2_induct) auto

lemma backs_full_shards:
  assumes "inj sha" "produced sha profile runner scope \<subseteq> runs"
  defines "P \<equiv> \<lambda>q. is_run_of sha profile scope runs ''full'' (fst q) (snd q)"
  shows "backs runs (full_shards sha profile runner scope changed shards task)
    (\<lambda>(results, pending). pending = 0 \<longrightarrow> covers_runs P (map (Pair task) shards) results)"
proof (cases "2 < length shards")
  case False
  have "backs runs (poolS (\<lambda>shard. execute_one sha profile runner scope True ''full'' task shard
      (relevant_for changed shard)) shards) (list_all2 (\<lambda>shard. P (task, shard)) shards)"
    unfolding P_def fst_conv snd_conv by (rule backs_poolS) (rule backs_execute [OF assms(1,2)])
  then have "backs runs (bindS (poolS (\<lambda>shard. execute_one sha profile runner scope True ''full'' task shard
      (relevant_for changed shard)) shards) (\<lambda>results. retS (results, 0)))
      (\<lambda>(results, pending). pending = 0 \<longrightarrow> covers_runs P (map (Pair task) shards) results)"
    by (rule backs_bind) (auto simp: covers_runs_def dest: list_all2_covers intro!: backs_ret)
  with False show ?thesis by (simp add: full_shards_def Let_def)
next
  case True
  let ?cached = "\<lambda>shard found. \<forall>r. found = Some r \<longrightarrow> P (task, shard) r"
  have look: "backs runs (mapS (cached_result sha profile scope ''full'' task) shards) (list_all2 ?cached shards)"
    by (rule backs_mapS) (simp add: backs_cached [OF assms(1)] P_def is_run_of_def)
  have rest: "backs runs (bindS (poolS (\<lambda>i. execute_one sha profile runner scope True ''full'' task (shards ! i)
        (relevant_for changed (shards ! i))) (take 2 (filter (\<lambda>i. cached ! i = None) [0..<length shards])))
      (\<lambda>fresh. retS (map snd (sort_key fst (map (\<lambda>i. (i, the (cached ! i)))
          (filter (\<lambda>i. cached ! i \<noteq> None) [0..<length shards]) @
          zip (take 2 (filter (\<lambda>i. cached ! i = None) [0..<length shards])) fresh)),
        length (filter (\<lambda>i. cached ! i = None) [0..<length shards]) -
        length (take 2 (filter (\<lambda>i. cached ! i = None) [0..<length shards])))))
      (\<lambda>(results, pending). pending = 0 \<longrightarrow> covers_runs P (map (Pair task) shards) results)"
    if cached: "list_all2 ?cached shards cached" for cached
  proof (rule backs_bind)
    let ?missing = "filter (\<lambda>i. cached ! i = None) [0..<length shards]"
    show "backs runs (poolS (\<lambda>i. execute_one sha profile runner scope True ''full'' task (shards ! i)
        (relevant_for changed (shards ! i))) (take 2 ?missing)) (list_all2 (\<lambda>i. P (task, shards ! i)) (take 2 ?missing))"
      unfolding P_def fst_conv snd_conv by (rule backs_poolS) (rule backs_execute [OF assms(1,2)])
    fix fresh assume fresh: "list_all2 (\<lambda>i. P (task, shards ! i)) (take 2 ?missing) fresh"
    show "backs runs (retS (map snd (sort_key fst (map (\<lambda>i. (i, the (cached ! i)))
          (filter (\<lambda>i. cached ! i \<noteq> None) [0..<length shards]) @ zip (take 2 ?missing) fresh)),
        length ?missing - length (take 2 ?missing)))
      (\<lambda>(results, pending). pending = 0 \<longrightarrow> covers_runs P (map (Pair task) shards) results)"
    proof (rule backs_ret, unfold prod.case, rule impI)
      assume none: "length ?missing - length (take 2 ?missing) = 0"
      then have all: "take 2 ?missing = ?missing" by simp
      show "covers_runs P (map (Pair task) shards) (map snd (sort_key fst (map (\<lambda>i. (i, the (cached ! i)))
          (filter (\<lambda>i. cached ! i \<noteq> None) [0..<length shards]) @ zip (take 2 ?missing) fresh)))"
        unfolding covers_runs_def
      proof
        fix q assume "q \<in> set (map (Pair task) shards)"
        then obtain i where i: "i < length shards" "q = (task, shards ! i)" by (auto simp: in_set_conv_nth)
        show "\<exists>r\<in>set (map snd (sort_key fst (map (\<lambda>i. (i, the (cached ! i)))
          (filter (\<lambda>i. cached ! i \<noteq> None) [0..<length shards]) @ zip (take 2 ?missing) fresh))). P q r"
        proof (cases "cached ! i")
          case (Some r)
          with cached i have "P q r" by (auto simp: list_all2_conv_all_nth)
          moreover have "(i, r) \<in> set (map (\<lambda>i. (i, the (cached ! i))) (filter (\<lambda>i. cached ! i \<noteq> None) [0..<length shards]))"
            using Some i(1) by force
          ultimately show ?thesis by force
        next
          case None
          with i(1) have "i \<in> set (take 2 ?missing)" unfolding all by simp
          then obtain j where j: "j < length (take 2 ?missing)" "take 2 ?missing ! j = i" by (auto simp: in_set_conv_nth)
          have "j < length fresh" "P q (fresh ! j)"
            using list_all2_lengthD [OF fresh] list_all2_nthD [OF fresh j(1)] j i(2) by simp_all
          moreover from this(1) j have "(i, fresh ! j) \<in> set (zip (take 2 ?missing) fresh)"
            using in_set_conv_nth [of "(i, fresh ! j)" "zip (take 2 ?missing) fresh"] by (metis length_zip min_less_iff_conj nth_zip)
          ultimately show ?thesis by force
        qed
      qed
    qed
  qed
  show ?thesis
    using True backs_bind [OF look rest] by (simp add: full_shards_def Let_def)
qed

lemma backs_full_task:
  assumes "inj sha" "produced sha profile runner scope \<subseteq> runs"
  defines "P \<equiv> \<lambda>q. is_run_of sha profile scope runs ''full'' (fst q) (snd q)"
  shows "backs runs (full_task sha profile runner scope changed shards task)
    (\<lambda>(results, pending). pending = 0 \<longrightarrow>
      covers_runs P (if task = ''test'' \<and> shards \<noteq> [] then map (Pair task) shards else [(task, [])]) results)"
proof (cases "task = ''test'' \<and> shards \<noteq> []")
  case True
  then show ?thesis
    using backs_full_shards [OF assms(1,2)] by (simp add: full_task_def P_def)
next
  case False
  have "backs runs (bindS (execute_one sha profile runner scope True ''full'' task [] changed) (\<lambda>r. retS ([r], 0)))
    (\<lambda>(results, pending). pending = 0 \<longrightarrow> covers_runs P [(task, [])] results)"
    by (rule backs_bind [OF backs_execute [OF assms(1,2)]])
      (auto simp: covers_runs_def P_def intro!: backs_ret)
  then show ?thesis unfolding full_task_def if_not_P [OF False] .
qed

lemma covers_append: "covers_runs P a r \<Longrightarrow> covers_runs P b s \<Longrightarrow> covers_runs P (a @ b) (r @ s)"
  unfolding covers_runs_def by (metis Un_iff set_append)

lemma covers_concat:
  assumes "list_all2 (\<lambda>x (results, pending). pending = (0 :: nat) \<longrightarrow> covers_runs P (f x) results) xs parts"
    and "sum_list (map snd parts) = 0"
  shows "covers_runs P (concat (map f xs)) (concat (map fst parts))"
  using assms
proof (induction rule: list_all2_induct)
  case (Cons x xs part parts)
  then show ?case by (cases part) (auto intro!: covers_append)
qed (simp add: covers_runs_def)

lemma backs_results:
  assumes "inj sha" "produced sha profile runner scope \<subseteq> runs" "mode \<in> {''fast'', ''full''}"
    and "mode = ''fast'' \<longrightarrow> ts_fallback_full sel \<or> execution_free mode sel \<or> test_configured profile"
  defines "P \<equiv> \<lambda>q. is_run_of sha profile scope runs mode (fst q) (snd q)"
  shows "backs runs (run_results sha profile runner scope changed shards mode sel)
    (\<lambda>(results, pending). pending = 0 \<and> \<not> (mode = ''fast'' \<and> ts_fallback_full sel) \<longrightarrow>
       covers_runs P (required_runs mode sel profile shards) results)"
proof (cases "mode = ''full''")
  case True
  have "backs runs (mapS (full_task sha profile runner scope changed shards) (full_tasks profile))
    (list_all2 (\<lambda>task (results, pending). pending = 0 \<longrightarrow>
      covers_runs P (if task = ''test'' \<and> shards \<noteq> [] then map (Pair task) shards else [(task, [])]) results)
      (full_tasks profile))"
    unfolding P_def True by (rule backs_mapS) (rule backs_full_task [OF assms(1,2)])
  then have "backs runs (bindS (mapS (full_task sha profile runner scope changed shards) (full_tasks profile))
      (\<lambda>parts. retS (concat (map fst parts), sum_list (map snd parts))))
    (\<lambda>(results, pending). pending = 0 \<and> \<not> (mode = ''fast'' \<and> ts_fallback_full sel) \<longrightarrow>
       covers_runs P (required_runs mode sel profile shards) results)"
    by (rule backs_bind) (auto simp: required_runs_def True intro!: backs_ret covers_concat)
  with True show ?thesis by (simp add: run_results_def)
next
  case False
  with assms(3) have fast: "mode = ''fast''" by simp
  have one: "backs runs (bindS (execute_one sha profile runner scope True ''fast'' ''test'' (ts_tests sel)
      (relevant_for changed (ts_tests sel))) (\<lambda>r. retS [r]))
    (\<lambda>results. covers_runs P [(''test'', ts_tests sel)] results)"
    by (rule backs_bind [OF backs_execute [OF assms(1,2)]])
      (auto simp: covers_runs_def P_def fast intro!: backs_ret)
  have "backs runs (fast_results sha profile runner scope changed sel)
    (\<lambda>results. \<not> ts_fallback_full sel \<longrightarrow> covers_runs P (required_runs mode sel profile shards) results)"
    using assms(4) one
    by (auto simp: fast_results_def Let_def fast required_runs_def covers_runs_def
      intro!: backs_ret elim!: backs_weaken)
  then have "backs runs (bindS (fast_results sha profile runner scope changed sel) (\<lambda>rs. retS (rs, 0 :: nat)))
    (\<lambda>(results, pending). pending = 0 \<and> \<not> (mode = ''fast'' \<and> ts_fallback_full sel) \<longrightarrow>
       covers_runs P (required_runs mode sel profile shards) results)"
    by (rule backs_bind) (auto simp: fast intro!: backs_ret)
  with False show ?thesis by (simp add: run_results_def)
qed

lemma status_passed:
  assumes "run_status mode sel results pending = ''passed''"
  shows "pending = 0" and "\<not> (mode = ''fast'' \<and> ts_fallback_full sel)"
    and "execution_free mode sel \<or> results \<noteq> [] \<and> (\<forall>r\<in>set results. rr_status r \<notin> {''failed'', ''timed_out'', ''skipped''})"
  using assms
  by (auto simp: run_status_def results_status_def Let_def list_ex_iff split: if_splits)

text \<open>
  C17: A run that passes has run what it must. Let every verdict of the cache come from a run of the
  runner, now or earlier. Then a run keeps that, and when its receipt says passed, nothing is
  pending, a FAST run was not in doubt about its tests, and every task and every shard that the mode
  requires has a result that passed, under the exact worktree, head, diff, environment,
  dependencies, command and tests. FULL requires every configured task and every shard.
\<close>

theorem passed_run_is_backed:
  assumes "inj sha" "produced sha profile runner scope \<subseteq> runs" "entries_backed runs c"
    and "snd ` runs \<subseteq> set (''skipped'' # cache_statuses)"
    and "verification_run sha profile runner shards mode task_id changed ix scope c = (Inr receipt, t)"
  shows "entries_backed runs t \<and>
    (rx_status receipt = ''passed'' \<longrightarrow>
      rx_pending_work_units receipt = 0 \<and> \<not> (mode = ''fast'' \<and> ts_fallback_full (rx_selection receipt)) \<and>
      covers_runs (\<lambda>(task, tests) r. rr_task r = task \<and> rr_selected_tests r = tests \<and>
          rr_status r = ''passed'' \<and> result_backed sha profile scope runs mode r)
        (required_runs mode (rx_selection receipt) profile shards) (rx_results receipt))"
proof -
  from assms(5) have mode: "mode \<in> {''fast'', ''full''}" "task_id \<noteq> []"
    by (auto simp: verification_run_def failS_def split: if_splits)
  from assms(5) mode obtain sel where sel: "verification_select changed ix profile = Inr sel"
    by (cases "verification_select changed ix profile") (auto simp: verification_run_def checkS_eq)
  have known: "mode = ''fast'' \<longrightarrow> ts_fallback_full sel \<or> execution_free mode sel \<or> test_configured profile"
    using selection_falls_back [OF sel] by blast
  let ?m = "run_results sha profile runner scope changed shards mode sel"
  obtain results pending where run: "?m c = (Inr (results, pending), t)"
    and receipt: "rx_results receipt = results" "rx_pending_work_units receipt = pending"
      "rx_selection receipt = sel" "rx_status receipt = run_status mode sel results pending"
    using assms(5) mode
    by (auto simp: verification_run_def sel checkS_eq bindS_def retS_def Let_def split: prod.splits sum.splits)
  from backs_results [OF assms(1,2) mode(1) known, of changed shards] assms(3) run
  have t: "entries_backed runs t" and cov: "pending = 0 \<and> \<not> (mode = ''fast'' \<and> ts_fallback_full sel) \<longrightarrow>
      covers_runs (\<lambda>q. is_run_of sha profile scope runs mode (fst q) (snd q))
        (required_runs mode sel profile shards) results"
    by (auto simp: backs_def ends_def)
  show ?thesis
  proof (intro conjI impI)
    assume "rx_status receipt = ''passed''"
    then have p: "run_status mode sel results pending = ''passed''" using receipt by simp
    note passed = status_passed [OF p]
    show "rx_pending_work_units receipt = 0" "\<not> (mode = ''fast'' \<and> ts_fallback_full (rx_selection receipt))"
      using passed(1,2) receipt by simp_all
    have cov: "covers_runs (\<lambda>q. is_run_of sha profile scope runs mode (fst q) (snd q))
        (required_runs mode sel profile shards) results" using cov passed(1,2) by blast
    have status: "rr_status r = ''passed''"
      if "result_backed sha profile scope runs mode r" "rr_status r \<notin> {''failed'', ''timed_out'', ''skipped''}" for r
    proof -
      from that(1) assms(4) have "rr_status r \<in> set (''skipped'' # cache_statuses)"
        unfolding result_backed_def by force
      with that(2) show ?thesis by (simp add: cache_statuses_def)
    qed
    show "covers_runs (\<lambda>(task, tests) r. rr_task r = task \<and> rr_selected_tests r = tests \<and>
          rr_status r = ''passed'' \<and> result_backed sha profile scope runs mode r)
        (required_runs mode (rx_selection receipt) profile shards) (rx_results receipt)"
    proof (cases "execution_free mode sel")
      case True
      then have "required_runs mode sel profile shards = []" by (simp add: execution_free_def required_runs_def)
      then show ?thesis by (simp add: receipt covers_runs_def)
    next
      case False
      show ?thesis
        unfolding covers_runs_def receipt
      proof (rule ballI)
        fix q assume "q \<in> set (required_runs mode sel profile shards)"
        with cov obtain r where r: "r \<in> set results" "is_run_of sha profile scope runs mode (fst q) (snd q) r"
          unfolding covers_runs_def by blast
        from passed(3) False r(1) have "rr_status r \<notin> {''failed'', ''timed_out'', ''skipped''}" by blast
        with r status show "\<exists>r\<in>set results. (\<lambda>(task, tests) r. rr_task r = task \<and> rr_selected_tests r = tests \<and>
            rr_status r = ''passed'' \<and> result_backed sha profile scope runs mode r) q r"
          by (intro bexI [OF _ r(1)]) (simp add: is_run_of_def split_beta)
      qed
    qed
  qed (rule t)
qed

section \<open>Identities of runs\<close>

lemma repr_escape_first:
  "q \<in> {CHR 0x27, CHR 0x22} \<Longrightarrow> repr_escape q c \<noteq> [] \<and> hd (repr_escape q c) \<noteq> q"
  by (auto simp: repr_escape_def)

lemma repr_escape_prefix_code:
  assumes "q \<in> {CHR 0x27, CHR 0x22}" "repr_escape q c @ u = repr_escape q d @ v" shows "c = d \<and> u = v"
proof (cases "length (repr_escape q c) = 4 \<and> length (repr_escape q d) = 4")
  case True
  then have "repr_escape q c = [CHR 0x5C, CHR ''x'', hex_digit (of_char c div 16), hex_digit (of_char c mod 16)]"
    "repr_escape q d = [CHR 0x5C, CHR ''x'', hex_digit (of_char d div 16), hex_digit (of_char d mod 16)]"
    by (auto simp: repr_escape_def split: if_splits)
  with assms have dv: "hex_digit (of_char c div 16) = hex_digit (of_char d div 16)"
    and md: "hex_digit (of_char c mod 16) = hex_digit (of_char d mod 16)" and uv: "u = v" by auto
  have less: "(of_char x div 16 :: nat) < 16" for x :: char
    using nat_of_char_less_256 [of x] by (simp add: less_mult_imp_div_less)
  have "(of_char c div 16 :: nat) = of_char d div 16" by (rule hex_digit_inj [OF less less dv])
  moreover have "(of_char c mod 16 :: nat) = of_char d mod 16"
    using md by (rule hex_digit_inj [rotated 2]) simp_all
  ultimately have "(of_char c :: nat) = of_char d" by (metis div_mult_mod_eq)
  then have "c = d" by (metis char_of_char)
  with uv show ?thesis by simp
next
  case False
  with assms show ?thesis by (auto simp: repr_escape_def split: if_splits)
qed

lemma repr_body_prefix_code:
  assumes "q \<in> {CHR 0x27, CHR 0x22}"
  shows "concat (map (repr_escape q) s) @ q # u = concat (map (repr_escape q) t) @ q # v \<Longrightarrow> s = t \<and> u = v"
proof (induction s arbitrary: t)
  case Nil
  show ?case
  proof (cases t)
    case (Cons d t')
    with Nil.prems repr_escape_first [OF assms, of d] show ?thesis by (cases "repr_escape q d") auto
  qed (use Nil.prems in simp)
next
  case (Cons c s)
  show ?case
  proof (cases t)
    case Nil
    with Cons.prems repr_escape_first [OF assms, of c] show ?thesis by (cases "repr_escape q c") auto
  next
    case t: (Cons d t')
    from Cons.prems have "repr_escape q c @ (concat (map (repr_escape q) s) @ q # u) =
        repr_escape q d @ (concat (map (repr_escape q) t') @ q # v)" by (simp add: t)
    from repr_escape_prefix_code [OF assms this] Cons.IH [of t'] t show ?thesis by blast
  qed
qed

lemma repr_string_prefix_code:
  assumes "repr_string s @ u = repr_string t @ v" shows "s = t \<and> u = v"
proof -
  define quote_of :: "string \<Rightarrow> char" where
    "quote_of = (\<lambda>s. if CHR 0x27 \<in> set s \<and> CHR 0x22 \<notin> set s then CHR 0x22 else CHR 0x27)"
  have r: "repr_string x = quote_of x # concat (map (repr_escape (quote_of x)) x) @ [quote_of x]" for x
    by (simp add: repr_string_def quote_of_def Let_def)
  from assms have "quote_of s = quote_of t" by (simp add: r)
  moreover have "quote_of s \<in> {CHR 0x27, CHR 0x22}" by (simp add: quote_of_def)
  ultimately show ?thesis
    using repr_body_prefix_code [of "quote_of s" s u t v] assms by (simp add: r)
qed

lemma repr_string_quote: "\<exists>w. repr_string s = CHR 0x27 # w \<or> repr_string s = CHR 0x22 # w"
  by (auto simp: repr_string_def Let_def)

lemma repr_items_prefix_code:
  "xs \<noteq> [] \<Longrightarrow> ys \<noteq> [] \<Longrightarrow>
   py_join '', '' (map repr_string xs) @ CHR '')'' # u = py_join '', '' (map repr_string ys) @ CHR '')'' # v \<Longrightarrow>
   xs = ys \<and> u = v"
proof (induction xs arbitrary: ys)
  case (Cons x xs)
  then obtain y ys' where ys: "ys = y # ys'" by (cases ys) auto
  have join: "py_join '', '' (map repr_string (z # zs)) @ CHR '')'' # w = repr_string z @
      (if zs = [] then CHR '')'' # w else '', '' @ py_join '', '' (map repr_string zs) @ CHR '')'' # w)"
    for z zs w by (cases zs) simp_all
  from Cons.prems(3) ys have "repr_string x @
      (if xs = [] then CHR '')'' # u else '', '' @ py_join '', '' (map repr_string xs) @ CHR '')'' # u) =
    repr_string y @
      (if ys' = [] then CHR '')'' # v else '', '' @ py_join '', '' (map repr_string ys') @ CHR '')'' # v)"
    by (simp only: join)
  from repr_string_prefix_code [OF this] have "x = y"
    and tails: "(if xs = [] then CHR '')'' # u else '', '' @ py_join '', '' (map repr_string xs) @ CHR '')'' # u) =
      (if ys' = [] then CHR '')'' # v else '', '' @ py_join '', '' (map repr_string ys') @ CHR '')'' # v)" by simp_all
  with Cons.IH [of ys'] ys show ?case by (auto split: if_splits)
qed simp

lemma rstrs_repr:
  "py_repr (rstrs xs) = (case xs of [] \<Rightarrow> ''()'' | [x] \<Rightarrow> CHR ''('' # repr_string x @ '',)''
     | _ \<Rightarrow> CHR ''('' # py_join '', '' (map repr_string xs) @ '')'')"
  by (auto simp: rstrs_def comp_def split: list.split)

lemma rstrs_prefix_code:
  assumes "py_repr (rstrs xs) @ u = py_repr (rstrs ys) @ v" shows "xs = ys \<and> u = v"
proof -
  have quote: "repr_string s @ w \<noteq> CHR '')'' # z" for s w z
    using repr_string_quote [of s] by auto
  have many: "py_repr (rstrs (x # y # zs)) = CHR ''('' # repr_string x @ '', '' @ py_join '', '' (map repr_string (y # zs)) @ '')''"
    for x y zs by (simp add: rstrs_repr)
  have one: "py_repr (rstrs [x]) = CHR ''('' # repr_string x @ '',)''" for x by (simp add: rstrs_repr)
  show ?thesis
  proof (cases xs)
    case Nil
    show ?thesis
    proof (cases ys)
      case (Cons y ys')
      with assms Nil quote [of y] show ?thesis by (cases ys') (auto simp: rstrs_repr dest: sym)
    qed (use assms Nil in \<open>simp add: rstrs_repr\<close>)
  next
    case xs: (Cons x xs')
    show ?thesis
    proof (cases ys)
      case Nil
      with assms xs quote [of x] show ?thesis by (cases xs') (auto simp: rstrs_repr)
    next
      case ys: (Cons y ys')
      show ?thesis
      proof (cases "xs' = [] \<or> ys' = []")
        case True
        have "x = y \<and> (xs' = [] \<longleftrightarrow> ys' = []) \<and> u = v"
        proof (cases "xs' = [] \<and> ys' = []")
          case True
          with assms xs ys have "repr_string x @ '',)'' @ u = repr_string y @ '',)'' @ v" by (simp add: one)
          from repr_string_prefix_code [OF this] True show ?thesis by simp
        next
          case False
          with True obtain z zs where "xs' = [] \<and> ys' = z # zs \<or> ys' = [] \<and> xs' = z # zs"
            by (metis neq_Nil_conv)
          then show ?thesis
          proof
            assume a: "xs' = [] \<and> ys' = z # zs"
            with assms xs ys have "repr_string x @ ('',)'' @ u) =
                repr_string y @ ('', '' @ py_join '', '' (map repr_string (z # zs)) @ '')'' @ v)"
              by (simp only: one many append.simps append_assoc list.inject)
            from repr_string_prefix_code [OF this] show ?thesis by simp
          next
            assume a: "ys' = [] \<and> xs' = z # zs"
            with assms xs ys have "repr_string x @ ('', '' @ py_join '', '' (map repr_string (z # zs)) @ '')'' @ u) =
                repr_string y @ ('',)'' @ v)"
              by (simp only: one many append.simps append_assoc list.inject)
            from repr_string_prefix_code [OF this] show ?thesis by simp
          qed
        qed
        with True xs ys show ?thesis by auto
      next
        case False
        then obtain x2 xs2 y2 ys2 where two: "xs' = x2 # xs2" "ys' = y2 # ys2" by (metis neq_Nil_conv)
        have "py_join '', '' (map repr_string xs) @ CHR '')'' # u = py_join '', '' (map repr_string ys) @ CHR '')'' # v"
          using assms xs ys two by (simp add: rstrs_repr)
        from repr_items_prefix_code [OF _ _ this] xs ys show ?thesis by simp
      qed
    qed
  qed
qed

lemma command_repr_inj:
  assumes "py_repr (RTuple [RStr a, RStr b, RStr c, rstrs xs]) = py_repr (RTuple [RStr a', RStr b', RStr c', rstrs ys])"
  shows "a = a' \<and> b = b' \<and> c = c' \<and> xs = ys"
proof -
  have r: "py_repr (RTuple [RStr a, RStr b, RStr c, rstrs xs]) = CHR ''('' # repr_string a @ ('', '' @ repr_string b @
      ('', '' @ repr_string c @ ('', '' @ py_repr (rstrs xs) @ '')'')))" for a b c xs by simp
  from assms have "repr_string a @ ('', '' @ repr_string b @ ('', '' @ repr_string c @ ('', '' @ py_repr (rstrs xs) @ '')''))) =
      repr_string a' @ ('', '' @ repr_string b' @ ('', '' @ repr_string c' @ ('', '' @ py_repr (rstrs ys) @ '')'')))"
    unfolding r by simp
  from repr_string_prefix_code [OF this] have a: "a = a'" and 1: "repr_string b @ ('', '' @ repr_string c @ ('', '' @ py_repr (rstrs xs) @ '')'')) =
      repr_string b' @ ('', '' @ repr_string c' @ ('', '' @ py_repr (rstrs ys) @ '')''))" by simp_all
  from repr_string_prefix_code [OF 1] have b: "b = b'" and 2: "repr_string c @ ('', '' @ py_repr (rstrs xs) @ '')'') =
      repr_string c' @ ('', '' @ py_repr (rstrs ys) @ '')'')" by simp_all
  from repr_string_prefix_code [OF 2] have c: "c = c'" and 3: "py_repr (rstrs xs) @ '')'' = py_repr (rstrs ys) @ '')''"
    by simp_all
  from rstrs_prefix_code [OF 3] a b c show ?thesis by simp
qed

text \<open>The key under which a verdict is kept determines what was run: the scope, the mode, the task,
  its command and its tests.\<close>

lemma run_key_identifies:
  assumes "inj sha"
    and "run_cache_key sha profile scope namespace task tests = Inr key"
    and "run_cache_key sha profile' scope' namespace' task' tests' = Inr key"
  shows "scope = (scope' :: run_scope) \<and> namespace = namespace' \<and> task = task' \<and> tests = tests' \<and>
    command_for profile task = command_for profile' task'"
proof -
  have key: "\<exists>command. command_for p t = Inr command \<and> vk_worktree_id key = rs_worktree_id s \<and>
      vk_head key = rs_head s \<and> vk_diff_hash key = rs_diff_hash s \<and> vk_env key = rs_env s \<and>
      vk_dependency key = rs_dependency s \<and>
      vk_command key = sha (py_repr (RTuple [RStr n, RStr t, RStr command, rstrs ts]))"
    if "run_cache_key sha p s n t ts = Inr key" for p n t ts and s :: run_scope
    using that by (auto simp: run_cache_key_def result_simps dest!: key_checked_Inr split: if_splits)
  from key [OF assms(2)] key [OF assms(3)] obtain c c' where c: "command_for profile task = Inr c"
    "command_for profile' task' = Inr c'"
    and hashes: "sha (py_repr (RTuple [RStr namespace, RStr task, RStr c, rstrs tests])) =
      sha (py_repr (RTuple [RStr namespace', RStr task', RStr c', rstrs tests']))"
    and scope: "rs_worktree_id scope = rs_worktree_id scope'" "rs_head scope = rs_head scope'"
      "rs_diff_hash scope = rs_diff_hash scope'" "rs_env scope = rs_env scope'"
      "rs_dependency scope = rs_dependency scope'"
    by metis
  from command_repr_inj [OF injD [OF assms(1) hashes]] c scope show ?thesis by simp
qed

lemma normalize_statuses:
  "normalize_verification_result task code out duration expired = Inr r \<Longrightarrow>
     vr_status r \<in> set (''skipped'' # cache_statuses)"
  by (cases expired) (auto simp: normalize_verification_result_def result_simps cache_statuses_def
    split: if_splits prod.splits)

lemma produced_statuses: "snd ` produced sha profile runner scope \<subseteq> set (''skipped'' # cache_statuses)"
proof -
  have "vr_status r \<in> set (''skipped'' # cache_statuses)" if "result_of_raw task raw = Inr r" for task raw r
    using that normalize_statuses by (cases raw) (auto simp: result_of_raw_def)
  then show ?thesis unfolding produced_def by force
qed

section \<open>An example run\<close>

definition example_scope :: run_scope where
  "example_scope = \<lparr>rs_worktree_id = ''tree'', rs_head = replicate 40 (CHR ''0''), rs_diff_hash = hex_of_1,
     rs_env = hex_of_1, rs_dependency = hex_of_1\<rparr>"

definition example_runner :: "string \<Rightarrow> string list \<Rightarrow> pyval" where
  "example_runner task tests = PDict [(''exit_code'', PInt 0), (''output'', PStr ''ok''), (''duration_ms'', PInt 5)]"

definition example_result :: verification_result where
  "example_result = \<lparr>vr_task = ''test'', vr_status = ''passed'', vr_exit_code = Some 0, vr_duration_ms = 5,
     vr_output = ''ok'', vr_output_truncated = False\<rparr>"

definition run_sha :: "string \<Rightarrow> string" where
  "run_sha = swap_digest (py_repr (RTuple [RStr ''fast'', RStr ''test'', RStr ''pytest'', rstrs [''tests/test_b.py'']])) hex_of_1 \<circ>
     swap_digest (py_repr (RTuple [RStr ''test'', RStr ''passed'', RInt 0, RStr ''ok''])) (replicate 64 (CHR ''2''))"

lemma inj_run_sha: "inj run_sha"
  unfolding run_sha_def by (rule inj_compose) (auto simp: swap_digest_def inj_def)

lemma example_reprs:
  "py_repr (RTuple [RStr ''fast'', RStr ''test'', RStr ''pytest'', rstrs [''tests/test_b.py'']]) =
     ''('' @ [CHR 0x27] @ ''fast'' @ [CHR 0x27] @ '', '' @ [CHR 0x27] @ ''test'' @ [CHR 0x27] @ '', '' @
     [CHR 0x27] @ ''pytest'' @ [CHR 0x27] @ '', ('' @ [CHR 0x27] @ ''tests/test_b.py'' @ [CHR 0x27] @ '',))''"
  "py_repr (RTuple [RStr ''test'', RStr ''passed'', RInt 0, RStr ''ok'']) =
     ''('' @ [CHR 0x27] @ ''test'' @ [CHR 0x27] @ '', '' @ [CHR 0x27] @ ''passed'' @ [CHR 0x27] @ '', 0, '' @
     [CHR 0x27] @ ''ok'' @ [CHR 0x27] @ '')''"
  by code_simp+

lemma example_digests:
  "run_sha (py_repr (RTuple [RStr ''fast'', RStr ''test'', RStr ''pytest'', rstrs [''tests/test_b.py'']])) = hex_of_1"
  "run_sha (py_repr (RTuple [RStr ''test'', RStr ''passed'', RInt 0, RStr ''ok''])) = replicate 64 (CHR ''2'')"
  unfolding run_sha_def example_reprs by (simp_all add: swap_digest_def hex_of_1_def numeral_eq_Suc)

lemma example_checks:
  "isOk (cache_key_checked \<lparr>vk_worktree_id = ''tree'', vk_head = replicate 40 (CHR ''0''), vk_diff_hash = hex_of_1,
     vk_command = hex_of_1, vk_env = hex_of_1, vk_dependency = hex_of_1\<rparr>)"
  "put_checked [''pkg/a.py'', ''tests/test_b.py''] ''passed'' (replicate 64 (CHR ''2'')) ''ok'' =
     Inr [''pkg/a.py'', ''tests/test_b.py'']"
  "result_of_raw ''test'' (example_runner ''test'' [''tests/test_b.py'']) = Inr example_result"
  "relevant_for [''pkg/a.py''] [''tests/test_b.py''] = [''pkg/a.py'', ''tests/test_b.py'']"
  by code_simp+

lemma example_empty_get:
  "cache_get sha k (example_cache None) = (Inr None, (example_cache None)\<lparr>vc_reads := 3\<rparr>)"
  by (simp add: cache_get_def cache_trim_def cache_clock_def readS_def bindS_def updS_def retS_def Let_def
    example_cache_def store_call_def trim_store_def kept_entries_def fresh_entries_def overflow_keys_def store_simps)

lemma example_first_put:
  assumes "put_checked ps st rd sm = Inr qs"
  shows "\<exists>e t. cache_put sha k ps st rd sm ((example_cache None)\<lparr>vc_reads := 3\<rparr>) = (Inr e, t)"
  using assms
  by (simp add: cache_put_def checkS_eq cache_clock_def readS_def bindS_def updS_def retS_def example_cache_def
    store_call_def Let_def cache_trim_def trim_store_def)

lemma example_run:
  "\<exists>receipt t. verification_run run_sha example_profile example_runner [] ''fast'' ''task'' [''pkg/a.py''] example_index
      example_scope (example_cache None) = (Inr receipt, t) \<and> rx_status receipt = ''passed'' \<and>
     ts_tests (rx_selection receipt) = [''tests/test_b.py''] \<and> execution_free ''fast'' (rx_selection receipt) = False"
proof -
  let ?tests = "[''tests/test_b.py'']"
  obtain key where key: "run_cache_key run_sha example_profile example_scope ''fast'' ''test'' ?tests = Inr key"
    using example_checks(1) example_digests(1)
    by (auto simp: run_cache_key_def command_for_def example_profile_def example_scope_def isOk_Ex)
  have digest: "result_digest run_sha ''test'' example_result = replicate 64 (CHR ''2'')"
    unfolding result_digest_def example_result_def
    by (simp only: verification_result.simps option.case example_digests(2))
  obtain e t where put: "cache_put run_sha key [''pkg/a.py'', ''tests/test_b.py''] ''passed''
      (result_digest run_sha ''test'' example_result) ''ok'' ((example_cache None)\<lparr>vc_reads := 3\<rparr>) = (Inr e, t)"
    using example_first_put [OF example_checks(2), of run_sha key] unfolding digest by blast
  have cached: "cached_result run_sha example_profile example_scope ''fast'' ''test'' ?tests (example_cache None) =
      (Inr None, (example_cache None)\<lparr>vc_reads := 3\<rparr>)"
    by (simp add: cached_result_def checkS_eq key bindS_def from_cache_def example_empty_get retS_def)
  have status: "vr_status example_result = ''passed''" "take 2048 (vr_output example_result) = ''ok''"
    by (simp_all add: example_result_def)
  have one: "execute_one run_sha example_profile example_runner example_scope True ''fast'' ''test'' ?tests
      [''pkg/a.py'', ''tests/test_b.py''] (example_cache None) =
      (Inr (run_output ''test'' ?tests True example_result), t)"
    by (simp add: execute_one_def checkS_eq key bindS_def cached example_checks(3) status cache_statuses_def
      from_cache_def put retS_def)
  have conf: "test_configured example_profile" by code_simp
  show ?thesis
    by (simp add: verification_run_def example_select(1) checkS_eq run_results_def fast_results_def bindS_def
      execution_free_def conf example_checks(4) one retS_def run_status_def results_status_def run_output_def
      status Let_def)
qed

lemma passed_run_is_backed_witness:
  "\<exists>receipt :: run_receipt. rx_status receipt = ''passed'' \<and>
     covers_runs (\<lambda>(task, tests) r. rr_task r = task \<and> rr_selected_tests r = tests \<and> rr_status r = ''passed'' \<and>
         result_backed run_sha example_profile example_scope
           (produced run_sha example_profile example_runner example_scope) ''fast'' r)
       [(''test'', [''tests/test_b.py''])] (rx_results receipt)"
proof -
  let ?runs = "produced run_sha example_profile example_runner example_scope"
  obtain receipt t where run: "verification_run run_sha example_profile example_runner [] ''fast'' ''task''
      [''pkg/a.py''] example_index example_scope (example_cache None) = (Inr receipt, t)"
    and ok: "rx_status receipt = ''passed''" "ts_tests (rx_selection receipt) = [''tests/test_b.py'']"
      "\<not> execution_free ''fast'' (rx_selection receipt)" using example_run by auto
  have "entries_backed ?runs (example_cache None)" by (simp add: entries_backed_def example_cache_def)
  moreover have "snd ` ?runs \<subseteq> set (''skipped'' # cache_statuses)" by (rule produced_statuses)
  ultimately have "covers_runs (\<lambda>(task, tests) r. rr_task r = task \<and> rr_selected_tests r = tests \<and>
      rr_status r = ''passed'' \<and> result_backed run_sha example_profile example_scope ?runs ''fast'' r)
    (required_runs ''fast'' (rx_selection receipt) example_profile []) (rx_results receipt)"
    using passed_run_is_backed [OF inj_run_sha subset_refl _ _ run] ok(1) by blast
  moreover have "required_runs ''fast'' (rx_selection receipt) example_profile [] = [(''test'', [''tests/test_b.py''])]"
    using ok by (simp add: required_runs_def)
  ultimately show ?thesis using ok(1) by - (intro exI [of _ receipt] conjI, simp_all)
qed

section \<open>Plans that are executed\<close>

text \<open>
  \<open>execute\<close> returns a receipt only behind both gates and for an eligible plan, and a receipt that
  passed means that the runner was called for every task of the plan with its command and that
  none of the answers failed, timed out or was skipped.
\<close>

theorem executed_plan_passed:
  assumes "execute_plan sha utc_now profile runner plan isolated_workspace allow_execution = Inr receipt"
  shows "isolated_workspace \<and> allow_execution \<and> vp_eligible plan \<and>
    (\<exists>run. runner = Some run \<and> (vt_status receipt = ''passed'' \<longrightarrow>
      (\<forall>task\<in>set (vp_tasks plan). \<exists>command r. command_for profile task = Inr command \<and>
        result_of_raw task (run task command) = Inr r \<and> vr_status r \<notin> {''failed'', ''timed_out'', ''skipped''})))"
proof -
  from assms obtain run where gates: "isolated_workspace" "allow_execution" "vp_eligible plan" "runner = Some run"
    by (auto simp: execute_plan_def split: if_splits option.splits)
  from assms gates obtain results where results: "mapE (\<lambda>task. bindE (mapError VerifyProfile (command_for profile task))
        (\<lambda>command. result_of_raw task (run task command))) (vp_tasks plan) = Inr results"
    and receipt: "record_receipt sha utc_now profile plan results ''unknown'' [] None [] = Inr receipt"
    by (auto simp: execute_plan_def result_simps)
  have status: "vt_status receipt = receipt_status plan results"
    using receipt by (auto simp: record_receipt_def Let_def split: if_splits)
  have "\<exists>command r. command_for profile task = Inr command \<and> result_of_raw task (run task command) = Inr r \<and>
      vr_status r \<notin> {''failed'', ''timed_out'', ''skipped''}"
    if passed: "vt_status receipt = ''passed''" and task: "task \<in> set (vp_tasks plan)" for task
  proof -
    from mapE_Inr_in [OF results task] obtain r where r: "r \<in> set results"
      "bindE (mapError VerifyProfile (command_for profile task)) (\<lambda>command. result_of_raw task (run task command)) = Inr r"
      by blast
    from r(1) have "results \<noteq> []" by auto
    with passed status have "\<not> list_ex (\<lambda>r. vr_status r \<in> {''failed'', ''timed_out''}) results"
      "\<not> list_ex (\<lambda>r. vr_status r = ''skipped'') results"
      by (auto simp: receipt_status_def split: if_splits)
    with r show ?thesis by (auto simp: list_ex_iff result_simps)
  qed
  with gates show ?thesis by blast
qed

text \<open>
  A run is lost when its change touches many files: a result that is to be kept under more than 256
  relevant paths is refused by the cache after the runner has finished, and the run raises instead of
  returning it.
\<close>

theorem many_paths_lose_the_result:
  assumes "run_cache_key sha profile scope namespace task tests = Inr key"
    and "cached_result sha profile scope namespace task tests c = (Inr None, t)"
    and "result_of_raw task (runner task tests) = Inr r" "vr_status r \<in> set cache_statuses"
    and "mapE cache_path relevant = Inr ps" "256 < length ps"
  shows "execute_one sha profile runner scope True namespace task tests relevant c =
    (Inl (VerifyCache (CacheValueError ''relevant_paths are invalid'')), t)"
proof -
  have "put_checked relevant (vr_status r) (result_digest sha task r) (take 2048 (vr_output r)) =
      Inl (CacheValueError ''relevant_paths are invalid'')"
    using assms(5,6) by (auto simp: put_checked_def)
  then have "cache_put sha key relevant (vr_status r) (result_digest sha task r) (take 2048 (vr_output r)) t =
      (Inl (CacheValueError ''relevant_paths are invalid''), t)" by (rule refused_call_state)
  with assms(1-4) show ?thesis
    by (simp add: execute_one_def checkS_eq bindS_def from_cache_def)
qed

lemma many_paths_lose_the_result_witness:
  "execute_one run_sha example_profile example_runner example_scope True ''fast'' ''test'' [''tests/test_b.py'']
      (map (\<lambda>n. ''p'' @ replicate n (CHR ''a'')) [0..<300]) (example_cache None) =
    (Inl (VerifyCache (CacheValueError ''relevant_paths are invalid'')), (example_cache None)\<lparr>vc_reads := 3\<rparr>)"
proof -
  let ?tests = "[''tests/test_b.py'']"
  obtain key where key: "run_cache_key run_sha example_profile example_scope ''fast'' ''test'' ?tests = Inr key"
    using example_checks(1) example_digests(1)
    by (auto simp: run_cache_key_def command_for_def example_profile_def example_scope_def isOk_Ex)
  have cached: "cached_result run_sha example_profile example_scope ''fast'' ''test'' ?tests (example_cache None) =
      (Inr None, (example_cache None)\<lparr>vc_reads := 3\<rparr>)"
    by (simp add: cached_result_def checkS_eq key bindS_def from_cache_def example_empty_get retS_def)
  have paths: "mapE cache_path (map (\<lambda>n. ''p'' @ replicate n (CHR ''a'')) [0..<300]) =
      Inr (map (\<lambda>p. p) (map (\<lambda>n. ''p'' @ replicate n (CHR ''a'')) [0..<300]))"
  proof (rule mapE_all_Inr)
    fix p assume "p \<in> set (map (\<lambda>n. ''p'' @ replicate n (CHR ''a'')) [0..<300])"
    then obtain n where n: "n < 300" "p = CHR ''p'' # replicate n (CHR ''a'')" by auto
    have split: "py_split CHR ''/'' (replicate n (CHR ''a'')) = [replicate n (CHR ''a'')]" for n
      by (induction n) simp_all
    have "relative_parts p = [p]" using n(2) split [of n] by (simp add: relative_parts_def)
    then show "cache_path p = Inr p" using n by (auto simp: cache_path_def relative_posix_def)
  qed
  show ?thesis
    by (rule many_paths_lose_the_result [where runner = example_runner, OF key cached example_checks(3) _ paths])
      (simp_all add: example_result_def cache_statuses_def)
qed

end
