(* ===== verification/Spec2Isabelle.thy ===== *)
theory Spec2Isabelle
  imports Prelude PyRegex PyJson DependencyGraph DirectorText WriterLeases TaskLedger PatchPolicy ContextPack
    ParallelControl Orchestration DispatchPlan Dispatch DevelopmentLoop Approvals ExecutionRouter
    ControlPlane PlanManifest JsonReader PlanLedger LedgerHistory RequestLifecycle RequestRegistry
    GitHunks IntegrationQueue VerificationCache VerificationSelection VerificationEngine
begin

text \<open>
  Verification of the policy core of \<open>chatgpt-dev-mcp\<close>, a local control plane through which chat
  sessions plan, lease, patch, verify and deliver development work. All sources are under
  \<open>src/src/chatgpt_dev_mcp/\<close>; file names below are relative to it.

  \<^bold>\<open>The program.\<close> Tool calls of several sessions reach one server process. Before any effect the
  server asks the policy components modelled here: the input boundary validates every text, path
  and identifier; a plan is validated and split into tasks; the task ledger records each task;
  the dispatch controller lets a worker claim one; a writer lease gives it a scope of files that
  no other worker may write; a patch is checked before it is applied; approvals and grants decide
  whether an operation of a higher risk may run; the development loop drives a task through its
  verification gates; and the request registry makes a tool call happen at most once although its
  transport may be lost and retried.

  \<^bold>\<open>Theories and sources.\<close>
  \<^item> \<open>Prelude\<close>: Python values that arrive as \<open>object\<close>, results of fallible code, the step monad of
    stateful operations, dictionaries in insertion order, string methods, and the locales for the
    interfaces: keyed stores, overlapping path scopes, admission against conflicts, lifecycles.
  \<^item> \<open>PyRegex\<close>, \<open>PyJson\<close>: the part of \<open>re\<close> and of \<open>json.dumps\<close> that the sources use, the latter
    proved injective, also with \<open>ensure_ascii\<close> (in \<open>JsonReader\<close>).
  \<^item> \<open>DirectorText\<close>: the text, path, identifier and secret tests of \<open>director.py\<close>.
  \<^item> \<open>WriterLeases\<close>: \<open>WriterLease\<close> and \<open>WriterLeaseManager\<close> of \<open>director.py\<close>.
  \<^item> \<open>TaskLedger\<close>: \<open>TaskReceipt\<close> and \<open>TaskLedger\<close> of \<open>director.py\<close>.
  \<^item> \<open>PatchPolicy\<close>: \<open>evaluate_patch\<close> of \<open>director.py\<close> and \<open>_unified_to_apply_patch\<close> of \<open>server.py\<close>.
  \<^item> \<open>ContextPack\<close>: \<open>build_context_pack\<close> and \<open>UsageLedger\<close> of \<open>director.py\<close>.
  \<^item> \<open>DependencyGraph\<close>: the graph searches that three planners share; \<open>ParallelControl\<close>:
    \<open>director_parallel.py\<close> and the queue test of \<open>integration_queue.py\<close>; \<open>Orchestration\<close>:
    \<open>director_orchestration.py\<close>; \<open>DispatchPlan\<close> and \<open>Dispatch\<close>: \<open>DirectorDispatchController\<close> of
    \<open>director_dispatch.py\<close>, which runs the operations of \<open>TaskLedger\<close>.
  \<^item> \<open>DevelopmentLoop\<close>: \<open>development_loop.py\<close> and \<open>DirectorNextAction\<close> of \<open>director_dispatch.py\<close>.
  \<^item> \<open>Approvals\<close>: \<open>approval.py\<close> and \<open>approval_policy.py\<close>; \<open>ExecutionRouter\<close>: \<open>execution_router.py\<close>;
    \<open>ControlPlane\<close>: the package \<open>control_plane\<close>; \<open>PlanManifest\<close>: \<open>plan_manifest.py\<close>.
  \<^item> \<open>JsonReader\<close>: \<open>json.loads\<close>, proved to recover what \<open>PyJson\<close> writes. \<open>PlanLedger\<close> and
    \<open>LedgerHistory\<close>: \<open>plan_ledger.py\<close> over the four tables of \<open>persistence._migration_v13\<close>, its
    operations and its histories.
  \<^item> \<open>GitHunks\<close>: \<open>git_hunks.py\<close>; \<open>IntegrationQueue\<close>: \<open>session_diffs_compatible\<close> of
    \<open>integration_queue.py\<close>; \<open>VerificationCache\<close>: \<open>verification_cache.py\<close> and the statements of
    \<open>persistence.py\<close> on its table; \<open>VerificationSelection\<close>: \<open>director_profile.py\<close>,
    \<open>change_impact.py\<close> and \<open>selective_verification.py\<close>; \<open>VerificationEngine\<close>:
    \<open>director_verification.py\<close>, its plans, receipts and runs over the cache.
  \<^item> \<open>RequestLifecycle\<close>, \<open>RequestRegistry\<close>: \<open>request_lifecycle.py\<close>, its definitions and its proofs.

  \<^bold>\<open>How code becomes definitions.\<close> A class is a record, an enumeration a datatype, a validating
  constructor a function into an error or the record. A method is an operation of type
  \<open>'s \<Rightarrow> ('e + 'a) \<times> 's\<close>: it returns the result or the exception together with the state it leaves,
  so that an effect before a \<open>raise\<close> is visible. \<open>readS\<close> reads the state, \<open>updS\<close> changes it, \<open>checkS\<close>
  ends the operation when a validation fails, \<open>tryS\<close> is \<open>try\<close> and \<open>except\<close>. A method under a lock is
  one step. Dictionaries whose values carry their key are lists in insertion order (\<open>kget\<close>, \<open>kset\<close>,
  \<open>kpop\<close>), because eviction and iteration follow that order. An argument that the code checks with
  \<open>isinstance\<close> is a \<open>pyval\<close>, and each test a branch.

  \<^bold>\<open>Lemma groups.\<close> For each stateful component: an invariant of its states (no two leases in
  conflict, ids and requests distinct, at most one live request for an operation key, the store
  within its bound), that every operation keeps it, and what an operation leaves untouched. For
  leases and tasks also an abstract specification: each operation is a sequence of abstract steps,
  and the notifications that the persistence layer accepted determine the state; a change of a
  task's status, owner or evidence comes from a call that names the task and may make it. For the planners:
  the searches decide reachability and cycles, the loops end, the batches come after their
  dependencies and keep conflicting writers apart, and a claim respects concurrency, dependencies,
  resources and capabilities. For the plan ledger: every call refines a step on plans as values,
  stored plans advance and are never rewritten, and a ledger built by its own calls reads without
  corruption. For hunks: a selection holds exactly the requested hunks and reads as them again. For
  the verification cache: an answer is the last verdict under the same identity, and a restart from
  the table agrees with the running cache. For test selection: the tests are exactly those that depend
  on the change. For verification runs: a passed run rests on answers of the runner for all that its
  mode requires. For the loop: a ready loop has passed its gates in order, and every
  loop ends. For patches: every header line is reported with its operation and its
  path. For context packs: bounds in bytes of UTF-8. For validators: exactly what is accepted, round
  trips, and errors on every branch.

  \<^bold>\<open>Bounds and termination.\<close> Only the JSON reader has fuel, twice the length of its text plus one,
  and \<open>json_loads_text\<close> shows that this reads every text that the sources write. Every other loop of the code is a recursive function with a
  termination proof: worklist searches by the unseen keys and the length of the stack, the
  depth-first search by the keys not on its path, the topological sort by the edges left, the
  eviction loops by the length of the store, the batch search by the batches in use. Its measure
  needs no assumption on the input. Integers are Python's unbounded ones, so nothing wraps; the
  bounds of the code are hypotheses or branches as the code has them. The regular expressions are
  matched by structural recursion.

  \<^bold>\<open>Parameters.\<close> Code outside \<open>src/\<close> is an argument of the definitions that use it: the SHA-256 digest
  (\<open>sha\<close>, assumed injective only where fingerprints are compared), \<open>float.__repr__\<close>, clock readings,
  fresh identifiers, resolution of paths in the file system, what Git reports and does with an index,
  SQLite's rendering of a REAL as text, the persistence callback (\<open>persist\<close> is false where it
  raises), handlers, allocators, event sinks, process probes and the runner
  of verification tasks. The calls of a thread pool run in the order of their submission. A call reads its clock once, except
  in \<open>VerificationCache\<close>, where the clock is the sequence of its readings. Time and floating point numbers are rationals: finite, and
  without rounding. A character is a code point below 256; spaces, line breaks, word characters, the
  escapes of JSON and UTF-8, one byte below 128 and two above, are modelled for all of them, so bounds
  in bytes and bounds in characters differ. Only case mapping and Unicode normalisation are those of ASCII.

  \<^bold>\<open>Not modelled.\<close> The tool handlers of \<open>server.py\<close> and the modules under git, GitHub, browser, desktop,
  provisioning, activation and archives run subprocesses and change the file system; a model would
  stub what they are about. \<open>persistence.py\<close> is SQL over SQLite: the tables of the plan ledger and of
  the verification cache are modelled as lists of rows, on which SQLite is taken to carry out its
  statements; the other stores take it as a callback. The capability and tool surfaces are tables of JSON schemas.
  Interleavings inside a locked method, re-entrant callbacks and lock time-outs are not modelled,
  nor is the \<open>RecursionError\<close> of a depth-first search through a very deep graph, nor are the \<open>as_dict\<close> renderings of \<open>director_parallel.py\<close> and \<open>PatchDecision\<close>. The manifest lists
  every module with the reason.
\<close>

end
